(* ===== verification/Prelude.thy ===== *)
theory Prelude
  imports Main "HOL-Library.AList" "HOL-Library.List_Lexorder" "HOL-Library.Char_ord"
begin

text \<open>
  What every component of the development shares: the names of the model's basic
  types, the collections the component lemmas are declared into, generic facts on
  association lists and on first-failure loops, and the Go string operations the
  repository calls (byte strings, so a \<open>string\<close> is the list of the bytes of a Go
  string, and the lexicographic order on it is the order of \<open>sort.Strings\<close>).
\<close>

named_theorems go_defs \<open>definitions unfolded when a concrete input is evaluated\<close>
named_theorems frame_simps \<open>fields an operation leaves alone\<close>

type_synonym gostring = string

text \<open>Go's \<open>int64\<close> and \<open>time.Duration\<close>: integers with the wrap-around written out.\<close>

definition i64 :: "int \<Rightarrow> int" where
  "i64 x = (x + 2 ^ 63) mod 2 ^ 64 - 2 ^ 63"

lemma i64_id [simp]: "- (2 ^ 63) \<le> x \<Longrightarrow> x < 2 ^ 63 \<Longrightarrow> i64 x = x"
  by (simp add: i64_def)

lemma i64_range: "- (2 ^ 63) \<le> i64 x \<and> i64 x < 2 ^ 63"
  by (simp add: i64_def)

subsection \<open>Results\<close>

type_synonym ('e, 'a) result = "'e + 'a"

abbreviation is_ok :: "('e, 'a) result \<Rightarrow> bool" where
  "is_ok r \<equiv> \<not> isl r"

definition bind_res :: "('e, 'a) result \<Rightarrow> ('a \<Rightarrow> ('e, 'b) result) \<Rightarrow> ('e, 'b) result" where
  "bind_res r f = (case r of Inl e \<Rightarrow> Inl e | Inr x \<Rightarrow> f x)"

lemma bind_res_simps [simp]:
  "bind_res (Inl e) f = Inl e"
  "bind_res (Inr x) f = f x"
  by (simp_all add: bind_res_def)

lemma bind_res_Inr_iff: "bind_res r f = Inr y \<longleftrightarrow> (\<exists>x. r = Inr x \<and> f x = Inr y)"
  by (cases r) auto

text \<open>
  The loop \<open>for _, x := range xs { if err := f(x); err != nil { return err } }\<close>
  returns the error of the first element that has one.
\<close>

fun first_error :: "('a \<Rightarrow> 'e option) \<Rightarrow> 'a list \<Rightarrow> 'e option" where
  "first_error f [] = None"
| "first_error f (x # xs) = (case f x of Some e \<Rightarrow> Some e | None \<Rightarrow> first_error f xs)"

lemma first_error_None_iff: "first_error f xs = None \<longleftrightarrow> (\<forall>x\<in>set xs. f x = None)"
  by (induction xs) (auto split: option.splits)

lemma first_error_SomeD: "first_error f xs = Some e \<Longrightarrow> \<exists>x\<in>set xs. f x = Some e"
  by (induction xs) (auto split: option.splits)

lemma first_error_append:
  "first_error f (xs @ ys) = (case first_error f xs of Some e \<Rightarrow> Some e | None \<Rightarrow> first_error f ys)"
  by (induction xs) (auto split: option.splits)

subsection \<open>Go maps as association lists\<close>

text \<open>
  A Go map is an association list read by \<open>map_of\<close> and written by \<open>AList.update\<close>,
  which keeps its keys distinct. Where the code sorts the keys before it ranges over
  them, the model sorts the keys of the list.
\<close>

definition sorted_keys :: "('k::linorder \<times> 'v) list \<Rightarrow> 'k list" where
  "sorted_keys m = sort (remdups (map fst m))"

lemma set_sorted_keys [simp]: "set (sorted_keys m) = fst ` set m"
  by (simp add: sorted_keys_def)

lemma distinct_sorted_keys [simp]: "distinct (sorted_keys m)"
  by (simp add: sorted_keys_def)

lemma sorted_sorted_keys [simp]: "sorted (sorted_keys m)"
  by (simp add: sorted_keys_def)

lemma map_of_update [simp]: "map_of (AList.update k v m) = (map_of m)(k \<mapsto> v)"
  by (rule ext) (simp add: update_conv')

lemma distinct_update_keys [intro]:
  "distinct (map fst m) \<Longrightarrow> distinct (map fst (AList.update k v m))"
  by (rule distinct_update)

lemma map_of_eq_None_keys: "map_of m k = None \<longleftrightarrow> k \<notin> fst ` set m"
  by (rule map_of_eq_None_iff)

lemma fst_set_update [simp]: "fst ` set (AList.update k v m) = insert k (fst ` set m)"
  by (induction m) auto

lemma map_of_SomeD_key: "map_of m k = Some v \<Longrightarrow> k \<in> fst ` set m"
  by (force dest: map_of_SomeD)

lemma find_Some_member: "find P xs = Some x \<Longrightarrow> x \<in> set xs \<and> P x"
  by (induction xs) (auto split: if_splits)

subsection \<open>Go strings\<close>

text \<open>\<open>strings.HasPrefix\<close>, \<open>strings.CutPrefix\<close>, \<open>strings.TrimPrefix\<close>.\<close>

definition has_prefix :: "string \<Rightarrow> string \<Rightarrow> bool" where
  "has_prefix s p \<longleftrightarrow> take (length p) s = p"

definition trim_prefix :: "string \<Rightarrow> string \<Rightarrow> string" where
  "trim_prefix s p = (if has_prefix s p then drop (length p) s else s)"

lemma has_prefix_iff: "has_prefix s p \<longleftrightarrow> (\<exists>r. s = p @ r)"
proof
  assume "has_prefix s p"
  then have "s = p @ drop (length p) s"
    by (metis append_take_drop_id has_prefix_def)
  then show "\<exists>r. s = p @ r" by blast
next
  assume "\<exists>r. s = p @ r"
  then show "has_prefix s p" by (auto simp: has_prefix_def)
qed

lemma has_prefix_refl [simp]: "has_prefix s s"
  by (simp add: has_prefix_def)

lemma has_prefix_append [simp]: "has_prefix (p @ r) p"
  by (simp add: has_prefix_def)

text \<open>
  \<open>strings.Split(s, sep)\<close> for a one-byte separator: the pieces between the separators,
  so one piece more than there are separators.
\<close>

fun split_on :: "char \<Rightarrow> string \<Rightarrow> string list" where
  "split_on c [] = [[]]"
| "split_on c (x # xs) =
     (if x = c then [] # split_on c xs
      else (case split_on c xs of p # ps \<Rightarrow> (x # p) # ps | [] \<Rightarrow> [[x]]))"

lemma split_on_nonempty [simp]: "split_on c s \<noteq> []"
  by (induction s) (auto split: list.splits)

lemma split_on_no_sep: "p \<in> set (split_on c s) \<Longrightarrow> c \<notin> set p"
  by (induction s arbitrary: p) (auto split: if_splits list.splits)

text \<open>\<open>strings.Cut(s, sep)\<close> for a one-byte separator: before, after, found.\<close>

fun cut_on :: "char \<Rightarrow> string \<Rightarrow> string \<times> string \<times> bool" where
  "cut_on c [] = ([], [], False)"
| "cut_on c (x # xs) =
     (if x = c then ([], xs, True)
      else (case cut_on c xs of (b, a, f) \<Rightarrow> (x # b, a, f)))"

definition join_with :: "string \<Rightarrow> string list \<Rightarrow> string" where
  "join_with sep xs = concat (case xs of [] \<Rightarrow> [] | y # ys \<Rightarrow> y # map (\<lambda>z. sep @ z) ys)"

subsection \<open>UTF-8\<close>

text \<open>
  \<open>utf8.DecodeRune\<close>: the next code point and its width; an invalid sequence is
  \<open>U+FFFD\<close> of width one. \<open>Some (r, w, ok)\<close> with \<open>ok\<close> false marks the invalid case,
  which Go tells from a literal \<open>U+FFFD\<close> by its width.
\<close>

definition byte_of :: "char \<Rightarrow> nat" where
  "byte_of c = of_char c"

definition is_cont :: "nat \<Rightarrow> bool" where
  "is_cont b \<longleftrightarrow> 128 \<le> b \<and> b \<le> 191"

definition rune2 :: "nat \<Rightarrow> nat \<Rightarrow> nat option" where
  "rune2 a b = (if 194 \<le> a \<and> a \<le> 223 \<and> is_cont b
     then Some ((a - 192) * 64 + (b - 128)) else None)"

definition rune3 :: "nat \<Rightarrow> nat \<Rightarrow> nat \<Rightarrow> nat option" where
  "rune3 a b c = (if 224 \<le> a \<and> a \<le> 239 \<and> is_cont b \<and> is_cont c
       \<and> (a = 224 \<longrightarrow> 160 \<le> b) \<and> (a = 237 \<longrightarrow> b \<le> 159)
     then Some ((a - 224) * 4096 + (b - 128) * 64 + (c - 128)) else None)"

definition rune4 :: "nat \<Rightarrow> nat \<Rightarrow> nat \<Rightarrow> nat \<Rightarrow> nat option" where
  "rune4 a b c d = (if 240 \<le> a \<and> a \<le> 244 \<and> is_cont b \<and> is_cont c \<and> is_cont d
       \<and> (a = 240 \<longrightarrow> 144 \<le> b) \<and> (a = 244 \<longrightarrow> b \<le> 143)
     then Some ((a - 240) * 262144 + (b - 128) * 4096 + (c - 128) * 64 + (d - 128)) else None)"

text \<open>One decoding step on a non-empty string: the code point (None when invalid) and the width.\<close>

fun decode_rune :: "string \<Rightarrow> nat option \<times> nat" where
  "decode_rune [] = (None, 0)"
| "decode_rune (a # s) =
     (let a' = byte_of a; bs = map byte_of (take 3 s) in
      if a' < 128 then (Some a', 1)
      else if length bs \<ge> 1 \<and> rune2 a' (bs ! 0) \<noteq> None then (rune2 a' (bs ! 0), 2)
      else if length bs \<ge> 2 \<and> rune3 a' (bs ! 0) (bs ! 1) \<noteq> None then (rune3 a' (bs ! 0) (bs ! 1), 3)
      else if length bs \<ge> 3 \<and> rune4 a' (bs ! 0) (bs ! 1) (bs ! 2) \<noteq> None
        then (rune4 a' (bs ! 0) (bs ! 1) (bs ! 2), 4)
      else (None, 1))"

lemma decode_rune_width: "s \<noteq> [] \<Longrightarrow> 0 < snd (decode_rune s)"
  by (cases s) (auto simp: Let_def)

text \<open>Ranging over a string: the code points with the bytes that spell them.\<close>

function runes :: "string \<Rightarrow> (nat option \<times> string) list" where
  "runes s = (if s = [] then []
     else (fst (decode_rune s), take (snd (decode_rune s)) s) # runes (drop (snd (decode_rune s)) s))"
  by pat_completeness auto
termination
  by (relation "measure length") (auto simp: decode_rune_width)

declare runes.simps [simp del]

lemma runes_Nil [simp]: "runes [] = []"
  by (simp add: runes.simps)

lemma concat_runes: "concat (map snd (runes s)) = s"
proof (induction s rule: runes.induct)
  case (1 s)
  then show ?case
    by (cases "s = []") (simp_all add: runes.simps [of s])
qed

lemma runes_ascii_Cons: "byte_of c < 128 \<Longrightarrow> runes (c # s) = (Some (byte_of c), [c]) # runes s"
  by (subst runes.simps) (simp add: Let_def)

text \<open>\<open>utf8.ValidString\<close>.\<close>

definition utf8_valid :: "string \<Rightarrow> bool" where
  "utf8_valid s \<longleftrightarrow> list_all (\<lambda>(r, _). r \<noteq> None) (runes s)"

text \<open>\<open>unicode.IsSpace\<close> and \<open>unicode.IsControl\<close> (categories White_Space and Cc).\<close>

definition is_space :: "nat \<Rightarrow> bool" where
  "is_space r \<longleftrightarrow> (9 \<le> r \<and> r \<le> 13) \<or> r = 32 \<or> r = 133 \<or> r = 160 \<or> r = 5760
     \<or> (8192 \<le> r \<and> r \<le> 8202) \<or> r = 8232 \<or> r = 8233 \<or> r = 8239 \<or> r = 8287 \<or> r = 12288"

definition is_control :: "nat \<Rightarrow> bool" where
  "is_control r \<longleftrightarrow> r < 32 \<or> (127 \<le> r \<and> r \<le> 159)"

definition rune_space :: "nat option \<times> string \<Rightarrow> bool" where
  "rune_space x = (case fst x of Some r \<Rightarrow> is_space r | None \<Rightarrow> False)"

text \<open>\<open>strings.TrimSpace\<close>.\<close>

definition trim_space :: "string \<Rightarrow> string" where
  "trim_space s =
     concat (map snd (rev (dropWhile rune_space (rev (dropWhile rune_space (runes s))))))"

lemma trim_space_Nil [simp]: "trim_space [] = []"
  by (simp add: trim_space_def)

definition is_lower :: "char \<Rightarrow> bool" where
  "is_lower c \<longleftrightarrow> CHR ''a'' \<le> c \<and> c \<le> CHR ''z''"

definition is_upper :: "char \<Rightarrow> bool" where
  "is_upper c \<longleftrightarrow> CHR ''A'' \<le> c \<and> c \<le> CHR ''Z''"

definition is_digit :: "char \<Rightarrow> bool" where
  "is_digit c \<longleftrightarrow> CHR ''0'' \<le> c \<and> c \<le> CHR ''9''"

lemmas char_class_defs [go_defs] = is_lower_def is_upper_def is_digit_def

end
