(* ===== verification/Go_Errors.thy ===== *)
theory Go_Errors
  imports Prelude
begin

text \<open>
  The error values of the repository: package \<open>apperr\<close> (apperr/apperr.go, apperr/problem.go)
  and the \<open>errors\<close>/\<open>fmt\<close> constructors around it. An error is one of
  \<^item> \<open>Leaf m\<close>: \<open>errors.New\<close>, or \<open>fmt.Errorf\<close> without a wrapped error. The text of a
    message that the repository writes in Chinese is represented by an ASCII label;
  \<^item> \<open>Wrap m e\<close>: \<open>fmt.Errorf\<close> with \<open>%w\<close>;
  \<^item> \<open>Joined es\<close>: \<open>errors.Join\<close> of at least one non-nil error;
  \<^item> \<open>AppErr code status message details cause\<close>: \<open>*apperr.Error\<close>.
  A Go \<open>error\<close> result that may be nil is a \<open>gerr option\<close>.
\<close>

datatype dval = DStr string | DInt int

datatype gerr =
    Leaf string
  | Wrap string gerr
  | Joined "gerr list"
  | AppErr (ecode: string) (estatus: int) (emessage: string)
      (edetails: "(string \<times> dval) list") (ecause: "gerr option")

fun is_app :: "gerr \<Rightarrow> bool" where
  "is_app (AppErr c s m d x) = True"
| "is_app _ = False"

text \<open>\<open>errors.AsType[*Error]\<close>: the first \<open>*apperr.Error\<close> of the chain, depth first.\<close>

fun as_app :: "gerr \<Rightarrow> gerr option"
  and as_app_list :: "gerr list \<Rightarrow> gerr option" where
  "as_app (Leaf m) = None"
| "as_app (Wrap m e) = as_app e"
| "as_app (Joined es) = as_app_list es"
| "as_app (AppErr c s m d x) = Some (AppErr c s m d x)"
| "as_app_list [] = None"
| "as_app_list (e # es) = (case as_app e of Some a \<Rightarrow> Some a | None \<Rightarrow> as_app_list es)"

text \<open>
  \<open>errors.Is\<close> against a sentinel made by \<open>errors.New\<close> (\<open>context.Canceled\<close>,
  \<open>pgx.ErrNoRows\<close>, ...): a sentinel is a pointer, its label stands for its identity.
  \<open>*apperr.Error\<close> unwraps to its cause.
\<close>

fun err_is :: "string \<Rightarrow> gerr \<Rightarrow> bool"
  and err_is_list :: "string \<Rightarrow> gerr list \<Rightarrow> bool" where
  "err_is t (Leaf m) = (m = t)"
| "err_is t (Wrap m e) = err_is t e"
| "err_is t (Joined es) = err_is_list t es"
| "err_is t (AppErr c s m d x) = (case x of None \<Rightarrow> False | Some e \<Rightarrow> err_is t e)"
| "err_is_list t [] = False"
| "err_is_list t (e # es) = (err_is t e \<or> err_is_list t es)"

definition ctx_canceled :: string where "ctx_canceled = ''context canceled''"
definition ctx_deadline :: string where "ctx_deadline = ''context deadline exceeded''"

text \<open>\<open>errors.Join\<close> drops nil errors and is nil when nothing is left.\<close>

definition errors_join :: "gerr option list \<Rightarrow> gerr option" where
  "errors_join es = (case List.map_filter id es of [] \<Rightarrow> None | xs \<Rightarrow> Some (Joined xs))"

subsection \<open>apperr.go\<close>

definition CodeInternal :: string where "CodeInternal = ''INTERNAL''"
definition CodeInvalidArgument :: string where "CodeInvalidArgument = ''INVALID_ARGUMENT''"
definition CodeNotFound :: string where "CodeNotFound = ''NOT_FOUND''"
definition CodeConflict :: string where "CodeConflict = ''CONFLICT''"
definition CodeUnauthenticated :: string where "CodeUnauthenticated = ''UNAUTHENTICATED''"
definition CodePermissionDenied :: string where "CodePermissionDenied = ''PERMISSION_DENIED''"
definition CodeUnavailable :: string where "CodeUnavailable = ''UNAVAILABLE''"
definition CodeTxBoundary :: string where "CodeTxBoundary = ''TX_BOUNDARY''"
definition CodeIdempotency :: string where "CodeIdempotency = ''IDEMPOTENCY_CONFLICT''"
definition CodeIdempotencyResultUnavailable :: string where
  "CodeIdempotencyResultUnavailable = ''IDEMPOTENCY_RESULT_UNAVAILABLE''"
definition CodeMigrationDrift :: string where "CodeMigrationDrift = ''MIGRATION_DRIFT''"
definition CodeStepUpRequired :: string where "CodeStepUpRequired = ''STEP_UP_REQUIRED''"

lemmas code_defs [go_defs] = CodeInternal_def CodeInvalidArgument_def CodeNotFound_def
  CodeConflict_def CodeUnauthenticated_def CodePermissionDenied_def CodeUnavailable_def
  CodeTxBoundary_def CodeIdempotency_def CodeIdempotencyResultUnavailable_def
  CodeMigrationDrift_def CodeStepUpRequired_def

definition New :: "string \<Rightarrow> int \<Rightarrow> string \<Rightarrow> gerr" where
  "New code status message = AppErr code status message [] None"

fun with_message :: "string \<Rightarrow> gerr \<Rightarrow> gerr" where
  "with_message msg (AppErr c s m d x) = AppErr c s msg d x"
| "with_message msg e = e"

fun with_detail :: "string \<Rightarrow> dval \<Rightarrow> gerr \<Rightarrow> gerr" where
  "with_detail k v (AppErr c s m d x) = AppErr c s m (AList.update k v d) x"
| "with_detail k v e = e"

fun with_cause :: "gerr option \<Rightarrow> gerr \<Rightarrow> gerr" where
  "with_cause x (AppErr c s m d _) = AppErr c s m d x"
| "with_cause x e = e"

text \<open>Method \<open>(e *Error) Is(target)\<close> and function \<open>Is(err, code)\<close>.\<close>

definition error_Is :: "gerr \<Rightarrow> gerr \<Rightarrow> bool" where
  "error_Is e target = (case as_app target of Some t \<Rightarrow> ecode e = ecode t | None \<Rightarrow> False)"

definition app_is :: "gerr \<Rightarrow> string \<Rightarrow> bool" where
  "app_is err code = (case as_app err of Some e \<Rightarrow> ecode e = code | None \<Rightarrow> False)"

definition From :: "gerr option \<Rightarrow> gerr option" where
  "From err = (case err of
     None \<Rightarrow> None
   | Some e \<Rightarrow> (case as_app e of
       Some a \<Rightarrow> Some a
     | None \<Rightarrow> Some (with_cause (Some e) (New CodeInternal 500 ''internal error''))))"

definition from_err :: "gerr \<Rightarrow> gerr" where
  "from_err e = (case as_app e of
     Some a \<Rightarrow> a
   | None \<Rightarrow> with_cause (Some e) (New CodeInternal 500 ''internal error''))"

definition Internal :: "gerr option \<Rightarrow> gerr" where
  "Internal cause = with_cause cause (New CodeInternal 500 ''internal error'')"
definition InvalidArgument :: "string \<Rightarrow> gerr" where
  "InvalidArgument m = New CodeInvalidArgument 422 m"
definition NotFound :: "string \<Rightarrow> gerr" where
  "NotFound m = New CodeNotFound 404 m"
definition Conflict :: "string \<Rightarrow> gerr" where
  "Conflict m = New CodeConflict 409 m"
definition Unavailable :: "gerr option \<Rightarrow> gerr" where
  "Unavailable cause = with_cause cause (New CodeUnavailable 503 ''dependency unavailable'')"
definition Unauthenticated :: "string \<Rightarrow> gerr" where
  "Unauthenticated m = New CodeUnauthenticated 401 m"
definition PermissionDenied :: "string \<Rightarrow> gerr" where
  "PermissionDenied m = New CodePermissionDenied 403 m"
definition StepUpRequired :: "string \<Rightarrow> gerr" where
  "StepUpRequired m = New CodeStepUpRequired 403 m"

lemmas ctor_defs [go_defs] = New_def Internal_def InvalidArgument_def NotFound_def Conflict_def
  Unavailable_def Unauthenticated_def PermissionDenied_def StepUpRequired_def

subsection \<open>problem.go\<close>

text \<open>
  The RFC 9457 body. \<open>http.StatusText\<close> is the standard library's table; only its value
  for the statuses the framework uses matters here, so it is a parameter \<open>stext\<close>.
\<close>

record problem =
  p_title :: string
  p_status :: int
  p_detail :: string
  p_code :: string
  p_details :: "(string \<times> dval) list"

definition to_problem :: "(int \<Rightarrow> string) \<Rightarrow> gerr \<Rightarrow> problem" where
  "to_problem stext e = \<lparr>p_title = stext (estatus e), p_status = estatus e,
     p_detail = emessage e, p_code = ecode e, p_details = edetails e\<rparr>"

record http_response =
  r_status :: int
  r_headers :: "(string \<times> string list) list"
  r_problem :: "problem option"
  r_body :: string

definition write_problem :: "(int \<Rightarrow> string) \<Rightarrow> gerr \<Rightarrow> http_response" where
  "write_problem stext err = (let p = to_problem stext (from_err err) in
     \<lparr>r_status = p_status p, r_headers = [(''Content-Type'', [''application/problem+json''])],
      r_problem = Some p, r_body = []\<rparr>)"

definition statusOr :: "int \<Rightarrow> int \<Rightarrow> int" where
  "statusOr v fallback = (if v \<noteq> 0 then v else fallback)"

text \<open>\<open>FromProblem\<close> on the decoded body: \<open>None\<close> when \<open>json.Unmarshal\<close> fails.\<close>

definition FromProblem :: "(int \<Rightarrow> string) \<Rightarrow> int \<Rightarrow> problem option \<Rightarrow> gerr" where
  "FromProblem stext status body = (case body of
     Some p \<Rightarrow>
       (if p_code p = [] then
          New (if status \<ge> 502 \<and> status \<le> 504 then CodeUnavailable else CodeInternal) status (stext status)
        else AppErr (p_code p) (statusOr (p_status p) status) (p_detail p) (p_details p) None)
   | None \<Rightarrow>
       New (if status \<ge> 502 \<and> status \<le> 504 then CodeUnavailable else CodeInternal) status (stext status))"

subsection \<open>Lemmas\<close>

lemma as_app_is_app: "as_app e = Some a \<Longrightarrow> is_app a"
  and as_app_list_is_app: "as_app_list es = Some a \<Longrightarrow> is_app a"
  by (induction e and es rule: as_app_as_app_list.induct) (auto split: option.splits)

lemma is_app_iff: "is_app e \<longleftrightarrow> (\<exists>c s m d x. e = AppErr c s m d x)"
  by (cases e) auto

lemma as_app_of_app [simp]: "is_app e \<Longrightarrow> as_app e = Some e"
  by (cases e) auto

lemma is_app_from_err [simp]: "is_app (from_err e)"
  by (auto simp: from_err_def New_def dest: as_app_is_app split: option.splits)

lemma from_err_app [simp]: "is_app e \<Longrightarrow> from_err e = e"
  by (simp add: from_err_def)

lemma from_err_idem [simp]: "from_err (from_err e) = from_err e"
  by simp

lemma From_Some [simp]: "From (Some e) = Some (from_err e)"
  by (simp add: From_def from_err_def split: option.splits)

lemma From_None [simp]: "From None = None"
  by (simp add: From_def)

lemma is_app_ctor [simp]:
  "is_app (New c s m)" "is_app (Internal x)" "is_app (InvalidArgument m)" "is_app (NotFound m)"
  "is_app (Conflict m)" "is_app (Unavailable x)" "is_app (Unauthenticated m)"
  "is_app (PermissionDenied m)" "is_app (StepUpRequired m)"
  by (simp_all add: ctor_defs)

lemma is_app_with [simp]:
  "is_app (with_message m e) = is_app e"
  "is_app (with_detail k v e) = is_app e"
  "is_app (with_cause x e) = is_app e"
  by (cases e; simp)+

lemma ecode_ctor [simp]:
  "ecode (New c s m) = c" "ecode (Internal x) = CodeInternal"
  "ecode (InvalidArgument m) = CodeInvalidArgument" "ecode (NotFound m) = CodeNotFound"
  "ecode (Conflict m) = CodeConflict" "ecode (Unavailable x) = CodeUnavailable"
  "ecode (Unauthenticated m) = CodeUnauthenticated"
  "ecode (PermissionDenied m) = CodePermissionDenied"
  "ecode (StepUpRequired m) = CodeStepUpRequired"
  by (simp_all add: ctor_defs)

lemma estatus_ctor [simp]:
  "estatus (New c s m) = s" "estatus (Internal x) = 500"
  "estatus (InvalidArgument m) = 422" "estatus (NotFound m) = 404"
  "estatus (Conflict m) = 409" "estatus (Unavailable x) = 503"
  "estatus (Unauthenticated m) = 401" "estatus (PermissionDenied m) = 403"
  "estatus (StepUpRequired m) = 403"
  by (simp_all add: ctor_defs)

lemma with_keeps_identity [simp]:
  "is_app e \<Longrightarrow> ecode (with_message m e) = ecode e"
  "is_app e \<Longrightarrow> ecode (with_detail k v e) = ecode e"
  "is_app e \<Longrightarrow> ecode (with_cause x e) = ecode e"
  "is_app e \<Longrightarrow> estatus (with_message m e) = estatus e"
  "is_app e \<Longrightarrow> estatus (with_detail k v e) = estatus e"
  "is_app e \<Longrightarrow> estatus (with_cause x e) = estatus e"
  by (cases e; simp)+

lemma app_is_from_err: "app_is e c \<Longrightarrow> ecode (from_err e) = c"
  by (auto simp: app_is_def from_err_def split: option.splits)

lemma app_is_app [simp]: "is_app e \<Longrightarrow> app_is e c \<longleftrightarrow> ecode e = c"
  by (simp add: app_is_def)

text \<open>
  The identity of an error is its code, and the code survives the network:
  whatever chain an error has, the error that \<open>FromProblem\<close> rebuilds from the body
  \<open>WriteProblem\<close> sent has the code, the status and the details of the error \<open>From\<close>
  picks in the process, and none of its cause.
\<close>

theorem problem_roundtrip:
  assumes code: "ecode (from_err err) \<noteq> []" and status: "estatus (from_err err) \<noteq> 0"
  shows "let e = from_err err; e' = FromProblem stext (r_status (write_problem stext err))
             (r_problem (write_problem stext err)) in
         (\<forall>c. app_is e' c \<longleftrightarrow> app_is e c) \<and> estatus e' = estatus e \<and>
         emessage e' = emessage e \<and> edetails e' = edetails e \<and> ecause e' = None"
  using assms by (simp add: write_problem_def to_problem_def FromProblem_def Let_def statusOr_def)

theorem problem_roundtrip_witness:
  "let err = Wrap ''read'' (with_detail ''key'' (DStr ''a'') (NotFound ''no such order''));
       e' = FromProblem (\<lambda>_. []) (r_status (write_problem (\<lambda>_. []) err))
              (r_problem (write_problem (\<lambda>_. []) err))
   in app_is e' ''NOT_FOUND'' \<and> estatus e' = 404"
  using problem_roundtrip [of "Wrap ''read'' (with_detail ''key'' (DStr ''a'') (NotFound ''no such order''))" "\<lambda>_. []"]
  by (simp add: Let_def from_err_def code_defs ctor_defs app_is_def)

end
