(* ===== verification/Call_Context.thy ===== *)
theory Call_Context
  imports Go_Errors
begin

text \<open>
  The request context and the contract boundary: packages \<open>callctx\<close>, \<open>tx\<close> and the unary
  \<open>Call\<close> of package \<open>contract\<close> (callctx/callctx.go, callctx/clientip.go, tx/tx.go,
  contract/contract.go). A \<open>context.Context\<close> is the record of the values the framework
  stores in one, with the deadline and the cancellation the standard library keeps. The
  span is the OpenTelemetry handle the firewall carries over; spans and metrics
  themselves are outside the model.
\<close>

subsection \<open>callctx: the metadata whitelist\<close>

record meta =
  RequestID :: string
  Partition :: string
  TenantID :: string
  Caller :: string

definition zero_meta :: meta where
  "zero_meta = \<lparr>RequestID = [], Partition = [], TenantID = [], Caller = []\<rparr>"

definition meta_is_zero :: "meta \<Rightarrow> bool" where
  "meta_is_zero m \<longleftrightarrow> m = zero_meta"

datatype ctx_err = CtxCanceled | CtxDeadlineExceeded

fun ctx_error :: "ctx_err \<Rightarrow> gerr" where
  "ctx_error CtxCanceled = Leaf ctx_canceled"
| "ctx_error CtxDeadlineExceeded = Leaf ctx_deadline"

text \<open>An actor (permission.go) and a verified service principal (security.go).\<close>

record actor =
  UserID :: string
  ActorTenant :: string
  Perms :: "string list"
  StepUpAt :: int

record principal =
  Subject :: string
  Issuer :: string
  Audience :: "string list"
  KeyID :: string
  IssuedAt :: int
  ExpiresAt :: int
  PrincipalTenant :: string
  MerchantID :: string

text \<open>
  A transaction handle (tx/tx.go holds an \<open>any\<close>): a \<open>pgx.Tx\<close> or something else. The scope
  is the private marker of package \<open>pgtx\<close>.
\<close>

datatype tx_handle = PgTx nat | ForeignTx nat

record transactionScope =
  sc_tenant :: bool
  sc_tenantID :: string
  sc_readAll :: bool
  sc_routed :: bool
  sc_schema :: string

text \<open>
  The values keyed in a context: \<open>None\<close> where no \<open>WithValue\<close> of that key is above.
  \<open>v_actor = Some None\<close> is the shadow \<open>clearActor\<close> leaves.
\<close>

record ctx =
  v_meta :: "meta option"
  v_tx :: "tx_handle option"
  v_scope :: "(transactionScope \<times> tx_handle) option"
  v_readAll :: bool
  v_actor :: "actor option option"
  v_principal :: "principal option"
  v_expiry :: "int option"
  v_untrusted :: "(string \<times> string list) list"
  v_clientIP :: "string option"
  v_span :: nat
  c_err :: "ctx_err option"
  c_deadline :: "int option"

definition background :: ctx where
  "background = \<lparr>v_meta = None, v_tx = None, v_scope = None, v_readAll = False, v_actor = None,
     v_principal = None, v_expiry = None, v_untrusted = [], v_clientIP = None, v_span = 0,
     c_err = None, c_deadline = None\<rparr>"

definition ctx_with :: "ctx \<Rightarrow> meta \<Rightarrow> ctx" where
  "ctx_with c m = c\<lparr>v_meta := Some m\<rparr>"

definition ctx_from :: "ctx \<Rightarrow> meta" where
  "ctx_from c = (case v_meta c of Some m \<Rightarrow> m | None \<Rightarrow> zero_meta)"

definition ctx_merge :: "ctx \<Rightarrow> meta \<Rightarrow> ctx" where
  "ctx_merge c m = (let
     cur = ctx_from c;
     cur = (if RequestID m \<noteq> [] then cur\<lparr>RequestID := RequestID m\<rparr> else cur);
     cur = (if Partition m \<noteq> [] then cur\<lparr>Partition := Partition m\<rparr> else cur);
     cur = (if TenantID m \<noteq> [] then cur\<lparr>TenantID := TenantID m\<rparr> else cur);
     cur = (if Caller m \<noteq> [] then cur\<lparr>Caller := Caller m\<rparr> else cur)
   in ctx_with c cur)"

definition log_attrs :: "meta \<Rightarrow> (string \<times> string) list" where
  "log_attrs m =
     (if RequestID m \<noteq> [] then [(''request_id'', RequestID m)] else []) @
     (if Partition m \<noteq> [] then [(''partition'', Partition m)] else []) @
     (if TenantID m \<noteq> [] then [(''tenant_id'', TenantID m)] else []) @
     (if Caller m \<noteq> [] then [(''caller'', Caller m)] else [])"

definition HeaderRequestID :: string where "HeaderRequestID = ''X-Request-Id''"
definition HeaderPartition :: string where "HeaderPartition = ''X-Partition''"
definition HeaderTenantID :: string where "HeaderTenantID = ''X-Tenant-Id''"
definition HeaderCaller :: string where "HeaderCaller = ''X-Caller''"
definition KeyRequestID :: string where "KeyRequestID = ''appkit.request_id''"
definition KeyPartition :: string where "KeyPartition = ''appkit.partition''"
definition KeyTenantID :: string where "KeyTenantID = ''appkit.tenant_id''"
definition KeyCaller :: string where "KeyCaller = ''appkit.caller''"

lemmas header_defs [go_defs] = HeaderRequestID_def HeaderPartition_def HeaderTenantID_def
  HeaderCaller_def KeyRequestID_def KeyPartition_def KeyTenantID_def KeyCaller_def

definition setNonEmpty :: "string \<Rightarrow> string \<Rightarrow> (string \<times> string) list \<Rightarrow> (string \<times> string) list" where
  "setNonEmpty k v dst = (if v \<noteq> [] then AList.update k v dst else dst)"

text \<open>\<open>Inject\<close> with \<open>set = Header.Set\<close>, \<open>Extract\<close> with \<open>get = Header.Get\<close> (empty when absent).\<close>

definition Inject :: "meta \<Rightarrow> (string \<times> string) list \<Rightarrow> (string \<times> string) list" where
  "Inject m h = setNonEmpty HeaderCaller (Caller m) (setNonEmpty HeaderTenantID (TenantID m)
     (setNonEmpty HeaderPartition (Partition m) (setNonEmpty HeaderRequestID (RequestID m) h)))"

definition get_str :: "(string \<times> string) list \<Rightarrow> string \<Rightarrow> string" where
  "get_str h k = (case map_of h k of Some v \<Rightarrow> v | None \<Rightarrow> [])"

definition Extract :: "(string \<Rightarrow> string) \<Rightarrow> meta" where
  "Extract get = \<lparr>RequestID = get HeaderRequestID, Partition = get HeaderPartition,
     TenantID = get HeaderTenantID, Caller = get HeaderCaller\<rparr>"

text \<open>The headers \<open>Transport.RoundTrip\<close> sends, given the transport's own \<open>Caller\<close>.\<close>

definition RoundTrip_headers :: "string \<Rightarrow> ctx \<Rightarrow> (string \<times> string) list \<Rightarrow> (string \<times> string) list" where
  "RoundTrip_headers own c h = (let
     m = ctx_from c;
     m = (if own \<noteq> [] then m\<lparr>Caller := own\<rparr> else m)
   in if meta_is_zero m then h else Inject m h)"

text \<open>\<open>dst = None\<close> is Go's nil map.\<close>

definition ToMap :: "meta \<Rightarrow> (string \<times> string) list option \<Rightarrow> (string \<times> string) list option" where
  "ToMap m dst = (if meta_is_zero m then dst else
     (let d = (case dst of None \<Rightarrow> [] | Some d \<Rightarrow> d);
          d = setNonEmpty KeyRequestID (RequestID m) d;
          d = setNonEmpty KeyPartition (Partition m) d;
          d = setNonEmpty KeyTenantID (TenantID m) d;
          d = setNonEmpty KeyCaller (Caller m) d
      in Some d))"

definition FromMap :: "(string \<times> string) list option \<Rightarrow> meta" where
  "FromMap src = (let s = get_str (case src of None \<Rightarrow> [] | Some d \<Rightarrow> d) in
     \<lparr>RequestID = s KeyRequestID, Partition = s KeyPartition, TenantID = s KeyTenantID,
      Caller = s KeyCaller\<rparr>)"

definition WithClientIP :: "ctx \<Rightarrow> string \<Rightarrow> ctx" where
  "WithClientIP c ip = c\<lparr>v_clientIP := Some ip\<rparr>"

definition ClientIP :: "ctx \<Rightarrow> string option" where
  "ClientIP c = v_clientIP c"

subsection \<open>tx: the transaction handle in the context\<close>

definition tx_with :: "ctx \<Rightarrow> tx_handle \<Rightarrow> ctx" where
  "tx_with c h = c\<lparr>v_tx := Some h\<rparr>"

definition HasTx :: "ctx \<Rightarrow> bool" where
  "HasTx c \<longleftrightarrow> v_tx c \<noteq> None"

definition tx_strip :: "ctx \<Rightarrow> ctx" where
  "tx_strip c = (if \<not> HasTx c then c else c\<lparr>v_tx := None\<rparr>)"

definition WithReadAllTenants :: "ctx \<Rightarrow> ctx" where
  "WithReadAllTenants c = c\<lparr>v_readAll := True\<rparr>"

definition ReadsAllTenants :: "ctx \<Rightarrow> bool" where
  "ReadsAllTenants c = v_readAll c"

subsection \<open>contract: firewall and unary call\<close>

text \<open>
  \<open>firewalled.Value\<close> answers nil for every key, so every value is dropped; the span and a
  non-zero \<open>Meta\<close> are put back, and cancellation and deadline come from the parent.
\<close>

definition Firewall :: "ctx \<Rightarrow> ctx" where
  "Firewall c = (let f = background\<lparr>v_span := v_span c, c_err := c_err c, c_deadline := c_deadline c\<rparr>
     in if meta_is_zero (ctx_from c) then f else ctx_with f (ctx_from c))"

definition DefaultTimeout :: int where "DefaultTimeout = 5 * 10 ^ 9"

definition with_timeout :: "int \<Rightarrow> ctx \<Rightarrow> int \<Rightarrow> ctx" where
  "with_timeout now c t = (let d = now + t in
     c\<lparr>c_deadline := Some (case c_deadline c of Some d' \<Rightarrow> min d' d | None \<Rightarrow> d)\<rparr>)"

definition errTxBoundary :: gerr where
  "errTxBoundary = New CodeTxBoundary 500 ''no contract call inside a transaction''"

text \<open>\<open>normalize(ctx, err)\<close>, given the state of \<open>ctx\<close> when it is evaluated.\<close>

definition normalize :: "ctx_err option \<Rightarrow> gerr \<Rightarrow> gerr" where
  "normalize done err = (if done \<noteq> None then Unavailable (Some err) else from_err err)"

text \<open>
  \<open>Call\<close>. The callee gets the derived context and answers with its result and with what
  \<open>ctx.Err()\<close> is at that moment (the deadline may have passed meanwhile). The second
  component lists the contexts the callee was entered with.
\<close>

definition Call :: "int \<Rightarrow> ctx \<Rightarrow> string \<Rightarrow> string \<Rightarrow> int \<Rightarrow>
    (ctx \<Rightarrow> (gerr, 'a) result \<times> ctx_err option) \<Rightarrow> (gerr, 'a) result \<times> ctx list" where
  "Call now c system method timeout fn =
     (if HasTx c then
        (Inl (with_detail ''method'' (DStr method) (with_detail ''system'' (DStr system) errTxBoundary)), [])
      else (case c_err c of
        Some err \<Rightarrow>
          (Inl (with_detail ''method'' (DStr method) (with_detail ''system'' (DStr system)
             (Unavailable (Some (ctx_error err))))), [])
      | None \<Rightarrow>
          (let timeout = (if timeout \<le> 0 then DefaultTimeout else timeout);
               cctx = with_timeout now (Firewall c) timeout
           in (case fn cctx of
                 (Inl err, done) \<Rightarrow> (Inl (normalize done err), [cctx])
               | (Inr v, done) \<Rightarrow> (Inr v, [cctx])))))"

subsection \<open>Lemmas\<close>

lemma ctx_from_with [simp]: "ctx_from (ctx_with c m) = m"
  by (simp add: ctx_from_def ctx_with_def)

lemma get_str_setNonEmpty [simp]:
  "get_str (setNonEmpty k v d) k' = (if k = k' \<and> v \<noteq> [] then v else get_str d k')"
  by (simp add: setNonEmpty_def get_str_def)

lemma header_keys_distinct [simp]:
  "HeaderRequestID \<noteq> HeaderPartition" "HeaderRequestID \<noteq> HeaderTenantID"
  "HeaderRequestID \<noteq> HeaderCaller" "HeaderPartition \<noteq> HeaderTenantID"
  "HeaderPartition \<noteq> HeaderCaller" "HeaderTenantID \<noteq> HeaderCaller"
  "KeyRequestID \<noteq> KeyPartition" "KeyRequestID \<noteq> KeyTenantID" "KeyRequestID \<noteq> KeyCaller"
  "KeyPartition \<noteq> KeyTenantID" "KeyPartition \<noteq> KeyCaller" "KeyTenantID \<noteq> KeyCaller"
  by (simp_all add: header_defs)

lemmas header_keys_distinct' [simp] = header_keys_distinct [symmetric]

definition untouched_by_caller :: "(string \<times> string) list \<Rightarrow> bool" where
  "untouched_by_caller h \<longleftrightarrow> (\<forall>k \<in> {HeaderRequestID, HeaderPartition, HeaderTenantID, HeaderCaller}. get_str h k = [])"

lemma Extract_Inject: "untouched_by_caller h \<Longrightarrow> Extract (get_str (Inject m h)) = m"
  by (cases m) (simp add: Extract_def Inject_def untouched_by_caller_def)

lemma FromMap_ToMap_frame:
  "k \<notin> {KeyRequestID, KeyPartition, KeyTenantID, KeyCaller} \<Longrightarrow>
   get_str (case ToMap m dst of None \<Rightarrow> [] | Some d \<Rightarrow> d) k = get_str (case dst of None \<Rightarrow> [] | Some d \<Rightarrow> d) k"
  by (auto simp: ToMap_def Let_def)

lemma FromMap_ToMap: "FromMap dst = zero_meta \<Longrightarrow> FromMap (ToMap m dst) = m"
  by (cases m) (auto simp: FromMap_def ToMap_def Let_def zero_meta_def meta_is_zero_def)

lemma Firewall_frame [frame_simps, simp]:
  "v_tx (Firewall c) = None" "v_scope (Firewall c) = None" "v_readAll (Firewall c) = False"
  "v_actor (Firewall c) = None" "v_principal (Firewall c) = None" "v_expiry (Firewall c) = None"
  "v_untrusted (Firewall c) = []" "v_clientIP (Firewall c) = None"
  "v_span (Firewall c) = v_span c" "c_err (Firewall c) = c_err c"
  "c_deadline (Firewall c) = c_deadline c"
  by (simp_all add: Firewall_def Let_def background_def ctx_with_def)

lemma ctx_from_Firewall [simp]: "ctx_from (Firewall c) = ctx_from c"
  by (auto simp: Firewall_def Let_def background_def ctx_from_def ctx_with_def meta_is_zero_def)

lemma Firewall_idem: "Firewall (Firewall c) = Firewall c"
  by (simp add: Firewall_def Let_def background_def ctx_from_def ctx_with_def meta_is_zero_def)

text \<open>The firewall forgets everything but metadata, span, cancellation and deadline.\<close>

lemma Firewall_cong:
  "ctx_from c = ctx_from c' \<Longrightarrow> v_span c = v_span c' \<Longrightarrow> c_err c = c_err c' \<Longrightarrow>
   c_deadline c = c_deadline c' \<Longrightarrow> Firewall c = Firewall c'"
  by (simp add: Firewall_def Let_def)

lemma is_app_normalize [simp]: "is_app (normalize d e)"
  by (simp add: normalize_def)

lemma is_app_errTxBoundary [simp]: "is_app errTxBoundary"
  by (simp add: errTxBoundary_def)

lemma Call_entered:
  "snd (Call now c s m t fn) = (if HasTx c \<or> c_err c \<noteq> None then []
     else [with_timeout now (Firewall c) (if t \<le> 0 then DefaultTimeout else t)])"
  by (auto simp: Call_def Let_def split: option.splits prod.splits sum.splits)

definition callee_ctx :: "int \<Rightarrow> ctx \<Rightarrow> int \<Rightarrow> ctx" where
  "callee_ctx now c t = with_timeout now (Firewall c) (if t \<le> 0 then DefaultTimeout else t)"

lemma Call_enters:
  assumes "\<not> HasTx c" and "c_err c = None"
  shows "Call now c s m t fn = (case fn (callee_ctx now c t) of
      (Inl e, x) \<Rightarrow> Inl (normalize x e) | (Inr v, x) \<Rightarrow> Inr v, [callee_ctx now c t])"
  using assms by (cases "fn (callee_ctx now c t)")
    (auto simp: Call_def callee_ctx_def Let_def split: sum.splits)

lemma callee_ctx_frame [frame_simps]:
  "\<not> HasTx (callee_ctx now c t)" "v_actor (callee_ctx now c t) = None"
  "v_principal (callee_ctx now c t) = None" "\<not> ReadsAllTenants (callee_ctx now c t)"
  "ClientIP (callee_ctx now c t) = None" "v_span (callee_ctx now c t) = v_span c"
  by (simp_all add: callee_ctx_def with_timeout_def Let_def HasTx_def ReadsAllTenants_def ClientIP_def)

lemma callee_ctx_meta [frame_simps]: "ctx_from (callee_ctx now c t) = ctx_from c"
  using ctx_from_Firewall [of c] by (simp add: callee_ctx_def with_timeout_def Let_def ctx_from_def)

lemma callee_ctx_deadline:
  "c_deadline (callee_ctx now c t) = Some (case c_deadline c of
     Some d' \<Rightarrow> min d' (now + (if t \<le> 0 then DefaultTimeout else t))
   | None \<Rightarrow> now + (if t \<le> 0 then DefaultTimeout else t))"
  by (simp add: callee_ctx_def with_timeout_def Let_def)

lemma Call_error_is_app: "fst (Call now c s m t fn) = Inl e \<Longrightarrow> is_app e"
  by (auto simp: Call_def Let_def split: option.splits prod.splits sum.splits if_splits)

text \<open>
  Property C13. A contract call sees no more in the process than it would over the network:
  inside a transaction or on a context already cancelled the callee is never entered (and
  the caller gets TX_BOUNDARY or UNAVAILABLE); otherwise it is entered exactly once, with
  a context that has no transaction, no identity, no read-all mark and no client address,
  with the metadata of the caller and a deadline no later than the timeout; every error
  that comes back is an \<open>apperr.Error\<close>.
\<close>

theorem call_boundary:
  "(HasTx c \<longrightarrow> snd (Call now c s m t fn) = [] \<and>
      (\<exists>e. fst (Call now c s m t fn) = Inl e \<and> app_is e CodeTxBoundary)) \<and>
   (\<not> HasTx c \<and> c_err c \<noteq> None \<longrightarrow> snd (Call now c s m t fn) = [] \<and>
      (\<exists>e. fst (Call now c s m t fn) = Inl e \<and> app_is e CodeUnavailable)) \<and>
   (\<not> HasTx c \<and> c_err c = None \<longrightarrow> (\<exists>cc. snd (Call now c s m t fn) = [cc] \<and>
      \<not> HasTx cc \<and> v_actor cc = None \<and> v_principal cc = None \<and> \<not> ReadsAllTenants cc \<and>
      ClientIP cc = None \<and> ctx_from cc = ctx_from c \<and> v_span cc = v_span c \<and>
      c_deadline cc = Some (case c_deadline c of
          Some d \<Rightarrow> min d (now + (if t \<le> 0 then DefaultTimeout else t))
        | None \<Rightarrow> now + (if t \<le> 0 then DefaultTimeout else t)) \<and>
      fst (Call now c s m t fn) = (case fn cc of
          (Inl e, x) \<Rightarrow> Inl (normalize x e) | (Inr v, x) \<Rightarrow> Inr v))) \<and>
   (\<forall>e. fst (Call now c s m t fn) = Inl e \<longrightarrow> is_app e)"
proof (intro conjI)
  show "HasTx c \<longrightarrow> snd (Call now c s m t fn) = [] \<and>
      (\<exists>e. fst (Call now c s m t fn) = Inl e \<and> app_is e CodeTxBoundary)"
    by (simp add: Call_def errTxBoundary_def)
  show "\<not> HasTx c \<and> c_err c \<noteq> None \<longrightarrow> snd (Call now c s m t fn) = [] \<and>
      (\<exists>e. fst (Call now c s m t fn) = Inl e \<and> app_is e CodeUnavailable)"
    by (auto simp: Call_def)
  show "\<not> HasTx c \<and> c_err c = None \<longrightarrow> (\<exists>cc. snd (Call now c s m t fn) = [cc] \<and>
      \<not> HasTx cc \<and> v_actor cc = None \<and> v_principal cc = None \<and> \<not> ReadsAllTenants cc \<and>
      ClientIP cc = None \<and> ctx_from cc = ctx_from c \<and> v_span cc = v_span c \<and>
      c_deadline cc = Some (case c_deadline c of
          Some d \<Rightarrow> min d (now + (if t \<le> 0 then DefaultTimeout else t))
        | None \<Rightarrow> now + (if t \<le> 0 then DefaultTimeout else t)) \<and>
      fst (Call now c s m t fn) = (case fn cc of
          (Inl e, x) \<Rightarrow> Inl (normalize x e) | (Inr v, x) \<Rightarrow> Inr v))"
    by (intro impI exI [where x = "callee_ctx now c t"])
      (simp add: Call_enters frame_simps callee_ctx_deadline)
  show "\<forall>e. fst (Call now c s m t fn) = Inl e \<longrightarrow> is_app e"
    by (auto dest: Call_error_is_app)
qed

definition sample_fn :: "ctx \<Rightarrow> (gerr, nat) result \<times> ctx_err option" where
  "sample_fn c = (if v_actor c = None then Inr 7 else Inl (Leaf ''leaked''), None)"

theorem call_boundary_witness:
  "fst (Call 100 (background\<lparr>v_actor := Some (Some \<lparr>UserID = ''u'', ActorTenant = [], Perms = [], StepUpAt = 0\<rparr>)\<rparr>)
     ''ledger'' ''Post'' 0 sample_fn) = Inr 7"
  using call_boundary [of "background\<lparr>v_actor := Some (Some \<lparr>UserID = ''u'', ActorTenant = [], Perms = [], StepUpAt = 0\<rparr>)\<rparr>"
      100 "''ledger''" "''Post''" 0 sample_fn]
  by (auto simp: background_def HasTx_def sample_fn_def)

text \<open>
  Metadata survives each of the three transports unchanged, and business
  metadata next to it is not touched: headers written by \<open>Inject\<close> are read back by
  \<open>Extract\<close>, an event's \<open>ToMap\<close> snapshot is read back by \<open>FromMap\<close>, and the firewall
  of an in-process call keeps it.
\<close>

theorem meta_transport_roundtrip:
  assumes "untouched_by_caller h" and "FromMap dst = zero_meta"
  shows "Extract (get_str (Inject m h)) = m \<and> FromMap (ToMap m dst) = m \<and>
    (\<forall>k. k \<notin> {KeyRequestID, KeyPartition, KeyTenantID, KeyCaller} \<longrightarrow>
       get_str (case ToMap m dst of None \<Rightarrow> [] | Some d \<Rightarrow> d) k =
       get_str (case dst of None \<Rightarrow> [] | Some d \<Rightarrow> d) k) \<and>
    ctx_from (Firewall (ctx_with c m)) = m"
  using assms Extract_Inject FromMap_ToMap FromMap_ToMap_frame by simp

theorem meta_transport_roundtrip_witness:
  "let m = \<lparr>RequestID = ''r1'', Partition = ''a'', TenantID = ''t'', Caller = []\<rparr> in
   Extract (get_str (Inject m [(''Accept'', ''*'')])) = m \<and>
   FromMap (ToMap m (Some [(''k'', ''v'')])) = m \<and>
   get_str (the (ToMap m (Some [(''k'', ''v'')]))) ''k'' = ''v''"
proof -
  have h: "untouched_by_caller [(''Accept'', ''*'')]"
    by (simp add: untouched_by_caller_def get_str_def header_defs)
  have d: "FromMap (Some [(''k'', ''v'')]) = zero_meta"
    by (simp add: FromMap_def get_str_def header_defs zero_meta_def)
  show ?thesis
    using meta_transport_roundtrip [OF h d, of "\<lparr>RequestID = ''r1'', Partition = ''a'', TenantID = ''t'', Caller = []\<rparr>"]
    by (simp add: Let_def get_str_def header_defs ToMap_def meta_is_zero_def zero_meta_def)
qed

end
