(* ===== verification/Registry.thy ===== *)
theory Registry
  imports Go_Errors "HOL-Library.Product_Lexorder"
begin

text \<open>
  The registry of the root package: what modules declare and how dependencies are resolved
  (registry.go, named.go, contribution.go). A binding key is a \<open>reflect.Type\<close>, written as
  its \<open>String()\<close> and \<open>PkgPath()\<close>, with a name; the lexicographic order of the triple is the
  order of \<open>sortedBindingKeys\<close>. The maps of \<open>*binding\<close> are association lists whose
  entries are updated in place. A constructor is the tree of the resolutions it asks for:
  it returns, fails, panics, or needs a key and goes on with the answer. \<open>None\<close> as a value is
  Go's nil interface. A panic is an outcome of its own: it unwinds every constructor on the way and
  leaves their in-flight marks and the resolution stack as they are. A registration that panics gives \<open>None\<close>.
\<close>

type_synonym gotype = "string \<times> string"
type_synonym key = "gotype \<times> string"

datatype rerr =
    NoImpl key string
  | DependencyCycle "key list"
  | ConstructFailed key string rerr
  | CtorError string
  | ContributionMissing key
  | ContributionCycle "key list"
  | ContributionFailed key string rerr
  | InvalidName string

datatype 'v ctor =
    CRet "'v option"
  | CFail rerr
  | CPanic
  | CNeed key "(rerr, 'v option) result \<Rightarrow> 'v ctor"

datatype fault = Failed rerr | Panicked

record 'v binding =
  b_ctor :: "'v ctor"
  b_module :: string
  b_resolved :: bool
  b_inflight :: bool
  b_value :: "'v option"

datatype routeSecurity =
  RouteUnclassified | RoutePublic | RouteAuthenticated | RoutePermission | RouteInternalService

datatype handler =
    HRaw nat
  | HRequireUser handler
  | HRequireService handler
  | HRequirePerm string handler

record mountReg =
  m_pattern :: string
  m_handler :: handler
  m_module :: string
  m_security :: routeSecurity
  m_permission :: string

datatype hookfn =
    UserHook nat
  | WorkerStart nat
  | WorkerStop nat
  | ListenHook
  | BusConnect
  | BusClose
  | BusCancel
  | BusDrain

record startHook =
  sh_stage :: int
  sh_seq :: nat
  sh_fn :: hookfn
  sh_module :: string

record stopHook =
  ph_stage :: int
  ph_seq :: nat
  ph_fn :: hookfn
  ph_module :: string

datatype policy = ServiceCritical | ServiceOptional | PolicyOther nat

record serviceReg =
  sv_name :: string
  sv_module :: string
  sv_policy :: policy
  sv_factory :: "nat option"

record migrationSet =
  ms_schema :: string
  ms_files :: "(string \<times> string) list"
  ms_module :: string

record consumerReg =
  cr_topic :: string
  cr_handler :: nat
  cr_module :: string

record permDecl =
  pd_code :: string
  pd_name :: string
  pd_category :: string
  pd_description :: string
  pd_challenge :: bool

record 'v registry =
  bindings :: "(key \<times> 'v binding) list"
  remotes :: "(key \<times> 'v binding) list"
  contributions :: "(key \<times> 'v binding) list"
  contributionsResolved :: bool
  mounts :: "mountReg list"
  setups :: "(hookfn \<times> string) list"
  migrations :: "migrationSet list"
  consumers :: "consumerReg list"
  healthChecks :: "(string \<times> nat) list"
  starts :: "startHook list"
  stops :: "stopHook list"
  permDecls :: "(string \<times> (permDecl \<times> string)) list"
  permBindings :: "(string \<times> string) list"
  registered :: bool
  registeringModule :: bool
  startStages :: "(string \<times> int) list"
  workers :: "(string \<times> bool) list"
  services :: "serviceReg list"
  current :: string
  resolving :: "key list"

definition newRegistry :: "'v registry" where
  "newRegistry = \<lparr>bindings = [], remotes = [], contributions = [], contributionsResolved = False,
     mounts = [], setups = [], migrations = [], consumers = [], healthChecks = [], starts = [],
     stops = [], permDecls = [], permBindings = [], registered = False, registeringModule = False,
     startStages = [], workers = [], services = [], current = [], resolving = []\<rparr>"

subsection \<open>Declaring\<close>

definition newBinding :: "string \<Rightarrow> 'v ctor \<Rightarrow> 'v binding" where
  "newBinding m c = \<lparr>b_ctor = c, b_module = m, b_resolved = False, b_inflight = False, b_value = None\<rparr>"

definition Provide :: "gotype \<Rightarrow> 'v ctor \<Rightarrow> 'v registry \<Rightarrow> 'v registry option" where
  "Provide T c reg = (let key = (T, []) in
     (case map_of (bindings reg) key of
        Some prev \<Rightarrow> None
      | None \<Rightarrow> Some (reg\<lparr>bindings := bindings reg @ [(key, newBinding (current reg) c)]\<rparr>)))"

definition ProvideValue :: "gotype \<Rightarrow> 'v option \<Rightarrow> 'v registry \<Rightarrow> 'v registry option" where
  "ProvideValue T v reg = Provide T (CRet v) reg"

text \<open>The constructor that applies the generated wrapper to what \<open>c\<close> returns.\<close>

primrec wrap_ctor :: "('v option \<Rightarrow> 'v option) \<Rightarrow> 'v ctor \<Rightarrow> 'v ctor" where
  "wrap_ctor w (CRet v) = CRet (w v)"
| "wrap_ctor w (CFail e) = CFail e"
| "wrap_ctor w CPanic = CPanic"
| "wrap_ctor w (CNeed k f) = CNeed k (\<lambda>x. wrap_ctor w (f x))"

definition ProvideContract ::
    "gotype \<Rightarrow> 'v ctor \<Rightarrow> ('v option \<Rightarrow> 'v option) option \<Rightarrow> 'v registry \<Rightarrow> 'v registry option" where
  "ProvideContract T c wrap reg = (case wrap of None \<Rightarrow> None | Some w \<Rightarrow> Provide T (wrap_ctor w c) reg)"

definition name_tail_char :: "char \<Rightarrow> bool" where
  "name_tail_char c \<longleftrightarrow> is_lower c \<or> is_digit c \<or> c = CHR ''.'' \<or> c = CHR ''_'' \<or> c = CHR ''-''"

definition validateBindingName :: "string \<Rightarrow> bool" where
  "validateBindingName name = (case name of [] \<Rightarrow> False | c # cs \<Rightarrow> is_lower c \<and> list_all name_tail_char cs)"

text \<open>A nil \<open>ctor\<close> is \<open>None\<close>.\<close>

definition ProvideNamed ::
    "gotype \<Rightarrow> string \<Rightarrow> 'v ctor option \<Rightarrow> 'v registry \<Rightarrow> 'v registry option" where
  "ProvideNamed T name c reg =
     (if \<not> validateBindingName name then None
      else let key = (T, name) in
        (case c of None \<Rightarrow> None | Some ct \<Rightarrow>
          (case map_of (bindings reg) key of
             Some prev \<Rightarrow> None
           | None \<Rightarrow> Some (reg\<lparr>bindings := bindings reg @ [(key, newBinding (current reg) ct)]\<rparr>))))"

definition ProvideContractNamed ::
    "gotype \<Rightarrow> string \<Rightarrow> 'v ctor option \<Rightarrow> ('v option \<Rightarrow> 'v option) option \<Rightarrow> 'v registry \<Rightarrow> 'v registry option" where
  "ProvideContractNamed T name c wrap reg = (case wrap of None \<Rightarrow> None
     | Some w \<Rightarrow> (case c of None \<Rightarrow> None
        | Some ct \<Rightarrow> ProvideNamed T name (Some (wrap_ctor w ct)) reg))"

text \<open>
  \<open>Remote\<close> overwrites an earlier unnamed remote; \<open>RemoteNamed\<close> refuses a second one.
\<close>

definition Remote :: "gotype \<Rightarrow> 'v ctor \<Rightarrow> 'v registry \<Rightarrow> 'v registry" where
  "Remote T c reg = reg\<lparr>remotes := AList.update (T, []) (newBinding ''remote'' c) (remotes reg)\<rparr>"

definition RemoteNamed :: "gotype \<Rightarrow> string \<Rightarrow> 'v ctor \<Rightarrow> 'v registry \<Rightarrow> (gerr, 'v registry) result" where
  "RemoteNamed T name c reg = (let key = (T, name) in
     (case map_of (remotes reg) key of
        Some prev \<Rightarrow> Inl (Leaf ''duplicate RemoteNamed'')
      | None \<Rightarrow> Inr (reg\<lparr>remotes := AList.update key (newBinding ''remote'' c) (remotes reg)\<rparr>)))"

definition Contribute ::
    "gotype \<Rightarrow> string \<Rightarrow> 'v ctor option \<Rightarrow> 'v registry \<Rightarrow> 'v registry option" where
  "Contribute T name c reg =
     (if registered reg \<or> \<not> registeringModule reg then None
      else if \<not> validateBindingName name then None
      else let key = (T, name) in
        (case c of None \<Rightarrow> None | Some ct \<Rightarrow>
          (case map_of (contributions reg) key of
             Some prev \<Rightarrow> None
           | None \<Rightarrow> Some (reg\<lparr>contributions := contributions reg @ [(key, newBinding (current reg) ct)]\<rparr>))))"

subsection \<open>Resolving\<close>

datatype site = Local | Distant | Contributed

fun site_map :: "site \<Rightarrow> 'v registry \<Rightarrow> (key \<times> 'v binding) list" where
  "site_map Local r = bindings r"
| "site_map Distant r = remotes r"
| "site_map Contributed r = contributions r"

definition modify_entry :: "key \<Rightarrow> ('v binding \<Rightarrow> 'v binding) \<Rightarrow> (key \<times> 'v binding) list \<Rightarrow> (key \<times> 'v binding) list" where
  "modify_entry k f m = map (\<lambda>(k', b). (k', if k' = k then f b else b)) m"

fun modify_at :: "site \<Rightarrow> key \<Rightarrow> ('v binding \<Rightarrow> 'v binding) \<Rightarrow> 'v registry \<Rightarrow> 'v registry" where
  "modify_at Local k f r = r\<lparr>bindings := modify_entry k f (bindings r)\<rparr>"
| "modify_at Distant k f r = r\<lparr>remotes := modify_entry k f (remotes r)\<rparr>"
| "modify_at Contributed k f r = r\<lparr>contributions := modify_entry k f (contributions r)\<rparr>"

definition find_binding :: "key \<Rightarrow> 'v registry \<Rightarrow> (site \<times> 'v binding) option" where
  "find_binding k r = (case map_of (bindings r) k of
     Some b \<Rightarrow> Some (Local, b)
   | None \<Rightarrow> (case map_of (remotes r) k of Some b \<Rightarrow> Some (Distant, b) | None \<Rightarrow> None))"

type_synonym 'v outcome = "((fault, 'v option) result \<times> 'v registry) option"

text \<open>
  The last step of \<open>Resolve\<close>, the assertion \<open>v.(T)\<close>: it panics when the provider of the interface type gave nil.
  \<open>ResolveNamed\<close> tests for nil first and returns it.
\<close>

fun typed :: "key \<Rightarrow> 'v outcome \<Rightarrow> 'v outcome" where
  "typed k None = None"
| "typed k (Some (x, r)) = Some (if x = Inr None \<and> snd k = [] then Inl Panicked else x, r)"

text \<open>Running a constructor with \<open>R\<close> answering the resolutions it asks for through \<open>Resolve\<close> and \<open>ResolveNamed\<close>.\<close>

primrec run_ctor :: "(key \<Rightarrow> 'v registry \<Rightarrow> 'v outcome) \<Rightarrow> 'v ctor \<Rightarrow> 'v registry \<Rightarrow> 'v outcome" where
  "run_ctor R (CRet v) r = Some (Inr v, r)"
| "run_ctor R (CFail e) r = Some (Inl (Failed e), r)"
| "run_ctor R CPanic r = Some (Inl Panicked, r)"
| "run_ctor R (CNeed k f) r = (case typed k (R k r) of
     None \<Rightarrow> None
   | Some (Inl Panicked, r') \<Rightarrow> Some (Inl Panicked, r')
   | Some (Inl (Failed e), r') \<Rightarrow> run_ctor R (f (Inl e)) r'
   | Some (Inr v, r') \<Rightarrow> run_ctor R (f (Inr v)) r')"

definition enter_binding :: "site \<Rightarrow> key \<Rightarrow> 'v registry \<Rightarrow> 'v registry" where
  "enter_binding s k r = (modify_at s k (\<lambda>b. b\<lparr>b_inflight := True\<rparr>) r)\<lparr>resolving := resolving r @ [k]\<rparr>"

definition leave_binding :: "site \<Rightarrow> key \<Rightarrow> 'v registry \<Rightarrow> 'v registry" where
  "leave_binding s k r = (modify_at s k (\<lambda>b. b\<lparr>b_inflight := False\<rparr>) r)\<lparr>resolving := butlast (resolving r)\<rparr>"

definition store_value :: "site \<Rightarrow> key \<Rightarrow> 'v option \<Rightarrow> 'v registry \<Rightarrow> 'v registry" where
  "store_value s k v r = modify_at s k (\<lambda>b. b\<lparr>b_value := v, b_resolved := True\<rparr>) r"

text \<open>
  The nesting of constructor calls is bounded by fuel; out of fuel is \<open>None\<close>. One more
  than the number of bindings still to construct is always enough (\<open>resolve_total\<close>).
\<close>

fun resolve :: "nat \<Rightarrow> key \<Rightarrow> 'v registry \<Rightarrow> 'v outcome" where
  "resolve 0 k r = None"
| "resolve (Suc n) k r = (case find_binding k r of
     None \<Rightarrow> Some (Inl (Failed (NoImpl k (current r))), r)
   | Some (s, b) \<Rightarrow>
       if b_resolved b then Some (Inr (b_value b), r)
       else if b_inflight b then Some (Inl (Failed (DependencyCycle (resolving r @ [k]))), r)
       else (case run_ctor (resolve n) (b_ctor b) (enter_binding s k r) of
           None \<Rightarrow> None
         | Some (Inl Panicked, r') \<Rightarrow> Some (Inl Panicked, r')
         | Some (Inl (Failed e), r') \<Rightarrow> Some (Inl (Failed (ConstructFailed k (b_module b) e)), leave_binding s k r')
         | Some (Inr v, r') \<Rightarrow> Some (Inr v, store_value s k v (leave_binding s k r'))))"

definition idle :: "'v binding \<Rightarrow> bool" where
  "idle b \<longleftrightarrow> \<not> b_resolved b \<and> \<not> b_inflight b"

definition pending :: "'v registry \<Rightarrow> nat" where
  "pending r = length (filter (idle \<circ> snd) (bindings r)) + length (filter (idle \<circ> snd) (remotes r))"

definition resolve_any :: "key \<Rightarrow> 'v registry \<Rightarrow> 'v outcome" where
  "resolve_any k r = resolve (Suc (pending r)) k r"

definition Resolve :: "key \<Rightarrow> 'v registry \<Rightarrow> 'v outcome" where
  "Resolve k r = typed k (resolve_any k r)"

definition ResolveNamed :: "gotype \<Rightarrow> string \<Rightarrow> 'v registry \<Rightarrow> 'v outcome" where
  "ResolveNamed T name r = (if \<not> validateBindingName name then Some (Inl (Failed (InvalidName name)), r)
     else Resolve (T, name) r)"

definition resolveContribution :: "key \<Rightarrow> 'v registry \<Rightarrow> (fault option \<times> 'v registry) option" where
  "resolveContribution k r = (case map_of (contributions r) k of
     None \<Rightarrow> Some (Some (Failed (ContributionMissing k)), r)
   | Some b \<Rightarrow>
       if b_resolved b then Some (None, r)
       else if b_inflight b then Some (Some (Failed (ContributionCycle (resolving r @ [k]))), r)
       else (let previousModule = current r;
                 r1 = (enter_binding Contributed k r)\<lparr>current := b_module b\<rparr>
             in (case run_ctor (resolve (Suc (pending r1))) (b_ctor b) r1 of
                  None \<Rightarrow> None
                | Some (Inl Panicked, r2) \<Rightarrow> Some (Some Panicked, r2)
                | Some (Inl (Failed e), r2) \<Rightarrow>
                    Some (Some (Failed (ContributionFailed k (b_module b) e)),
                      leave_binding Contributed k (r2\<lparr>current := previousModule\<rparr>))
                | Some (Inr v, r2) \<Rightarrow>
                    Some (None, store_value Contributed k v
                      (leave_binding Contributed k (r2\<lparr>current := previousModule\<rparr>))))))"

fun each_key :: "(key \<Rightarrow> 'v registry \<Rightarrow> (fault option \<times> 'v registry) option) \<Rightarrow> key list \<Rightarrow> 'v registry
    \<Rightarrow> (fault option \<times> 'v registry) option" where
  "each_key F [] r = Some (None, r)"
| "each_key F (k # ks) r = (case F k r of
     None \<Rightarrow> None
   | Some (Some e, r') \<Rightarrow> Some (Some e, r')
   | Some (None, r') \<Rightarrow> each_key F ks r')"

definition resolve_err :: "key \<Rightarrow> 'v registry \<Rightarrow> (fault option \<times> 'v registry) option" where
  "resolve_err k r = (case resolve_any k r of None \<Rightarrow> None
     | Some (Inl e, r') \<Rightarrow> Some (Some e, r') | Some (Inr v, r') \<Rightarrow> Some (None, r'))"

definition resolveAll :: "'v registry \<Rightarrow> (fault option \<times> 'v registry) option" where
  "resolveAll r = (case each_key resolve_err (sorted_keys (bindings r)) r of
     None \<Rightarrow> None
   | Some (Some e, r') \<Rightarrow> Some (Some e, r')
   | Some (None, r') \<Rightarrow> (case each_key resolveContribution (sorted_keys (contributions r')) r' of
       None \<Rightarrow> None
     | Some (Some e, r'') \<Rightarrow> Some (Some e, r'')
     | Some (None, r'') \<Rightarrow> Some (None, r''\<lparr>contributionsResolved := True\<rparr>)))"

record 'v contribution =
  cn_name :: string
  cn_module :: string
  cn_value :: "'v option"

definition ResolveContributions :: "gotype \<Rightarrow> 'v registry \<Rightarrow> (string, 'v contribution list) result" where
  "ResolveContributions T r =
     (if \<not> contributionsResolved r then Inl ''contributions are not resolved yet''
      else let keys = filter (\<lambda>k. fst k = T) (sorted_keys (contributions r)) in
        (if \<exists>k\<in>set keys. \<not> b_resolved (the (map_of (contributions r) k)) then Inl ''contribution not constructed''
         else Inr (map (\<lambda>k. let b = the (map_of (contributions r) k) in
                \<lparr>cn_name = snd k, cn_module = b_module b, cn_value = b_value b\<rparr>) keys)))"

subsection \<open>What a resolution may change\<close>

text \<open>
  Resolving changes a binding only from idle to resolved with a value; everything else,
  the in-flight marks and the resolution stack included, is as it was.
\<close>

definition evolves_entry :: "key \<times> 'v binding \<Rightarrow> key \<times> 'v binding \<Rightarrow> bool" where
  "evolves_entry x y \<longleftrightarrow> fst x = fst y \<and> b_ctor (snd x) = b_ctor (snd y) \<and>
     b_module (snd x) = b_module (snd y) \<and> b_inflight (snd x) = b_inflight (snd y) \<and>
     (b_resolved (snd x) \<longrightarrow> snd y = snd x) \<and> (b_inflight (snd x) \<longrightarrow> snd y = snd x)"

definition rest :: "'v registry \<Rightarrow> 'v registry" where
  "rest r = r\<lparr>bindings := [], remotes := []\<rparr>"

definition evolves :: "'v registry \<Rightarrow> 'v registry \<Rightarrow> bool" where
  "evolves r r' \<longleftrightarrow> list_all2 evolves_entry (bindings r) (bindings r') \<and>
     list_all2 evolves_entry (remotes r) (remotes r') \<and> rest r' = rest r"

definition distinct_keys :: "'v registry \<Rightarrow> bool" where
  "distinct_keys r \<longleftrightarrow> distinct (map fst (bindings r)) \<and> distinct (map fst (remotes r)) \<and>
     distinct (map fst (contributions r))"

lemma evolves_entry_refl [simp]: "evolves_entry x x"
  by (simp add: evolves_entry_def)

lemma evolves_entry_trans: "evolves_entry x y \<Longrightarrow> evolves_entry y z \<Longrightarrow> evolves_entry x z"
  unfolding evolves_entry_def by metis

lemma evolves_entry_idle: "evolves_entry x y \<Longrightarrow> idle (snd y) \<Longrightarrow> idle (snd x)"
  unfolding evolves_entry_def idle_def by metis

lemma evolves_entries_refl [simp]: "list_all2 evolves_entry m m"
  by (rule list_all2_refl) simp

lemma evolves_entries_trans:
  "list_all2 evolves_entry m m' \<Longrightarrow> list_all2 evolves_entry m' m'' \<Longrightarrow> list_all2 evolves_entry m m''"
  by (rule list_all2_trans [where ?P1.0 = evolves_entry and ?P2.0 = evolves_entry])
    (rule evolves_entry_trans)

lemma evolves_refl [simp]: "evolves r r"
  by (simp add: evolves_def)

lemma evolves_trans: "evolves r s \<Longrightarrow> evolves s t \<Longrightarrow> evolves r t"
  unfolding evolves_def by (auto intro: evolves_entries_trans)

lemma modify_entry_simps [simp]:
  "modify_entry k f [] = []"
  "modify_entry k f ((k', b) # m) = (k', if k' = k then f b else b) # modify_entry k f m"
  by (simp_all add: modify_entry_def)

lemma modify_entry_keys [simp]: "map fst (modify_entry k f m) = map fst m"
  by (induction m) (auto simp: modify_entry_def)

lemma map_of_modify_entry:
  "map_of (modify_entry k f m) k' = (if k' = k then map_option f (map_of m k) else map_of m k')"
  by (induction m) (auto simp: modify_entry_def)

lemma modify_entry_modify_entry [simp]:
  "modify_entry k f (modify_entry k g m) = modify_entry k (f \<circ> g) m"
  by (auto simp: modify_entry_def)

lemma rest_frame:
  assumes "rest r' = rest r"
  shows "contributions r' = contributions r" "current r' = current r" "resolving r' = resolving r"
    "contributionsResolved r' = contributionsResolved r"
proof -
  have "contributions (rest r') = contributions (rest r)" "current (rest r') = current (rest r)"
    "resolving (rest r') = resolving (rest r)"
    "contributionsResolved (rest r') = contributionsResolved (rest r)"
    by (simp_all only: assms)
  then show "contributions r' = contributions r" "current r' = current r" "resolving r' = resolving r"
    "contributionsResolved r' = contributionsResolved r"
    by (simp_all add: rest_def)
qed

lemma evolves_entries_keys: "list_all2 evolves_entry m m' \<Longrightarrow> map fst m' = map fst m"
  by (induction rule: list_all2_induct) (auto simp: evolves_entry_def)

lemma evolves_frame:
  assumes "evolves r r'"
  shows "contributions r' = contributions r" "current r' = current r" "resolving r' = resolving r"
    "contributionsResolved r' = contributionsResolved r"
    "map fst (bindings r') = map fst (bindings r)" "map fst (remotes r') = map fst (remotes r)"
  using assms unfolding evolves_def by (auto dest: rest_frame evolves_entries_keys)

lemma evolves_distinct_keys: "evolves r r' \<Longrightarrow> distinct_keys r' = distinct_keys r"
  by (simp add: distinct_keys_def evolves_frame)

lemma list_all2_evolves_map_of:
  "list_all2 evolves_entry m m' \<Longrightarrow> (map_of m k = None \<longrightarrow> map_of m' k = None) \<and>
     (\<forall>b. map_of m k = Some b \<longrightarrow> (\<exists>b'. map_of m' k = Some b' \<and> evolves_entry (k, b) (k, b')))"
  by (induction rule: list_all2_induct) (auto simp: evolves_entry_def)

lemma evolves_find:
  assumes "evolves r r'" and "find_binding k r = Some (s, b)"
  shows "\<exists>b'. find_binding k r' = Some (s, b') \<and> evolves_entry (k, b) (k, b')"
proof -
  have "list_all2 evolves_entry (bindings r) (bindings r')" "list_all2 evolves_entry (remotes r) (remotes r')"
    using assms(1) by (simp_all add: evolves_def)
  from this [THEN list_all2_evolves_map_of [where k = k]] show ?thesis
    using assms(2) by (cases "map_of (bindings r) k"; cases "map_of (remotes r) k")
      (auto simp: find_binding_def)
qed

lemma list_all2_pending:
  "list_all2 evolves_entry m m' \<Longrightarrow> length (filter (idle \<circ> snd) m') \<le> length (filter (idle \<circ> snd) m)"
  by (induction rule: list_all2_induct) (auto dest: evolves_entry_idle)

lemma evolves_pending: "evolves r r' \<Longrightarrow> pending r' \<le> pending r"
  unfolding pending_def evolves_def by (intro add_mono list_all2_pending) simp_all

subsection \<open>The resolver contract\<close>

lemma typed_None [simp]: "typed k out = None \<longleftrightarrow> out = None"
  by (cases "(k, out)" rule: typed.cases) simp_all

lemma typed_SomeD: "typed k out = Some (y, r) \<Longrightarrow> out = Some (y, r) \<or> out = Some (Inr None, r) \<and> snd k = [] \<and> y = Inl Panicked"
  by (cases "(k, out)" rule: typed.cases) (auto split: if_splits)

text \<open>A constructor that asks for a resolution: it panics, or goes on with the answer.\<close>

lemma run_ctor_needE:
  assumes "run_ctor R (CNeed k f) r = Some (x, r')"
  obtains (panic) "x = Inl Panicked" "typed k (R k r) = Some (Inl Panicked, r')"
    | (answer) y z r1 where "R k r = Some (y, r1)" "y \<noteq> Inl Panicked" "y = Inr None \<longrightarrow> snd k \<noteq> []"
        "(\<exists>e. y = Inl (Failed e) \<and> z = Inl e) \<or> (\<exists>v. y = Inr v \<and> z = Inr v)" "run_ctor R (f z) r1 = Some (x, r')"
proof -
  obtain y r1 where y: "typed k (R k r) = Some (y, r1)" using assms by (cases "typed k (R k r)") auto
  consider "y = Inl Panicked" | e where "y = Inl (Failed e)" | v where "y = Inr v" by (cases y; metis fault.exhaust)
  then show thesis
  proof cases
    case 1 then show thesis using panic y assms by simp
  next
    case (2 e)
    then have "R k r = Some (y, r1)" using typed_SomeD [OF y] by auto
    then show thesis using answer [of y r1 "Inl e"] 2 y assms by simp
  next
    case (3 v)
    then have R: "R k r = Some (y, r1)" using typed_SomeD [OF y] by auto
    then have "y = Inr None \<longrightarrow> snd k \<noteq> []" using y by (auto split: if_splits)
    then show thesis using answer [of y r1 "Inr v"] R 3 y assms by simp
  qed
qed

lemma run_ctor_need_cases:
  assumes "typed k (R k r) = Some (y, r1)"
  shows "run_ctor R (CNeed k f) r = (case y of Inl Panicked \<Rightarrow> Some (Inl Panicked, r1)
    | Inl (Failed e) \<Rightarrow> run_ctor R (f (Inl e)) r1 | Inr v \<Rightarrow> run_ctor R (f (Inr v)) r1)"
  using assms by (simp split: sum.split fault.split)

text \<open>
  What a constructor may rely on when it resolves, and what follows for every constructor:
  the client of the contract is \<open>run_ctor\<close>, its provider is \<open>resolve\<close>.
\<close>

locale resolver =
  fixes R :: "key \<Rightarrow> 'v registry \<Rightarrow> 'v outcome"
  assumes R_evolves: "distinct_keys r \<Longrightarrow> R k r = Some (x, r') \<Longrightarrow> x \<noteq> Inl Panicked \<Longrightarrow> evolves r r'"
begin

lemma run_ctor_evolves: "distinct_keys r \<Longrightarrow> run_ctor R c r = Some (x, r') \<Longrightarrow> x \<noteq> Inl Panicked \<Longrightarrow> evolves r r'"
proof (induction c arbitrary: r)
  case (CNeed k f)
  from CNeed.prems(2,3) obtain y r1 z where R: "R k r = Some (y, r1)" "y \<noteq> Inl Panicked" and c: "run_ctor R (f z) r1 = Some (x, r')"
    by (elim run_ctor_needE) blast+
  have "evolves r r1" using CNeed.prems(1) R by (rule R_evolves)
  moreover have "evolves r1 r'"
    using CNeed.IH [OF rangeI _ c CNeed.prems(3)] \<open>evolves r r1\<close> CNeed.prems(1) by (simp add: evolves_distinct_keys)
  ultimately show ?case by (rule evolves_trans)
qed auto

end

locale total_resolver = resolver R for R :: "key \<Rightarrow> 'v registry \<Rightarrow> 'v outcome" +
  fixes bound :: nat
  assumes R_total: "distinct_keys r \<Longrightarrow> pending r \<le> bound \<Longrightarrow> R k r \<noteq> None"
begin

lemma run_ctor_total: "distinct_keys r \<Longrightarrow> pending r \<le> bound \<Longrightarrow> run_ctor R c r \<noteq> None"
proof (induction c arbitrary: r)
  case (CNeed k f)
  from R_total [OF CNeed.prems, of k] obtain y r1 where t: "typed k (R k r) = Some (y, r1)"
    by (metis typed_None not_Some_eq surj_pair)
  show ?case
  proof (cases "y = Inl Panicked")
    case True then show ?thesis unfolding run_ctor_need_cases [of k R r y r1, OF t] by simp
  next
    case False
    then have R: "R k r = Some (y, r1)" using typed_SomeD [OF t] by auto
    have ev: "evolves r r1" using CNeed.prems(1) R False by (rule R_evolves)
    then have "pending r1 \<le> bound" "distinct_keys r1"
      using CNeed.prems evolves_pending [OF ev] evolves_distinct_keys [OF ev] by auto
    then have "run_ctor R (f z) r1 \<noteq> None" for z using CNeed.IH [of "f z" r1] by auto
    then show ?thesis using False unfolding run_ctor_need_cases [of k R r y r1, OF t] by (auto split: sum.split fault.split)
  qed
qed auto

end

lemma inflight_same: "\<not> b_inflight b \<Longrightarrow> b\<lparr>b_inflight := False\<rparr> = b"
  by (cases b) simp

lemma enter_leave_entry:
  assumes ev: "evolves_entry (k', if k' = k then b\<lparr>b_inflight := True\<rparr> else b) (k'', b')"
    and idle: "k' = k \<Longrightarrow> idle b"
  shows "evolves_entry (k', b) (k'', if k'' = k then b'\<lparr>b_inflight := False\<rparr> else b') \<and>
    evolves_entry (k', b) (k'', if k'' = k then b'\<lparr>b_inflight := False, b_value := v, b_resolved := True\<rparr> else b')"
proof (cases "k' = k")
  case True
  then have "k'' = k" and b': "b' = b\<lparr>b_inflight := True\<rparr>"
    using ev unfolding evolves_entry_def by simp_all
  then show ?thesis using True idle inflight_same [of b] by (simp add: evolves_entry_def idle_def)
next
  case False
  then have "k'' \<noteq> k" using ev unfolding evolves_entry_def by simp
  then show ?thesis using False ev by simp
qed

lemma enter_leave_entries:
  assumes "list_all2 evolves_entry (modify_entry k (\<lambda>b. b\<lparr>b_inflight := True\<rparr>) m) m'"
    and "\<forall>x\<in>set m. fst x = k \<longrightarrow> idle (snd x)"
  shows "list_all2 evolves_entry m (modify_entry k (\<lambda>b. b\<lparr>b_inflight := False\<rparr>) m')"
    and "list_all2 evolves_entry m (modify_entry k (\<lambda>b. b\<lparr>b_value := v, b_resolved := True\<rparr>)
           (modify_entry k (\<lambda>b. b\<lparr>b_inflight := False\<rparr>) m'))"
proof -
  have "list_all2 (\<lambda>x y. evolves_entry (fst x, if fst x = k then (snd x)\<lparr>b_inflight := True\<rparr> else snd x) y) m m'"
    using assms(1) by (simp add: modify_entry_def list_all2_map1 case_prod_beta)
  then have "list_all2 (\<lambda>x y. evolves_entry x (fst y, if fst y = k then (snd y)\<lparr>b_inflight := False\<rparr> else snd y)) m m' \<and>
     list_all2 (\<lambda>x y. evolves_entry x (fst y, if fst y = k then (snd y)\<lparr>b_inflight := False, b_value := v, b_resolved := True\<rparr> else snd y)) m m'"
    using assms(2)
  proof (induction rule: list_all2_induct)
    case Nil
    then show ?case by simp
  next
    case (Cons x xs y ys)
    show ?case
      using Cons.IH Cons.prems
        enter_leave_entry [of "fst x" k "snd x" "fst y" "snd y" v] Cons.hyps by simp
  qed
  note both = conjunct1 [OF this] conjunct2 [OF this]
  show "list_all2 evolves_entry m (modify_entry k (\<lambda>b. b\<lparr>b_inflight := False\<rparr>) m')"
    unfolding modify_entry_def list_all2_map2 case_prod_beta by (rule list_all2_mono [OF both(1)])
  show "list_all2 evolves_entry m (modify_entry k (\<lambda>b. b\<lparr>b_value := v, b_resolved := True\<rparr>)
           (modify_entry k (\<lambda>b. b\<lparr>b_inflight := False\<rparr>) m'))"
    unfolding modify_entry_def list_all2_map2 case_prod_beta by (rule list_all2_mono [OF both(2)]) (auto split: if_splits)
qed

lemma distinct_map_of_all:
  "distinct (map fst m) \<Longrightarrow> map_of m k = Some b \<Longrightarrow> P b \<Longrightarrow> \<forall>x\<in>set m. fst x = k \<longrightarrow> P (snd x)"
  by (metis map_of_eq_Some_iff option.inject prod.collapse)

lemma find_bindingE:
  assumes "find_binding k r = Some (s, b)"
  obtains "s = Local" "map_of (bindings r) k = Some b"
    | "s = Distant" "map_of (bindings r) k = None" "map_of (remotes r) k = Some b"
  using assms by (auto simp: find_binding_def split: option.splits)

lemma evolves_enter_leave:
  assumes ev: "evolves (enter_binding s k r) r'" and d: "distinct_keys r"
    and f: "find_binding k r = Some (s, b)" and i: "idle b"
  shows "evolves r (leave_binding s k r')" and "evolves r (store_value s k v (leave_binding s k r'))"
proof -
  have res: "resolving r' = resolving r @ [k]"
    using evolves_frame(3) [OF ev] by (simp add: enter_binding_def)
  have rest: "rest r' = (rest r)\<lparr>resolving := resolving r @ [k]\<rparr>"
    if "s \<noteq> Contributed"
    using ev that by (cases s) (simp_all add: evolves_def rest_def enter_binding_def)
  have rest': "rest (leave_binding s k r') = rest r" "rest (store_value s k v (leave_binding s k r')) = rest r"
    if "s \<noteq> Contributed"
    using that rest [OF that] res by (cases s; cases r; cases r';
        simp add: rest_def leave_binding_def store_value_def)+
  show "evolves r (leave_binding s k r')" "evolves r (store_value s k v (leave_binding s k r'))"
    using f
  proof (atomize (full), cases rule: find_bindingE)
    case 1
    then have a: "\<forall>x\<in>set (bindings r). fst x = k \<longrightarrow> idle (snd x)"
      using d i distinct_map_of_all [of "bindings r" k b idle] by (simp add: distinct_keys_def)
    with ev 1 enter_leave_entries [OF _ a] rest' show "evolves r (leave_binding s k r') \<and>
        evolves r (store_value s k v (leave_binding s k r'))"
      by (simp add: evolves_def enter_binding_def leave_binding_def store_value_def)
  next
    case 2
    then have a: "\<forall>x\<in>set (remotes r). fst x = k \<longrightarrow> idle (snd x)"
      using d i distinct_map_of_all [of "remotes r" k b idle] by (simp add: distinct_keys_def)
    with ev 2 enter_leave_entries [OF _ a] rest' show "evolves r (leave_binding s k r') \<and>
        evolves r (store_value s k v (leave_binding s k r'))"
      by (simp add: evolves_def enter_binding_def leave_binding_def store_value_def)
  qed
qed

lemma distinct_keys_enter [simp]: "distinct_keys (enter_binding s k r) = distinct_keys r"
  by (cases s) (simp_all add: distinct_keys_def enter_binding_def)

lemma resolve_evolves:
  fixes r :: "'v registry"
  shows "distinct_keys r \<Longrightarrow> resolve n k r = Some (x, r') \<Longrightarrow> x \<noteq> Inl Panicked \<Longrightarrow> evolves r r'"
proof (induction n arbitrary: k r x r')
  case (Suc n)
  have R: "resolver (resolve n :: key \<Rightarrow> 'v registry \<Rightarrow> 'v outcome)"
    by (rule resolver.intro) (erule (2) Suc.IH)
  obtain s b where f: "find_binding k r = Some (s, b)" if "find_binding k r \<noteq> None"
    by (cases "find_binding k r") auto
  show ?case
  proof (cases "find_binding k r = None \<or> b_resolved b \<or> b_inflight b")
    case True
    then show ?thesis using Suc.prems f by (auto split: option.splits if_splits)
  next
    case False
    then have fb: "find_binding k r = Some (s, b)" and i: "idle b" using f by (auto simp: idle_def)
    obtain y r1 where c: "run_ctor (resolve n) (b_ctor b) (enter_binding s k r) = Some (y, r1)"
      using Suc.prems(2) fb False by (auto split: option.splits)
    moreover have np: "y \<noteq> Inl Panicked" using Suc.prems(2,3) fb False c by auto
    ultimately have ev: "evolves (enter_binding s k r) r1"
      using resolver.run_ctor_evolves [OF R _ c np] Suc.prems(1) by simp
    show ?thesis
      using Suc.prems fb False c np evolves_enter_leave [OF ev Suc.prems(1) fb i] by (auto split: sum.splits fault.splits)
  qed
qed simp

lemma resolver_resolve: "resolver (resolve n :: key \<Rightarrow> 'v registry \<Rightarrow> 'v outcome)"
  by (rule resolver.intro) (rule resolve_evolves)

lemma not_idle_marked [simp]: "\<not> idle (b\<lparr>b_inflight := True\<rparr>)"
  by (simp add: idle_def)

lemma pending_enter:
  assumes f: "find_binding k r = Some (s, b)" and i: "idle b"
  shows "pending (enter_binding s k r) < pending r"
proof -
  have le: "length (filter (idle \<circ> snd) (modify_entry k (\<lambda>b. b\<lparr>b_inflight := True\<rparr>) m)) \<le>
      length (filter (idle \<circ> snd) m)" for m :: "(key \<times> 'a binding) list"
    by (induction m) auto
  have less: "map_of m k = Some b \<Longrightarrow>
      length (filter (idle \<circ> snd) (modify_entry k (\<lambda>b. b\<lparr>b_inflight := True\<rparr>) m)) <
      length (filter (idle \<circ> snd) m)" for m :: "(key \<times> 'a binding) list"
  proof (induction m)
    case (Cons x m)
    then show ?case using i le [of m] by (cases x) (auto simp: comp_def split: if_splits)
  qed simp
  show ?thesis using f
    by (cases rule: find_bindingE) (use less le in \<open>auto simp: pending_def enter_binding_def\<close>)
qed

lemma resolve_total:
  fixes r :: "'v registry"
  shows "distinct_keys r \<Longrightarrow> pending r < n \<Longrightarrow> resolve n k r \<noteq> None"
proof (induction n arbitrary: k r)
  case (Suc n)
  show ?case
  proof (cases "find_binding k r")
    case (Some sb)
    obtain s b where sb: "sb = (s, b)" by force
    show ?thesis
    proof (cases "b_resolved b \<or> b_inflight b")
      case False
      then have "idle b" by (simp add: idle_def)
      then have less: "pending (enter_binding s k r) < pending r"
        using Some sb pending_enter by blast
      then have "total_resolver (resolve n :: key \<Rightarrow> 'v registry \<Rightarrow> 'v outcome) (pending (enter_binding s k r))"
        using Suc.prems(2) by (intro total_resolver.intro resolver_resolve total_resolver_axioms.intro Suc.IH) auto
      from total_resolver.run_ctor_total [OF this]
      have "run_ctor (resolve n) (b_ctor b) (enter_binding s k r) \<noteq> None"
        using Suc.prems(1) by simp
      then show ?thesis using Some sb False by (auto split: sum.splits fault.splits)
    qed (use Some sb in auto)
  qed simp
qed simp

interpretation rs: total_resolver "resolve (Suc n)" n for n
  by unfold_locales (erule (2) resolve_evolves, rule resolve_total, simp_all del: resolve.simps)

lemma find_modify [simp]:
  "s \<noteq> Contributed \<Longrightarrow> find_binding k r = Some (s, b) \<Longrightarrow>
   find_binding k (modify_at s k f r) = Some (s, f b)"
  by (cases s) (auto simp: find_binding_def map_of_modify_entry split: option.splits)

lemma find_binding_resolving [simp]: "find_binding k (r\<lparr>resolving := x\<rparr>) = find_binding k r"
  by (simp add: find_binding_def split: option.split)

lemma find_binding_site: "find_binding k r = Some (s, b) \<Longrightarrow> s \<noteq> Contributed"
  by (auto elim: find_bindingE)

text \<open>A successful resolution leaves the value cached.\<close>

lemma resolve_caches:
  assumes d: "distinct_keys r" and ok: "resolve n k r = Some (Inr v, r')"
  shows "\<exists>s b. find_binding k r' = Some (s, b) \<and> b_resolved b \<and> b_value b = v"
proof (cases n)
  case (Suc m)
  obtain s b where f: "find_binding k r = Some (s, b)" using ok Suc by (auto split: option.splits)
  show ?thesis
  proof (cases "b_resolved b \<or> b_inflight b")
    case True
    then show ?thesis using ok Suc f by (auto split: if_splits)
  next
    case False
    then obtain r1 where c: "run_ctor (resolve m) (b_ctor b) (enter_binding s k r) = Some (Inr v, r1)"
      and r': "r' = store_value s k v (leave_binding s k r1)"
      using ok Suc f by (auto split: option.splits sum.splits fault.splits)
    have "evolves (enter_binding s k r) r1"
      by (rule resolver.run_ctor_evolves [OF resolver_resolve _ c]) (simp_all add: d)
    moreover have "\<exists>b1. find_binding k (enter_binding s k r) = Some (s, b1)"
      using f find_binding_site [OF f] by (simp add: enter_binding_def)
    ultimately obtain b2 where "find_binding k r1 = Some (s, b2)" using evolves_find by blast
    then show ?thesis using r' find_binding_site [OF f]
      by (simp add: store_value_def leave_binding_def)
  qed
qed (use ok in simp)

lemma resolve_cached:
  "find_binding k r = Some (s, b) \<Longrightarrow> b_resolved b \<Longrightarrow> resolve (Suc n) k r = Some (Inr (b_value b), r)"
  by simp

lemma evolves_cached:
  "evolves r r' \<Longrightarrow> find_binding k r = Some (s, b) \<Longrightarrow> b_resolved b \<Longrightarrow> find_binding k r' = Some (s, b)"
  using evolves_find by (fastforce simp: evolves_entry_def)

subsection \<open>Cycles\<close>

lemma find_modify_other [simp]:
  "k' \<noteq> k \<Longrightarrow> find_binding k' (modify_at s k f r) = find_binding k' r"
  by (cases s) (simp_all add: find_binding_def map_of_modify_entry split: option.split)

lemma find_enter:
  "find_binding k r = Some (s, b) \<Longrightarrow> find_binding k (enter_binding s k r) = Some (s, b\<lparr>b_inflight := True\<rparr>)"
  "k' \<noteq> k \<Longrightarrow> find_binding k' (enter_binding s k r) = find_binding k' r"
  using find_binding_site [of k r s b] by (auto simp: enter_binding_def)

lemma resolving_enter [simp]: "resolving (enter_binding s k r) = resolving r @ [k]"
  by (simp add: enter_binding_def)

text \<open>
  \<open>needs_chain k0 ks r\<close>: the bindings of \<open>ks\<close> are idle, each constructor starts by
  resolving the next key (the last one \<open>k0\<close>) and gives an error it gets on.
\<close>

fun needs_chain :: "key \<Rightarrow> key list \<Rightarrow> 'v registry \<Rightarrow> bool" where
  "needs_chain k0 [] r = True"
| "needs_chain k0 (k # ks) r = ((\<exists>s b f. find_binding k r = Some (s, b) \<and> idle b \<and>
     b_ctor b = CNeed (hd (ks @ [k0])) f \<and> (\<forall>e. f (Inl e) = CFail e)) \<and> needs_chain k0 ks r)"

fun root_cause :: "rerr \<Rightarrow> rerr" where
  "root_cause (ConstructFailed k m e) = root_cause e"
| "root_cause (ContributionFailed k m e) = root_cause e"
| "root_cause e = e"

lemma needs_chain_enter:
  "k \<notin> set ks \<Longrightarrow> needs_chain k0 ks (enter_binding s k r) = needs_chain k0 ks r"
  by (induction ks) (auto simp: find_enter(2))

lemma resolve_chain:
  assumes "needs_chain k0 ks r" "distinct ks" "k0 \<notin> set ks" "length ks < n"
    and "find_binding k0 r = Some (s0, b0)" "b_inflight b0" "\<not> b_resolved b0"
  shows "\<exists>e r'. resolve n (hd (ks @ [k0])) r = Some (Inl (Failed e), r') \<and>
    root_cause e = DependencyCycle (resolving r @ ks @ [k0])"
  using assms
proof (induction ks arbitrary: n r)
  case Nil
  then show ?case by (cases n) auto
next
  case (Cons k ks)
  then obtain m where n: "n = Suc m" by (cases n) auto
  from Cons.prems obtain s b f where f: "find_binding k r = Some (s, b)" "idle b"
    "b_ctor b = CNeed (hd (ks @ [k0])) f" "\<And>e. f (Inl e) = CFail e" by auto
  let ?r = "enter_binding s k r"
  have "needs_chain k0 ks ?r" "distinct ks" "k0 \<notin> set ks" "length ks < m"
    "find_binding k0 ?r = Some (s0, b0)"
    using Cons.prems n needs_chain_enter [of k ks k0 s r] by (auto simp: find_enter(2))
  from Cons.IH [OF this] Cons.prems(6,7) obtain e r' where
    "resolve m (hd (ks @ [k0])) ?r = Some (Inl (Failed e), r')"
    "root_cause e = DependencyCycle (resolving r @ k # ks @ [k0])" by auto
  then show ?case using f n by (auto simp: idle_def)
qed

lemma resolve_cycle:
  assumes "needs_chain k0 (k0 # ks) r" "distinct (k0 # ks)" "length ks < n"
  shows "\<exists>e r'. resolve (Suc n) k0 r = Some (Inl (Failed e), r') \<and>
    root_cause e = DependencyCycle (resolving r @ (k0 # ks) @ [k0])"
proof -
  from assms(1) obtain s b f where f: "find_binding k0 r = Some (s, b)" "idle b"
    "b_ctor b = CNeed (hd (ks @ [k0])) f" "\<And>e. f (Inl e) = CFail e" by auto
  let ?r = "enter_binding s k0 r"
  have "needs_chain k0 ks ?r" "distinct ks" "k0 \<notin> set ks"
    using assms needs_chain_enter [of k0 ks k0 s r] by auto
  from resolve_chain [OF this assms(3) find_enter(1) [OF f(1)]] f(2)
  obtain e r' where "resolve n (hd (ks @ [k0])) ?r = Some (Inl (Failed e), r')"
    "root_cause e = DependencyCycle (resolving r @ k0 # ks @ [k0])" by (auto simp: idle_def)
  then show ?thesis using f by (auto simp: idle_def)
qed

subsection \<open>Resolving everything\<close>

definition all_evolve :: "'v registry \<Rightarrow> 'v registry \<Rightarrow> bool" where
  "all_evolve r r' \<longleftrightarrow> list_all2 evolves_entry (bindings r) (bindings r') \<and>
     list_all2 evolves_entry (remotes r) (remotes r') \<and>
     list_all2 evolves_entry (contributions r) (contributions r')"

lemma all_evolve_refl [simp]: "all_evolve r r"
  by (simp add: all_evolve_def)

lemma all_evolve_trans: "all_evolve r s \<Longrightarrow> all_evolve s t \<Longrightarrow> all_evolve r t"
  unfolding all_evolve_def by (auto intro: evolves_entries_trans)

lemma evolves_all_evolve: "evolves r r' \<Longrightarrow> all_evolve r r'"
  using evolves_frame(1) [of r r'] by (simp add: all_evolve_def evolves_def)

lemma all_evolve_distinct_keys: "all_evolve r r' \<Longrightarrow> distinct_keys r' = distinct_keys r"
  by (auto simp: all_evolve_def distinct_keys_def dest!: evolves_entries_keys)

lemma entries_resolved:
  "list_all2 evolves_entry m m' \<Longrightarrow> map_of m k = Some b \<Longrightarrow> b_resolved b \<Longrightarrow> map_of m' k = Some b"
  using list_all2_evolves_map_of [of m m' k] by (auto simp: evolves_entry_def)

lemma all_evolve_find_resolved:
  assumes "all_evolve r r'" "find_binding k r = Some (s, b)" "b_resolved b"
  shows "find_binding k r' = Some (s, b)"
proof -
  have e: "list_all2 evolves_entry (bindings r) (bindings r')" "list_all2 evolves_entry (remotes r) (remotes r')"
    using assms(1) by (simp_all add: all_evolve_def)
  show ?thesis using assms(2)
    by (cases rule: find_bindingE)
      (use assms(3) entries_resolved [OF e(1)] entries_resolved [OF e(2)]
         list_all2_evolves_map_of [OF e(1), of k] in \<open>auto simp: find_binding_def\<close>)
qed

lemma resolve_err_ok:
  assumes "distinct_keys r" "resolve_err k r = Some (x, r')"
  shows "x \<noteq> Some Panicked \<Longrightarrow> all_evolve r r'" "x = None \<Longrightarrow> \<exists>s b. find_binding k r' = Some (s, b) \<and> b_resolved b"
  using assms resolve_evolves [of r "Suc (pending r)" k] resolve_caches [of r "Suc (pending r)" k]
  by (fastforce simp: resolve_err_def resolve_any_def intro: evolves_all_evolve simp del: resolve.simps
      split: option.splits prod.splits sum.splits)+

lemma resolve_err_total: "distinct_keys r \<Longrightarrow> resolve_err k r \<noteq> None"
  using resolve_total [of r "Suc (pending r)" k]
  by (auto simp: resolve_err_def resolve_any_def simp del: resolve.simps split: option.splits sum.splits)

lemma enter_contribution:
  "bindings (enter_binding Contributed k r) = bindings r" "remotes (enter_binding Contributed k r) = remotes r"
  "contributions (enter_binding Contributed k r) = modify_entry k (\<lambda>b. b\<lparr>b_inflight := True\<rparr>) (contributions r)"
  by (simp_all add: enter_binding_def)

lemma leave_contribution:
  "bindings (leave_binding Contributed k r) = bindings r" "remotes (leave_binding Contributed k r) = remotes r"
  "contributions (leave_binding Contributed k r) = modify_entry k (\<lambda>b. b\<lparr>b_inflight := False\<rparr>) (contributions r)"
  "bindings (store_value Contributed k v r) = bindings r" "remotes (store_value Contributed k v r) = remotes r"
  "contributions (store_value Contributed k v r) = modify_entry k (\<lambda>b. b\<lparr>b_value := v, b_resolved := True\<rparr>) (contributions r)"
  by (simp_all add: leave_binding_def store_value_def)

lemma resolveContribution_ok:
  assumes d: "distinct_keys r" and x: "resolveContribution k r = Some (x, r')"
  shows "x \<noteq> Some Panicked \<Longrightarrow> all_evolve r r'"
    and "x = None \<Longrightarrow> \<exists>b. map_of (contributions r') k = Some b \<and> b_resolved b"
proof -
  have "all_evolve r r' \<and> (x = None \<longrightarrow> (\<exists>b. map_of (contributions r') k = Some b \<and> b_resolved b))" if np: "x \<noteq> Some Panicked"
  proof (cases "map_of (contributions r) k")
    case None
    then show ?thesis using x by (auto simp: resolveContribution_def)
  next
    case (Some b)
    show ?thesis
    proof (cases "b_resolved b \<or> b_inflight b")
      case True
      then show ?thesis using x Some by (auto simp: resolveContribution_def split: if_splits)
    next
      case False
      let ?r1 = "(enter_binding Contributed k r)\<lparr>current := b_module b\<rparr>"
      from False Some x obtain y r2 where
        c: "run_ctor (resolve (Suc (pending ?r1))) (b_ctor b) ?r1 = Some (y, r2)"
        by (auto simp: resolveContribution_def Let_def simp del: resolve.simps split: option.splits)
      have d1: "distinct_keys ?r1" using d by (simp add: distinct_keys_def enter_contribution)
      have "y \<noteq> Inl Panicked" using np x Some False c by (auto simp: resolveContribution_def Let_def simp del: resolve.simps)
      then have ev: "evolves ?r1 r2" by (rule resolver.run_ctor_evolves [OF resolver_resolve d1 c])
      have idle: "\<forall>x\<in>set (contributions r). fst x = k \<longrightarrow> idle (snd x)"
        using distinct_map_of_all [of "contributions r" k b idle] d Some False
        by (simp add: distinct_keys_def idle_def)
      have m: "contributions r2 = modify_entry k (\<lambda>b. b\<lparr>b_inflight := True\<rparr>) (contributions r)"
        using evolves_frame(1) [OF ev] by (simp add: enter_contribution)
      note el = enter_leave_entries [OF _ idle, of "contributions r2", unfolded m, OF evolves_entries_refl]
      have "list_all2 evolves_entry (bindings r) (bindings r2)" "list_all2 evolves_entry (remotes r) (remotes r2)"
        using ev by (simp_all add: evolves_def enter_contribution)
      then show ?thesis using x c Some False m el np
        by (auto simp: resolveContribution_def Let_def all_evolve_def leave_contribution map_of_modify_entry
            simp del: resolve.simps split: sum.splits fault.splits)
    qed
  qed
  then show "x \<noteq> Some Panicked \<Longrightarrow> all_evolve r r'"
    and "x = None \<Longrightarrow> \<exists>b. map_of (contributions r') k = Some b \<and> b_resolved b" by auto
qed

lemma resolveContribution_total:
  assumes "distinct_keys r" shows "resolveContribution k r \<noteq> None"
proof (cases "map_of (contributions r) k")
  case (Some b)
  let ?r1 = "(enter_binding Contributed k r)\<lparr>current := b_module b\<rparr>"
  have d1: "distinct_keys ?r1" using assms by (simp add: distinct_keys_def enter_contribution)
  have "run_ctor (resolve (Suc (pending ?r1))) (b_ctor b) ?r1 \<noteq> None"
    using rs.run_ctor_total [of ?r1 "pending ?r1" "b_ctor b"] d1 by simp
  then show ?thesis using Some
    by (auto simp: resolveContribution_def Let_def simp del: resolve.simps split: sum.splits fault.splits)
qed (simp add: resolveContribution_def)

lemma each_key_ok:
  assumes step: "\<And>k r x r'. distinct_keys r \<Longrightarrow> F k r = Some (x, r') \<Longrightarrow> x \<noteq> Some Panicked \<Longrightarrow>
      all_evolve r r' \<and> (x = None \<longrightarrow> Q k r')"
    and keep: "\<And>k r r'. all_evolve r r' \<Longrightarrow> Q k r \<Longrightarrow> Q k r'"
  shows "distinct_keys r \<Longrightarrow> each_key F ks r = Some (x, r') \<Longrightarrow> x \<noteq> Some Panicked \<Longrightarrow>
    all_evolve r r' \<and> (x = None \<longrightarrow> (\<forall>k\<in>set ks. Q k r'))"
proof (induction ks arbitrary: r)
  case (Cons k ks)
  from Cons.prems(2) obtain y r1 where f: "F k r = Some (y, r1)" by (auto split: option.splits)
  have "y \<noteq> Some Panicked" using Cons.prems(2,3) f by auto
  note st = step [OF Cons.prems(1) f this]
  show ?case
  proof (cases y)
    case None
    then have e: "each_key F ks r1 = Some (x, r')" using Cons.prems(2) f by simp
    have "distinct_keys r1" using st Cons.prems(1) all_evolve_distinct_keys by blast
    from Cons.IH [OF this e Cons.prems(3)] st None keep [of r1 r' k] show ?thesis by (auto intro: all_evolve_trans)
  next
    case (Some e)
    then show ?thesis using st Cons.prems(2) f by auto
  qed
qed simp

lemma each_key_total:
  assumes step: "\<And>k r x r'. distinct_keys r \<Longrightarrow> F k r = Some (x, r') \<Longrightarrow> x \<noteq> Some Panicked \<Longrightarrow> all_evolve r r'"
    and total: "\<And>k r. distinct_keys r \<Longrightarrow> F k r \<noteq> None"
  shows "distinct_keys r \<Longrightarrow> each_key F ks r \<noteq> None"
proof (induction ks arbitrary: r)
  case (Cons k ks)
  obtain y r1 where f: "F k r = Some (y, r1)" using total [OF Cons.prems, of k] by (cases "F k r") auto
  have "distinct_keys r1" if "y = None" using step [OF Cons.prems f] that Cons.prems all_evolve_distinct_keys by blast
  then show ?case using f Cons.IH [of r1] by (cases y) auto
qed simp

definition bound_in :: "key \<Rightarrow> 'v registry \<Rightarrow> bool" where
  "bound_in k r \<longleftrightarrow> (\<exists>s b. find_binding k r = Some (s, b) \<and> b_resolved b)"

definition contributed_in :: "key \<Rightarrow> 'v registry \<Rightarrow> bool" where
  "contributed_in k r \<longleftrightarrow> (\<exists>b. map_of (contributions r) k = Some b \<and> b_resolved b)"

lemma bound_in_keep: "all_evolve r r' \<Longrightarrow> bound_in k r \<Longrightarrow> bound_in k r'"
  unfolding bound_in_def using all_evolve_find_resolved by blast

lemma contributed_in_keep: "all_evolve r r' \<Longrightarrow> contributed_in k r \<Longrightarrow> contributed_in k r'"
  unfolding contributed_in_def all_evolve_def using entries_resolved by blast

lemma each_local:
  "distinct_keys r \<Longrightarrow> each_key resolve_err ks r = Some (x, r') \<Longrightarrow> x \<noteq> Some Panicked \<Longrightarrow>
    all_evolve r r' \<and> (x = None \<longrightarrow> (\<forall>k\<in>set ks. bound_in k r'))"
  by (rule each_key_ok [where Q = bound_in]; (rule bound_in_keep; assumption)?)
    (auto dest: resolve_err_ok simp: bound_in_def)

lemma each_contributed:
  "distinct_keys r \<Longrightarrow> each_key resolveContribution ks r = Some (x, r') \<Longrightarrow> x \<noteq> Some Panicked \<Longrightarrow>
    all_evolve r r' \<and> (x = None \<longrightarrow> (\<forall>k\<in>set ks. contributed_in k r'))"
  by (rule each_key_ok [where Q = contributed_in]; (rule contributed_in_keep; assumption)?)
    (auto dest: resolveContribution_ok simp: contributed_in_def)

lemma all_evolve_keys:
  "all_evolve r r' \<Longrightarrow> fst ` set (bindings r') = fst ` set (bindings r)"
  "all_evolve r r' \<Longrightarrow> fst ` set (contributions r') = fst ` set (contributions r)"
  unfolding all_evolve_def by (metis evolves_entries_keys list.set_map)+

lemma resolveAll_ok:
  assumes d: "distinct_keys r" and ok: "resolveAll r = Some (None, r')"
  shows "\<forall>k\<in>fst ` set (bindings r). bound_in k r'"
    and "\<forall>k\<in>fst ` set (contributions r). contributed_in k r'"
    and "contributionsResolved r'" and "all_evolve r r'"
proof -
  from ok obtain r1 r2 where l: "each_key resolve_err (sorted_keys (bindings r)) r = Some (None, r1)"
    and c: "each_key resolveContribution (sorted_keys (contributions r1)) r1 = Some (None, r2)"
    and r': "r' = r2\<lparr>contributionsResolved := True\<rparr>"
    by (auto simp: resolveAll_def split: option.splits prod.splits)
  have r1: "all_evolve r r1" "\<forall>k\<in>fst ` set (bindings r). bound_in k r1"
    using each_local [OF d l] by simp_all
  then have d1: "distinct_keys r1" using d all_evolve_distinct_keys by blast
  have r2: "all_evolve r1 r2" "\<forall>k\<in>fst ` set (contributions r). contributed_in k r2"
    using each_contributed [OF d1 c] all_evolve_keys [OF r1(1)] by simp_all
  have same: "all_evolve r2 r'" unfolding r' by (simp add: all_evolve_def)
  show "\<forall>k\<in>fst ` set (bindings r). bound_in k r'"
    using r1(2) bound_in_keep [OF r2(1)] bound_in_keep [OF same] by simp
  show "\<forall>k\<in>fst ` set (contributions r). contributed_in k r'"
    using r2(2) contributed_in_keep [OF same] by simp
  show "contributionsResolved r'" unfolding r' by simp
  show "all_evolve r r'"
    by (rule all_evolve_trans [OF r1(1) all_evolve_trans [OF r2(1) same]])
qed

lemma resolveAll_total:
  assumes "distinct_keys r" shows "resolveAll r \<noteq> None"
proof -
  have l: "each_key resolve_err ks r \<noteq> None" for ks
    by (rule each_key_total [where F = resolve_err, OF _ _ assms])
      (erule (2) resolve_err_ok(1), erule resolve_err_total)
  obtain x r1 where e: "each_key resolve_err (sorted_keys (bindings r)) r = Some (x, r1)"
    using l [of "sorted_keys (bindings r)"] by (cases "each_key resolve_err (sorted_keys (bindings r)) r") auto
  have "each_key resolveContribution ks r1 \<noteq> None" if none: "x = None" for ks
  proof -
    have "distinct_keys r1" using each_local [OF assms e] none assms all_evolve_distinct_keys by blast
    then show ?thesis
      by (rule each_key_total [where F = resolveContribution, rotated 2])
        (erule (2) resolveContribution_ok(1), erule resolveContribution_total)
  qed
  then show ?thesis using e by (cases x) (auto simp: resolveAll_def split: option.splits prod.splits)
qed

subsection \<open>Declaring keeps keys distinct\<close>

text \<open>The declarations a module's \<open>Register\<close> and the options of the application can make.\<close>

inductive declares :: "'v registry \<Rightarrow> 'v registry \<Rightarrow> bool" where
  provide: "Provide T c r = Some r' \<Longrightarrow> declares r r'"
| provide_contract: "ProvideContract T c w r = Some r' \<Longrightarrow> declares r r'"
| provide_named: "ProvideNamed T n oc r = Some r' \<Longrightarrow> declares r r'"
| provide_contract_named: "ProvideContractNamed T n oc w r = Some r' \<Longrightarrow> declares r r'"
| remote: "declares r (Remote T c r)"
| remote_named: "RemoteNamed T n c r = Inr r' \<Longrightarrow> declares r r'"
| contribute: "Contribute T n oc r = Some r' \<Longrightarrow> declares r r'"

inductive declared :: "'v registry \<Rightarrow> bool" where
  new_registry: "declared newRegistry"
| module_turn: "declared r \<Longrightarrow> declared (r\<lparr>current := m, registeringModule := b\<rparr>)"
| declare_step: "declared r \<Longrightarrow> declares r r' \<Longrightarrow> declared r'"

lemma Provide_SomeD:
  "Provide T c r = Some r' \<Longrightarrow> map_of (bindings r) (T, []) = None \<and>
    r' = r\<lparr>bindings := bindings r @ [((T, []), newBinding (current r) c)]\<rparr>"
  by (simp add: Provide_def Let_def split: option.splits)

lemma ProvideNamed_SomeD:
  "ProvideNamed T n oc r = Some r' \<Longrightarrow> \<exists>c. oc = Some c \<and> validateBindingName n \<and>
    map_of (bindings r) (T, n) = None \<and>
    r' = r\<lparr>bindings := bindings r @ [((T, n), newBinding (current r) c)]\<rparr>"
  by (simp add: ProvideNamed_def Let_def split: option.splits if_splits)

lemma Contribute_SomeD:
  "Contribute T n oc r = Some r' \<Longrightarrow> \<exists>c. oc = Some c \<and> registeringModule r \<and> \<not> registered r \<and>
    map_of (contributions r) (T, n) = None \<and>
    r' = r\<lparr>contributions := contributions r @ [((T, n), newBinding (current r) c)]\<rparr>"
  by (simp add: Contribute_def Let_def split: option.splits if_splits)

lemma RemoteNamed_InrD:
  "RemoteNamed T n c r = Inr r' \<Longrightarrow> map_of (remotes r) (T, n) = None \<and>
    r' = r\<lparr>remotes := AList.update (T, n) (newBinding ''remote'' c) (remotes r)\<rparr>"
  by (simp add: RemoteNamed_def Let_def split: option.splits)

lemmas declare_dests = Provide_SomeD ProvideNamed_SomeD Contribute_SomeD RemoteNamed_InrD

inductive_cases declaresE: "declares r r'"

text \<open>A declaration adds at most one local binding, and only for a key that had none.\<close>

lemma declares_bindings:
  assumes "declares r r'"
  shows "bindings r' = bindings r \<or>
    (\<exists>k b. map_of (bindings r) k = None \<and> idle b \<and> bindings r' = bindings r @ [(k, b)])"
  using assms
  by (cases rule: declares.cases)
    (auto simp: ProvideContract_def ProvideContractNamed_def Remote_def newBinding_def idle_def
      dest!: declare_dests split: option.splits)

lemma declares_distinct_keys: "declares r r' \<Longrightarrow> distinct_keys r \<Longrightarrow> distinct_keys r'"
  by (erule declares.cases)
    (auto simp: distinct_keys_def ProvideContract_def ProvideContractNamed_def Remote_def
        map_of_eq_None_iff dest!: declare_dests intro: distinct_update split: option.splits)

lemma declared_distinct_keys: "declared r \<Longrightarrow> distinct_keys r"
  by (induction rule: declared.induct)
    (auto simp: distinct_keys_def newRegistry_def dest: declares_distinct_keys [unfolded distinct_keys_def])

subsection \<open>More fuel, same answer\<close>

lemma run_ctor_mono:
  assumes "\<And>k r y. R k r = Some y \<Longrightarrow> R' k r = Some y"
  shows "run_ctor R c r = Some y \<Longrightarrow> run_ctor R' c r = Some y"
proof (induction c arbitrary: r)
  case (CNeed k f)
  from CNeed.prems obtain x r1 where t: "typed k (R k r) = Some (x, r1)" by (cases "typed k (R k r)") auto
  then obtain z where R: "R k r = Some z" by (metis typed_None not_Some_eq)
  then have t': "typed k (R' k r) = Some (x, r1)" using t assms by simp
  show ?case using CNeed.prems CNeed.IH [OF rangeI, of _ r1]
    unfolding run_ctor_need_cases [of k R r x r1, OF t] run_ctor_need_cases [of k R' r x r1, OF t']
    by (auto split: sum.splits fault.splits)
qed auto

lemma resolve_mono_Suc:
  fixes r :: "'v registry"
  shows "resolve n k r = Some y \<Longrightarrow> resolve (Suc n) k r = Some y"
proof (induction n arbitrary: k r y)
  case (Suc n)
  have m: "run_ctor (resolve n) c r1 = Some z \<Longrightarrow> run_ctor (resolve (Suc n)) c r1 = Some z" for c :: "'v ctor" and r1 z
    by (rule run_ctor_mono [where R = "resolve n" and R' = "resolve (Suc n)"]) (erule Suc.IH, assumption)
  show ?case
  proof (cases "find_binding k r")
    case (Some sb)
    obtain s b where sb: "sb = (s, b)" by force
    show ?thesis
    proof (cases "b_resolved b \<or> b_inflight b")
      case False
      then obtain z where "run_ctor (resolve n) (b_ctor b) (enter_binding s k r) = Some z"
        using Suc.prems Some sb by (auto split: option.splits)
      from this m [OF this] show ?thesis using Suc.prems Some sb False by (subst resolve.simps) simp
    qed (use Suc.prems Some sb in auto)
  qed (use Suc.prems in simp)
qed simp

lemma resolve_mono:
  assumes "n \<le> m" and "resolve n k r = Some y" shows "resolve m k r = Some y"
  using assms(1)
proof (induction m rule: dec_induct)
  case base show ?case by (rule assms(2))
next
  case (step m) then show ?case by (blast intro: resolve_mono_Suc)
qed

lemma resolve_any_total: "distinct_keys r \<Longrightarrow> \<exists>x r'. resolve_any k r = Some (x, r')"
  using resolve_total [of r "Suc (pending r)" k] by (auto simp: resolve_any_def simp del: resolve.simps)

lemma Resolve_eq: "distinct_keys r \<Longrightarrow> resolve n k r = Some y \<Longrightarrow> Resolve k r = typed k (Some y)"
proof -
  assume d: "distinct_keys r" and y: "resolve n k r = Some y"
  obtain z where z: "resolve_any k r = Some z" using resolve_any_total [OF d] by blast
  have "resolve (n + Suc (pending r)) k r = Some y" "resolve (n + Suc (pending r)) k r = Some z"
    using resolve_mono [OF _ y, of "n + Suc (pending r)"] resolve_mono [OF _ z [unfolded resolve_any_def], of "n + Suc (pending r)"]
    by (simp_all del: resolve.simps add_Suc_right)
  then show ?thesis using z by (simp add: Resolve_def)
qed

subsection \<open>Where a panic can come from\<close>

text \<open>A constructor that can panic itself, and one that can return nil, for some answers to what it needs.\<close>

primrec may_panic :: "'v ctor \<Rightarrow> bool" where
  "may_panic (CRet v) = False"
| "may_panic (CFail e) = False"
| "may_panic CPanic = True"
| "may_panic (CNeed k f) = (\<exists>x. may_panic (f x))"

primrec may_nil :: "'v ctor \<Rightarrow> bool" where
  "may_nil (CRet v) = (v = None)"
| "may_nil (CFail e) = False"
| "may_nil CPanic = False"
| "may_nil (CNeed k f) = (\<exists>x. may_nil (f x))"

text \<open>An entry that is resolved is judged by its value as well.\<close>

definition safe_entry :: "key \<Rightarrow> 'v binding \<Rightarrow> bool" where
  "safe_entry k b \<longleftrightarrow> \<not> may_panic (b_ctor b) \<and>
     (snd k = [] \<longrightarrow> \<not> may_nil (b_ctor b) \<and> (b_resolved b \<longrightarrow> b_value b \<noteq> None))"

definition safe :: "'v registry \<Rightarrow> bool" where
  "safe r \<longleftrightarrow> (\<forall>(k, b) \<in> set (bindings r) \<union> set (remotes r). safe_entry k b)"

lemma safe_modify:
  assumes "safe r" "\<And>b. safe_entry k b \<Longrightarrow> safe_entry k (f b)" shows "safe (modify_at s k f r)"
proof -
  have all: "\<And>k' b. (k', b) \<in> set (bindings r) \<or> (k', b) \<in> set (remotes r) \<Longrightarrow> safe_entry k' b"
    using assms(1) by (fastforce simp: safe_def)
  show ?thesis unfolding safe_def using all assms(2) by (cases s) (fastforce simp: modify_entry_def)+
qed

lemma safe_resolving [simp]: "safe (r\<lparr>resolving := x\<rparr>) = safe r"
  by (simp add: safe_def)

lemma safe_find: "safe r \<Longrightarrow> find_binding k r = Some (s, b) \<Longrightarrow> safe_entry k b"
  by (auto simp: safe_def dest: map_of_SomeD elim!: find_bindingE)

lemma safe_inflight: "safe_entry k b \<Longrightarrow> safe_entry k (b\<lparr>b_inflight := x\<rparr>)"
  by (simp add: safe_entry_def)

lemma run_ctor_safe:
  assumes "\<And>k r x r'. safe r \<Longrightarrow> R k r = Some (x, r') \<Longrightarrow> x \<noteq> Inl Panicked \<and> safe r' \<and> (snd k = [] \<longrightarrow> x \<noteq> Inr None)"
  shows "safe r \<Longrightarrow> run_ctor R c r = Some (x, r') \<Longrightarrow> \<not> may_panic c \<Longrightarrow>
    x \<noteq> Inl Panicked \<and> safe r' \<and> (\<not> may_nil c \<longrightarrow> x \<noteq> Inr None)"
proof (induction c arbitrary: r)
  case (CNeed k f)
  from CNeed.prems(2) show ?case
  proof (cases rule: run_ctor_needE)
    case panic
    then show ?thesis using assms [OF CNeed.prems(1), of k] by (auto dest!: typed_SomeD)
  next
    case (answer y z r1)
    have "safe r1" using assms [OF CNeed.prems(1) answer(1)] by simp
    then show ?thesis using CNeed.IH [OF rangeI _ answer(5)] CNeed.prems(3) by auto
  qed
qed auto

lemma resolve_safe:
  fixes r :: "'v registry"
  shows "safe r \<Longrightarrow> resolve n k r = Some (x, r') \<Longrightarrow> x \<noteq> Inl Panicked \<and> safe r' \<and> (snd k = [] \<longrightarrow> x \<noteq> Inr None)"
proof (induction n arbitrary: k r x r')
  case (Suc n)
  show ?case
  proof (cases "find_binding k r")
    case (Some sb)
    obtain s b where sb: "sb = (s, b)" by force
    note se = safe_find [OF Suc.prems(1) Some [unfolded sb]]
    show ?thesis
    proof (cases "b_resolved b \<or> b_inflight b")
      case True then show ?thesis using Suc.prems Some sb se by (auto simp: safe_entry_def split: if_splits)
    next
      case False
      then obtain y r1 where c: "run_ctor (resolve n) (b_ctor b) (enter_binding s k r) = Some (y, r1)"
        using Suc.prems(2) Some sb by (auto split: option.splits)
      have "safe (enter_binding s k r)" using Suc.prems(1) by (auto simp: enter_binding_def intro!: safe_modify safe_inflight)
      from run_ctor_safe [OF Suc.IH this c] se
      have y: "y \<noteq> Inl Panicked" "safe r1" "snd k = [] \<longrightarrow> y \<noteq> Inr None" by (auto simp: safe_entry_def)
      have left: "safe (leave_binding s k r1)" using y(2) by (auto simp: leave_binding_def intro!: safe_modify safe_inflight)
      have stored: "safe (store_value s k v (leave_binding s k r1))" if "snd k = [] \<longrightarrow> v \<noteq> None" for v
        unfolding store_value_def by (rule safe_modify [OF left]) (use that in \<open>auto simp: safe_entry_def\<close>)
      show ?thesis using Suc.prems(2) Some sb False c y left stored by (auto split: sum.splits fault.splits)
    qed
  qed (use Suc.prems in auto)
qed simp

lemma set_update: "x \<in> set (AList.update k v m) \<Longrightarrow> x = (k, v) \<or> x \<in> set m"
  by (induction m) (auto split: if_splits)

lemma declares_remotes: "declares r r' \<Longrightarrow> y \<in> set (remotes r') \<Longrightarrow> y \<in> set (remotes r) \<or> \<not> b_resolved (snd y)"
  by (erule declares.cases)
    (auto simp: ProvideContract_def ProvideContractNamed_def Remote_def newBinding_def dest!: declare_dests set_update split: option.splits)

lemma declared_unresolved: "declared r \<Longrightarrow> y \<in> set (bindings r) \<union> set (remotes r) \<Longrightarrow> \<not> b_resolved (snd y)"
proof (induction arbitrary: y rule: declared.induct)
  case (declare_step r r')
  consider "y \<in> set (bindings r')" | "y \<in> set (remotes r')" using declare_step(4) by blast
  then show ?case
  proof cases
    case 1
    then have "y \<in> set (bindings r) \<or> \<not> b_resolved (snd y)" using declares_bindings [OF declare_step(2)] by (fastforce simp: idle_def)
    then show ?thesis using declare_step.IH [of y] by blast
  next
    case 2
    then show ?thesis using declares_remotes [OF declare_step(2)] declare_step.IH [of y] by blast
  qed
next
  case (module_turn r m b) then show ?case using module_turn.IH [of y] by simp
qed (simp add: newRegistry_def)

subsection \<open>Properties\<close>

text \<open>
  Property C8. In every registry that declarations can build, resolving any key comes to an
  end: the constructor calls nest at most as deep as there are bindings left to construct. It
  panics only if some provider can panic or some provider of an unnamed key can return a nil
  interface, on which the assertion of \<open>Resolve\<close> panics. Otherwise it
  changes nothing but bindings from idle to resolved, the resolution stack and the
  in-flight marks are as before, and a key that resolved once answers the same value
  again without running any constructor; that value is never nil for an unnamed key.
\<close>

theorem resolution_total_and_cached:
  assumes "declared r"
  shows "\<exists>x r'. Resolve k r = Some (x, r') \<and>
    (x = Inl Panicked \<longrightarrow> (\<exists>(k', b) \<in> set (bindings r) \<union> set (remotes r).
       may_panic (b_ctor b) \<or> snd k' = [] \<and> may_nil (b_ctor b))) \<and>
    (x \<noteq> Inl Panicked \<longrightarrow> evolves r r' \<and> resolving r' = resolving r \<and> current r' = current r \<and>
       (\<forall>v. x = Inr v \<longrightarrow> Resolve k r' = Some (Inr v, r') \<and> (snd k = [] \<longrightarrow> v \<noteq> None)))"
proof -
  have d: "distinct_keys r" using assms by (rule declared_distinct_keys)
  obtain y r' where res: "resolve_any k r = Some (y, r')" using resolve_any_total [OF d] by blast
  define x where "x = (if y = Inr None \<and> snd k = [] then Inl Panicked else y)"
  have R: "Resolve k r = Some (x, r')" by (simp add: Resolve_def res x_def)
  have panic: "\<exists>(k', b) \<in> set (bindings r) \<union> set (remotes r). may_panic (b_ctor b) \<or> snd k' = [] \<and> may_nil (b_ctor b)"
    if "x = Inl Panicked"
  proof (rule ccontr)
    assume none: "\<not> ?thesis"
    then have "safe r" using declared_unresolved [OF assms] by (fastforce simp: safe_def safe_entry_def)
    from resolve_safe [OF this res [unfolded resolve_any_def]] that show False by (auto simp: x_def split: if_splits)
  qed
  have ok: "evolves r r' \<and> (\<forall>v. x = Inr v \<longrightarrow> Resolve k r' = Some (Inr v, r') \<and> (snd k = [] \<longrightarrow> v \<noteq> None))" if np: "x \<noteq> Inl Panicked"
  proof -
    have x: "x = y" "y \<noteq> Inl Panicked" using np by (auto simp: x_def split: if_splits)
    have ev: "evolves r r'" using d res x(2) unfolding resolve_any_def by (rule resolve_evolves)
    have "Resolve k r' = Some (Inr v, r') \<and> (snd k = [] \<longrightarrow> v \<noteq> None)" if v: "x = Inr v" for v
    proof -
      obtain s b where "find_binding k r' = Some (s, b)" "b_resolved b" "b_value b = v"
        using resolve_caches [OF d res [unfolded resolve_any_def x(1) [symmetric] v]] by blast
      moreover have nil: "\<not> (v = None \<and> snd k = [])" using v np by (auto simp: x_def split: if_splits)
      ultimately show ?thesis by (auto simp: Resolve_def resolve_any_def)
    qed
    then show ?thesis using ev by blast
  qed
  show ?thesis using R panic ok evolves_frame by blast
qed

definition sample_key :: "nat \<Rightarrow> key" where
  "sample_key i = (([char_of (65 + i)], ''pkg''), [])"

definition sample_ctor :: "nat \<Rightarrow> nat ctor" where
  "sample_ctor i = CNeed (sample_key i) (\<lambda>x. case x of Inl e \<Rightarrow> CFail e | Inr v \<Rightarrow> CRet (map_option Suc v))"

text \<open>Key 0 needs key 1, which is a value; keys 2 and 3 need each other.\<close>

definition sample_registry :: "nat registry" where
  "sample_registry = (let P = (\<lambda>i c r. the (Provide (fst (sample_key i)) c r)) in
     P 3 (sample_ctor 2) (P 2 (sample_ctor 3) (P 1 (CRet (Some 41)) (P 0 (sample_ctor 1) newRegistry))))"

lemma sample_keys:
  "sample_key 0 = ((''A'', ''pkg''), [])" "sample_key 1 = ((''B'', ''pkg''), [])"
  "sample_key (Suc 0) = ((''B'', ''pkg''), [])"
  "sample_key 2 = ((''C'', ''pkg''), [])" "sample_key 3 = ((''D'', ''pkg''), [])"
  by (code_simp; simp)+

lemma declared_Provide:
  assumes "declared r" and "map_of (bindings r) (T, []) = None"
  shows "declared (the (Provide T c r))"
proof -
  obtain r' where "Provide T c r = Some r'" using assms(2) by (simp add: Provide_def)
  then show ?thesis using declared.declare_step [OF assms(1) declares.provide] by simp
qed

lemma sample_registry_value:
  "sample_registry = newRegistry\<lparr>bindings := [(sample_key 0, newBinding [] (sample_ctor 1)),
     (sample_key 1, newBinding [] (CRet (Some 41))), (sample_key 2, newBinding [] (sample_ctor 3)),
     (sample_key 3, newBinding [] (sample_ctor 2))]\<rparr>"
  by (simp add: sample_registry_def Let_def Provide_def newRegistry_def sample_keys)

lemma sample_registry_declared: "declared sample_registry"
  unfolding sample_registry_def Let_def
  by (intro declared_Provide declared.new_registry)
    (simp_all add: Provide_def newRegistry_def sample_keys)

theorem resolution_total_and_cached_witness:
  "\<exists>r'. Resolve (sample_key 0) sample_registry = Some (Inr (Some 42), r') \<and>
     Resolve (sample_key 0) r' = Some (Inr (Some 42), r')"
proof -
  have v: "map_option fst (Resolve (sample_key 0) sample_registry) = Some (Inr (Some 42))"
    by code_simp
  obtain x r' where x: "Resolve (sample_key 0) sample_registry = Some (x, r')"
    "x \<noteq> Inl Panicked \<longrightarrow> (\<forall>v. x = Inr v \<longrightarrow> Resolve (sample_key 0) r' = Some (Inr v, r'))"
    using resolution_total_and_cached [OF sample_registry_declared, of "sample_key 0"] by blast
  then show ?thesis using v by auto
qed

text \<open>A provider of an unnamed interface key that returns nil: \<open>ResolveAll\<close> accepts it, and the first \<open>Resolve\<close> panics.\<close>

lemma nil_provider_panics:
  "map_option fst (resolveAll (the (ProvideValue (fst (sample_key 0)) None (newRegistry :: nat registry)))) = Some None"
  "map_option fst (Resolve (sample_key 0) (the (ProvideValue (fst (sample_key 0)) None (newRegistry :: nat registry)))) = Some (Inl Panicked)"
  by code_simp+

text \<open>
  A dependency cycle never hangs and never goes unnoticed: when the bindings
  of \<open>k0, k1, ..., kn\<close> are still to construct, each constructor starts by resolving the
  next key and the last one \<open>k0\<close> again, then resolving \<open>k0\<close> returns an error whose root
  cause is the cycle, with the whole path in order.
\<close>

theorem dependency_cycle_reported:
  assumes "declared r" and "needs_chain k0 (k0 # ks) r" and "distinct (k0 # ks)"
  shows "\<exists>e r'. Resolve k0 r = Some (Inl (Failed e), r') \<and>
    root_cause e = DependencyCycle (resolving r @ (k0 # ks) @ [k0])"
proof -
  obtain e r' where "resolve (Suc (Suc (length ks))) k0 r = Some (Inl (Failed e), r')"
    and "root_cause e = DependencyCycle (resolving r @ (k0 # ks) @ [k0])"
    using resolve_cycle [OF assms(2,3), of "Suc (length ks)"] by blast
  with Resolve_eq [OF declared_distinct_keys [OF assms(1)]] show ?thesis by fastforce
qed

theorem dependency_cycle_reported_witness:
  "\<exists>e r'. Resolve (sample_key 2) sample_registry = Some (Inl (Failed e), r') \<and>
     root_cause e = DependencyCycle [sample_key 2, sample_key 3, sample_key 2]"
proof -
  have "needs_chain (sample_key 2) [sample_key 2, sample_key 3] sample_registry"
    unfolding needs_chain.simps sample_registry_value
    by (simp add: sample_keys sample_ctor_def find_binding_def newBinding_def idle_def)
  moreover have "distinct [sample_key 2, sample_key 3]" by (simp add: sample_keys)
  moreover have "resolving sample_registry = []"
    by (simp add: sample_registry_value newRegistry_def)
  ultimately show ?thesis
    using dependency_cycle_reported [OF sample_registry_declared, of "sample_key 2" "[sample_key 3]"] by simp
qed

lemma same_fst_order:
  fixes k k' :: "'a::order \<times> 'b::preorder"
  shows "k \<le> k' \<Longrightarrow> fst k = fst k' \<Longrightarrow> snd k \<le> snd k'"
  unfolding less_eq_prod_def by auto

lemma sorted_map_snd:
  fixes ks :: "('a::linorder \<times> 'b::linorder) list"
  assumes "sorted ks" "distinct ks" "\<forall>k\<in>set ks. fst k = T"
  shows "sorted (map snd ks) \<and> distinct (map snd ks)"
proof -
  have "inj_on snd (set ks)" using assms(3) by (intro inj_onI prod_eqI) simp_all
  moreover have "sorted_wrt (\<lambda>k k'. snd k \<le> snd k') ks"
    using assms(1) by (rule sorted_wrt_mono_rel [rotated]) (use assms(3) same_fst_order in metis)
  ultimately show ?thesis using assms(2) by (simp add: distinct_map sorted_wrt_map)
qed

lemma snd_of_fst: "snd ` {k \<in> A. fst k = T} = {n. (T, n) \<in> A}"
  by (auto simp: image_iff)

text \<open>
  Property C12. When start-up resolution succeeds, everything declared is there: each locally
  provided key is resolved, and resolving it then answers at once with the value built then, or
  panics when that value is a nil interface under an unnamed key,
  and changes nothing; and the contributions of a type come back as one entry for each
  declared name, in increasing order of name.
\<close>

theorem startup_resolution_complete:
  assumes "declared r" and "resolveAll r = Some (None, r')"
  shows "(\<forall>k\<in>fst ` set (bindings r). \<exists>b. map_of (bindings r') k = Some b \<and> b_resolved b \<and>
       Resolve k r' = Some (if b_value b = None \<and> snd k = [] then Inl Panicked else Inr (b_value b), r')) \<and>
    (\<exists>cs. ResolveContributions T r' = Inr cs \<and> sorted (map cn_name cs) \<and> distinct (map cn_name cs) \<and>
       set (map cn_name cs) = {n. (T, n) \<in> fst ` set (contributions r)})"
proof -
  have d: "distinct_keys r" using assms(1) by (rule declared_distinct_keys)
  note all = resolveAll_ok [OF d assms(2)]
  have local: "\<exists>b. map_of (bindings r') k = Some b \<and> b_resolved b \<and>
      Resolve k r' = Some (if b_value b = None \<and> snd k = [] then Inl Panicked else Inr (b_value b), r')"
    if k: "k \<in> fst ` set (bindings r)" for k
  proof -
    have "map_of (bindings r') k \<noteq> None" using k all_evolve_keys(1) [OF all(4)] by (simp add: map_of_eq_None_iff)
    then obtain b where b: "map_of (bindings r') k = Some b" by blast
    moreover have "b_resolved b" using all(1) k b by (fastforce simp: bound_in_def find_binding_def)
    ultimately show ?thesis by (auto simp: Resolve_def resolve_any_def find_binding_def)
  qed
  let ?ks = "filter (\<lambda>k. fst k = T) (sorted_keys (contributions r'))"
  have res: "(\<exists>k\<in>set ?ks. \<not> b_resolved (the (map_of (contributions r') k))) = False"
    using all(2) all_evolve_keys(2) [OF all(4)] by (auto simp: contributed_in_def)
  have sd: "sorted (map snd ?ks) \<and> distinct (map snd ?ks)"
    by (rule sorted_map_snd [of _ T]) (simp_all add: sorted_wrt_filter)
  define cs where "cs = map (\<lambda>k. let b = the (map_of (contributions r') k) in
      \<lparr>cn_name = snd k, cn_module = b_module b, cn_value = b_value b\<rparr>) ?ks"
  have "ResolveContributions T r' = Inr cs"
    by (simp only: ResolveContributions_def cs_def Let_def all(3) res not_True_eq_False if_False)
  moreover have "map cn_name cs = map snd ?ks" by (simp add: cs_def Let_def)
  moreover have "set (map snd ?ks) = {n. (T, n) \<in> fst ` set (contributions r)}"
  proof -
    have "set (map snd ?ks) = snd ` {k \<in> fst ` set (contributions r). fst k = T}"
      by (simp add: all_evolve_keys(2) [OF all(4)])
    also have "... = {n. (T, n) \<in> fst ` set (contributions r)}" by (simp only: snd_of_fst)
    finally show ?thesis .
  qed
  ultimately have "ResolveContributions T r' = Inr cs \<and> sorted (map cn_name cs) \<and>
      distinct (map cn_name cs) \<and> set (map cn_name cs) = {n. (T, n) \<in> fst ` set (contributions r)}"
    using sd by simp
  then show ?thesis using local by blast
qed

definition small_registry :: "nat registry" where
  "small_registry = (let P = (\<lambda>i c r. the (Provide (fst (sample_key i)) c r)) in
     P 1 (CRet (Some 41)) (P 0 (sample_ctor 1) newRegistry))"

theorem startup_resolution_complete_witness:
  "\<exists>r'. resolveAll small_registry = Some (None, r') \<and> Resolve (sample_key 0) r' = Some (Inr (Some 42), r')"
proof -
  have decl: "declared small_registry"
    unfolding small_registry_def Let_def
    by (intro declared_Provide declared.new_registry)
      (simp_all add: Provide_def newRegistry_def sample_keys)
  have "map_option (\<lambda>(x, r'). (x, map_option b_value (map_of (bindings r') (sample_key 0)))) (resolveAll small_registry) =
      Some (None, Some (Some 42))" by code_simp
  then obtain r' where r': "resolveAll small_registry = Some (None, r')"
    and v: "map_option b_value (map_of (bindings r') (sample_key 0)) = Some (Some 42)" by auto
  have "sample_key 0 \<in> fst ` set (bindings small_registry)"
    by (simp add: small_registry_def Provide_def newRegistry_def sample_keys)
  then obtain b where "map_of (bindings r') (sample_key 0) = Some b"
    "Resolve (sample_key 0) r' = Some (if b_value b = None \<and> snd (sample_key 0) = [] then Inl Panicked else Inr (b_value b), r')"
    using startup_resolution_complete [OF decl r'] by blast
  then show ?thesis using v r' by auto
qed

end
