(* ===== verification/Http_Headers.thy ===== *)
theory Http_Headers
  imports Prelude
begin

text \<open>
  The parts of \<open>net/http.Header\<close> and \<open>strings.EqualFold\<close> that the security boundary, the
  service authentication and the idempotency middleware rely on. A header map is an
  association list in the order a range happens to visit it; the theorems hold for
  every such order.
\<close>

type_synonym headers = "(string \<times> string list) list"

definition lower_byte :: "char \<Rightarrow> char" where
  "lower_byte c = (if is_upper c then char_of (of_char c + (32::nat)) else c)"

definition upper_byte :: "char \<Rightarrow> char" where
  "upper_byte c = (if is_lower c then char_of (of_char c - (32::nat)) else c)"

text \<open>
  \<open>strings.EqualFold\<close> against an ASCII string. Beside the letters themselves only
  U+017F (bytes C5 BF) folds to s and U+212A (bytes E2 84 AA) folds to k.
\<close>

fun fold_ascii :: "string \<Rightarrow> string" where
  "fold_ascii [] = []"
| "fold_ascii [c] = [lower_byte c]"
| "fold_ascii [c, d] = (if c = CHR 0xC5 \<and> d = CHR 0xBF then ''s'' else [lower_byte c, lower_byte d])"
| "fold_ascii (c # d # e # cs) =
     (if c = CHR 0xC5 \<and> d = CHR 0xBF then CHR ''s'' # fold_ascii (e # cs)
      else if c = CHR 0xE2 \<and> d = CHR 0x84 \<and> e = CHR 0xAA then CHR ''k'' # fold_ascii cs
      else lower_byte c # fold_ascii (d # e # cs))"

definition equal_fold :: "string \<Rightarrow> string \<Rightarrow> bool" where
  "equal_fold name ascii \<longleftrightarrow> fold_ascii name = map lower_byte ascii"

lemma fold_ascii_plain:
  "CHR ''s'' \<notin> set (fold_ascii name) \<Longrightarrow> CHR ''k'' \<notin> set (fold_ascii name) \<Longrightarrow>
   fold_ascii name = map lower_byte name"
  by (induction name rule: fold_ascii.induct) (auto split: if_splits)

text \<open>
  \<open>textproto.CanonicalMIMEHeaderKey\<close>: the key unchanged when it holds a byte that is not a
  token character, otherwise the first letter and the letters after a hyphen in upper
  case and the others in lower case.
\<close>

definition token_byte :: "char \<Rightarrow> bool" where
  "token_byte c \<longleftrightarrow> is_lower c \<or> is_upper c \<or> is_digit c \<or> c \<in> set ''!#$%&*+-.^_|~'' \<or> c = CHR 0x27 \<or> c = CHR 0x60"

fun canon_bytes :: "bool \<Rightarrow> string \<Rightarrow> string" where
  "canon_bytes up [] = []"
| "canon_bytes up (c # cs) = (if up then upper_byte c else lower_byte c) # canon_bytes (c = CHR ''-'') cs"

definition CanonicalHeaderKey :: "string \<Rightarrow> string" where
  "CanonicalHeaderKey s = (if list_all token_byte s then canon_bytes True s else s)"

definition header_get :: "headers \<Rightarrow> string \<Rightarrow> string" where
  "header_get h name = (case map_of h (CanonicalHeaderKey name) of Some (v # vs) \<Rightarrow> v | _ \<Rightarrow> [])"

definition header_set :: "headers \<Rightarrow> string \<Rightarrow> string \<Rightarrow> headers" where
  "header_set h name v = AList.update (CanonicalHeaderKey name) [v] h"

lemma is_upper_nat: "is_upper c \<longleftrightarrow> 65 \<le> (of_char c :: nat) \<and> (of_char c :: nat) \<le> 90"
  and is_lower_nat: "is_lower c \<longleftrightarrow> 97 \<le> (of_char c :: nat) \<and> (of_char c :: nat) \<le> 122"
  by (simp_all add: is_upper_def is_lower_def less_eq_char_def)

lemma of_char_lower: "(of_char (lower_byte c) :: nat) = (if is_upper c then of_char c + 32 else of_char c)"
  by (simp add: lower_byte_def is_upper_nat)

lemma is_lower_lower [simp]: "is_lower (lower_byte c) = (is_lower c \<or> is_upper c)"
  by (auto simp: is_lower_nat is_upper_nat of_char_lower)

lemma is_upper_lower [simp]: "\<not> is_upper (lower_byte c)"
  by (auto simp: is_upper_nat of_char_lower)

lemma lower_lower [simp]: "lower_byte (lower_byte c) = lower_byte c"
  by (simp add: lower_byte_def [of "lower_byte c"])

lemma upper_lower [simp]: "upper_byte (lower_byte c) = upper_byte c"
  by (auto simp: upper_byte_def lower_byte_def is_lower_nat is_upper_nat)

lemma lower_eq_iff: "\<not> is_lower d \<Longrightarrow> \<not> is_upper d \<Longrightarrow> lower_byte c = d \<longleftrightarrow> c = d"
  by (metis is_lower_lower lower_byte_def)

lemma lower_byte_hyphen [simp]: "(lower_byte c = CHR ''-'') = (c = CHR ''-'')"
  by (rule lower_eq_iff) (simp_all add: is_lower_nat is_upper_nat)

lemma token_byte_lower [simp]: "token_byte (lower_byte c) = token_byte c"
proof (cases "is_upper c")
  case True
  then show ?thesis by (simp add: token_byte_def)
qed (simp add: lower_byte_def)

lemma canon_bytes_lower: "canon_bytes up (map lower_byte s) = canon_bytes up s"
  by (induction s arbitrary: up) simp_all

lemma equal_fold_canonical:
  assumes "equal_fold name ascii" and "CHR ''s'' \<notin> set (map lower_byte ascii)"
    and "CHR ''k'' \<notin> set (map lower_byte ascii)"
  shows "CanonicalHeaderKey name = CanonicalHeaderKey ascii \<or> \<not> list_all token_byte ascii"
proof -
  have eq: "map lower_byte name = map lower_byte ascii"
    using fold_ascii_plain [of name] assms by (simp add: equal_fold_def)
  have "list_all token_byte name = list_all token_byte (map lower_byte name)"
    by (simp add: list.pred_map comp_def)
  also have "... = list_all token_byte ascii" unfolding eq by (simp add: list.pred_map comp_def)
  finally show ?thesis
    using canon_bytes_lower [of True name] canon_bytes_lower [of True ascii] eq
    by (simp add: CanonicalHeaderKey_def)
qed

end
