(* ===== verification/Security.thy ===== *)
theory Security
  imports Registry Call_Context Http_Headers
begin

text \<open>
  Permissions and route security of the root package (permission.go, security.go). A
  request is its context and its header map; a handler is the guards wrapped around the
  module's own \<open>http.Handler\<close>, and serving it either answers with a problem or reaches
  that handler. Times are nanoseconds since Go's zero time, so \<open>IsZero\<close> is \<open>= 0\<close>;
  \<open>time.Since\<close> saturates at the ends of \<open>int64\<close>, which no comparison below can tell.
\<close>

record request =
  rq_ctx :: ctx
  rq_header :: headers

subsection \<open>permission.go\<close>

definition stepUpMaxAge :: int where "stepUpMaxAge = 5 * 60 * 10 ^ 9"

definition WithActor :: "ctx \<Rightarrow> actor \<Rightarrow> ctx" where
  "WithActor c a = c\<lparr>v_actor := Some (Some a)\<rparr>"

definition ActorFrom :: "ctx \<Rightarrow> actor option" where
  "ActorFrom c = (case v_actor c of Some (Some a) \<Rightarrow> Some a | _ \<Rightarrow> None)"

definition clearActor :: "ctx \<Rightarrow> ctx" where
  "clearActor c = c\<lparr>v_actor := Some None\<rparr>"

definition Check :: "ctx \<Rightarrow> string \<Rightarrow> bool" where
  "Check c code = (case ActorFrom c of Some a \<Rightarrow> code \<in> set (Perms a) | None \<Rightarrow> False)"

fun declare_perms :: "permDecl list \<Rightarrow> 'v registry \<Rightarrow> 'v registry option" where
  "declare_perms [] r = Some r"
| "declare_perms (d # ds) r =
     (if pd_code d = [] then None
      else (case map_of (permDecls r) (pd_code d) of
          Some prev \<Rightarrow> None
        | None \<Rightarrow> declare_perms ds (r\<lparr>permDecls := permDecls r @ [(pd_code d, (d, current r))]\<rparr>)))"

definition Permissions :: "permDecl list \<Rightarrow> 'v registry \<Rightarrow> 'v registry option" where
  "Permissions decls r = (if registered r then None else declare_perms decls r)"

definition PermissionDecls :: "'v registry \<Rightarrow> permDecl list" where
  "PermissionDecls r = sort_key pd_code (map (fst \<circ> snd) (permDecls r))"

text \<open>
  \<open>Require\<close> records the binding and returns the guarded handler. What the returned handler
  does with a request is \<open>serve\<close> below, which reads the declarations at request time.
\<close>

definition Require :: "string \<Rightarrow> handler \<Rightarrow> 'v registry \<Rightarrow> handler \<times> 'v registry" where
  "Require code h r = (HRequirePerm code h, r\<lparr>permBindings := permBindings r @ [(code, current r)]\<rparr>)"

definition validatePermBindings :: "'v registry \<Rightarrow> gerr option" where
  "validatePermBindings r = first_error (\<lambda>(code, m). case map_of (permDecls r) code of
     Some d \<Rightarrow> None | None \<Rightarrow> Some (Leaf (''undeclared permission '' @ code))) (permBindings r)"

subsection \<open>security.go: identities in the context\<close>

definition SecurityUnspecified :: string where "SecurityUnspecified = []"
definition SecurityDisabled :: string where "SecurityDisabled = ''disabled''"
definition SecurityUserFacing :: string where "SecurityUserFacing = ''user_facing''"
definition SecurityInternalService :: string where "SecurityInternalService = ''internal_service''"
definition SecurityMixed :: string where "SecurityMixed = ''mixed''"

lemmas mode_defs [go_defs] = SecurityUnspecified_def SecurityDisabled_def SecurityUserFacing_def
  SecurityInternalService_def SecurityMixed_def

definition validateSecurityMode :: "string \<Rightarrow> gerr option" where
  "validateSecurityMode mode =
     (if mode \<in> {SecurityDisabled, SecurityUserFacing, SecurityInternalService, SecurityMixed} then None
      else if mode = SecurityUnspecified then Some (Leaf ''security mode not declared'')
      else Some (Leaf (''unknown security mode '' @ mode)))"

definition zero_principal :: principal where
  "zero_principal = \<lparr>Subject = [], Issuer = [], Audience = [], KeyID = [], IssuedAt = 0, ExpiresAt = 0,
     PrincipalTenant = [], MerchantID = []\<rparr>"

definition UntrustedIdentityHeadersFrom :: "ctx \<Rightarrow> headers" where
  "UntrustedIdentityHeadersFrom c = v_untrusted c"

definition WithServicePrincipal :: "ctx \<Rightarrow> principal \<Rightarrow> ctx" where
  "WithServicePrincipal c p = c\<lparr>v_principal := Some p\<rparr>"

definition ServicePrincipalFrom :: "ctx \<Rightarrow> principal \<times> bool" where
  "ServicePrincipalFrom c = (case v_principal c of
     Some p \<Rightarrow> (p, Subject p \<noteq> []) | None \<Rightarrow> (zero_principal, False))"

definition WithIdentityExpiry :: "ctx \<Rightarrow> int \<Rightarrow> ctx" where
  "WithIdentityExpiry c t = c\<lparr>v_expiry := Some t\<rparr>"

definition IdentityExpiryFrom :: "ctx \<Rightarrow> int \<times> bool" where
  "IdentityExpiryFrom c = (case v_expiry c of Some t \<Rightarrow> (t, t \<noteq> 0) | None \<Rightarrow> (0, False))"

subsection \<open>Mounting\<close>

text \<open>A nil handler panics.\<close>

definition mount :: "string \<Rightarrow> handler option \<Rightarrow> routeSecurity \<Rightarrow> string \<Rightarrow> 'v registry \<Rightarrow> 'v registry option" where
  "mount pattern h security permission r = (case h of
     None \<Rightarrow> None
   | Some g \<Rightarrow> Some (r\<lparr>mounts := mounts r @ [\<lparr>m_pattern = pattern, m_handler = g, m_module = current r,
        m_security = security, m_permission = permission\<rparr>]\<rparr>))"

definition Mount :: "string \<Rightarrow> handler option \<Rightarrow> 'v registry \<Rightarrow> 'v registry option" where
  "Mount pattern h r = mount pattern h RouteUnclassified [] r"

definition MountPublic :: "string \<Rightarrow> handler option \<Rightarrow> 'v registry \<Rightarrow> 'v registry option" where
  "MountPublic pattern h r = mount pattern h RoutePublic [] r"

definition MountAuthenticated :: "string \<Rightarrow> handler option \<Rightarrow> 'v registry \<Rightarrow> 'v registry option" where
  "MountAuthenticated pattern h r = (case h of None \<Rightarrow> None
     | Some g \<Rightarrow> mount pattern (Some (HRequireUser g)) RouteAuthenticated [] r)"

definition MountPermission :: "string \<Rightarrow> string \<Rightarrow> handler option \<Rightarrow> 'v registry \<Rightarrow> 'v registry option" where
  "MountPermission pattern code h r = (case h of None \<Rightarrow> None
     | Some g \<Rightarrow> (case Require code g r of (h', r') \<Rightarrow> mount pattern (Some h') RoutePermission code r'))"

definition MountInternalService :: "string \<Rightarrow> handler option \<Rightarrow> 'v registry \<Rightarrow> 'v registry option" where
  "MountInternalService pattern h r = (case h of None \<Rightarrow> None
     | Some g \<Rightarrow> mount pattern (Some (HRequireService g)) RouteInternalService [] r)"

datatype served = Answered gerr | Reached nat

fun serve :: "'v registry \<Rightarrow> int \<Rightarrow> handler \<Rightarrow> request \<Rightarrow> served" where
  "serve r now (HRaw n) req = Reached n"
| "serve r now (HRequireUser h) req = (case ActorFrom (rq_ctx req) of
     None \<Rightarrow> Answered (Unauthenticated ''authentication required'')
   | Some a \<Rightarrow> if UserID a = [] then Answered (Unauthenticated ''authentication required'')
       else serve r now h req)"
| "serve r now (HRequireService h) req =
     (if \<not> snd (ServicePrincipalFrom (rq_ctx req))
      then Answered (Unauthenticated ''service authentication required'')
      else serve r now h req)"
| "serve r now (HRequirePerm code h) req = (case ActorFrom (rq_ctx req) of
     None \<Rightarrow> Answered (Unauthenticated ''authentication required'')
   | Some a \<Rightarrow>
       if UserID a = [] then Answered (Unauthenticated ''authentication required'')
       else if code \<notin> set (Perms a)
         then Answered (with_detail ''required'' (DStr code) (PermissionDenied ''permission denied''))
       else (case map_of (permDecls r) code of
           Some (d, m) \<Rightarrow>
             if pd_challenge d \<and> now - StepUpAt a > stepUpMaxAge
             then Answered (with_detail ''required'' (DStr code) (StepUpRequired ''step-up authentication required''))
             else serve r now h req
         | None \<Rightarrow> serve r now h req))"

datatype routeProblem =
    NotClassified string string
  | InternalOnUserFacing string string
  | UserOnInternal string string
  | PprofOnUserFacing

definition route_problem :: "string \<Rightarrow> mountReg \<Rightarrow> routeProblem option" where
  "route_problem mode m =
     (if m_security m = RouteUnclassified then Some (NotClassified (m_module m) (m_pattern m))
      else if mode = SecurityUserFacing \<and> m_security m = RouteInternalService
        then Some (InternalOnUserFacing (m_module m) (m_pattern m))
      else if mode = SecurityInternalService \<and> (m_security m = RouteAuthenticated \<or> m_security m = RoutePermission)
        then Some (UserOnInternal (m_module m) (m_pattern m))
      else None)"

text \<open>The problems found, in order; an error exactly when there are some.\<close>

definition validateRouteSecurity :: "string \<Rightarrow> bool \<Rightarrow> 'v registry \<Rightarrow> routeProblem list" where
  "validateRouteSecurity mode pprof r =
     (if mode = SecurityDisabled then []
      else List.map_filter (route_problem mode) (mounts r) @
        (if pprof \<and> mode = SecurityUserFacing then [PprofOnUserFacing] else []))"

subsection \<open>The identity boundary\<close>

definition HeaderMerchantID :: string where "HeaderMerchantID = ''X-Merchant-Id''"

definition identity_headers :: "string list" where
  "identity_headers = [HeaderPartition, HeaderTenantID, HeaderCaller, HeaderMerchantID]"

definition note_identity :: "string \<Rightarrow> string list \<Rightarrow> headers \<Rightarrow> string \<Rightarrow> headers" where
  "note_identity name values acc identity =
     (if equal_fold name identity then
        let key = CanonicalHeaderKey identity in
        AList.update key ((case map_of acc key of Some vs \<Rightarrow> vs | None \<Rightarrow> []) @ values) acc
      else acc)"

definition untrusted_headers :: "headers \<Rightarrow> headers" where
  "untrusted_headers h = foldl (\<lambda>acc (name, values). foldl (note_identity name values) acc identity_headers) [] h"

definition strip_identity :: "request \<Rightarrow> request" where
  "strip_identity req = (let
     untrusted = untrusted_headers (rq_header req);
     m = (ctx_from (rq_ctx req))\<lparr>Partition := [], TenantID := [], Caller := []\<rparr>;
     c = (ctx_with (rq_ctx req) m)\<lparr>v_untrusted := untrusted\<rparr>;
     c = clearActor c;
     c = WithServicePrincipal c zero_principal;
     c = WithIdentityExpiry c 0
   in \<lparr>rq_ctx = c, rq_header = filter (\<lambda>(name, vs). map_of untrusted (CanonicalHeaderKey name) = None) (rq_header req)\<rparr>)"

definition identityBoundary :: "(request \<Rightarrow> 'r) \<Rightarrow> request \<Rightarrow> 'r" where
  "identityBoundary next req = next (strip_identity req)"

subsection \<open>What the boundary leaves\<close>

definition is_identity :: "string \<Rightarrow> bool" where
  "is_identity name \<longleftrightarrow> list_ex (equal_fold name) identity_headers"

lemma canonical_identity [simp]:
  "CanonicalHeaderKey HeaderPartition = HeaderPartition"
  "CanonicalHeaderKey HeaderTenantID = HeaderTenantID"
  "CanonicalHeaderKey HeaderCaller = HeaderCaller"
  "CanonicalHeaderKey HeaderMerchantID = HeaderMerchantID"
  by (code_simp)+

lemma identity_distinct [simp]:
  "HeaderPartition \<noteq> HeaderTenantID" "HeaderPartition \<noteq> HeaderCaller" "HeaderPartition \<noteq> HeaderMerchantID"
  "HeaderTenantID \<noteq> HeaderPartition" "HeaderTenantID \<noteq> HeaderCaller" "HeaderTenantID \<noteq> HeaderMerchantID"
  "HeaderCaller \<noteq> HeaderPartition" "HeaderCaller \<noteq> HeaderTenantID" "HeaderCaller \<noteq> HeaderMerchantID"
  "HeaderMerchantID \<noteq> HeaderPartition" "HeaderMerchantID \<noteq> HeaderTenantID" "HeaderMerchantID \<noteq> HeaderCaller"
  by (code_simp)+

lemma identity_plain:
  "i \<in> set identity_headers \<Longrightarrow> list_all token_byte i \<and> CHR ''s'' \<notin> set (map lower_byte i) \<and>
     CHR ''k'' \<notin> set (map lower_byte i) \<and> CanonicalHeaderKey i = i"
proof -
  have "list_all (\<lambda>i. list_all token_byte i \<and> CHR ''s'' \<notin> set (map lower_byte i) \<and>
     CHR ''k'' \<notin> set (map lower_byte i) \<and> CanonicalHeaderKey i = i) identity_headers" by code_simp
  then show "i \<in> set identity_headers \<Longrightarrow> ?thesis" by (simp add: list_all_iff)
qed

lemma lookup_note:
  "map_of (note_identity name values acc i) k =
     (if equal_fold name i \<and> k = CanonicalHeaderKey i
      then Some ((case map_of acc k of Some vs \<Rightarrow> vs | None \<Rightarrow> []) @ values) else map_of acc k)"
  by (auto simp: note_identity_def Let_def)

lemma lookup_note_all:
  "map_of (foldl (note_identity name values) acc identity_headers) k =
     (if k \<in> set identity_headers \<and> equal_fold name k
      then Some ((case map_of acc k of Some vs \<Rightarrow> vs | None \<Rightarrow> []) @ values) else map_of acc k)"
  by (auto simp: identity_headers_def lookup_note)

definition values_of :: "headers \<Rightarrow> string \<Rightarrow> string list" where
  "values_of h i = concat (map snd (filter (\<lambda>(name, vs). equal_fold name i) h))"

lemma lookup_untrusted_from:
  "map_of (foldl (\<lambda>acc (name, values). foldl (note_identity name values) acc identity_headers) acc h) k =
     (if k \<in> set identity_headers \<and> list_ex (\<lambda>(name, vs). equal_fold name k) h
      then Some ((case map_of acc k of Some vs \<Rightarrow> vs | None \<Rightarrow> []) @ values_of h k) else map_of acc k)"
proof (induction h arbitrary: acc)
  case (Cons x h)
  obtain name vals where x: "x = (name, vals)" by force
  show ?case unfolding x foldl_Cons prod.case Cons.IH
    by (auto simp: lookup_note_all values_of_def list_ex_iff split: option.splits)
qed simp

lemma lookup_untrusted:
  "map_of (untrusted_headers h) k =
     (if k \<in> set identity_headers \<and> list_ex (\<lambda>(name, vs). equal_fold name k) h
      then Some (values_of h k) else None)"
  unfolding untrusted_headers_def lookup_untrusted_from by simp

lemma token_ascii: "token_byte c \<Longrightarrow> (of_char c :: nat) < 128"
  by (auto simp: token_byte_def is_lower_nat is_upper_nat is_digit_def less_eq_char_def)

lemma fold_ascii_token: "list_all token_byte s \<Longrightarrow> fold_ascii s = map lower_byte s"
proof -
  have "token_byte c \<Longrightarrow> c \<noteq> CHR 0xC5 \<and> c \<noteq> CHR 0xE2" for c using token_ascii [of c] by auto
  then show "list_all token_byte s \<Longrightarrow> ?thesis"
    by (induction s rule: fold_ascii.induct) auto
qed

lemma lower_upper [simp]: "lower_byte (upper_byte c) = lower_byte c"
  by (auto simp: upper_byte_def lower_byte_def is_lower_nat is_upper_nat)

lemma lower_canon: "map lower_byte (canon_bytes up s) = map lower_byte s"
  by (induction s arbitrary: up) simp_all

lemma equal_fold_identity:
  assumes "i \<in> set identity_headers"
  shows "equal_fold name i \<longleftrightarrow> CanonicalHeaderKey name = i"
proof
  assume "equal_fold name i"
  then show "CanonicalHeaderKey name = i"
    using equal_fold_canonical [of name i] identity_plain [OF assms] by auto
next
  assume c: "CanonicalHeaderKey name = i"
  have t: "list_all token_byte name"
    using c identity_plain [OF assms] by (auto simp: CanonicalHeaderKey_def split: if_splits)
  then have "canon_bytes True name = i" using c by (simp add: CanonicalHeaderKey_def)
  then show "equal_fold name i"
    using lower_canon [of True name] by (simp add: equal_fold_def fold_ascii_token [OF t])
qed

lemma strip_header:
  "rq_header (strip_identity req) = filter (\<lambda>(name, vs). \<not> is_identity name) (rq_header req)"
proof -
  have "map_of (untrusted_headers (rq_header req)) (CanonicalHeaderKey name) = None \<longleftrightarrow> \<not> is_identity name"
    if "(name, vs) \<in> set (rq_header req)" for name vs
    using that equal_fold_identity
    by (auto simp: lookup_untrusted is_identity_def list_ex_iff)
  then show ?thesis
    by (auto simp: strip_identity_def Let_def intro!: filter_cong)
qed

fun guarded :: "handler \<Rightarrow> bool" where
  "guarded (HRaw n) = False"
| "guarded _ = True"

definition unauthenticated :: "served \<Rightarrow> bool" where
  "unauthenticated s \<longleftrightarrow> (case s of Answered e \<Rightarrow> ecode e = CodeUnauthenticated \<and> estatus e = 401 | Reached n \<Rightarrow> False)"

text \<open>
  Property C2. The outermost boundary of every strict mode removes all identity a request
  arrives with. Behind it the context has only the request id of the metadata, no actor,
  no service principal and no identity expiry; the header map has exactly the entries
  whose name is not one of the four identity headers, whatever their case; the snapshot
  handed to the service verifier has every value of such a header. So a request that no
  verifier has authenticated since is refused by every guarded handler with 401.
\<close>

theorem boundary_strips_identity:
  "(let req' = strip_identity req in
     identityBoundary next req = next req' \<and>
     ctx_from (rq_ctx req') = zero_meta\<lparr>RequestID := RequestID (ctx_from (rq_ctx req))\<rparr> \<and>
     ActorFrom (rq_ctx req') = None \<and> \<not> snd (ServicePrincipalFrom (rq_ctx req')) \<and>
     \<not> snd (IdentityExpiryFrom (rq_ctx req')) \<and> (\<forall>code. \<not> Check (rq_ctx req') code) \<and>
     rq_header req' = filter (\<lambda>(name, vs). \<not> is_identity name) (rq_header req) \<and>
     (\<forall>k. map_of (UntrustedIdentityHeadersFrom (rq_ctx req')) k =
        (if k \<in> set identity_headers \<and> list_ex (\<lambda>(name, vs). equal_fold name k) (rq_header req)
         then Some (values_of (rq_header req) k) else None)) \<and>
     unauthenticated (serve r now (HRequireUser h) req') \<and>
     unauthenticated (serve r now (HRequirePerm code h) req') \<and>
     unauthenticated (serve r now (HRequireService h) req'))"
  by (simp add: Let_def identityBoundary_def strip_header lookup_untrusted UntrustedIdentityHeadersFrom_def)
    (simp add: strip_identity_def Let_def ctx_with_def ctx_from_def clearActor_def WithServicePrincipal_def
      WithIdentityExpiry_def ActorFrom_def ServicePrincipalFrom_def IdentityExpiryFrom_def zero_principal_def
      Check_def unauthenticated_def go_defs lookup_untrusted zero_meta_def)

subsection \<open>Guards\<close>

lemma serve_perm_reached:
  "serve r now (HRequirePerm code h) req = Reached n \<longleftrightarrow> (\<exists>a. ActorFrom (rq_ctx req) = Some a \<and>
     UserID a \<noteq> [] \<and> code \<in> set (Perms a) \<and>
     (case map_of (permDecls r) code of Some (d, m) \<Rightarrow> pd_challenge d \<longrightarrow> now - StepUpAt a \<le> stepUpMaxAge
        | None \<Rightarrow> True) \<and> serve r now h req = Reached n)"
  by (auto split: option.splits)

lemma serve_user_reached:
  "serve r now (HRequireUser h) req = Reached n \<longleftrightarrow>
     (\<exists>a. ActorFrom (rq_ctx req) = Some a \<and> UserID a \<noteq> [] \<and> serve r now h req = Reached n)"
  by (auto split: option.splits)

lemma serve_service_reached:
  "serve r now (HRequireService h) req = Reached n \<longleftrightarrow>
     snd (ServicePrincipalFrom (rq_ctx req)) \<and> serve r now h req = Reached n"
  by auto

lemmas serve_reached = serve_perm_reached serve_user_reached serve_service_reached

text \<open>
  The permission guard answers by the first rule that applies: no actor or an
  empty user is 401, a missing code is 403 with the code as detail, a challenge code
  whose step-up proof is older than five minutes is the step-up error with the code; only
  otherwise, and always then, the wrapped handler is served.
\<close>

theorem require_decides:
  "serve r now (fst (Require code h r0)) req =
     (if case ActorFrom (rq_ctx req) of None \<Rightarrow> True | Some a \<Rightarrow> UserID a = []
      then Answered (AppErr ''UNAUTHENTICATED'' 401 ''authentication required'' [] None)
      else let a = the (ActorFrom (rq_ctx req)) in
        if code \<notin> set (Perms a)
        then Answered (AppErr ''PERMISSION_DENIED'' 403 ''permission denied'' [(''required'', DStr code)] None)
        else if (case map_of (permDecls r) code of Some (d, m) \<Rightarrow> pd_challenge d | None \<Rightarrow> False)
            \<and> StepUpAt a + 300000000000 < now
        then Answered (AppErr ''STEP_UP_REQUIRED'' 403 ''step-up authentication required''
               [(''required'', DStr code)] None)
        else serve r now h req)"
  by (auto simp: Require_def Let_def go_defs stepUpMaxAge_def split: option.splits)

subsection \<open>The label of a route is the guard it has\<close>

inductive mounting :: "'v registry \<Rightarrow> 'v registry \<Rightarrow> bool" where
  plain: "Mount pattern h r = Some r' \<Longrightarrow> mounting r r'"
| public: "MountPublic pattern h r = Some r' \<Longrightarrow> mounting r r'"
| authenticated: "MountAuthenticated pattern h r = Some r' \<Longrightarrow> mounting r r'"
| permission: "MountPermission pattern code h r = Some r' \<Longrightarrow> mounting r r'"
| internal: "MountInternalService pattern h r = Some r' \<Longrightarrow> mounting r r'"
| require: "mounting r (snd (Require code h r))"
| permissions: "Permissions decls r = Some r' \<Longrightarrow> mounting r r'"

inductive mounted :: "'v registry \<Rightarrow> bool" where
  new_registry: "mounted newRegistry"
| module_turn: "mounted r \<Longrightarrow> mounted (r\<lparr>current := m, registeringModule := b, registered := c\<rparr>)"
| mount_step: "mounted r \<Longrightarrow> mounting r r' \<Longrightarrow> mounted r'"
| dependency: "mounted r \<Longrightarrow> declares r r' \<Longrightarrow> mounted r'"

definition label_ok :: "(string \<times> string) list \<Rightarrow> mountReg \<Rightarrow> bool" where
  "label_ok binds m = (case m_security m of
     RouteUnclassified \<Rightarrow> True
   | RoutePublic \<Rightarrow> True
   | RouteAuthenticated \<Rightarrow> (\<exists>h. m_handler m = HRequireUser h)
   | RoutePermission \<Rightarrow> (\<exists>h. m_handler m = HRequirePerm (m_permission m) h) \<and> m_permission m \<in> fst ` set binds
   | RouteInternalService \<Rightarrow> (\<exists>h. m_handler m = HRequireService h))"

definition labels_ok :: "'v registry \<Rightarrow> bool" where
  "labels_ok r \<longleftrightarrow> list_all (label_ok (permBindings r)) (mounts r)"

lemma labels_ok_more:
  "list_all (label_ok b) ms \<Longrightarrow> set b \<subseteq> set b' \<Longrightarrow> list_all (label_ok b') ms"
  by (auto simp: list_all_iff label_ok_def split: routeSecurity.splits)

lemma declare_perms_frame:
  "declare_perms ds r = Some r' \<Longrightarrow> mounts r' = mounts r \<and> permBindings r' = permBindings r"
  by (induction ds arbitrary: r) (fastforce split: if_splits option.splits)+

lemma mount_labels_ok:
  assumes "labels_ok r" and "mount p (Some h) s c r0 = Some r'"
    and "mounts r0 = mounts r" "set (permBindings r) \<subseteq> set (permBindings r0)"
    and "label_ok (permBindings r0) \<lparr>m_pattern = p, m_handler = h, m_module = current r0, m_security = s, m_permission = c\<rparr>"
  shows "labels_ok r'"
  using assms labels_ok_more [of "permBindings r" "mounts r" "permBindings r0"]
  by (auto simp: labels_ok_def mount_def)

lemma mounting_labels_ok: "mounting r r' \<Longrightarrow> labels_ok r \<Longrightarrow> labels_ok r'"
proof (induction rule: mounting.induct)
  case (permission pattern code h r r')
  then show ?case
    by (auto simp: MountPermission_def Require_def split: option.splits
        elim!: mount_labels_ok simp: label_ok_def)
next
  case (require r code h)
  then show ?case
    using labels_ok_more [of "permBindings r" "mounts r" "permBindings r @ [(code, current r)]"]
    by (auto simp: Require_def labels_ok_def)
next
  case (permissions decls r r')
  then show ?case
    using declare_perms_frame [of decls r r'] by (auto simp: Permissions_def labels_ok_def split: if_splits)
qed (auto simp: Mount_def MountPublic_def MountAuthenticated_def MountInternalService_def mount_def
    labels_ok_def label_ok_def split: option.splits)

lemma declares_routes:
  "declares r r' \<Longrightarrow> mounts r' = mounts r \<and> permBindings r' = permBindings r \<and> permDecls r' = permDecls r"
  by (erule declares.cases)
    (auto simp: ProvideContract_def ProvideContractNamed_def Remote_def dest!: declare_dests split: option.splits)

lemma mounted_labels_ok: "mounted r \<Longrightarrow> labels_ok r"
proof (induction rule: mounted.induct)
  case new_registry then show ?case by (simp add: labels_ok_def newRegistry_def)
next
  case (module_turn r m b c) then show ?case by (simp add: labels_ok_def)
next
  case (mount_step r r') then show ?case by (blast intro: mounting_labels_ok)
next
  case (dependency r r') then show ?case using declares_routes [of r r'] by (simp add: labels_ok_def)
qed

text \<open>
  Property C1. When the two start-up validations pass in a strict mode, no route is open by
  accident: whatever the modules mounted, a request reaches a module's own handler only
  through a route declared public, or with an authenticated user, or with a user holding
  the declared permission code of the route (and a fresh step-up proof where the
  declaration asks for one), or with a verified service principal; user routes do not
  exist in internal-service mode, nor service routes in user-facing mode.
\<close>

theorem mounted_routes_guarded:
  assumes "mounted r" and "validateSecurityMode mode = None" and "mode \<noteq> SecurityDisabled"
    and "validateRouteSecurity mode pprof r = []" and "validatePermBindings r = None"
    and "m \<in> set (mounts r)" and "serve r now (m_handler m) req = Reached n"
  shows "m_security m \<noteq> RouteUnclassified \<and>
    (m_security m \<in> {RouteAuthenticated, RoutePermission} \<longrightarrow> mode \<noteq> SecurityInternalService \<and>
       (\<exists>a. ActorFrom (rq_ctx req) = Some a \<and> UserID a \<noteq> [])) \<and>
    (m_security m = RoutePermission \<longrightarrow> Check (rq_ctx req) (m_permission m) \<and>
       (\<exists>d md. map_of (permDecls r) (m_permission m) = Some (d, md) \<and>
          (pd_challenge d \<longrightarrow> now - StepUpAt (the (ActorFrom (rq_ctx req))) \<le> stepUpMaxAge))) \<and>
    (m_security m = RouteInternalService \<longrightarrow> mode \<noteq> SecurityUserFacing \<and>
       snd (ServicePrincipalFrom (rq_ctx req)))"
proof -
  have label: "label_ok (permBindings r) m"
    using mounted_labels_ok [OF assms(1)] assms(6) by (auto simp: labels_ok_def list_all_iff)
  have "List.map_filter (route_problem mode) (mounts r) = []"
    using assms(3,4) by (simp add: validateRouteSecurity_def)
  then have "route_problem mode m = None"
    using assms(6) by (auto simp: map_filter_def filter_empty_conv)
  then have p: "m_security m \<noteq> RouteUnclassified"
      "m_security m = RouteInternalService \<Longrightarrow> mode \<noteq> SecurityUserFacing"
      "m_security m \<in> {RouteAuthenticated, RoutePermission} \<Longrightarrow> mode \<noteq> SecurityInternalService"
    by (auto simp: route_problem_def split: if_splits)
  have codes: "\<exists>d md. map_of (permDecls r) c = Some (d, md)" if "c \<in> fst ` set (permBindings r)" for c
    using assms(5) that by (force simp: validatePermBindings_def first_error_None_iff split: option.splits)
  show ?thesis
  proof (cases "m_security m")
    case RoutePermission
    then obtain h where h: "m_handler m = HRequirePerm (m_permission m) h"
      and c: "m_permission m \<in> fst ` set (permBindings r)" using label by (auto simp: label_ok_def)
    obtain d md where d: "map_of (permDecls r) (m_permission m) = Some (d, md)" using codes [OF c] by blast
    from assms(7) h d p RoutePermission show ?thesis by (auto simp: Check_def split: option.splits if_splits)
  qed (use label assms(7) p in \<open>auto simp: label_ok_def split: option.splits if_splits\<close>)
qed

definition sample_decl :: permDecl where
  "sample_decl = \<lparr>pd_code = ''roles:delete'', pd_name = [], pd_category = [], pd_description = [], pd_challenge = True\<rparr>"

definition sample_routes :: "nat registry" where
  "sample_routes = the (MountPermission ''/roles'' ''roles:delete'' (Some (HRaw 7))
     (the (Permissions [sample_decl] newRegistry)))"

definition sample_admin :: request where
  "sample_admin = \<lparr>rq_ctx = WithActor background
     \<lparr>UserID = ''u1'', ActorTenant = [], Perms = [''roles:delete''], StepUpAt = 1000\<rparr>, rq_header = []\<rparr>"

theorem mounted_routes_guarded_witness:
  "Check (rq_ctx sample_admin) ''roles:delete''"
proof -
  have 1: "mounted (the (Permissions [sample_decl] newRegistry) :: nat registry)"
    by (rule mounted.mount_step [OF mounted.new_registry mounting.permissions [of "[sample_decl]"]])
      (simp add: Permissions_def newRegistry_def sample_decl_def)
  have 2: "mounted sample_routes" unfolding sample_routes_def
    by (rule mounted.mount_step [OF 1 mounting.permission [of "''/roles''" "''roles:delete''" "Some (HRaw 7)"]])
      (simp add: MountPermission_def mount_def Require_def)
  let ?m = "hd (mounts sample_routes)"
  have m: "?m \<in> set (mounts sample_routes) \<and> m_security ?m = RoutePermission \<and> m_permission ?m = ''roles:delete''"
    by code_simp
  have v: "validateSecurityMode SecurityMixed = None" "SecurityMixed \<noteq> SecurityDisabled"
    "validateRouteSecurity SecurityMixed True sample_routes = []" "validatePermBindings sample_routes = None"
    "serve sample_routes 2000 (m_handler ?m) sample_admin = Reached 7"
    by code_simp+
  show ?thesis using mounted_routes_guarded [OF 2 v(1,2,3,4) _ v(5)] m by simp
qed

end
