(* ===== verification/Host_State.thy ===== *)
theory Host_State
  imports Prelude "HOL-Library.Product_Lexorder"
begin

text \<open>
  The lifecycle state of managed services and the process-wide aggregate of it
  (internal/hoststate/state.go). The two mutexes make each operation atomic, so the
  package's state is a list of service instances with the map \<open>current.values\<close>, changed
  by one \<open>NewService\<close> or \<open>Transition\<close> at a time.
\<close>

type_synonym state_name = string
type_synonym count_key = "string \<times> string \<times> state_name"
type_synonym state_counts = "(count_key \<times> int) list"

definition StateCreated :: state_name where "StateCreated = ''created''"
definition StateStarting :: state_name where "StateStarting = ''starting''"
definition StateRunning :: state_name where "StateRunning = ''running''"
definition StateReady :: state_name where "StateReady = ''ready''"
definition StateFailed :: state_name where "StateFailed = ''failed''"
definition StateDraining :: state_name where "StateDraining = ''draining''"
definition StateStopping :: state_name where "StateStopping = ''stopping''"
definition StateStopped :: state_name where "StateStopped = ''stopped''"
definition StateNotStarted :: state_name where "StateNotStarted = ''not_started''"

lemmas state_defs [go_defs] = StateCreated_def StateStarting_def StateRunning_def StateReady_def
  StateFailed_def StateDraining_def StateStopping_def StateStopped_def StateNotStarted_def

record service_state =
  hs_module :: string
  hs_name :: string
  hs_state :: state_name
  hs_failed :: bool

definition valid_state :: "state_name \<Rightarrow> bool" where
  "valid_state s \<longleftrightarrow> s \<in> {StateCreated, StateStarting, StateRunning, StateReady, StateFailed,
     StateDraining, StateStopping, StateStopped, StateNotStarted}"

text \<open>\<open>values[k]++\<close>: a missing key reads as zero.\<close>

definition count_inc :: "count_key \<Rightarrow> state_counts \<Rightarrow> state_counts" where
  "count_inc k c = AList.update k ((case map_of c k of Some n \<Rightarrow> n | None \<Rightarrow> 0) + 1) c"

definition count_dec :: "count_key \<Rightarrow> state_counts \<Rightarrow> state_counts" where
  "count_dec k c = (case map_of c k of
     None \<Rightarrow> AList.delete k c
   | Some n \<Rightarrow> if n \<le> 1 then AList.delete k c else AList.update k (n - 1) c)"

definition NewService :: "string \<Rightarrow> string \<Rightarrow> state_counts \<Rightarrow> service_state \<times> state_counts" where
  "NewService m n c = (\<lparr>hs_module = m, hs_name = n, hs_state = StateCreated, hs_failed = False\<rparr>,
     count_inc (m, n, StateCreated) c)"

definition Transition :: "state_name \<Rightarrow> service_state \<Rightarrow> state_counts \<Rightarrow> service_state \<times> state_counts" where
  "Transition nxt s c =
     (if \<not> valid_state nxt then (s, c)
      else if hs_state s = nxt \<or> (hs_failed s \<and> nxt \<noteq> StateFailed) then (s, c)
      else (let s' = (if nxt = StateFailed then s\<lparr>hs_failed := True\<rparr> else s);
                c' = count_dec (hs_module s, hs_name s, hs_state s) c;
                c'' = count_inc (hs_module s, hs_name s, nxt) c'
            in (s'\<lparr>hs_state := nxt\<rparr>, c'')))"

definition Snapshot :: "state_counts \<Rightarrow> (count_key \<times> int) list" where
  "Snapshot c = sort_key fst (filter (\<lambda>(k, n). n > 0) c)"

subsection \<open>The aggregate counts the instances\<close>

type_synonym host_world = "service_state list \<times> state_counts"

inductive host_step :: "host_world \<Rightarrow> host_world \<Rightarrow> bool" where
  new_service: "NewService m n c = (s, c') \<Longrightarrow> host_step (ss, c) (ss @ [s], c')"
| transition: "i < length ss \<Longrightarrow> Transition nxt (ss ! i) c = (s, c') \<Longrightarrow> host_step (ss, c) (ss[i := s], c')"

inductive host_reachable :: "host_world \<Rightarrow> bool" where
  initial: "host_reachable ([], [])"
| step: "host_reachable w \<Longrightarrow> host_step w w' \<Longrightarrow> host_reachable w'"

definition state_key :: "service_state \<Rightarrow> count_key" where
  "state_key s = (hs_module s, hs_name s, hs_state s)"

definition instances :: "service_state list \<Rightarrow> count_key \<Rightarrow> nat" where
  "instances ss k = length (filter (\<lambda>s. state_key s = k) ss)"

definition counts_exact :: "host_world \<Rightarrow> bool" where
  "counts_exact w \<longleftrightarrow> (case w of (ss, c) \<Rightarrow> distinct (map fst c) \<and>
     map_of c = (\<lambda>k. if instances ss k = 0 then None else Some (int (instances ss k))))"

definition failed_exact :: "service_state \<Rightarrow> bool" where
  "failed_exact s \<longleftrightarrow> (hs_failed s \<longleftrightarrow> hs_state s = StateFailed) \<and> valid_state (hs_state s)"

lemma instances_append [simp]: "instances (ss @ [s]) k = instances ss k + (if state_key s = k then 1 else 0)"
  by (simp add: instances_def)

lemma instances_update:
  "i < length ss \<Longrightarrow> instances (ss[i := s]) k + (if state_key (ss ! i) = k then 1 else 0) =
     instances ss k + (if state_key s = k then 1 else 0)"
proof -
  assume i: "i < length ss"
  have "instances ss k = instances (take i ss @ ss ! i # drop (Suc i) ss) k"
    using id_take_nth_drop [OF i] by simp
  then show ?thesis using i by (simp add: upd_conv_take_nth_drop instances_def)
qed

lemma map_of_inc: "map_of (count_inc k c) k' =
    (if k' = k then Some ((case map_of c k of Some n \<Rightarrow> n | None \<Rightarrow> 0) + 1) else map_of c k')"
  by (simp add: count_inc_def)

lemma map_of_dec: "map_of (count_dec k c) k' =
    (if k' = k then (case map_of c k of Some n \<Rightarrow> if n \<le> 1 then None else Some (n - 1) | None \<Rightarrow> None)
     else map_of c k')"
  by (auto simp: count_dec_def delete_conv' split: option.splits)

lemma distinct_inc: "distinct (map fst c) \<Longrightarrow> distinct (map fst (count_inc k c))"
  unfolding count_inc_def by (rule distinct_update)

lemma distinct_dec: "distinct (map fst c) \<Longrightarrow> distinct (map fst (count_dec k c))"
  by (auto simp: count_dec_def intro: distinct_update distinct_delete split: option.splits)

definition stays :: "state_name \<Rightarrow> service_state \<Rightarrow> bool" where
  "stays nxt s \<longleftrightarrow> \<not> valid_state nxt \<or> hs_state s = nxt \<or> hs_failed s \<and> nxt \<noteq> StateFailed"

lemma Transition_stays: "stays nxt s \<Longrightarrow> Transition nxt s c = (s, c)"
  by (auto simp: Transition_def stays_def)

lemma Transition_moves:
  "\<not> stays nxt s \<Longrightarrow> Transition nxt s c =
     (s\<lparr>hs_state := nxt, hs_failed := (hs_failed s \<or> nxt = StateFailed)\<rparr>,
      count_inc (hs_module s, hs_name s, nxt) (count_dec (state_key s) c))"
  by (auto simp: Transition_def stays_def Let_def state_key_def)

lemma transition_change:
  assumes "Transition nxt s c = (s', c')"
  shows "s' = s \<and> c' = c \<or> state_key s \<noteq> state_key s' \<and>
     c' = count_inc (state_key s') (count_dec (state_key s) c)"
proof (cases "stays nxt s")
  case True
  then show ?thesis using assms Transition_stays [of nxt s c] by simp
next
  case False
  then have "s' = s\<lparr>hs_state := nxt, hs_failed := (hs_failed s \<or> nxt = StateFailed)\<rparr>"
    "c' = count_inc (hs_module s, hs_name s, nxt) (count_dec (state_key s) c)"
    using assms Transition_moves [of nxt s c] by simp_all
  moreover have "hs_state s \<noteq> nxt" using False by (simp add: stays_def)
  ultimately show ?thesis by (simp add: state_key_def)
qed

lemma counts_exact_move:
  assumes "counts_exact (ss, c)" and "i < length ss" and "state_key (ss ! i) \<noteq> state_key s"
  shows "counts_exact (ss[i := s], count_inc (state_key s) (count_dec (state_key (ss ! i)) c))"
proof -
  have pos: "0 < instances ss (state_key (ss ! i))"
    using assms(2) by (auto simp: instances_def filter_empty_conv dest: nth_mem)
  have upd: "instances (ss[i := s]) k = (if k = state_key (ss ! i) then instances ss k - 1
      else if k = state_key s then instances ss k + 1 else instances ss k)" for k
    using instances_update [OF assms(2), of s k] assms(3) pos by auto
  have c: "distinct (map fst c)" "map_of c = (\<lambda>k. if instances ss k = 0 then None else Some (int (instances ss k)))"
    using assms(1) by (simp_all add: counts_exact_def)
  have "map_of (count_inc (state_key s) (count_dec (state_key (ss ! i)) c)) k =
      (if instances (ss[i := s]) k = 0 then None else Some (int (instances (ss[i := s]) k)))" for k
    unfolding map_of_inc map_of_dec upd c(2) using assms(3) pos by (simp add: of_nat_diff)
  then show ?thesis by (simp add: counts_exact_def distinct_inc distinct_dec c(1) fun_eq_iff)
qed

lemma host_step_exact: "host_step w w' \<Longrightarrow> counts_exact w \<Longrightarrow> counts_exact w'"
proof (induction rule: host_step.induct)
  case (new_service m n c s c' ss)
  then have "s = \<lparr>hs_module = m, hs_name = n, hs_state = StateCreated, hs_failed = False\<rparr>"
    "c' = count_inc (state_key s) c" by (auto simp: NewService_def state_key_def)
  moreover have "map_of (count_inc (state_key s) c) k =
      (if instances (ss @ [s]) k = 0 then None else Some (int (instances (ss @ [s]) k)))" for k
    unfolding map_of_inc using new_service(2) by (simp add: counts_exact_def)
  ultimately show ?case using new_service(2) by (simp add: counts_exact_def distinct_inc fun_eq_iff)
next
  case (transition i ss nxt c s c')
  from transition_change [OF transition(2)] show ?case
    using transition(1,3) counts_exact_move [of ss c i s] by auto
qed

lemma transition_failed_exact:
  assumes "failed_exact s" and "Transition nxt s c = (s', c')"
  shows "failed_exact s'"
proof (cases "stays nxt s")
  case True
  then show ?thesis using assms Transition_stays [of nxt s c] by simp
next
  case False
  then have "s' = s\<lparr>hs_state := nxt, hs_failed := (hs_failed s \<or> nxt = StateFailed)\<rparr>"
    using assms(2) Transition_moves [of nxt s c] by simp
  then show ?thesis using False assms(1) by (auto simp: failed_exact_def stays_def)
qed

lemma host_step_failed: "host_step w w' \<Longrightarrow> list_all failed_exact (fst w) \<Longrightarrow> list_all failed_exact (fst w')"
proof (induction rule: host_step.induct)
  case (new_service m n c s c' ss)
  then show ?case by (auto simp: NewService_def failed_exact_def valid_state_def go_defs)
next
  case (transition i ss nxt c s c')
  then show ?case
    using transition_failed_exact [of "ss ! i" nxt c s c']
    by (auto simp: list_all_length nth_list_update)
qed

lemma host_reachable_exact: "host_reachable w \<Longrightarrow> counts_exact w \<and> list_all failed_exact (fst w)"
  by (induction rule: host_reachable.induct)
    (auto simp: host_step_exact host_step_failed counts_exact_def [of "([], [])"] instances_def)

text \<open>
  Property C15. The process-wide state metric is exact: in every reachable state the
  aggregate has, for each module, service and state, exactly the number of instances in
  that state and no row for none, the snapshot has one row for each of them; and a failed
  instance is in the failed state and never leaves it, whatever is attempted later.
\<close>

theorem host_counts_exact:
  assumes "host_reachable (ss, c)"
  shows "map_of c k = (if instances ss k = 0 then None else Some (int (instances ss k))) \<and>
    map_of (Snapshot c) k = map_of c k \<and> sorted (map fst (Snapshot c)) \<and> distinct (map fst (Snapshot c)) \<and>
    (\<forall>s. s \<in> set ss \<longrightarrow> (hs_failed s \<longleftrightarrow> hs_state s = StateFailed)) \<and>
    (\<forall>s nxt. s \<in> set ss \<and> hs_state s = StateFailed \<longrightarrow> Transition nxt s c = (s, c))"
proof -
  have exact: "distinct (map fst c)"
    "\<And>k. map_of c k = (if instances ss k = 0 then None else Some (int (instances ss k)))"
    "\<And>s. s \<in> set ss \<Longrightarrow> failed_exact s"
    using host_reachable_exact [OF assms] by (auto simp: counts_exact_def list_all_iff)
  have "n > 0" if "(k, n) \<in> set c" for k n
    using map_of_is_SomeI [OF exact(1) that] exact(2) [of k] by (auto split: if_splits)
  then have "filter (\<lambda>(k, n). n > 0) c = c" by (auto simp: filter_id_conv)
  then have snap: "Snapshot c = sort_key fst c" by (simp add: Snapshot_def)
  have d: "distinct (map fst (sort_key fst c))"
    using exact(1) by (metis distinct_map distinct_sort set_sort)
  have "map_of (sort_key fst c) k = map_of c k"
    by (rule map_of_eqI [THEN fun_cong]) (use d exact(1) in \<open>auto simp: map_of_eq_Some_iff\<close>)
  then show ?thesis
    using exact snap d sorted_sort_key [of fst c] by (auto simp: failed_exact_def Transition_def)
qed

definition sample_world :: host_world where
  "sample_world = (let (a, c1) = NewService ''m'' ''s'' []; (b, c2) = NewService ''m'' ''s'' c1;
     (a', c3) = Transition StateFailed a c2 in ([a', b], c3))"

theorem host_counts_exact_witness:
  "map_of (snd sample_world) (''m'', ''s'', StateFailed) = Some 1"
proof -
  have "host_reachable sample_world"
  proof -
    let ?s = "fst (NewService ''m'' ''s'' [])"
    let ?c = "snd (NewService ''m'' ''s'' (snd (NewService ''m'' ''s'' [])))"
    have 1: "host_reachable ([?s], snd (NewService ''m'' ''s'' []))"
      using host_reachable.step [OF host_reachable.initial host_step.new_service [of "''m''" "''s''" "[]" ?s _ "[]"]] by simp
    have 2: "host_reachable ([?s, ?s], ?c)"
      using host_reachable.step [OF 1 host_step.new_service [of "''m''" "''s''" _ ?s ?c "[?s]"]]
      by (simp add: NewService_def)
    have "host_reachable ([?s, ?s][0 := fst (Transition StateFailed ?s ?c)], snd (Transition StateFailed ?s ?c))"
      by (rule host_reachable.step [OF 2]) (rule host_step.transition, simp_all)
    then show ?thesis by (simp add: sample_world_def NewService_def case_prod_beta)
  qed
  then have "host_reachable (fst sample_world, snd sample_world)" by simp
  from host_counts_exact [OF this, of "(''m'', ''s'', StateFailed)"] show ?thesis
    by (simp add: sample_world_def NewService_def Transition_def instances_def state_key_def valid_state_def go_defs)
qed

end
