(* ===== verification/Lifecycle.thy ===== *)
theory Lifecycle
  imports Security Host_State
begin

text \<open>
  Assembling, starting and stopping an application: the lifecycle half of the registry
  (registry.go, worker.go), the application (app.go) and the host (run.go, host.go).
  Modules, set-up callbacks and middleware are functions; what hooks, managed services,
  the HTTP server and the contexts answer is an environment record, so that a theorem
  holds for every behaviour of theirs. The host records what it does as a trace.
\<close>

subsection \<open>Lifecycle declarations\<close>

definition StageInfra :: int where "StageInfra = 10"
definition StageWorker :: int where "StageWorker = 20"
definition StageServer :: int where "StageServer = 30"

lemmas stage_defs [go_defs] = StageInfra_def StageWorker_def StageServer_def

definition Setup :: "hookfn \<Rightarrow> 'v registry \<Rightarrow> 'v registry" where
  "Setup fn r = r\<lparr>setups := setups r @ [(fn, current r)]\<rparr>"

definition Migrations :: "string \<Rightarrow> (string \<times> string) list \<Rightarrow> 'v registry \<Rightarrow> 'v registry" where
  "Migrations schema files r = r\<lparr>migrations := migrations r @
     [\<lparr>ms_schema = schema, ms_files = files, ms_module = current r\<rparr>]\<rparr>"

definition Consumer :: "string \<Rightarrow> nat \<Rightarrow> 'v registry \<Rightarrow> 'v registry" where
  "Consumer topic h r = r\<lparr>consumers := consumers r @
     [\<lparr>cr_topic = topic, cr_handler = h, cr_module = current r\<rparr>]\<rparr>"

definition Health :: "string \<Rightarrow> nat \<Rightarrow> 'v registry \<Rightarrow> 'v registry" where
  "Health name c r = r\<lparr>healthChecks := AList.update (current r @ ''/'' @ name) c (healthChecks r)\<rparr>"

definition OnStart :: "int \<Rightarrow> hookfn \<Rightarrow> 'v registry \<Rightarrow> 'v registry" where
  "OnStart stage fn r = r\<lparr>starts := starts r @
       [\<lparr>sh_stage = stage, sh_seq = length (starts r), sh_fn = fn, sh_module = current r\<rparr>],
     startStages := AList.update (current r) stage (startStages r)\<rparr>"

definition OnStop :: "hookfn \<Rightarrow> 'v registry \<Rightarrow> 'v registry" where
  "OnStop fn r = (let stage = (case map_of (startStages r) (current r) of Some s \<Rightarrow> s | None \<Rightarrow> StageWorker) in
     r\<lparr>stops := stops r @ [\<lparr>ph_stage = stage, ph_seq = length (stops r), ph_fn = fn, ph_module = current r\<rparr>]\<rparr>)"

definition ManagedService :: "string \<Rightarrow> policy \<Rightarrow> nat option \<Rightarrow> 'v registry \<Rightarrow> (gerr, 'v registry) result" where
  "ManagedService name0 pol factory r = (let name = trim_space name0 in
     if name = [] then Inl (InvalidArgument ''ManagedService name is empty'')
     else if factory = None then Inl (InvalidArgument (''ManagedService factory is nil: '' @ name))
     else if pol \<noteq> ServiceCritical \<and> pol \<noteq> ServiceOptional
       then Inl (InvalidArgument (''ManagedService policy is invalid: '' @ name))
     else if registered r then Inl (Conflict (''ManagedService after Register: '' @ name))
     else if \<exists>e\<in>set (services r). sv_module e = current r \<and> sv_name e = name
       then Inl (Conflict (''duplicate ManagedService: '' @ name))
     else Inr (r\<lparr>services := services r @
       [\<lparr>sv_name = name, sv_module = current r, sv_policy = pol, sv_factory = factory\<rparr>]\<rparr>))"

text \<open>
  \<open>Worker\<close> adds a start and a stop hook around the run function; the worker's index in
  \<open>workers\<close> stands for the \<open>workerState\<close> pointer the hooks share.
\<close>

definition worker :: "string \<Rightarrow> 'v registry \<Rightarrow> nat \<times> 'v registry" where
  "worker name r = (let full = current r @ ''/'' @ name; w = length (workers r);
       r = r\<lparr>workers := workers r @ [(full, False)]\<rparr>;
       r = OnStart StageWorker (WorkerStart w) r;
       r = OnStop (WorkerStop w) r
     in (w, r))"

definition Worker :: "string \<Rightarrow> 'v registry \<Rightarrow> 'v registry" where
  "Worker name r = snd (worker name r)"

subsection \<open>The application\<close>

datatype bus = NoBus | PlainBus | ManagedBus

record 'v modul =
  md_name :: string
  md_register :: "'v registry \<Rightarrow> (gerr, 'v registry) result option"

record ('v, 'r) appConfig =
  target :: string
  httpAddr :: string
  httpEnabled :: bool
  middleware :: "((request \<Rightarrow> 'r) \<Rightarrow> (request \<Rightarrow> 'r)) list"
  securityMode :: string
  shutdownTimeout :: int
  drainDelay :: int
  app_remotes :: "('v registry \<Rightarrow> (gerr, 'v registry) result) list"
  migrator :: "(migrationSet list \<Rightarrow> gerr option) option"
  skipMigrations :: bool
  disableMigrations :: bool
  app_bus :: bus
  app_pprof :: bool

text \<open>\<open>New\<close>: the defaults with the options applied in order.\<close>

definition default_config :: "('v, 'r) appConfig" where
  "default_config = \<lparr>target = ''all'', httpAddr = '':8080'', httpEnabled = True, middleware = [],
     securityMode = SecurityUnspecified, shutdownTimeout = 20 * 10 ^ 9, drainDelay = 0, app_remotes = [],
     migrator = None, skipMigrations = False, disableMigrations = False, app_bus = NoBus, app_pprof = False\<rparr>"

definition New_app :: "(('v, 'r) appConfig \<Rightarrow> ('v, 'r) appConfig) list \<Rightarrow> ('v, 'r) appConfig" where
  "New_app opts = foldl (\<lambda>c f. f c) default_config opts"

definition by_name :: "'v modul list \<Rightarrow> string \<Rightarrow> 'v modul option" where
  "by_name ms = map_of (rev (map (\<lambda>m. (md_name m, m)) ms))"

fun select_modules :: "'v modul list \<Rightarrow> string list \<Rightarrow> (gerr, 'v modul list) result" where
  "select_modules ms [] = Inr []"
| "select_modules ms (n # ns) = (let name = trim_space n in
     if name = [] then select_modules ms ns
     else (case by_name ms name of
         None \<Rightarrow> Inl (Leaf (''unknown module '' @ name))
       | Some m \<Rightarrow> (case select_modules ms ns of Inl e \<Rightarrow> Inl e | Inr chosen \<Rightarrow> Inr (m # chosen))))"

definition enabledModules :: "('v, 'r) appConfig \<Rightarrow> 'v modul list \<Rightarrow> (gerr, 'v modul list) result" where
  "enabledModules cfg ms =
     (if trim_space (target cfg) = [] \<or> target cfg = ''all'' then Inr ms
      else (case select_modules ms (split_on CHR '','' (target cfg)) of
          Inl e \<Rightarrow> Inl e
        | Inr enabled \<Rightarrow> if enabled = [] then Inl (Leaf ''target selects no module'') else Inr enabled))"

definition registerModule :: "'v modul \<Rightarrow> 'v registry \<Rightarrow> (gerr, 'v registry) result" where
  "registerModule m r = (case md_register m (r\<lparr>current := md_name m, registeringModule := True\<rparr>) of
     None \<Rightarrow> Inl (Leaf (''Register panic in module '' @ md_name m))
   | Some (Inl e) \<Rightarrow> Inl (Wrap (''module '' @ md_name m) e)
   | Some (Inr r') \<Rightarrow> Inr (r'\<lparr>registeringModule := False\<rparr>))"

fun apply_all :: "('s \<Rightarrow> ('e, 's) result) list \<Rightarrow> 's \<Rightarrow> ('e, 's) result" where
  "apply_all [] s = Inr s"
| "apply_all (f # fs) s = (case f s of Inl e \<Rightarrow> Inl e | Inr s' \<Rightarrow> apply_all fs s')"

definition register :: "('v, 'r) appConfig \<Rightarrow> 'v modul list \<Rightarrow> 'v registry \<Rightarrow> (gerr, 'v registry) result" where
  "register cfg enabled r = (case apply_all (app_remotes cfg) r of Inl e \<Rightarrow> Inl e
     | Inr r1 \<Rightarrow> (case apply_all (map registerModule enabled) r1 of Inl e \<Rightarrow> Inl e
       | Inr r2 \<Rightarrow> Inr (r2\<lparr>current := [], registered := True\<rparr>)))"

definition registerBusLifecycle :: "('v, 'r) appConfig \<Rightarrow> nat \<Rightarrow> 'v registry \<Rightarrow> 'v registry" where
  "registerBusLifecycle cfg ready r = (case app_bus cfg of
     ManagedBus \<Rightarrow> (let previous = current r;
         r = r\<lparr>current := ''appkit-bus''\<rparr>;
         r = Health ''ready'' ready r;
         r = OnStart StageInfra BusConnect r;
         r = OnStop BusClose r;
         (w, r) = worker ''consume'' r;
         r = OnStop BusCancel r;
         r = OnStop BusDrain r
       in r\<lparr>current := previous\<rparr>)
   | _ \<Rightarrow> r)"

text \<open>\<open>migrate\<close> of a run, and the separate entry point \<open>Migrate\<close>.\<close>

definition migrate :: "('v, 'r) appConfig \<Rightarrow> 'v registry \<Rightarrow> gerr option" where
  "migrate cfg r = (case migrations r of
     [] \<Rightarrow> None
   | s # ss \<Rightarrow>
       if disableMigrations cfg then Some (Leaf (''migrations disabled but declared by '' @ ms_module s))
       else if skipMigrations cfg then None
       else (case migrator cfg of
           None \<Rightarrow> Some (Leaf ''migrations declared but no migrator'')
         | Some f \<Rightarrow> (case f (migrations r) of None \<Rightarrow> None | Some e \<Rightarrow> Some (Wrap ''migration failed'' e))))"

definition claimUse :: "string \<Rightarrow> string \<Rightarrow> (gerr, string) result" where
  "claimUse entrypoint usedBy =
     (if usedBy \<noteq> [] then Inl (with_detail ''used_by'' (DStr usedBy)
        (Conflict (''App already used by '' @ usedBy @ '', cannot call '' @ entrypoint)))
      else Inr entrypoint)"

definition Migrate :: "('v, 'r) appConfig \<Rightarrow> 'v modul list \<Rightarrow> string \<Rightarrow> 'v registry \<Rightarrow> gerr option" where
  "Migrate cfg ms usedBy r = (case claimUse ''Migrate'' usedBy of Inl e \<Rightarrow> Some e | Inr _ \<Rightarrow>
     (case enabledModules cfg ms of Inl e \<Rightarrow> Some e | Inr enabled \<Rightarrow>
     (case register cfg enabled r of Inl e \<Rightarrow> Some e | Inr r' \<Rightarrow>
     (case migrations r' of
        [] \<Rightarrow> None
      | s # ss \<Rightarrow>
          if disableMigrations cfg then Some (Leaf (''migrations disabled but declared by '' @ ms_module s))
          else (case migrator cfg of
              None \<Rightarrow> Some (Leaf ''Migrate needs a migrator'')
            | Some f \<Rightarrow> (case f (migrations r') of None \<Rightarrow> None | Some e \<Rightarrow> Some (Wrap ''migration failed'' e)))))))"

text \<open>The subscriptions made on the bus, in order.\<close>

definition subscribeConsumers :: "('v, 'r) appConfig \<Rightarrow> 'v registry \<Rightarrow> (gerr, (string \<times> nat) list) result" where
  "subscribeConsumers cfg r = (case consumers r of
     [] \<Rightarrow> Inr []
   | c # cs \<Rightarrow> if app_bus cfg = NoBus then Inl (Leaf (''consumers declared but no bus: '' @ cr_topic c))
       else Inr (map (\<lambda>c. (cr_topic c, cr_handler c)) (consumers r)))"

definition validateHeadlessRoutes :: "('v, 'r) appConfig \<Rightarrow> 'v registry \<Rightarrow> gerr option" where
  "validateHeadlessRoutes cfg r =
     (if app_pprof cfg then Some (Leaf ''headless does not support pprof'')
      else (case mounts r of [] \<Rightarrow> None | m # ms \<Rightarrow> Some (Leaf (''headless does not support route '' @ m_pattern m))))"

text \<open>
  The root mux as the list of its routes in registration order. Which patterns conflict is
  \<open>net/http\<close>'s rule: \<open>rejects ps p\<close> says that registering \<open>p\<close> after \<open>ps\<close> panics.
\<close>

datatype route = LiveProbe | ReadyProbe | Pprof string bool | Mounted handler

definition pprof_paths :: "string list" where
  "pprof_paths = [''GET /debug/pprof/'', ''GET /debug/pprof/cmdline'', ''GET /debug/pprof/profile'',
     ''GET /debug/pprof/symbol'', ''GET /debug/pprof/trace'', ''GET /debug/pprof/goroutine'',
     ''GET /debug/pprof/heap'', ''GET /debug/pprof/allocs'', ''GET /debug/pprof/block'',
     ''GET /debug/pprof/mutex'', ''GET /debug/pprof/threadcreate'']"

definition mountPprof :: "bool \<Rightarrow> (string \<times> route) list" where
  "mountPprof guard = map (\<lambda>p. (p, Pprof p guard)) pprof_paths"

fun mount_all :: "(string list \<Rightarrow> string \<Rightarrow> bool) \<Rightarrow> mountReg list \<Rightarrow> (string \<times> route) list \<Rightarrow> (gerr, (string \<times> route) list) result" where
  "mount_all rejects [] mux = Inr mux"
| "mount_all rejects (m # ms) mux =
     (if rejects (map fst mux) (m_pattern m) then Inl (Leaf ''mounting failed'')
      else mount_all rejects ms (mux @ [(m_pattern m, Mounted (m_handler m))]))"

definition buildMux :: "(string list \<Rightarrow> string \<Rightarrow> bool) \<Rightarrow> ('v, 'r) appConfig \<Rightarrow> 'v registry \<Rightarrow> (gerr, (string \<times> route) list) result" where
  "buildMux rejects cfg r = (let
     mux = [(''/healthz'', LiveProbe), (''/readyz'', ReadyProbe)];
     guard = (securityMode cfg = SecurityInternalService \<or> securityMode cfg = SecurityMixed);
     mux = (if app_pprof cfg then mux @ mountPprof guard else mux)
   in mount_all rejects (mounts r) mux)"

text \<open>The root handler: middleware outermost first, and in every strict mode the boundary around it.\<close>

definition wrap_root :: "('v, 'r) appConfig \<Rightarrow> (request \<Rightarrow> 'r) \<Rightarrow> (request \<Rightarrow> 'r)" where
  "wrap_root cfg h = (let h = foldr (\<lambda>mw h. mw h) (middleware cfg) h in
     if securityMode cfg \<noteq> SecurityDisabled then identityBoundary h else h)"

record 'r http_server =
  srv_addr :: string
  srv_handler :: "request \<Rightarrow> 'r"
  srv_readHeaderTimeout :: int
  srv_readTimeout :: int
  srv_writeTimeout :: int
  srv_idleTimeout :: int

definition buildServer :: "('r http_server \<Rightarrow> 'r http_server) list \<Rightarrow> ('v, 'r) appConfig \<Rightarrow> (request \<Rightarrow> 'r) \<Rightarrow> 'r http_server" where
  "buildServer opts cfg h = (let
     server = \<lparr>srv_addr = httpAddr cfg, srv_handler = h, srv_readHeaderTimeout = 10 * 10 ^ 9,
       srv_readTimeout = 60 * 10 ^ 9, srv_writeTimeout = 60 * 10 ^ 9, srv_idleTimeout = 120 * 10 ^ 9\<rparr>;
     server = foldl (\<lambda>s f. f s) server opts
   in if securityMode cfg \<noteq> SecurityDisabled then server\<lparr>srv_handler := h\<rparr> else server)"

subsection \<open>The host\<close>

text \<open>What the outside world answers. A callback's error includes a recovered panic.\<close>

datatype liveness = RunLive | RunExited gerr | StartCtxDone gerr

datatype readiness = ReadyOk | ReadyError gerr | ExitedBeforeReady gerr | OtherServiceErr gerr | ReadyCtxDone gerr

record env =
  en_ctx :: "nat \<Rightarrow> gerr option"
  en_hook :: "startHook \<Rightarrow> gerr option"
  en_serviceErr :: "nat \<Rightarrow> bool \<Rightarrow> gerr option"
  en_start :: "nat \<Rightarrow> gerr option"
  en_live :: "nat \<Rightarrow> liveness"
  en_ready :: "nat \<Rightarrow> readiness"
  en_lateServiceErr :: "gerr option"
  en_trigger :: "gerr option"
  en_exits :: "gerr list"
  en_delay :: "gerr option"
  en_httpTimeout :: bool
  en_httpShutdown :: "gerr option"
  en_httpClose :: "gerr option"
  en_drain :: "nat \<Rightarrow> gerr option"
  en_wait :: "nat \<Rightarrow> gerr option"
  en_close :: "nat \<Rightarrow> gerr option"
  en_stop :: "stopHook \<Rightarrow> gerr option"
  en_budget :: "ctx_err option"

datatype event =
    HookStarted startHook
  | ServiceStart nat
  | ServiceRun nat
  | ServiceReady nat
  | ReadySet bool
  | RunCancelled
  | DrainDelay
  | HttpShutdown
  | ServiceDrain nat
  | ServicesCancelled
  | ServiceWait nat
  | ServiceClose nat
  | HttpDone
  | HttpClosed
  | HookStopped stopHook

datatype hostState =
    HostNew | HostRegistering | HostResolving | HostMigrating | HostSettingUp
  | HostStarting | HostReady | HostDraining | HostStopping | HostStopped

record managed =
  mg_reg :: serviceReg
  mg_startAttempted :: bool
  mg_runStarted :: bool
  mg_life :: service_state

record host =
  ho_services :: "managed list"
  ho_counts :: state_counts
  ho_state :: hostState
  ho_draining :: bool
  ho_trace :: "event list"
  ho_errs :: "gerr list"

definition emit :: "event \<Rightarrow> host \<Rightarrow> host" where
  "emit e h = h\<lparr>ho_trace := ho_trace h @ [e]\<rparr>"

definition add_err :: "gerr option \<Rightarrow> host \<Rightarrow> host" where
  "add_err e h = (case e of None \<Rightarrow> h | Some x \<Rightarrow> h\<lparr>ho_errs := ho_errs h @ [x]\<rparr>)"

definition set_host :: "hostState \<Rightarrow> host \<Rightarrow> host" where
  "set_host s h = h\<lparr>ho_state := s\<rparr>"

definition addService :: "serviceReg \<Rightarrow> host \<Rightarrow> host" where
  "addService reg h = (case NewService (sv_module reg) (sv_name reg) (ho_counts h) of (life, c) \<Rightarrow>
     h\<lparr>ho_services := ho_services h @
         [\<lparr>mg_reg = reg, mg_startAttempted = False, mg_runStarted = False, mg_life = life\<rparr>],
       ho_counts := c\<rparr>)"

definition setLifecycleState :: "nat \<Rightarrow> state_name \<Rightarrow> host \<Rightarrow> host" where
  "setLifecycleState i st h = (case Transition st (mg_life (ho_services h ! i)) (ho_counts h) of (life, c) \<Rightarrow>
     h\<lparr>ho_services := (ho_services h)[i := (ho_services h ! i)\<lparr>mg_life := life\<rparr>], ho_counts := c\<rparr>)"

definition modify_service :: "nat \<Rightarrow> (managed \<Rightarrow> managed) \<Rightarrow> host \<Rightarrow> host" where
  "modify_service i f h = h\<lparr>ho_services := (ho_services h)[i := f (ho_services h ! i)]\<rparr>"

subsection \<open>Starting\<close>

definition stageNone :: int where "stageNone = - (2 ^ 63)"

definition start_order :: "startHook list \<Rightarrow> startHook list" where
  "start_order hooks = sort_key (\<lambda>h. (sh_stage h, sh_seq h)) hooks"

definition all_hooks :: "bool \<Rightarrow> 'v registry \<Rightarrow> startHook list" where
  "all_hooks http r = starts r @ (if http then
     [\<lparr>sh_stage = StageServer, sh_seq = length (starts r), sh_fn = ListenHook, sh_module = ''appkit''\<rparr>] else [])"

text \<open>The first argument counts the hooks, so the context can be cancelled between any two.\<close>

fun run_hooks :: "nat \<Rightarrow> env \<Rightarrow> startHook list \<Rightarrow> int \<Rightarrow> host \<Rightarrow> int \<times> gerr option \<times> host" where
  "run_hooks n en [] maxStage ho = (maxStage, None, ho)"
| "run_hooks n en (h # hs) maxStage ho = (case en_ctx en n of
     Some e \<Rightarrow> (maxStage, Some e, ho)
   | None \<Rightarrow> (let ho = emit (HookStarted h) ho in
       (case en_hook en h of
          Some e \<Rightarrow> (sh_stage h, Some (Wrap (''start failed in module '' @ sh_module h) e), ho)
        | None \<Rightarrow> run_hooks (Suc n) en hs (sh_stage h) ho)))"

definition startHooks :: "env \<Rightarrow> bool \<Rightarrow> 'v registry \<Rightarrow> host \<Rightarrow> int \<times> gerr option \<times> host" where
  "startHooks en http r ho = run_hooks 0 en (start_order (all_hooks http r)) stageNone ho"

text \<open>
  Waiting for readiness. The goroutine that runs the service reports the state
  \<open>running\<close> before it closes \<open>runLive\<close>.
\<close>

definition waitManagedServiceReady :: "env \<Rightarrow> nat \<Rightarrow> host \<Rightarrow> gerr option \<times> host" where
  "waitManagedServiceReady en i ho = (let ho = emit (ServiceReady i) ho in (case en_ready en i of
     ReadyOk \<Rightarrow> (None, ho)
   | ReadyError e \<Rightarrow> (Some e, setLifecycleState i StateFailed ho)
   | ExitedBeforeReady e \<Rightarrow> (Some e, ho)
   | OtherServiceErr e \<Rightarrow> (Some e, ho)
   | ReadyCtxDone e \<Rightarrow> (Some e, ho)))"

fun start_services :: "env \<Rightarrow> nat list \<Rightarrow> host \<Rightarrow> gerr option \<times> host" where
  "start_services en [] ho = (None, ho)"
| "start_services en (i # is) ho = (case en_serviceErr en i False of
     Some e \<Rightarrow> (Some e, ho)
   | None \<Rightarrow> (let
         ho = setLifecycleState i StateStarting ho;
         ho = modify_service i (\<lambda>s. s\<lparr>mg_startAttempted := True\<rparr>) ho;
         ho = emit (ServiceStart i) ho
       in (case en_start en i of
            Some e \<Rightarrow> (Some (Wrap ''Start failed'' e), setLifecycleState i StateFailed ho)
          | None \<Rightarrow> (case en_serviceErr en i True of
              Some e \<Rightarrow> (Some e, ho)
            | None \<Rightarrow> (let
                  ho = modify_service i (\<lambda>s. s\<lparr>mg_runStarted := True\<rparr>) ho;
                  ho = emit (ServiceRun i) ho
                in (case en_live en i of
                     RunExited e \<Rightarrow> (Some (Wrap ''Run exited before start'' e),
                       setLifecycleState i StateFailed (setLifecycleState i StateRunning ho))
                   | StartCtxDone e \<Rightarrow> (Some e, setLifecycleState i StateFailed ho)
                   | RunLive \<Rightarrow> (case waitManagedServiceReady en i (setLifecycleState i StateRunning ho) of
                       (Some e, ho) \<Rightarrow> (Some (Wrap ''not ready'' e), ho)
                     | (None, ho) \<Rightarrow> start_services en is (setLifecycleState i StateReady ho))))))))"

definition startManagedServices :: "env \<Rightarrow> host \<Rightarrow> gerr option \<times> host" where
  "startManagedServices en ho = start_services en [0..<length (ho_services ho)] ho"

text \<open>
  What the goroutine of service \<open>i\<close> does when \<open>Run\<close> returns: an exit before the host
  drains fails the service, and is reported when the service is critical.
\<close>

definition run_exit :: "nat \<Rightarrow> gerr option \<Rightarrow> host \<Rightarrow> gerr option \<times> gerr list \<times> host" where
  "run_exit i err ho = (if \<not> ho_draining ho then (let
       ho = setLifecycleState i StateFailed ho;
       e = (case err of None \<Rightarrow> Leaf ''Run returned before the host was draining'' | Some x \<Rightarrow> x);
       wrapped = Wrap ''ManagedService exited'' e
     in if sv_policy (mg_reg (ho_services ho ! i)) = ServiceCritical then (Some wrapped, [], ho)
        else (None, [wrapped], ho))
   else (None, [], ho))"

subsection \<open>Shutting down\<close>

fun drain_services :: "env \<Rightarrow> nat list \<Rightarrow> host \<Rightarrow> host" where
  "drain_services en [] ho = ho"
| "drain_services en (i # is) ho = (let s = ho_services ho ! i in
     if \<not> mg_runStarted s then
       drain_services en is (if \<not> mg_startAttempted s then setLifecycleState i StateNotStarted ho else ho)
     else (let
         ho = setLifecycleState i StateDraining ho;
         ho = emit (ServiceDrain i) ho;
         ho = (case en_drain en i of None \<Rightarrow> ho
           | Some e \<Rightarrow> add_err (Some e) (setLifecycleState i StateFailed ho))
       in drain_services en is ho))"

fun mark_stopping :: "nat list \<Rightarrow> host \<Rightarrow> host" where
  "mark_stopping [] ho = ho"
| "mark_stopping (i # is) ho = mark_stopping is
     (if mg_startAttempted (ho_services ho ! i) then setLifecycleState i StateStopping ho else ho)"

fun wait_services :: "env \<Rightarrow> nat list \<Rightarrow> host \<Rightarrow> host" where
  "wait_services en [] ho = ho"
| "wait_services en (i # is) ho =
     (if mg_runStarted (ho_services ho ! i) then (let ho = emit (ServiceWait i) ho in
        (case en_wait en i of None \<Rightarrow> wait_services en is ho
         | Some e \<Rightarrow> wait_services en is (add_err (Some e) (setLifecycleState i StateFailed ho))))
      else wait_services en is ho)"

fun close_services :: "env \<Rightarrow> nat list \<Rightarrow> host \<Rightarrow> host" where
  "close_services en [] ho = ho"
| "close_services en (i # is) ho =
     (if mg_startAttempted (ho_services ho ! i) then (let ho = emit (ServiceClose i) ho in
        (case en_close en i of
           Some e \<Rightarrow> close_services en is (add_err (Some e) (setLifecycleState i StateFailed ho))
         | None \<Rightarrow> close_services en is (setLifecycleState i StateStopped ho)))
      else close_services en is ho)"

text \<open>\<open>server.Shutdown\<close> runs in parallel from its start; its outcome is collected after the closes.\<close>

definition collect_http :: "env \<Rightarrow> host \<Rightarrow> host" where
  "collect_http en ho =
     (if \<not> en_httpTimeout en then (let ho = emit HttpDone ho in
        (case en_httpShutdown en of None \<Rightarrow> ho
         | Some e \<Rightarrow> add_err (en_httpClose en) (emit HttpClosed (add_err (Some (Wrap ''HTTP shutdown'' e)) ho))))
      else (let ho = add_err (en_httpClose en) (emit HttpClosed ho) in
        add_err (map_option (Wrap ''HTTP shutdown'') (en_httpShutdown en)) (emit HttpDone ho)))"

definition stop_order :: "stopHook list \<Rightarrow> stopHook list" where
  "stop_order hs = sort_key (\<lambda>h. (- ph_stage h, - int (ph_seq h))) hs"

fun run_stops :: "env \<Rightarrow> int \<Rightarrow> stopHook list \<Rightarrow> host \<Rightarrow> host" where
  "run_stops en maxStage [] ho = ho"
| "run_stops en maxStage (s # ss) ho =
     (if ph_stage s > maxStage then run_stops en maxStage ss ho
      else run_stops en maxStage ss (add_err (en_stop en s) (emit (HookStopped s) ho)))"

definition add_budget :: "ctx_err option \<Rightarrow> host \<Rightarrow> host" where
  "add_budget b ho = (case b of None \<Rightarrow> ho
     | Some c \<Rightarrow> (let label = (case c of CtxCanceled \<Rightarrow> ctx_canceled | CtxDeadlineExceeded \<Rightarrow> ctx_deadline) in
         if \<exists>e\<in>set (ho_errs ho). err_is label e then ho
         else add_err (Some (Wrap ''shutdown budget exhausted'' (ctx_error c))) ho))"

definition shutdown :: "env \<Rightarrow> ('v, 'r) appConfig \<Rightarrow> bool \<Rightarrow> int \<Rightarrow> 'v registry \<Rightarrow> host \<Rightarrow> gerr option \<times> host" where
  "shutdown en cfg http maxStartedStage r ho = (let
     ho = emit (ReadySet False) ho;
     ho = emit RunCancelled ho;
     ho = (if drainDelay cfg > 0 then add_err (en_delay en) (emit DrainDelay ho) else ho);
     ho = (if http then emit HttpShutdown ho else ho);
     n = length (ho_services ho);
     ho = drain_services en (rev [0..<n]) ho;
     ho = set_host HostStopping ho;
     ho = mark_stopping [0..<n] ho;
     ho = emit ServicesCancelled ho;
     ho = wait_services en (rev [0..<n]) ho;
     ho = close_services en (rev [0..<n]) ho;
     ho = (if http then collect_http en ho else ho);
     ho = run_stops en maxStartedStage (stop_order (stops r)) ho;
     ho = add_budget (en_budget en) ho
   in (errors_join (map Some (ho_errs ho)), ho))"

subsection \<open>The whole run\<close>

text \<open>
  What the callbacks the registry only names do: a set-up hook changes the registry, a
  service factory may resolve dependencies; \<open>None\<close> is a panic, and the flag of a factory
  says whether the service is nil. \<open>checker\<close> names the readiness check of a service.
\<close>

record 'v callbacks =
  cb_setup :: "hookfn \<Rightarrow> 'v registry \<Rightarrow> (gerr, 'v registry) result option"
  cb_factory :: "nat option \<Rightarrow> 'v registry \<Rightarrow> (gerr, bool \<times> 'v registry) result option"
  cb_checker :: "string \<Rightarrow> nat"
  cb_rejects :: "string list \<Rightarrow> string \<Rightarrow> bool"

definition runSetup :: "'v callbacks \<Rightarrow> hookfn \<times> string \<Rightarrow> 'v registry \<Rightarrow> (gerr, 'v registry) result" where
  "runSetup cb s r = (case cb_setup cb (fst s) (r\<lparr>current := snd s\<rparr>) of
     None \<Rightarrow> Inl (Leaf (''Setup panic in module '' @ snd s))
   | Some (Inl e) \<Rightarrow> Inl (Wrap (''Setup failed in module '' @ snd s) e)
   | Some (Inr r') \<Rightarrow> Inr r')"

definition runSetups :: "'v callbacks \<Rightarrow> 'v registry \<Rightarrow> (gerr, 'v registry) result" where
  "runSetups cb r = apply_all (map (runSetup cb) (setups r)) r"

fun resolve_services :: "'v callbacks \<Rightarrow> serviceReg list \<Rightarrow> 'v registry \<Rightarrow> host \<Rightarrow> (gerr, 'v registry \<times> host) result" where
  "resolve_services cb [] r ho = Inr (r, ho)"
| "resolve_services cb (s # ss) r ho = (let previous = current r in
     (case cb_factory cb (sv_factory s) (r\<lparr>current := sv_module s\<rparr>) of
        None \<Rightarrow> Inl (Wrap (''constructing ManagedService '' @ sv_name s) (Leaf ''ManagedService factory panic''))
      | Some (Inl e) \<Rightarrow> Inl (Wrap (''constructing ManagedService '' @ sv_name s) e)
      | Some (Inr (isnil, r')) \<Rightarrow>
          if isnil then Inl (Leaf (''factory returned nil: '' @ sv_name s))
          else resolve_services cb ss
            ((Health (''service/'' @ sv_name s) (cb_checker cb (sv_name s)) (r'\<lparr>current := sv_module s\<rparr>))\<lparr>current := previous\<rparr>)
            (addService s ho)))"

definition resolveManagedServices :: "'v callbacks \<Rightarrow> 'v registry \<Rightarrow> host \<Rightarrow> (gerr, 'v registry \<times> host) result" where
  "resolveManagedServices cb r ho = resolve_services cb (services r) r ho"

definition validate_routes :: "('v, 'r) appConfig \<Rightarrow> 'v registry \<Rightarrow> gerr option" where
  "validate_routes cfg r =
     (if httpEnabled cfg then
        (if validateRouteSecurity (securityMode cfg) (app_pprof cfg) r = [] then None
         else Some (Leaf ''route security is incomplete''))
      else validateHeadlessRoutes cfg r)"

text \<open>
  Everything before the first hook; an error ends the run without a shutdown. A panic of a constructor is not
  recovered by the host: it ends the process, here as an error of its own.
\<close>

definition prepare :: "'v callbacks \<Rightarrow> ('v, 'r) appConfig \<Rightarrow> 'v modul list \<Rightarrow> 'v registry \<Rightarrow> host \<Rightarrow>
    (gerr, 'v registry \<times> host) result" where
  "prepare cb cfg ms r ho =
     (case enabledModules cfg ms of Inl e \<Rightarrow> Inl e | Inr enabled \<Rightarrow>
     (case register cfg enabled r of Inl e \<Rightarrow> Inl e | Inr r \<Rightarrow>
     (case (if httpEnabled cfg then validateSecurityMode (securityMode cfg) else None) of Some e \<Rightarrow> Inl e | None \<Rightarrow>
     (case resolveAll (registerBusLifecycle cfg (cb_checker cb ''appkit-bus'') r) of
        None \<Rightarrow> Inl (Leaf ''resolution does not return'')
      | Some (Some Panicked, r) \<Rightarrow> Inl (Leaf ''panic in a constructor'')
      | Some (Some (Failed e), r) \<Rightarrow> Inl (Leaf ''resolution failed'')
      | Some (None, r) \<Rightarrow>
     (case migrate cfg r of Some e \<Rightarrow> Inl e | None \<Rightarrow>
     (case runSetups cb r of Inl e \<Rightarrow> Inl e | Inr r \<Rightarrow>
     (case resolveManagedServices cb r ho of Inl e \<Rightarrow> Inl e | Inr (r, ho) \<Rightarrow>
     (case validate_routes cfg r of Some e \<Rightarrow> Inl e | None \<Rightarrow>
     (case validatePermBindings r of Some e \<Rightarrow> Inl e | None \<Rightarrow>
     (case subscribeConsumers cfg r of Inl e \<Rightarrow> Inl e | Inr subs \<Rightarrow>
     (if httpEnabled cfg then (case buildMux (cb_rejects cb) cfg r of Inl e \<Rightarrow> Inl e | Inr mux \<Rightarrow> Inr (r, ho))
      else Inr (r, ho))))))))))))"

definition runHost :: "env \<Rightarrow> 'v callbacks \<Rightarrow> ('v, 'r) appConfig \<Rightarrow> 'v modul list \<Rightarrow> 'v registry \<Rightarrow> host \<Rightarrow> gerr option \<times> host" where
  "runHost en cb cfg ms r ho = (case prepare cb cfg ms r ho of Inl e \<Rightarrow> (Some e, ho) | Inr (r, ho) \<Rightarrow>
     (case startHooks en (httpEnabled cfg) r (set_host HostStarting ho) of (maxStage, startErr, ho) \<Rightarrow>
     (case (if startErr = None then startManagedServices en ho else (startErr, ho)) of (startErr, ho) \<Rightarrow>
     (case (if startErr = None then en_lateServiceErr en else startErr) of
        Some e \<Rightarrow> (case shutdown en cfg (httpEnabled cfg) maxStage r (set_host HostStopping (ho\<lparr>ho_draining := True\<rparr>)) of
            (shutdownErr, ho) \<Rightarrow> (errors_join [Some e, shutdownErr], ho))
      | None \<Rightarrow> (let ho = set_host HostReady (emit (ReadySet True) ho);
            ho = set_host HostDraining (ho\<lparr>ho_draining := True\<rparr>)
          in (case shutdown en cfg (httpEnabled cfg) maxStage r ho of (shutdownErr, ho) \<Rightarrow>
            (errors_join [en_trigger en, shutdownErr, errors_join (map Some (en_exits en))], ho)))))))"

definition new_host :: "host" where
  "new_host = \<lparr>ho_services = [], ho_counts = [], ho_state = HostNew, ho_draining = False, ho_trace = [], ho_errs = []\<rparr>"

subsection \<open>What the steps leave alone\<close>

lemma emit_simps [simp, frame_simps]:
  "ho_trace (emit e ho) = ho_trace ho @ [e]" "ho_services (emit e ho) = ho_services ho"
  by (simp_all add: emit_def)

lemma add_err_simps [simp, frame_simps]:
  "ho_trace (add_err e ho) = ho_trace ho" "ho_services (add_err e ho) = ho_services ho"
  by (simp_all add: add_err_def split: option.split)

lemma set_host_simps [simp, frame_simps]:
  "ho_trace (set_host s ho) = ho_trace ho" "ho_services (set_host s ho) = ho_services ho"
  by (simp_all add: set_host_def)

lemma add_budget_simps [simp, frame_simps]:
  "ho_trace (add_budget b ho) = ho_trace ho" "ho_services (add_budget b ho) = ho_services ho"
  by (simp_all add: add_budget_def Let_def split: option.split ctx_err.split)

text \<open>A change of the lifecycle label keeps the flags of every service.\<close>

definition flags :: "host \<Rightarrow> (bool \<times> bool) list" where
  "flags ho = map (\<lambda>s. (mg_startAttempted s, mg_runStarted s)) (ho_services ho)"

lemma flags_emit [simp]: "flags (emit e ho) = flags ho"
  and flags_add_err [simp]: "flags (add_err x ho) = flags ho"
  and flags_set_host [simp]: "flags (set_host s ho) = flags ho"
  by (simp_all add: flags_def)

lemma setLifecycleState_trace [simp]: "ho_trace (setLifecycleState i st ho) = ho_trace ho"
  by (simp add: setLifecycleState_def split: prod.split)

lemma setLifecycleState_flags [simp]: "flags (setLifecycleState i st ho) = flags ho"
proof (cases "i < length (ho_services ho)")
  case True
  then have "map (\<lambda>s. (mg_startAttempted s, mg_runStarted s))
      ((ho_services ho)[i := (ho_services ho ! i)\<lparr>mg_life := x\<rparr>]) = flags ho" for x
    by (simp add: flags_def map_update list_update_same_conv)
  then show ?thesis by (simp add: setLifecycleState_def flags_def split: prod.split)
qed (simp add: setLifecycleState_def flags_def not_less case_prod_beta list_update_beyond)

lemma flags_nth: "i < length (flags ho) \<Longrightarrow>
  mg_startAttempted (ho_services ho ! i) = fst (flags ho ! i) \<and> mg_runStarted (ho_services ho ! i) = snd (flags ho ! i)"
  by (simp add: flags_def)

lemma length_flags: "length (ho_services ho) = length (flags ho)"
  by (simp add: flags_def)

lemma drain_services_spec:
  "set is \<subseteq> {..<length (flags ho)} \<Longrightarrow> flags (drain_services en is ho) = flags ho \<and>
   ho_trace (drain_services en is ho) = ho_trace ho @ map ServiceDrain (filter (\<lambda>i. snd (flags ho ! i)) is)"
proof (induction "is" arbitrary: ho)
  case (Cons i "is")
  have f: "mg_runStarted (ho_services ho ! i) = snd (flags ho ! i)"
    using Cons.prems by (intro flags_nth [THEN conjunct2]) simp
  show ?case
    using Cons.prems by (simp add: f Let_def Cons.IH split: option.split)
qed simp

lemma mark_stopping_spec:
  "flags (mark_stopping is ho) = flags ho \<and> ho_trace (mark_stopping is ho) = ho_trace ho"
  by (induction "is" arbitrary: ho) simp_all

lemma wait_services_spec:
  "set is \<subseteq> {..<length (flags ho)} \<Longrightarrow> flags (wait_services en is ho) = flags ho \<and>
   ho_trace (wait_services en is ho) = ho_trace ho @ map ServiceWait (filter (\<lambda>i. snd (flags ho ! i)) is)"
proof (induction "is" arbitrary: ho)
  case (Cons i "is")
  have f: "mg_runStarted (ho_services ho ! i) = snd (flags ho ! i)"
    using Cons.prems by (intro flags_nth [THEN conjunct2]) simp
  show ?case
    using Cons.prems by (simp add: f Let_def Cons.IH split: option.split)
qed simp

lemma close_services_spec:
  "set is \<subseteq> {..<length (flags ho)} \<Longrightarrow> flags (close_services en is ho) = flags ho \<and>
   ho_trace (close_services en is ho) = ho_trace ho @ map ServiceClose (filter (\<lambda>i. fst (flags ho ! i)) is)"
proof (induction "is" arbitrary: ho)
  case (Cons i "is")
  have f: "mg_startAttempted (ho_services ho ! i) = fst (flags ho ! i)"
    using Cons.prems by (intro flags_nth [THEN conjunct1]) simp
  show ?case
    using Cons.prems by (simp add: f Let_def Cons.IH split: option.split)
qed simp

definition http_events :: "env \<Rightarrow> event list" where
  "http_events en = (if en_httpTimeout en then [HttpClosed, HttpDone]
     else HttpDone # (if en_httpShutdown en = None then [] else [HttpClosed]))"

lemma collect_http_spec: "ho_trace (collect_http en ho) = ho_trace ho @ http_events en"
  by (auto simp: collect_http_def http_events_def Let_def split: option.split)

lemma run_stops_spec:
  "ho_trace (run_stops en maxStage ss ho) = ho_trace ho @ map HookStopped (filter (\<lambda>s. ph_stage s \<le> maxStage) ss)"
  by (induction ss arbitrary: ho) auto

lemma shutdown_trace_flags:
  "ho_trace (snd (shutdown en cfg http maxStage r ho)) = ho_trace ho @
     [ReadySet False, RunCancelled] @ (if drainDelay cfg > 0 then [DrainDelay] else []) @
     (if http then [HttpShutdown] else []) @
     map ServiceDrain (filter (\<lambda>i. snd (flags ho ! i)) (rev [0..<length (flags ho)])) @ [ServicesCancelled] @
     map ServiceWait (filter (\<lambda>i. snd (flags ho ! i)) (rev [0..<length (flags ho)])) @
     map ServiceClose (filter (\<lambda>i. fst (flags ho ! i)) (rev [0..<length (flags ho)])) @
     (if http then http_events en else []) @
     map HookStopped (filter (\<lambda>s. ph_stage s \<le> maxStage) (stop_order (stops r)))"
  by (simp add: shutdown_def Let_def length_flags run_stops_spec collect_http_spec close_services_spec
      wait_services_spec mark_stopping_spec drain_services_spec subset_iff)

subsection \<open>Reading a trace\<close>

definition hooks_of :: "event list \<Rightarrow> startHook list" where
  "hooks_of t = List.map_filter (\<lambda>e. case e of HookStarted h \<Rightarrow> Some h | _ \<Rightarrow> None) t"

definition starts_of :: "event list \<Rightarrow> nat list" where
  "starts_of t = List.map_filter (\<lambda>e. case e of ServiceStart i \<Rightarrow> Some i | _ \<Rightarrow> None) t"

definition runs_of :: "event list \<Rightarrow> nat list" where
  "runs_of t = List.map_filter (\<lambda>e. case e of ServiceRun i \<Rightarrow> Some i | _ \<Rightarrow> None) t"

definition drains_of :: "event list \<Rightarrow> nat list" where
  "drains_of t = List.map_filter (\<lambda>e. case e of ServiceDrain i \<Rightarrow> Some i | _ \<Rightarrow> None) t"

definition waits_of :: "event list \<Rightarrow> nat list" where
  "waits_of t = List.map_filter (\<lambda>e. case e of ServiceWait i \<Rightarrow> Some i | _ \<Rightarrow> None) t"

definition closes_of :: "event list \<Rightarrow> nat list" where
  "closes_of t = List.map_filter (\<lambda>e. case e of ServiceClose i \<Rightarrow> Some i | _ \<Rightarrow> None) t"

definition stopped_of :: "event list \<Rightarrow> stopHook list" where
  "stopped_of t = List.map_filter (\<lambda>e. case e of HookStopped h \<Rightarrow> Some h | _ \<Rightarrow> None) t"

lemmas trace_defs = hooks_of_def starts_of_def runs_of_def drains_of_def waits_of_def closes_of_def stopped_of_def

lemma map_filter_append [simp]: "List.map_filter f (xs @ ys) = List.map_filter f xs @ List.map_filter f ys"
  by (simp add: List.map_filter_def)

lemma map_filter_map_Some [simp]:
  "(\<And>x. f (g x) = Some (k x)) \<Longrightarrow> List.map_filter f (map g xs) = map k xs"
  by (induction xs) (simp_all add: List.map_filter_simps)

lemma map_filter_map_None [simp]:
  "(\<And>x. f (g x) = None) \<Longrightarrow> List.map_filter f (map g xs) = []"
  by (induction xs) (simp_all add: List.map_filter_simps)

lemmas read_trace = trace_defs List.map_filter_simps http_events_def

subsection \<open>Starting\<close>

lemma run_hooks_spec:
  "run_hooks n en hs maxStage ho = (m, e, ho') \<Longrightarrow>
   \<exists>k. ho_trace ho' = ho_trace ho @ map HookStarted (take k hs) \<and> ho_services ho' = ho_services ho \<and>
     (e = None \<longrightarrow> take k hs = hs) \<and> k \<le> length hs \<and> m = (if k = 0 then maxStage else sh_stage (hs ! (k - 1)))"
proof (induction hs arbitrary: n maxStage ho)
  case (Cons h hs)
  show ?case
  proof (cases "en_ctx en n")
    case None
    show ?thesis
    proof (cases "en_hook en h")
      case no_err: None
      with None Cons.prems have "run_hooks (Suc n) en hs (sh_stage h) (emit (HookStarted h) ho) = (m, e, ho')"
        by (simp add: Let_def)
      from Cons.IH [OF this] obtain k where k:
        "ho_trace ho' = ho_trace (emit (HookStarted h) ho) @ map HookStarted (take k hs)"
        "ho_services ho' = ho_services (emit (HookStarted h) ho)" "e = None \<longrightarrow> take k hs = hs" "k \<le> length hs"
        "m = (if k = 0 then sh_stage h else sh_stage (hs ! (k - 1)))" by blast
      show ?thesis by (rule exI [of _ "Suc k"]) (use k in \<open>auto simp: nth_Cons split: nat.split\<close>)
    next
      case (Some x)
      then show ?thesis using None Cons.prems by (intro exI [of _ 1]) (auto simp: Let_def)
    qed
  next
    case (Some x)
    then have "e \<noteq> None \<and> m = maxStage \<and> ho' = ho" using Cons.prems by (cases e) auto
    then show ?thesis by (intro exI [of _ 0]) simp
  qed
qed simp

definition flags_after :: "nat list \<Rightarrow> nat list \<Rightarrow> (bool \<times> bool) list \<Rightarrow> (bool \<times> bool) list" where
  "flags_after ks js fl = map (\<lambda>(i, a, b). (a \<or> i \<in> set ks, b \<or> i \<in> set js)) (enumerate 0 fl)"

lemma flags_after_nth [simp]: "i < length fl \<Longrightarrow> flags_after ks js fl ! i =
    (fst (fl ! i) \<or> i \<in> set ks, snd (fl ! i) \<or> i \<in> set js)"
  by (simp add: flags_after_def nth_enumerate_eq case_prod_beta)

lemma length_flags_after [simp]: "length (flags_after ks js fl) = length fl"
  by (simp add: flags_after_def)

lemma flags_modify_nth: "i < length (flags ho) \<Longrightarrow> flags (modify_service j f ho) ! i =
    (if i = j then (mg_startAttempted (f (ho_services ho ! i)), mg_runStarted (f (ho_services ho ! i))) else flags ho ! i)"
  by (simp add: flags_def modify_service_def nth_list_update)

lemma length_flags_modify [simp]: "length (flags (modify_service j f ho)) = length (flags ho)"
  by (simp add: flags_def modify_service_def)

lemma modify_service_trace [simp]: "ho_trace (modify_service j f ho) = ho_trace ho"
  by (simp add: modify_service_def)

lemma flags_attempted:
  "flags (modify_service i (\<lambda>s. s\<lparr>mg_startAttempted := True\<rparr>) ho) = flags_after [i] [] (flags ho)"
  by (rule nth_equalityI) (auto simp: flags_modify_nth flags_nth prod_eq_iff)

lemma flags_running:
  "flags (modify_service i (\<lambda>s. s\<lparr>mg_runStarted := True\<rparr>) ho) = flags_after [] [i] (flags ho)"
  by (rule nth_equalityI) (auto simp: flags_modify_nth flags_nth prod_eq_iff)

lemma flags_after_after:
  "flags_after ks js (flags_after ks' js' fl) = flags_after (ks' @ ks) (js' @ js) fl"
  by (rule nth_equalityI) auto

lemma flags_after_Nil [simp]: "flags_after [] [] fl = fl"
  by (rule nth_equalityI) auto

lemma wait_ready_frame:
  "waitManagedServiceReady en i ho = (x, ho') \<Longrightarrow> flags ho' = flags ho \<and> ho_trace ho' = ho_trace ho @ [ServiceReady i]"
  by (auto simp: waitManagedServiceReady_def Let_def split: readiness.splits)

text \<open>
  The services whose \<open>Start\<close> was called are a prefix of the list, and so are the ones whose
  \<open>Run\<close> was; at most the last start has no run.
\<close>

definition started_as :: "nat list \<Rightarrow> nat \<Rightarrow> nat \<Rightarrow> host \<Rightarrow> host \<Rightarrow> bool" where
  "started_as is k j ho ho' \<longleftrightarrow> j \<le> k \<and> k \<le> Suc j \<and> k \<le> length is \<and>
     flags ho' = flags_after (take k is) (take j is) (flags ho) \<and>
     (\<exists>t. ho_trace ho' = ho_trace ho @ t \<and> starts_of t = take k is \<and> runs_of t = take j is \<and>
        hooks_of t = [] \<and> drains_of t = [] \<and> waits_of t = [] \<and> closes_of t = [] \<and> stopped_of t = [] \<and>
        ReadySet True \<notin> set t)"

lemma started_as_step:
  assumes "started_as is k j ho1 ho2" and "flags ho1 = flags_after [i] [i] (flags ho)"
    and "ho_trace ho1 = ho_trace ho @ [ServiceStart i, ServiceRun i, ServiceReady i]"
  shows "started_as (i # is) (Suc k) (Suc j) ho ho2"
  using assms by (auto simp: started_as_def flags_after_after read_trace)

lemma started_as_0: "started_as is 0 0 ho ho"
  by (simp add: started_as_def read_trace)

lemma start_services_spec:
  "start_services en is ho = (e, ho') \<Longrightarrow> \<exists>k j. started_as is k j ho ho' \<and> (e = None \<longrightarrow> k = length is \<and> j = k)"
proof (induction "is" arbitrary: ho)
  case Nil then show ?case using started_as_0 [of "[]" ho] by fastforce
next
  case (Cons i "is")
  let ?h1 = "emit (ServiceStart i) (modify_service i (\<lambda>s. s\<lparr>mg_startAttempted := True\<rparr>) (setLifecycleState i StateStarting ho))"
  let ?h2 = "setLifecycleState i StateRunning (emit (ServiceRun i) (modify_service i (\<lambda>s. s\<lparr>mg_runStarted := True\<rparr>) ?h1))"
  have f1: "flags ?h1 = flags_after [i] [] (flags ho)" "ho_trace ?h1 = ho_trace ho @ [ServiceStart i]"
    by (simp_all add: flags_attempted)
  have f2: "flags ?h2 = flags_after [i] [i] (flags ho)" "ho_trace ?h2 = ho_trace ho @ [ServiceStart i, ServiceRun i]"
    by (simp_all add: flags_running flags_attempted flags_after_after)
  have one: "started_as (i # is) 1 0 ho h" if "flags h = flags ?h1" "ho_trace h = ho_trace ?h1" for h
    using that f1 by (simp add: started_as_def read_trace)
  have two: "started_as (i # is) 1 1 ho h" if "flags h = flags ?h2"
    "ho_trace h = ho_trace ?h2 \<or> ho_trace h = ho_trace ?h2 @ [ServiceReady i]" for h
    using that f2 by (auto simp: started_as_def read_trace)
  show ?case
  proof (cases "en_serviceErr en i False")
    case (Some x)
    then have "e \<noteq> None \<and> ho' = ho" using Cons.prems by (cases e) auto
    then show ?thesis using started_as_0 [of "i # is" ho] by auto
  next
    case none1: None
    show ?thesis
    proof (cases "en_start en i")
      case (Some x)
      then have "e \<noteq> None \<and> ho' = setLifecycleState i StateFailed ?h1" using Cons.prems none1 by (auto simp: Let_def)
      then show ?thesis using one [of ho'] by auto
    next
      case none2: None
      show ?thesis
      proof (cases "en_serviceErr en i True")
        case (Some x)
        then have "e \<noteq> None \<and> ho' = ?h1" using Cons.prems none1 none2 by (cases e) (auto simp: Let_def)
        then show ?thesis using one [of ho'] by auto
      next
        case none3: None
        show ?thesis
        proof (cases "en_live en i")
          case RunLive
          obtain y h where w: "waitManagedServiceReady en i ?h2 = (y, h)" by force
          note fr = wait_ready_frame [OF w]
          show ?thesis
          proof (cases y)
            case None
            then have "start_services en is (setLifecycleState i StateReady h) = (e, ho')"
              using Cons.prems none1 none2 none3 RunLive w by (simp add: Let_def)
            from Cons.IH [OF this] obtain k j where kj: "started_as is k j (setLifecycleState i StateReady h) ho'"
              "e = None \<longrightarrow> k = length is \<and> j = k" by blast
            have "started_as (i # is) (Suc k) (Suc j) ho ho'"
              by (rule started_as_step [OF kj(1)]) (use fr f2 in simp_all)
            then show ?thesis using kj(2) by fastforce
          next
            case (Some x)
            then have "e \<noteq> None \<and> ho' = h" using Cons.prems none1 none2 none3 RunLive w by (auto simp: Let_def)
            then show ?thesis using two [of ho'] fr by auto
          qed
        next
          case (RunExited x)
          then have "e \<noteq> None \<and> ho' = setLifecycleState i StateFailed ?h2"
            using Cons.prems none1 none2 none3 by (auto simp: Let_def)
          then show ?thesis using two [of ho'] by auto
        next
          case (StartCtxDone x)
          then have "e \<noteq> None \<and> flags ho' = flags ?h2 \<and> ho_trace ho' = ho_trace ?h2"
            using Cons.prems none1 none2 none3 by (auto simp: Let_def)
          then show ?thesis using two [of ho'] by auto
        qed
      qed
    qed
  qed
qed


subsection \<open>Properties of a run\<close>

text \<open>
  Property C6. The shutdown does everything in its order, whatever fails or times out on
  the way: readiness is withdrawn and the run context cancelled first; every running
  service is drained, in reverse order, before the service context is cancelled; then every
  running service is waited for and every service whose start was attempted is closed,
  in reverse order; then the HTTP outcome is collected, and last the stop hooks of the
  stages that began to start are run, highest stage first, each exactly once.
\<close>

theorem shutdown_trace:
  "ho_trace (snd (shutdown en cfg http maxStage r ho)) = ho_trace ho @
     (let n = length (ho_services ho);
          running = filter (\<lambda>i. mg_runStarted (ho_services ho ! i)) (rev [0..<n]);
          attempted = filter (\<lambda>i. mg_startAttempted (ho_services ho ! i)) (rev [0..<n])
      in [ReadySet False, RunCancelled] @ (if drainDelay cfg > 0 then [DrainDelay] else []) @
        (if http then [HttpShutdown] else []) @
        map ServiceDrain running @ [ServicesCancelled] @ map ServiceWait running @ map ServiceClose attempted @
        (if http then http_events en else []) @
        map HookStopped (filter (\<lambda>s. ph_stage s \<le> maxStage) (stop_order (stops r))))"
proof -
  have "filter (\<lambda>i. mg_runStarted (ho_services ho ! i)) (rev [0..<length (flags ho)]) =
      filter (\<lambda>i. snd (flags ho ! i)) (rev [0..<length (flags ho)])"
    "filter (\<lambda>i. mg_startAttempted (ho_services ho ! i)) (rev [0..<length (flags ho)]) =
      filter (\<lambda>i. fst (flags ho ! i)) (rev [0..<length (flags ho)])"
    by (rule filter_cong; simp add: flags_nth)+
  then show ?thesis unfolding shutdown_trace_flags Let_def length_flags by simp
qed

lemma resolve_services_host:
  "resolve_services cb ss r ho = Inr (r', ho') \<Longrightarrow>
     ho_trace ho' = ho_trace ho \<and> flags ho' = flags ho @ replicate (length ss) (False, False)"
proof (induction ss arbitrary: r ho)
  case (Cons s ss)
  then obtain r1 where "resolve_services cb ss r1 (addService s ho) = Inr (r', ho')"
    by (auto simp: Let_def split: option.splits sum.splits if_splits)
  from Cons.IH [OF this] show ?case by (simp add: addService_def flags_def split: prod.splits)
qed simp

lemma prepare_InrD:
  assumes "prepare cb cfg ms r0 ho0 = Inr (r, ho)"
  shows "\<exists>r3. resolveManagedServices cb r3 ho0 = Inr (r, ho)"
    and "\<exists>enabled r1 r2 r3. enabledModules cfg ms = Inr enabled \<and> register cfg enabled r0 = Inr r1 \<and>
      resolveAll (registerBusLifecycle cfg (cb_checker cb ''appkit-bus'') r1) = Some (None, r2) \<and>
      migrate cfg r2 = None \<and> runSetups cb r2 = Inr r3 \<and> resolveManagedServices cb r3 ho0 = Inr (r, ho)"
    and "httpEnabled cfg \<Longrightarrow> validateSecurityMode (securityMode cfg) = None"
    and "validate_routes cfg r = None" and "validatePermBindings r = None"
    and "\<exists>subs. subscribeConsumers cfg r = Inr subs"
    and "httpEnabled cfg \<Longrightarrow> \<exists>mux. buildMux (cb_rejects cb) cfg r = Inr mux"
  using assms by (auto simp: prepare_def split: option.splits sum.splits prod.splits if_splits fault.splits)

lemma migrate_None: "migrate cfg r = None \<Longrightarrow> migrations r = [] \<or>
    \<not> disableMigrations cfg \<and> (skipMigrations cfg \<or> (\<exists>f. migrator cfg = Some f \<and> f (migrations r) = None))"
  by (auto simp: migrate_def split: list.splits if_splits option.splits)

lemma filter_less_rev: "k \<le> n \<Longrightarrow> filter (\<lambda>i. i < k) (rev [0..<n]) = rev [0..<k]"
proof (induction n)
  case (Suc n)
  then show ?case by (cases "k = Suc n") (auto simp: filter_id_conv)
qed simp

lemma http_events_projections:
  "hooks_of (http_events en) = []" "starts_of (http_events en) = []" "runs_of (http_events en) = []"
  "drains_of (http_events en) = []" "waits_of (http_events en) = []" "closes_of (http_events en) = []"
  "stopped_of (http_events en) = []" "ReadySet True \<notin> set (http_events en)"
  by (simp_all add: http_events_def trace_defs List.map_filter_simps)

lemma map_filter_if [simp]: "List.map_filter f (if b then xs else ys) = (if b then List.map_filter f xs else List.map_filter f ys)"
  by simp

lemma shutdown_projections:
  assumes fl: "flags ho = flags_after [0..<k] [0..<j] (replicate n (False, False))" and "j \<le> k" "k \<le> n"
    and sd: "shutdown en cfg http maxStage r ho = (e, ho')"
  shows "hooks_of (ho_trace ho') = hooks_of (ho_trace ho) \<and> starts_of (ho_trace ho') = starts_of (ho_trace ho) \<and>
    runs_of (ho_trace ho') = runs_of (ho_trace ho) \<and> drains_of (ho_trace ho') = drains_of (ho_trace ho) @ rev [0..<j] \<and>
    waits_of (ho_trace ho') = waits_of (ho_trace ho) @ rev [0..<j] \<and>
    closes_of (ho_trace ho') = closes_of (ho_trace ho) @ rev [0..<k] \<and>
    stopped_of (ho_trace ho') = stopped_of (ho_trace ho) @ filter (\<lambda>s. ph_stage s \<le> maxStage) (stop_order (stops r)) \<and>
    (ReadySet True \<in> set (ho_trace ho') \<longleftrightarrow> ReadySet True \<in> set (ho_trace ho))"
proof -
  have len: "length (flags ho) = n" using fl by simp
  have "filter (\<lambda>i. snd (flags ho ! i)) (rev [0..<n]) = filter (\<lambda>i. i < j) (rev [0..<n])"
    "filter (\<lambda>i. fst (flags ho ! i)) (rev [0..<n]) = filter (\<lambda>i. i < k) (rev [0..<n])"
    using fl by (auto intro!: filter_cong)
  then have tr: "ho_trace ho' = ho_trace ho @
     [ReadySet False, RunCancelled] @ (if drainDelay cfg > 0 then [DrainDelay] else []) @
     (if http then [HttpShutdown] else []) @ map ServiceDrain (rev [0..<j]) @ [ServicesCancelled] @
     map ServiceWait (rev [0..<j]) @ map ServiceClose (rev [0..<k]) @
     (if http then http_events en else []) @
     map HookStopped (filter (\<lambda>s. ph_stage s \<le> maxStage) (stop_order (stops r)))"
    using shutdown_trace_flags [of en cfg http maxStage r ho] sd assms(2,3)
    by (simp add: len filter_less_rev)
  show ?thesis unfolding tr using http_events_projections [of en]
    by (auto simp: trace_defs List.map_filter_simps)
qed

lemma start_services_all:
  assumes "startManagedServices en ho = (e, ho')" and "flags ho = replicate n (False, False)"
  shows "\<exists>k j. started_as [0..<n] k j ho ho' \<and> (e = None \<longrightarrow> k = n \<and> j = n)"
  using start_services_spec [of en "[0..<n]" ho e ho'] assms by (auto simp: startManagedServices_def length_flags)

text \<open>The two halves of a run: what is started, then the shutdown from that state.\<close>

lemma projections_append:
  "hooks_of (t @ u) = hooks_of t @ hooks_of u" "starts_of (t @ u) = starts_of t @ starts_of u"
  "runs_of (t @ u) = runs_of t @ runs_of u" "drains_of (t @ u) = drains_of t @ drains_of u"
  "waits_of (t @ u) = waits_of t @ waits_of u" "closes_of (t @ u) = closes_of t @ closes_of u"
  "stopped_of (t @ u) = stopped_of t @ stopped_of u"
  by (simp_all add: trace_defs)

lemma projections_hooks:
  "hooks_of (map HookStarted hs) = hs" "starts_of (map HookStarted hs) = []"
  "runs_of (map HookStarted hs) = []" "drains_of (map HookStarted hs) = []"
  "waits_of (map HookStarted hs) = []" "closes_of (map HookStarted hs) = []"
  "stopped_of (map HookStarted hs) = []" "ReadySet True \<notin> set (map HookStarted hs)"
  by (auto simp: trace_defs)

definition start_result :: "startHook list \<Rightarrow> nat \<Rightarrow> nat \<Rightarrow> nat \<Rightarrow> nat \<Rightarrow> int \<Rightarrow> gerr option \<Rightarrow> host \<Rightarrow> bool" where
  "start_result order n m j k maxStage e ho \<longleftrightarrow>
    hooks_of (ho_trace ho) = take m order \<and> m \<le> length order \<and>
    maxStage = (if m = 0 then stageNone else sh_stage (order ! (m - 1))) \<and>
    starts_of (ho_trace ho) = [0..<k] \<and> runs_of (ho_trace ho) = [0..<j] \<and>
    closes_of (ho_trace ho) = [] \<and> drains_of (ho_trace ho) = [] \<and> waits_of (ho_trace ho) = [] \<and>
    stopped_of (ho_trace ho) = [] \<and> ReadySet True \<notin> set (ho_trace ho) \<and>
    j \<le> k \<and> k \<le> Suc j \<and> k \<le> n \<and> (0 < k \<longrightarrow> take m order = order) \<and>
    (e = None \<longrightarrow> take m order = order \<and> j = n) \<and>
    flags ho = flags_after [0..<k] [0..<j] (replicate n (False, False))"

lemma start_phase:
  assumes "prepare cb cfg ms r0 new_host = Inr (r, ho1)"
    and "startHooks en http r (set_host HostStarting ho1) = (maxStage, e1, h2)"
    and "(if e1 = None then startManagedServices en h2 else (e1, h2)) = (e2, h3)"
  shows "\<exists>m j k. start_result (start_order (all_hooks http r)) (length (ho_services ho1)) m j k maxStage e2 h3"
proof -
  let ?order = "start_order (all_hooks http r)" and ?n = "length (ho_services ho1)"
  from prepare_InrD(1) [OF assms(1)] obtain r3 where "resolveManagedServices cb r3 new_host = Inr (r, ho1)" by blast
  from resolve_services_host [OF this [unfolded resolveManagedServices_def]]
  have ho1: "ho_trace ho1 = []" "flags ho1 = replicate ?n (False, False)"
    by (auto simp: new_host_def length_flags flags_def)
  from run_hooks_spec [OF assms(2) [unfolded startHooks_def]] obtain m where
    tr: "ho_trace h2 = ho_trace (set_host HostStarting ho1) @ map HookStarted (take m ?order)" and
    sv: "ho_services h2 = ho_services (set_host HostStarting ho1)" and
    m0: "e1 = None \<longrightarrow> take m ?order = ?order" "m \<le> length ?order"
      "maxStage = (if m = 0 then stageNone else sh_stage (?order ! (m - 1)))"
    by blast
  have m: "ho_trace h2 = map HookStarted (take m ?order)" "ho_services h2 = ho_services ho1"
    unfolding tr sv using ho1(1) by simp_all
  note m = m m0
  have h2: "flags h2 = replicate ?n (False, False)" using m(2) ho1(2) by (simp add: flags_def)
  show ?thesis
  proof (cases e1)
    case None
    then have all: "take m ?order = ?order" using m(3) by simp
    have "startManagedServices en h2 = (e2, h3)" using assms(3) None by simp
    from start_services_all [OF this h2] obtain k j where kj: "started_as [0..<?n] k j h2 h3"
      "e2 = None \<longrightarrow> k = ?n \<and> j = ?n" by blast
    then obtain t where t: "ho_trace h3 = ho_trace h2 @ t" "starts_of t = [0..<k]" "runs_of t = [0..<j]"
        "hooks_of t = []" "drains_of t = []" "waits_of t = []" "closes_of t = []" "stopped_of t = []"
        "ReadySet True \<notin> set t" "j \<le> k" "k \<le> Suc j" "k \<le> ?n"
        "flags h3 = flags_after [0..<k] [0..<j] (replicate ?n (False, False))"
      using h2 by (auto simp: started_as_def)
    have "start_result ?order ?n m j k maxStage e2 h3"
      unfolding start_result_def t(1) m(1) projections_append projections_hooks t(2-8)
      using t(9-13) m(4,5) kj(2) all by auto
    then show ?thesis by blast
  next
    case (Some x)
    then have "h3 = h2" "e2 = Some x" using assms(3) by auto
    then have "start_result ?order ?n m 0 0 maxStage e2 h3"
      unfolding start_result_def using m h2 projections_hooks by auto
    then show ?thesis by blast
  qed
qed

lemma projections_ready:
  "hooks_of (t @ [ReadySet b]) = hooks_of t" "starts_of (t @ [ReadySet b]) = starts_of t"
  "runs_of (t @ [ReadySet b]) = runs_of t" "drains_of (t @ [ReadySet b]) = drains_of t"
  "waits_of (t @ [ReadySet b]) = waits_of t" "closes_of (t @ [ReadySet b]) = closes_of t"
  "stopped_of (t @ [ReadySet b]) = stopped_of t"
  by (simp_all add: trace_defs List.map_filter_simps)

lemma flags_draining [simp]: "flags (ho\<lparr>ho_draining := b\<rparr>) = flags ho"
  by (simp add: flags_def)

lemma runHost_phases:
  assumes "prepare cb cfg ms r0 new_host = Inr (r, ho1)" and "runHost en cb cfg ms r0 new_host = (err, ho)"
  shows "\<exists>maxStage e1 h2 e2 h3 h4 e. startHooks en (httpEnabled cfg) r (set_host HostStarting ho1) = (maxStage, e1, h2) \<and>
    (if e1 = None then startManagedServices en h2 else (e1, h2)) = (e2, h3) \<and> flags h4 = flags h3 \<and>
    (ho_trace h4 = ho_trace h3 \<or> e2 = None \<and> ho_trace h4 = ho_trace h3 @ [ReadySet True]) \<and>
    shutdown en cfg (httpEnabled cfg) maxStage r h4 = (e, ho)"
proof -
  obtain maxStage e1 h2 where 1: "startHooks en (httpEnabled cfg) r (set_host HostStarting ho1) = (maxStage, e1, h2)"
    by (metis prod_cases3)
  obtain e2 h3 where 2: "(if e1 = None then startManagedServices en h2 else (e1, h2)) = (e2, h3)" by force
  show ?thesis
  proof (cases "if e2 = None then en_lateServiceErr en else e2")
    case (Some x)
    let ?h4 = "set_host HostStopping (h3\<lparr>ho_draining := True\<rparr>)"
    from Some 1 2 assms have "\<exists>e. shutdown en cfg (httpEnabled cfg) maxStage r ?h4 = (e, ho)"
      by (auto simp: runHost_def split: prod.splits)
    moreover have "flags ?h4 = flags h3" by simp
    moreover have "ho_trace ?h4 = ho_trace h3" by simp
    ultimately show ?thesis using 1 2 by blast
  next
    case None
    let ?h4 = "set_host HostDraining ((set_host HostReady (emit (ReadySet True) h3))\<lparr>ho_draining := True\<rparr>)"
    from None 1 2 assms have "e2 = None \<and> (\<exists>e. shutdown en cfg (httpEnabled cfg) maxStage r ?h4 = (e, ho))"
      by (auto simp: runHost_def Let_def split: prod.splits if_splits)
    moreover have "flags ?h4 = flags h3" by simp
    moreover have "ho_trace ?h4 = ho_trace h3 @ [ReadySet True]" by simp
    ultimately show ?thesis using 1 2 by blast
  qed
qed

lemma run_mirrored:
  assumes "prepare cb cfg ms r0 new_host = Inr (r, ho1)" and "runHost en cb cfg ms r0 new_host = (err, ho)"
  shows "\<exists>m j k. (let t = ho_trace ho; order = start_order (all_hooks (httpEnabled cfg) r);
      maxStage = (if m = 0 then stageNone else sh_stage (order ! (m - 1))) in
    hooks_of t = take m order \<and> m \<le> length order \<and>
    starts_of t = [0..<k] \<and> closes_of t = rev [0..<k] \<and>
    runs_of t = [0..<j] \<and> drains_of t = rev [0..<j] \<and> waits_of t = rev [0..<j] \<and>
    j \<le> k \<and> k \<le> Suc j \<and> k \<le> length (ho_services ho1) \<and> (0 < k \<longrightarrow> hooks_of t = order) \<and>
    (ReadySet True \<in> set t \<longrightarrow> hooks_of t = order \<and> j = length (ho_services ho1)) \<and>
    stopped_of t = filter (\<lambda>s. ph_stage s \<le> maxStage) (stop_order (stops r)))"
proof -
  from runHost_phases [OF assms] obtain maxStage e1 h2 e2 h3 h4 e where
    1: "startHooks en (httpEnabled cfg) r (set_host HostStarting ho1) = (maxStage, e1, h2)" and
    2: "(if e1 = None then startManagedServices en h2 else (e1, h2)) = (e2, h3)" and
    4: "flags h4 = flags h3" "ho_trace h4 = ho_trace h3 \<or> e2 = None \<and> ho_trace h4 = ho_trace h3 @ [ReadySet True]" and
    5: "shutdown en cfg (httpEnabled cfg) maxStage r h4 = (e, ho)" by blast
  from start_phase [OF assms(1) 1 2] obtain m j k where
    mjk: "start_result (start_order (all_hooks (httpEnabled cfg) r)) (length (ho_services ho1)) m j k maxStage e2 h3" by blast
  have fl: "flags h4 = flags_after [0..<k] [0..<j] (replicate (length (ho_services ho1)) (False, False))"
    and jk: "j \<le> k" "k \<le> length (ho_services ho1)"
    using mjk 4(1) by (simp_all add: start_result_def)
  note p = shutdown_projections [OF fl jk 5]
  have same: "hooks_of (ho_trace h4) = hooks_of (ho_trace h3)" "starts_of (ho_trace h4) = starts_of (ho_trace h3)"
    "runs_of (ho_trace h4) = runs_of (ho_trace h3)" "drains_of (ho_trace h4) = drains_of (ho_trace h3)"
    "waits_of (ho_trace h4) = waits_of (ho_trace h3)" "closes_of (ho_trace h4) = closes_of (ho_trace h3)"
    "stopped_of (ho_trace h4) = stopped_of (ho_trace h3)"
    "ReadySet True \<in> set (ho_trace h4) \<Longrightarrow> ReadySet True \<in> set (ho_trace h3) \<or> e2 = None"
    using 4(2) by (auto simp: projections_ready)
  show ?thesis
    by (rule exI [of _ m], rule exI [of _ j], rule exI [of _ k])
      (use mjk [unfolded start_result_def] p same in \<open>simp add: Let_def, blast?\<close>)
qed

text \<open>
  Property C3. A run mirrors its start. The hooks run are the first ones of the start order
  (by stage, then by registration), a service is started only after all of them, and the
  host is ready only when every hook and every service started. The services started are
  the first ones declared; each of them is closed exactly once, in reverse order, also the
  one whose start failed; the ones that run are drained and waited for, in reverse
  order; and exactly the stop hooks up to the last stage that began are run.
\<close>

theorem host_run_mirrored:
  assumes "prepare cb cfg ms r0 new_host = Inr (r, ho1)" and "runHost en cb cfg ms r0 new_host = (err, ho)"
  shows "\<exists>m j k. (let t = ho_trace ho; order = start_order (all_hooks (httpEnabled cfg) r);
      maxStage = (if m = 0 then stageNone else sh_stage (order ! (m - 1))) in
    hooks_of t = take m order \<and> m \<le> length order \<and>
    starts_of t = [0..<k] \<and> closes_of t = rev [0..<k] \<and>
    runs_of t = [0..<j] \<and> drains_of t = rev [0..<j] \<and> waits_of t = rev [0..<j] \<and>
    j \<le> k \<and> k \<le> Suc j \<and> k \<le> length (ho_services ho1) \<and> (0 < k \<longrightarrow> hooks_of t = order) \<and>
    (ReadySet True \<in> set t \<longrightarrow> hooks_of t = order \<and> j = length (ho_services ho1)) \<and>
    stopped_of t = filter (\<lambda>s. ph_stage s \<le> maxStage) (stop_order (stops r)))"
  using assms by (rule run_mirrored)

definition quiet_env :: env where
  "quiet_env = \<lparr>en_ctx = (\<lambda>n. None), en_hook = (\<lambda>h. None), en_serviceErr = (\<lambda>i b. None), en_start = (\<lambda>i. None),
     en_live = (\<lambda>i. RunLive), en_ready = (\<lambda>i. ReadyOk), en_lateServiceErr = None, en_trigger = None, en_exits = [],
     en_delay = None, en_httpTimeout = False, en_httpShutdown = None, en_httpClose = None, en_drain = (\<lambda>i. None),
     en_wait = (\<lambda>i. None), en_close = (\<lambda>i. None), en_stop = (\<lambda>h. None), en_budget = None\<rparr>"

definition sample_callbacks :: "nat callbacks" where
  "sample_callbacks = \<lparr>cb_setup = (\<lambda>h r. Some (Inr r)), cb_factory = (\<lambda>f r. Some (Inr (False, r))),
     cb_checker = length, cb_rejects = (\<lambda>ps p. List.member ps p)\<rparr>"

definition sample_module :: "nat modul" where
  "sample_module = \<lparr>md_name = ''m'', md_register = (\<lambda>r. Some (ManagedService ''s'' ServiceCritical (Some 0)
     (OnStop (UserHook 2) (OnStart StageInfra (UserHook 1) r))))\<rparr>"

definition sample_config :: "(nat, served) appConfig" where
  "sample_config = New_app [\<lambda>c. c\<lparr>httpEnabled := False\<rparr>]"

text \<open>The run of the sample application in which the service's start fails.\<close>

definition failing_env :: env where
  "failing_env = quiet_env\<lparr>en_start := (\<lambda>i. Some (Leaf ''no port''))\<rparr>"

theorem host_run_mirrored_witness:
  "\<exists>k. starts_of (ho_trace (snd (runHost failing_env sample_callbacks sample_config [sample_module] newRegistry new_host))) = [0..<k] \<and>
     closes_of (ho_trace (snd (runHost failing_env sample_callbacks sample_config [sample_module] newRegistry new_host))) = rev [0..<k]"
proof -
  have "is_ok (prepare sample_callbacks sample_config [sample_module] newRegistry new_host)" by code_simp
  then obtain r ho1 where p: "prepare sample_callbacks sample_config [sample_module] newRegistry new_host = Inr (r, ho1)"
    by (cases "prepare sample_callbacks sample_config [sample_module] newRegistry new_host") auto
  obtain err ho where h: "runHost failing_env sample_callbacks sample_config [sample_module] newRegistry new_host = (err, ho)"
    by force
  from host_run_mirrored [OF p h] show ?thesis unfolding h by (auto simp: Let_def)
qed

text \<open>
  Property C7. Nothing starts in an application whose assembly is not valid. When a run did
  anything at all, its registry went through the whole assembly in order: the enabled modules registered, every
  provider and contribution of the registry they built was constructed without an error, the migrations then declared
  were none, or explicitly skipped, or accepted by the migrator, and on that registry the set-up callbacks and the
  service factories succeeded. In the registry that results every permission code bound to a route is declared,
  every consumer has a bus, and with HTTP the security mode and the classification of
  every route are valid and the mux was built, while without HTTP there is no route; the hooks the run started
  are the first of that registry's start hooks in their order.
\<close>

theorem host_starts_validated:
  assumes "runHost en cb cfg ms r0 new_host = (err, ho)" and "ho_trace ho \<noteq> []"
  shows "\<exists>enabled r1 r2 r3 r ho1. enabledModules cfg ms = Inr enabled \<and> register cfg enabled r0 = Inr r1 \<and>
     resolveAll (registerBusLifecycle cfg (cb_checker cb ''appkit-bus'') r1) = Some (None, r2) \<and>
     (migrations r2 = [] \<or>
        \<not> disableMigrations cfg \<and> (skipMigrations cfg \<or> (\<exists>f. migrator cfg = Some f \<and> f (migrations r2) = None))) \<and>
     runSetups cb r2 = Inr r3 \<and> resolveManagedServices cb r3 new_host = Inr (r, ho1) \<and>
     prepare cb cfg ms r0 new_host = Inr (r, ho1) \<and>
     validatePermBindings r = None \<and> (consumers r \<noteq> [] \<longrightarrow> app_bus cfg \<noteq> NoBus) \<and>
     (httpEnabled cfg \<longrightarrow> validateSecurityMode (securityMode cfg) = None \<and>
        validateRouteSecurity (securityMode cfg) (app_pprof cfg) r = [] \<and>
        (\<exists>mux. buildMux (cb_rejects cb) cfg r = Inr mux)) \<and>
     (\<not> httpEnabled cfg \<longrightarrow> mounts r = [] \<and> \<not> app_pprof cfg) \<and>
     (\<exists>m. hooks_of (ho_trace ho) = take m (start_order (all_hooks (httpEnabled cfg) r)))"
proof (cases "prepare cb cfg ms r0 new_host")
  case (Inl e)
  then have "ho = new_host" using assms(1) by (simp add: runHost_def)
  then show ?thesis using assms(2) by (simp add: new_host_def)
next
  case (Inr x)
  obtain r ho1 where x: "x = (r, ho1)" by force
  note p = prepare_InrD [OF Inr [unfolded x]]
  have "consumers r \<noteq> [] \<longrightarrow> app_bus cfg \<noteq> NoBus"
    using p(6) by (auto simp: subscribeConsumers_def split: list.splits)
  moreover have "httpEnabled cfg \<longrightarrow> validateRouteSecurity (securityMode cfg) (app_pprof cfg) r = []"
    "\<not> httpEnabled cfg \<longrightarrow> mounts r = [] \<and> \<not> app_pprof cfg"
    using p(4) by (auto simp: validate_routes_def validateHeadlessRoutes_def split: if_splits list.splits)
  moreover have "\<exists>m. hooks_of (ho_trace ho) = take m (start_order (all_hooks (httpEnabled cfg) r))"
    using run_mirrored [OF Inr [unfolded x] assms(1)] by (auto simp: Let_def)
  ultimately show ?thesis using p migrate_None Inr x by blast
qed

text \<open>The sample application with a provider and a migration, which the migrator accepts.\<close>

definition migrating_module :: "nat modul" where
  "migrating_module = \<lparr>md_name = ''m'', md_register = (\<lambda>r. (case ProvideValue (''T'', ''pkg'') (Some 7) (Migrations ''s'' [(''1'', ''a'')] (OnStart StageInfra (UserHook 1) r)) of
     None \<Rightarrow> None | Some r' \<Rightarrow> Some (Inr r')))\<rparr>"

definition migrating_config :: "(nat, served) appConfig" where
  "migrating_config = New_app [\<lambda>c. c\<lparr>httpEnabled := False, migrator := Some (\<lambda>ms. if map ms_schema ms = [''s''] then None else Some (Leaf ''unexpected''))\<rparr>]"

theorem host_starts_validated_witness:
  "\<exists>r1 r2. register migrating_config [migrating_module] newRegistry = Inr r1 \<and> resolveAll r1 = Some (None, r2) \<and>
     (\<exists>f. migrator migrating_config = Some f \<and> f (migrations r2) = None)"
proof -
  obtain err ho where h: "runHost quiet_env sample_callbacks migrating_config [migrating_module] newRegistry new_host = (err, ho)"
    by force
  have "ho_trace (snd (runHost quiet_env sample_callbacks migrating_config [migrating_module] newRegistry new_host)) \<noteq> []"
    by code_simp
  then have ne: "ho_trace ho \<noteq> []" by (simp add: h)
  have one: "enabledModules migrating_config [migrating_module] = Inr [migrating_module]"
    by (simp add: enabledModules_def migrating_config_def New_app_def default_config_def)
  have bus: "registerBusLifecycle migrating_config c r = r" for c and r :: "nat registry"
    by (simp add: registerBusLifecycle_def migrating_config_def New_app_def default_config_def)
  have "case register migrating_config [migrating_module] newRegistry of Inl e \<Rightarrow> False
      | Inr r1 \<Rightarrow> (case resolveAll r1 of Some (None, r2) \<Rightarrow> migrations r2 \<noteq> [] | _ \<Rightarrow> False)" by code_simp
  then have ms: "migrations r2 \<noteq> []" if "register migrating_config [migrating_module] newRegistry = Inr r1"
      "resolveAll r1 = Some (None, r2)" for r1 r2 using that by simp
  have "\<not> skipMigrations migrating_config" by (simp add: migrating_config_def New_app_def default_config_def)
  with host_starts_validated [OF h ne] one bus ms show ?thesis by fastforce
qed

text \<open>
  In every strict mode the server's handler is the identity boundary around the
  middleware chain around the mux: no middleware, in whatever order, and no server option
  ever sees the identity headers or the context identity a request arrived with.
\<close>

theorem strict_root_handler:
  assumes "securityMode cfg \<noteq> SecurityDisabled"
  shows "srv_handler (buildServer opts cfg (wrap_root cfg h)) req =
    foldr (\<lambda>mw h. mw h) (middleware cfg) h (strip_identity req)"
  using assms by (simp add: buildServer_def wrap_root_def Let_def identityBoundary_def)

definition leaky_server :: "served http_server \<Rightarrow> served http_server" where
  "leaky_server s = s\<lparr>srv_handler := (\<lambda>req. serve sample_routes 2000 (HRequirePerm ''roles:delete'' (HRaw 7)) req)\<rparr>"

theorem strict_root_handler_witness:
  "srv_handler (buildServer [leaky_server] (sample_config\<lparr>securityMode := SecurityMixed\<rparr>)
     (wrap_root (sample_config\<lparr>securityMode := SecurityMixed\<rparr>) (serve sample_routes 2000 (HRequireUser (HRaw 7))))) sample_admin =
   Answered (Unauthenticated ''authentication required'')"
proof -
  have "securityMode (sample_config\<lparr>securityMode := SecurityMixed\<rparr>) \<noteq> SecurityDisabled"
    by (simp add: go_defs)
  from strict_root_handler [OF this, of "[leaky_server]" "serve sample_routes 2000 (HRequireUser (HRaw 7))" sample_admin]
  show ?thesis
    by (simp add: sample_config_def New_app_def default_config_def strip_identity_def Let_def ActorFrom_def
        clearActor_def WithServicePrincipal_def WithIdentityExpiry_def)
qed

subsection \<open>Order of the hooks\<close>

lemma stop_order_filter: "filter P (stop_order hs) = stop_order (filter P hs)"
  by (simp add: stop_order_def filter_sort)

text \<open>
  Property C14. A managed broker is stopped in the order its protocol needs, whatever other
  hooks exist: drain the consumer, cancel it, wait for its worker, and close the connection
  only after every hook of the worker stage; and it is connected before its worker starts.
\<close>

theorem broker_lifecycle_order:
  assumes "app_bus cfg = ManagedBus"
    and "list_all (\<lambda>h. ph_seq h < length (stops r)) (stops r)"
    and "list_all (\<lambda>h. sh_seq h < length (starts r)) (starts r)"
  shows "(let r' = registerBusLifecycle cfg ready r; w = length (workers r) in
    map ph_fn (filter (\<lambda>h. length (stops r) \<le> ph_seq h) (stop_order (stops r'))) = [BusDrain, BusCancel, WorkerStop w, BusClose] \<and>
    map sh_fn (filter (\<lambda>h. length (starts r) \<le> sh_seq h) (start_order (starts r'))) = [BusConnect, WorkerStart w] \<and>
    (\<forall>xs ys. stop_order (stops r') = xs @ ys \<and> (\<exists>h\<in>set ys. ph_stage h \<ge> StageWorker) \<longrightarrow> BusClose \<notin> ph_fn ` set xs \<or> BusClose \<in> ph_fn ` set (stops r)) \<and>
    current r' = current r)"
proof -
  let ?r' = "registerBusLifecycle cfg ready r" and ?w = "length (workers r)" and ?n = "length (stops r)"
  let ?new = "[\<lparr>ph_stage = StageInfra, ph_seq = ?n, ph_fn = BusClose, ph_module = ''appkit-bus''\<rparr>,
     \<lparr>ph_stage = StageWorker, ph_seq = Suc ?n, ph_fn = WorkerStop ?w, ph_module = ''appkit-bus''\<rparr>,
     \<lparr>ph_stage = StageWorker, ph_seq = Suc (Suc ?n), ph_fn = BusCancel, ph_module = ''appkit-bus''\<rparr>,
     \<lparr>ph_stage = StageWorker, ph_seq = Suc (Suc (Suc ?n)), ph_fn = BusDrain, ph_module = ''appkit-bus''\<rparr>]"
  let ?news = "[\<lparr>sh_stage = StageInfra, sh_seq = length (starts r), sh_fn = BusConnect, sh_module = ''appkit-bus''\<rparr>,
     \<lparr>sh_stage = StageWorker, sh_seq = Suc (length (starts r)), sh_fn = WorkerStart ?w, sh_module = ''appkit-bus''\<rparr>]"
  have r': "stops ?r' = stops r @ ?new" "starts ?r' = starts r @ ?news" "current ?r' = current r"
    by (simp_all add: registerBusLifecycle_def assms(1) Let_def worker_def OnStart_def OnStop_def Health_def)
  have new: "filter (\<lambda>h. ?n \<le> ph_seq h) (stops ?r') = ?new"
    using assms(2) by (auto simp: r' list_all_iff filter_empty_conv)
  have news: "filter (\<lambda>h. length (starts r) \<le> sh_seq h) (starts ?r') = ?news"
    using assms(3) by (auto simp: r' list_all_iff filter_empty_conv)
  have "map ph_fn (filter (\<lambda>h. ?n \<le> ph_seq h) (stop_order (stops ?r'))) = [BusDrain, BusCancel, WorkerStop ?w, BusClose]"
    unfolding stop_order_filter new by (simp add: stop_order_def go_defs)
  moreover have "map sh_fn (filter (\<lambda>h. length (starts r) \<le> sh_seq h) (start_order (starts ?r'))) = [BusConnect, WorkerStart ?w]"
    unfolding start_order_def filter_sort news by (simp add: go_defs)
  moreover have "BusClose \<notin> ph_fn ` set xs \<or> BusClose \<in> ph_fn ` set (stops r)"
    if "stop_order (stops ?r') = xs @ ys" "h \<in> set ys" "StageWorker \<le> ph_stage h" for xs ys h
  proof (rule disjCI)
    assume no: "BusClose \<notin> ph_fn ` set (stops r)"
    have "sorted (map (\<lambda>h. (- ph_stage h, - int (ph_seq h))) (xs @ ys))"
      using that(1) sorted_sort_key [of "\<lambda>h. (- ph_stage h, - int (ph_seq h))" "stops ?r'"] by (simp add: stop_order_def)
    then have le: "(- ph_stage x, - int (ph_seq x)) \<le> (- ph_stage h, - int (ph_seq h))" if "x \<in> set xs" for x
      using that \<open>h \<in> set ys\<close> by (auto simp: sorted_append)
    have "set xs \<subseteq> set (stops ?r')" using that(1) by (metis set_append set_sort stop_order_def sup_ge1)
    then have mem: "x \<in> set (stops r) \<or> x \<in> set ?new" if "x \<in> set xs" for x
      using that unfolding r' by auto
    have "ph_stage x = StageInfra" if "x \<in> set xs" "ph_fn x = BusClose" for x
      using mem [OF that(1)] that(2) no by (elim disjE) (force, auto)
    then show "BusClose \<notin> ph_fn ` set xs"
      using le that(3) by (fastforce simp: go_defs)
  qed
  ultimately show ?thesis using r'(3) by (auto simp: Let_def)
qed

theorem broker_lifecycle_order_witness:
  "map ph_fn (stop_order (stops (registerBusLifecycle (sample_config\<lparr>app_bus := ManagedBus\<rparr>) 0 (newRegistry :: nat registry)))) =
     [BusDrain, BusCancel, WorkerStop 0, BusClose]"
  using broker_lifecycle_order [of "sample_config\<lparr>app_bus := ManagedBus\<rparr>" "newRegistry :: nat registry" 0]
  by (simp add: newRegistry_def Let_def)

end
