(* ===== verification/Leases.thy ===== *)
theory Leases
  imports Prelude
begin

text \<open>
  Two contracts that several components share: a fact that no step of a protocol can undo
  (a terminal idempotency record, a published event), and a lease whose holder carries a
  token that is never given out twice (the claim of an idempotency key, the claim of an
  outbox row).
\<close>

locale stable_fact =
  fixes step :: "'s \<Rightarrow> 's \<Rightarrow> bool" and fact :: "'x \<Rightarrow> 's \<Rightarrow> bool"
  assumes stable_step: "step s s' \<Longrightarrow> fact x s \<Longrightarrow> fact x s'"
begin

lemma stable_steps: "step\<^sup>*\<^sup>* s s' \<Longrightarrow> fact x s \<Longrightarrow> fact x s'"
  by (induction rule: rtranclp_induct) (auto intro: stable_step)

end

text \<open>\<open>spent s t\<close>: token \<open>t\<close> has held something; it can be acquired only while it is not spent.\<close>

locale lease =
  fixes step :: "'s \<Rightarrow> 's \<Rightarrow> bool" and holds :: "'k \<Rightarrow> 't \<Rightarrow> 's \<Rightarrow> bool" and spent :: "'t \<Rightarrow> 's \<Rightarrow> bool"
  assumes spent_step: "step s s' \<Longrightarrow> spent t s \<Longrightarrow> spent t s'"
    and acquire_unspent: "step s s' \<Longrightarrow> spent t s \<Longrightarrow> holds k t s' \<Longrightarrow> holds k t s"
begin

definition lost :: "'k \<times> 't \<Rightarrow> 's \<Rightarrow> bool" where
  "lost x s \<longleftrightarrow> spent (snd x) s \<and> \<not> holds (fst x) (snd x) s"

end

sublocale lease \<subseteq> gone: stable_fact step lost
proof
  fix s s' x
  assume "step s s'" "lost x s"
  then show "lost x s'" using spent_step [of s s' "snd x"] acquire_unspent [of s s' "snd x" "fst x"] by (auto simp: lost_def)
qed

context lease
begin

lemma never_regained:
  "step\<^sup>*\<^sup>* s s' \<Longrightarrow> spent t s \<Longrightarrow> \<not> holds k t s \<Longrightarrow> spent t s' \<and> \<not> holds k t s'"
  using gone.stable_steps [of s s' "(k, t)"] by (simp add: lost_def)

end

end
