(* ===== verification/Idempotency.thy ===== *)
theory Idempotency
  imports Go_Errors Http_Headers Leases
begin

text \<open>
  The idempotency middleware and its store (idem/idem.go). The table is a map from keys to
  rows and each SQL statement an atomic function of it and of the database clock; a
  statement that fails reports an error and changes nothing. Other clients work between
  any two statements: where that matters an operation takes the changes they make as an
  argument. SHA-256 and the random tokens are arguments.
\<close>

definition DefaultTTL :: int where "DefaultTTL = 60 * 10 ^ 9"
definition DefaultMaxRequestBytes :: int where "DefaultMaxRequestBytes = 2 ^ 20"
definition maxCaptureBytes :: nat where "maxCaptureBytes = 2 ^ 20"

datatype rowState = StateInProgress | StateCompleted | StateExecuted

record row =
  payload_hash :: string
  owner_token :: string
  row_state :: rowState
  row_status :: int
  row_headers :: headers
  row_body :: string
  created_at :: int

type_synonym table = "string \<Rightarrow> row option"

record idemRecord =
  PayloadHash :: string
  State :: rowState
  Status :: int
  Headers :: headers
  Body :: string

subsection \<open>The statements\<close>

text \<open>Each returns the number of rows affected and the new table.\<close>

definition sql_insert :: "string \<Rightarrow> string \<Rightarrow> string \<Rightarrow> int \<Rightarrow> table \<Rightarrow> nat \<times> table" where
  "sql_insert key h tok now t = (case t key of
     Some r \<Rightarrow> (0, t)
   | None \<Rightarrow> (1, t(key \<mapsto> \<lparr>payload_hash = h, owner_token = tok, row_state = StateInProgress, row_status = 0,
       row_headers = [], row_body = [], created_at = now\<rparr>)))"

definition stale_row :: "int \<Rightarrow> int \<Rightarrow> row \<Rightarrow> bool" where
  "stale_row ttl now r \<longleftrightarrow> created_at r < now - ttl"

definition get_record :: "string \<Rightarrow> int \<Rightarrow> int \<Rightarrow> table \<Rightarrow> (idemRecord \<times> bool) option" where
  "get_record key ttl now t = (case t key of
     None \<Rightarrow> None
   | Some r \<Rightarrow> Some (\<lparr>PayloadHash = payload_hash r, State = row_state r, Status = row_status r,
       Headers = row_headers r, Body = row_body r\<rparr>, stale_row ttl now r))"

definition sql_takeover :: "string \<Rightarrow> int \<Rightarrow> string \<Rightarrow> int \<Rightarrow> table \<Rightarrow> nat \<times> table" where
  "sql_takeover key ttl tok now t = (case t key of
     None \<Rightarrow> (0, t)
   | Some r \<Rightarrow> if row_state r = StateInProgress \<and> stale_row ttl now r
       then (1, t(key \<mapsto> r\<lparr>created_at := now, owner_token := tok\<rparr>)) else (0, t))"

definition owned :: "string \<Rightarrow> row \<Rightarrow> bool" where
  "owned tok r \<longleftrightarrow> row_state r = StateInProgress \<and> owner_token r = tok"

definition sql_complete :: "string \<Rightarrow> string \<Rightarrow> int \<Rightarrow> headers \<Rightarrow> string \<Rightarrow> table \<Rightarrow> nat \<times> table" where
  "sql_complete key tok status hs body t = (case t key of
     None \<Rightarrow> (0, t)
   | Some r \<Rightarrow> if owned tok r
       then (1, t(key \<mapsto> r\<lparr>row_state := StateCompleted, row_status := status, row_headers := hs, row_body := body\<rparr>))
       else (0, t))"

definition sql_executed :: "string \<Rightarrow> string \<Rightarrow> int \<Rightarrow> table \<Rightarrow> nat \<times> table" where
  "sql_executed key tok status t = (case t key of
     None \<Rightarrow> (0, t)
   | Some r \<Rightarrow> if owned tok r
       then (1, t(key \<mapsto> r\<lparr>row_state := StateExecuted, row_status := status, row_headers := [], row_body := []\<rparr>))
       else (0, t))"

definition sql_release :: "string \<Rightarrow> string \<Rightarrow> table \<Rightarrow> nat \<times> table" where
  "sql_release key tok t = (case t key of
     None \<Rightarrow> (0, t)
   | Some r \<Rightarrow> if owned tok r then (1, t(key := None)) else (0, t))"

subsection \<open>The store\<close>

text \<open>
  \<open>st_err n\<close> is the error of the \<open>n\<close>th statement of a call, \<open>st_now n\<close> the database clock
  when it runs and \<open>st_others n\<close> what other clients did to the table just before it.
\<close>

record store_env =
  st_err :: "nat \<Rightarrow> gerr option"
  st_now :: "nat \<Rightarrow> int"
  st_others :: "nat \<Rightarrow> table \<Rightarrow> table"
  st_token :: "nat \<Rightarrow> string"

datatype claim_result = Claimed string | Existing idemRecord | ClaimError gerr

text \<open>The \<open>i\<close>th of the tries still allowed; the statements are numbered in order.\<close>

fun claim_loop :: "nat \<Rightarrow> nat \<Rightarrow> store_env \<Rightarrow> int \<Rightarrow> string \<Rightarrow> string \<Rightarrow> table \<Rightarrow> claim_result \<times> table" where
  "claim_loop 0 n en ttl key h t = (ClaimError (Leaf ''claim retries exhausted''), t)"
| "claim_loop (Suc i) n en ttl key h t = (let tok = st_token en n; t = st_others en n t in
     (case st_err en n of Some e \<Rightarrow> (ClaimError (Wrap ''claim insert'' e), t) | None \<Rightarrow>
     (case sql_insert key h tok (st_now en n) t of (affected, t) \<Rightarrow>
       if affected = 1 then (Claimed tok, t)
       else (let t = st_others en (n + 1) t in
     (case st_err en (n + 1) of Some e \<Rightarrow> (ClaimError (Wrap ''read record'' e), t) | None \<Rightarrow>
     (case get_record key ttl (st_now en (n + 1)) t of
        None \<Rightarrow> claim_loop i (n + 3) en ttl key h t
      | Some (rec, stale) \<Rightarrow>
          if State rec = StateInProgress \<and> stale \<and> PayloadHash rec = h then
            (let t = st_others en (n + 2) t in
             (case st_err en (n + 2) of Some e \<Rightarrow> (ClaimError (Wrap ''claim takeover'' e), t) | None \<Rightarrow>
             (case sql_takeover key ttl tok (st_now en (n + 2)) t of (affected, t) \<Rightarrow>
               if affected = 1 then (Claimed tok, t) else claim_loop i (n + 3) en ttl key h t)))
          else (Existing rec, t)))))))"

definition Claim :: "store_env \<Rightarrow> int \<Rightarrow> string \<Rightarrow> string \<Rightarrow> table \<Rightarrow> claim_result \<times> table" where
  "Claim en ttl key h t = claim_loop 3 0 en ttl key h t"

definition fenced :: "string \<Rightarrow> gerr option \<Rightarrow> (table \<Rightarrow> nat \<times> table) \<Rightarrow> table \<Rightarrow> gerr option \<times> table" where
  "fenced what err stmt t = (case err of Some e \<Rightarrow> (Some (Wrap what e), t)
     | None \<Rightarrow> (case stmt t of (affected, t') \<Rightarrow>
         (if affected = 0 then Some (Leaf (what @ '': fencing refused'')) else None, t')))"

definition Complete :: "gerr option \<Rightarrow> string \<Rightarrow> string \<Rightarrow> int \<Rightarrow> headers \<Rightarrow> string \<Rightarrow> table \<Rightarrow> gerr option \<times> table" where
  "Complete err key tok status hs body t = fenced ''complete'' err (sql_complete key tok status hs body) t"

definition MarkExecuted :: "gerr option \<Rightarrow> string \<Rightarrow> string \<Rightarrow> int \<Rightarrow> table \<Rightarrow> gerr option \<times> table" where
  "MarkExecuted err key tok status t = fenced ''mark executed'' err (sql_executed key tok status) t"

definition Release :: "gerr option \<Rightarrow> string \<Rightarrow> string \<Rightarrow> table \<Rightarrow> gerr option \<times> table" where
  "Release err key tok t = fenced ''release'' err (sql_release key tok) t"

subsection \<open>The middleware\<close>

definition hash_input :: "string \<Rightarrow> string \<Rightarrow> string \<Rightarrow> string" where
  "hash_input meth path body = meth @ [CHR 0x0A] @ path @ [CHR 0x0A] @ body"

definition payloadHash :: "(string \<Rightarrow> string) \<Rightarrow> string \<Rightarrow> string \<Rightarrow> string \<Rightarrow> string" where
  "payloadHash sha meth path body = sha (hash_input meth path body)"

definition errPayloadMismatch :: gerr where
  "errPayloadMismatch = New CodeIdempotency 422 ''same Idempotency-Key with a different request''"
definition errInFlight :: gerr where
  "errInFlight = New CodeConflict 409 ''request with the same Idempotency-Key in flight''"
definition errExecuted :: gerr where
  "errExecuted = New CodeIdempotencyResultUnavailable 409 ''executed but the response cannot be replayed''"
definition errBodyTooLarge :: gerr where
  "errBodyTooLarge = New CodeInvalidArgument 413 ''request body too large''"
definition errKeyPartInvalid :: gerr where
  "errKeyPartInvalid = New CodeInvalidArgument 400 ''control character in key or scope''"

lemmas idem_errors [go_defs] = errPayloadMismatch_def errInFlight_def errExecuted_def errBodyTooLarge_def
  errKeyPartInvalid_def

definition keyScopeSep :: string where "keyScopeSep = [CHR 0x1F]"

definition validKeyPart :: "string \<Rightarrow> bool" where
  "validKeyPart s \<longleftrightarrow> list_all (\<lambda>c. \<not> ((of_char c :: nat) < 32 \<or> (of_char c :: nat) = 127)) s"

definition rejectInjectedErr :: "gerr \<Rightarrow> string \<Rightarrow> gerr" where
  "rejectInjectedErr e message = (case as_app e of Some a \<Rightarrow> a
     | None \<Rightarrow> with_cause (Some e) (New CodeInvalidArgument 400 message))"

definition nonReplayable :: "string list" where
  "nonReplayable = [''Connection'', ''Keep-Alive'', ''Proxy-Authenticate'', ''Proxy-Authorization'', ''Te'',
     ''Trailer'', ''Transfer-Encoding'', ''Upgrade'', ''Set-Cookie'']"

text \<open>\<open>captureWriter\<close>; a write says how many bytes the writer below took and whether it failed.\<close>

record capture =
  cw_status :: int
  cw_buf :: string
  cw_overflow :: bool
  cw_writeFailed :: bool

datatype wop = WriteHeader int | Write string nat bool

definition new_capture :: capture where
  "new_capture = \<lparr>cw_status = 0, cw_buf = [], cw_overflow = False, cw_writeFailed = False\<rparr>"

fun capture_op :: "nat \<Rightarrow> capture \<Rightarrow> wop \<Rightarrow> capture" where
  "capture_op limit w (WriteHeader code) = (if cw_status w = 0 then w\<lparr>cw_status := code\<rparr> else w)"
| "capture_op limit w (Write b n failed) = (let
     w = (if cw_status w = 0 then w\<lparr>cw_status := 200\<rparr> else w);
     w = (if \<not> cw_overflow w then
            (if length (cw_buf w) + length b > limit then w\<lparr>cw_overflow := True, cw_buf := []\<rparr>
             else w\<lparr>cw_buf := cw_buf w @ b\<rparr>)
          else w)
   in if failed \<or> n \<noteq> length b then w\<lparr>cw_writeFailed := True\<rparr> else w)"

record idem_request =
  iq_key :: string
  iq_method :: string
  iq_path :: string
  iq_body :: string
  iq_readErr :: "gerr option"

record idem_config =
  maxRequestBytes :: int
  canonicalizer :: "idem_request \<Rightarrow> string \<Rightarrow> (gerr, string) result"
  keyScope :: "(idem_request \<Rightarrow> string \<Rightarrow> (gerr, string) result) option"

text \<open>What the client gets. \<open>Ran\<close>: the handler ran, with its writes and final header map.\<close>

datatype idem_reply =
    PassedThrough
  | Rejected gerr headers
  | Replayed int headers string
  | Ran "wop list" headers
  | Panicked

definition replyExisting :: "idemRecord \<Rightarrow> string \<Rightarrow> idem_reply" where
  "replyExisting rec h =
     (if PayloadHash rec \<noteq> h then Rejected errPayloadMismatch []
      else if State rec = StateCompleted then
        Replayed (if Status rec = 0 then 200 else Status rec)
          (header_set (foldl (\<lambda>m (k, vs). AList.update (CanonicalHeaderKey k) vs m) [] (Headers rec))
             ''Idempotency-Replayed'' ''true'') (Body rec)
      else if State rec = StateExecuted then Rejected errExecuted [(''Idempotency-Status'', [''executed''])]
      else Rejected errInFlight [(''Retry-After'', [''1''])])"

text \<open>The storage key of a request: an error, or the key with its scope in front.\<close>

definition scoped_key :: "idem_config \<Rightarrow> idem_request \<Rightarrow> (gerr, string) result" where
  "scoped_key cfg req = (case keyScope cfg of
     None \<Rightarrow> Inr (iq_key req)
   | Some scope_of \<Rightarrow>
       if \<not> validKeyPart (iq_key req) then Inl errKeyPartInvalid
       else (case scope_of req (iq_key req) of
           Inl e \<Rightarrow> Inl (rejectInjectedErr e ''key scope failed'')
         | Inr scope \<Rightarrow>
             if scope \<noteq> [] then
               (if \<not> validKeyPart scope then Inl errKeyPartInvalid
                else Inr (scope @ keyScopeSep @ iq_key req))
             else Inr (iq_key req)))"

definition read_body :: "idem_config \<Rightarrow> idem_request \<Rightarrow> (gerr, string) result" where
  "read_body cfg req =
     (if int (length (iq_body req)) > max 0 (maxRequestBytes cfg) then Inl errBodyTooLarge
      else (case iq_readErr req of
          Some e \<Rightarrow> Inl (with_cause (Some e) (New CodeInvalidArgument 400 ''cannot read the request body''))
        | None \<Rightarrow> Inr (iq_body req)))"

definition replayable_headers :: "headers \<Rightarrow> headers" where
  "replayable_headers hs = filter (\<lambda>(k, vs). k \<notin> set nonReplayable) hs"

text \<open>
  Storing the outcome of the handler: \<open>during\<close> is what other clients did while it ran, and
  \<open>err\<close> the error of the statement, which the middleware only logs.
\<close>

definition finish :: "string \<Rightarrow> string \<Rightarrow> wop list \<Rightarrow> headers \<Rightarrow> gerr option \<Rightarrow> table \<Rightarrow> gerr option \<times> table" where
  "finish key tok ops hs err t = (let
     cw = foldl (capture_op maxCaptureBytes) new_capture ops;
     status = (if cw_status cw = 0 then 200 else cw_status cw)
   in if cw_overflow cw \<or> cw_writeFailed cw then MarkExecuted err key tok status t
      else Complete err key tok status (replayable_headers hs) (cw_buf cw) t)"

definition Middleware :: "(string \<Rightarrow> string) \<Rightarrow> store_env \<Rightarrow> int \<Rightarrow> idem_config \<Rightarrow> (table \<Rightarrow> table) \<Rightarrow> gerr option \<Rightarrow>
    (idem_request \<Rightarrow> (wop list \<times> headers) option) \<Rightarrow> idem_request \<Rightarrow> table \<Rightarrow> idem_reply \<times> table" where
  "Middleware sha en ttl cfg during err next req t =
     (if iq_key req = [] then (PassedThrough, t)
      else (case scoped_key cfg req of Inl e \<Rightarrow> (Rejected e [], t) | Inr key \<Rightarrow>
      (case read_body cfg req of Inl e \<Rightarrow> (Rejected e [], t) | Inr body \<Rightarrow>
      (case canonicalizer cfg req body of
         Inl e \<Rightarrow> (Rejected (rejectInjectedErr e ''canonicalization failed'') [], t)
       | Inr canonical \<Rightarrow> (let h = payloadHash sha (iq_method req) (iq_path req) canonical in
      (case Claim en ttl key h t of
         (ClaimError e, t) \<Rightarrow> (Rejected (Unavailable (Some (Wrap ''claim'' e))) [], t)
       | (Existing rec, t) \<Rightarrow> (replyExisting rec h, t)
       | (Claimed tok, t) \<Rightarrow> (case next req of
           None \<Rightarrow> (Panicked, t)
         | Some (ops, hs) \<Rightarrow> (Ran ops hs, snd (finish key tok ops hs err (during t))))))))))"

subsection \<open>The table under every client\<close>

text \<open>What any client can do to the table; \<open>h\<close>, \<open>tok\<close> and the clock are arbitrary.\<close>

inductive store_step :: "int \<Rightarrow> table \<Rightarrow> table \<Rightarrow> bool" for ttl where
  insert: "sql_insert key h tok now t = (n, t') \<Longrightarrow> store_step ttl t t'"
| takeover: "sql_takeover key ttl tok now t = (n, t') \<Longrightarrow> store_step ttl t t'"
| complete: "sql_complete key tok status hs body t = (n, t') \<Longrightarrow> store_step ttl t t'"
| executed: "sql_executed key tok status t = (n, t') \<Longrightarrow> store_step ttl t t'"
| release: "sql_release key tok t = (n, t') \<Longrightarrow> store_step ttl t t'"

abbreviation store_steps :: "int \<Rightarrow> table \<Rightarrow> table \<Rightarrow> bool" where
  "store_steps ttl \<equiv> (store_step ttl)\<^sup>*\<^sup>*"

lemmas sql_defs = sql_insert_def sql_takeover_def sql_complete_def sql_executed_def sql_release_def

definition terminal :: "row \<Rightarrow> bool" where
  "terminal r \<longleftrightarrow> row_state r \<noteq> StateInProgress"

lemma store_step_terminal: "store_step ttl t t' \<Longrightarrow> t key = Some r \<Longrightarrow> terminal r \<Longrightarrow> t' key = Some r"
  by (cases rule: store_step.cases) (auto simp: sql_defs terminal_def owned_def split: option.splits if_splits)

text \<open>A terminal record is there for good.\<close>

definition final_row :: "string \<times> row \<Rightarrow> table \<Rightarrow> bool" where
  "final_row x t \<longleftrightarrow> t (fst x) = Some (snd x) \<and> terminal (snd x)"

interpretation final_rows: stable_fact "store_step ttl" final_row for ttl
  by unfold_locales (auto simp: final_row_def intro: store_step_terminal)

lemma store_steps_terminal: "store_steps ttl t t' \<Longrightarrow> t key = Some r \<Longrightarrow> terminal r \<Longrightarrow> t' key = Some r"
  using final_rows.stable_steps [of ttl t t' "(key, r)"] by (simp add: final_row_def)

text \<open>An environment whose other clients only use the store.\<close>

definition honest :: "int \<Rightarrow> store_env \<Rightarrow> bool" where
  "honest ttl en \<longleftrightarrow> (\<forall>n t. store_steps ttl t (st_others en n t))"

subsection \<open>Claiming\<close>

text \<open>
  The statements of a claim are numbered: of attempt \<open>i\<close> the insert is \<open>3 * i\<close>, the read \<open>3 * i + 1\<close>, the takeover
  \<open>3 * i + 2\<close>. \<open>claim_explained ks k\<close>: the claim executed the statements \<open>ks\<close>, all without error and without effect, and
  ended with statement \<open>k\<close>; the result and the table say what that statement found.
\<close>

definition read_of :: "row \<Rightarrow> idemRecord" where
  "read_of r = \<lparr>PayloadHash = payload_hash r, State = row_state r, Status = row_status r, Headers = row_headers r, Body = row_body r\<rparr>"

definition may_take :: "int \<Rightarrow> int \<Rightarrow> row \<Rightarrow> bool" where
  "may_take ttl now r \<longleftrightarrow> row_state r = StateInProgress \<and> created_at r < now - ttl"

definition claim_explained :: "store_env \<Rightarrow> int \<Rightarrow> string \<Rightarrow> string \<Rightarrow> table \<Rightarrow> claim_result \<Rightarrow> table \<Rightarrow> nat list \<Rightarrow> nat \<Rightarrow> bool" where
  "claim_explained en ttl key h t res t' ks k \<longleftrightarrow>
    sorted_wrt (<) (ks @ [k]) \<and> k < 9 \<and> (\<forall>j\<in>set ks. st_err en j = None) \<and>
    (let u = fold (st_others en) (ks @ [k]) t in (case res of
       Claimed tok \<Rightarrow> st_err en k = None \<and>
         (k mod 3 = 0 \<and> tok = st_token en k \<and> u key = None \<and>
            t' = u(key \<mapsto> \<lparr>payload_hash = h, owner_token = tok, row_state = StateInProgress, row_status = 0,
              row_headers = [], row_body = [], created_at = st_now en k\<rparr>) \<or>
          k mod 3 = 2 \<and> tok = st_token en (k - 2) \<and>
            (\<exists>r. u key = Some r \<and> may_take ttl (st_now en k) r \<and> t' = u(key \<mapsto> r\<lparr>created_at := st_now en k, owner_token := tok\<rparr>)) \<and>
            ks \<noteq> [] \<and> last ks = k - 1 \<and>
            (\<exists>r. fold (st_others en) ks t key = Some r \<and> may_take ttl (st_now en (k - 1)) r \<and> payload_hash r = h))
     | Existing rec \<Rightarrow> st_err en k = None \<and> k mod 3 = 1 \<and> t' = u \<and>
         (\<exists>r. u key = Some r \<and> rec = read_of r \<and> \<not> (may_take ttl (st_now en k) r \<and> payload_hash r = h))
     | ClaimError e \<Rightarrow> t' = u \<and>
         ((\<exists>m. st_err en k = Some m \<and>
             e = Wrap (if k mod 3 = 0 then ''claim insert'' else if k mod 3 = 1 then ''read record'' else ''claim takeover'') m) \<or>
          st_err en k = None \<and> 7 \<le> k \<and> e = Leaf ''claim retries exhausted'')))"

lemma explainedI:
  assumes "claim_explained en ttl key h t res t' ks k" shows "\<exists>ks k. claim_explained en ttl key h t res t' ks k"
  using assms by blast

lemma claim_loop_explained:
  assumes "claim_loop i n en ttl key h u0 = (res, t')" and "u0 = fold (st_others en) ks t" and "sorted_wrt (<) ks"
    and "\<forall>j\<in>set ks. j < n \<and> st_err en j = None" and "n + 3 * i = 9" and "n mod 3 = 0"
    and "ks \<noteq> [] \<longrightarrow> n \<le> last ks + 2" and "i = 0 \<longrightarrow> ks \<noteq> []"
  shows "\<exists>ks k. claim_explained en ttl key h t res t' ks k"
  using assms
proof (induction i arbitrary: n u0 ks)
  case 0
  then have ks: "ks = butlast ks @ [last ks]" by simp
  have "last ks \<in> set ks" using 0 by simp
  then have l: "7 \<le> last ks" "last ks < 9" "st_err en (last ks) = None" using 0 by auto
  have "\<forall>j\<in>set (butlast ks). st_err en j = None" using 0 by (auto dest: in_set_butlastD)
  then have "claim_explained en ttl key h t res t' (butlast ks) (last ks)"
    using 0 l ks [symmetric] by (auto simp: claim_explained_def)
  then show ?case by (rule explainedI)
next
  case (Suc i)
  let ?u = "st_others en n u0" and ?tok = "st_token en n"
  let ?u1 = "st_others en (n + 1) ?u"
  let ?u2 = "st_others en (n + 2) ?u1"
  have n9: "n < 9" "n + 1 < 9" "n + 2 < 9" "n + 3 + 3 * i = 9" using Suc.prems(5) by simp_all
  have md: "n mod 3 = 0" "(n + 1) mod 3 = 1" "(n + 2) mod 3 = 2" "(n + 3) mod 3 = 0" using Suc.prems(6) by presburger+
  have so: "sorted_wrt (<) (ks @ [n])" "sorted_wrt (<) (ks @ [n, n + 1])" "sorted_wrt (<) (ks @ [n, n + 1, n + 2])"
    using Suc.prems(3,4) by (auto simp: sorted_wrt_append)
  have fo: "fold (st_others en) (ks @ [n]) t = ?u" "fold (st_others en) (ks @ [n, n + 1]) t = ?u1"
    "fold (st_others en) (ks @ [n, n + 1, n + 2]) t = ?u2" using Suc.prems(2) by simp_all
  note ex = so fo n9 md Suc.prems(4)
  show ?case
  proof (cases "st_err en n")
    case (Some m)
    then have "claim_explained en ttl key h t res t' ks n" using Suc.prems(1) ex by (auto simp: claim_explained_def Let_def)
    then show ?thesis by (rule explainedI)
  next
    case e0: None
    show ?thesis
    proof (cases "?u key")
      case None
      then have "claim_explained en ttl key h t res t' ks n"
        using Suc.prems(1) e0 ex by (auto simp: claim_explained_def Let_def sql_insert_def)
      then show ?thesis by (rule explainedI)
    next
      case (Some r0)
      then have ins: "sql_insert key h ?tok (st_now en n) ?u = (0, ?u)" by (simp add: sql_insert_def)
      have e01: "\<forall>j\<in>set (ks @ [n]). st_err en j = None" using Suc.prems(4) e0 by auto
      show ?thesis
      proof (cases "st_err en (n + 1)")
        case (Some m)
        then have "claim_explained en ttl key h t res t' (ks @ [n]) (n + 1)"
          using Suc.prems(1) e0 ins ex e01 by (auto simp: claim_explained_def Let_def)
        then show ?thesis by (rule explainedI)
      next
        case e1: None
        have again: ?thesis if "claim_loop i (n + 3) en ttl key h v = (res, t')" "v = fold (st_others en) ks' t"
          "ks' = ks @ [n, n + 1] \<or> ks' = ks @ [n, n + 1, n + 2] \<and> st_err en (n + 2) = None" for v ks'
          using Suc.IH [OF that(1,2)] that(3) Suc.prems(4) so e0 e1 n9 md by (elim disjE) fastforce+
        show ?thesis
        proof (cases "?u1 key")
          case None
          then have "claim_loop i (n + 3) en ttl key h ?u1 = (res, t')"
            using Suc.prems(1) e0 e1 ins by (simp add: Let_def get_record_def)
          from again [OF this fo(2) [symmetric]] show ?thesis by simp
        next
          case (Some r1)
          show ?thesis
          proof (cases "may_take ttl (st_now en (n + 1)) r1 \<and> payload_hash r1 = h")
            case False
            then have "res = Existing (read_of r1) \<and> t' = ?u1"
              using Suc.prems(1) e0 e1 ins Some by (auto simp: Let_def get_record_def may_take_def stale_row_def read_of_def split: if_splits)
            then have "claim_explained en ttl key h t res t' (ks @ [n]) (n + 1)"
              using False Some e1 ex e01 by (auto simp: claim_explained_def Let_def)
            then show ?thesis by (rule explainedI)
          next
            case True
            then have go: "(case st_err en (n + 2) of Some e \<Rightarrow> (ClaimError (Wrap ''claim takeover'' e), ?u2) | None \<Rightarrow>
               (case sql_takeover key ttl ?tok (st_now en (n + 2)) ?u2 of (affected, t) \<Rightarrow>
                 if affected = 1 then (Claimed ?tok, t) else claim_loop i (n + 3) en ttl key h t)) = (res, t')"
              using Suc.prems(1) e0 e1 ins Some by (simp add: Let_def get_record_def may_take_def stale_row_def del: add_2_eq_Suc' cong: option.case_cong)
            have e012: "\<forall>j\<in>set (ks @ [n, n + 1]). st_err en j = None" using e01 e1 by auto
            show ?thesis
            proof (cases "st_err en (n + 2)")
              case (Some m)
              then have "claim_explained en ttl key h t res t' (ks @ [n, n + 1]) (n + 2)"
                using go ex e012 by (auto simp: claim_explained_def Let_def)
              then show ?thesis by (rule explainedI)
            next
              case e2: None
              show ?thesis
              proof (cases "\<exists>r2. ?u2 key = Some r2 \<and> may_take ttl (st_now en (n + 2)) r2")
                case T: True
                then have "claim_explained en ttl key h t res t' (ks @ [n, n + 1]) (n + 2)"
                  using go e2 ex e012 True Some by (auto simp: claim_explained_def Let_def sql_takeover_def may_take_def stale_row_def)
                then show ?thesis by (rule explainedI)
              next
                case False
                then have "claim_loop i (n + 3) en ttl key h ?u2 = (res, t')"
                  using go e2 by (auto simp: sql_takeover_def may_take_def stale_row_def split: option.splits if_splits)
                from again [OF this fo(3) [symmetric]] e2 show ?thesis by simp
              qed
            qed
          qed
        qed
      qed
    qed
  qed
qed

text \<open>
  Property C19. What \<open>Claim\<close> answers and does on every branch, whatever other clients do before each of its statements. It
  executes some statements that succeed and change nothing, and ends with one, statement \<open>k\<close> of at most nine, on the table
  the other clients had made by then. It answers a claim only in two cases: an insert found no
  row of the key, and the new row, in progress and owned by the token, is the only change; or a takeover found the row in
  progress and expired by the database clock of that statement, after the read just before had seen it in progress, expired by
  its own clock reading and with the payload of this request, and all it changes is the row's owner and time. It answers an
  existing record only from a read whose row, at the clock of that read, was terminal, not expired or of another payload, and has
  changed nothing. It fails with the error of the statement, or after three attempts, and then it has changed nothing.
\<close>

theorem claim_outcome:
  "case Claim en ttl key h t of (res, t') \<Rightarrow> \<exists>ks k.
     sorted_wrt (<) (ks @ [k]) \<and> k < 9 \<and> (\<forall>j\<in>set ks. st_err en j = None) \<and>
     (let u = fold (st_others en) (ks @ [k]) t in (case res of
       Claimed tok \<Rightarrow> st_err en k = None \<and>
         (k mod 3 = 0 \<and> tok = st_token en k \<and> u key = None \<and>
            t' = u(key \<mapsto> \<lparr>payload_hash = h, owner_token = tok, row_state = StateInProgress, row_status = 0,
              row_headers = [], row_body = [], created_at = st_now en k\<rparr>) \<or>
          k mod 3 = 2 \<and> tok = st_token en (k - 2) \<and>
            (\<exists>r. u key = Some r \<and> may_take ttl (st_now en k) r \<and> t' = u(key \<mapsto> r\<lparr>created_at := st_now en k, owner_token := tok\<rparr>)) \<and>
            ks \<noteq> [] \<and> last ks = k - 1 \<and>
            (\<exists>r. fold (st_others en) ks t key = Some r \<and> may_take ttl (st_now en (k - 1)) r \<and> payload_hash r = h))
     | Existing rec \<Rightarrow> st_err en k = None \<and> k mod 3 = 1 \<and> t' = u \<and>
         (\<exists>r. u key = Some r \<and> rec = read_of r \<and> \<not> (may_take ttl (st_now en k) r \<and> payload_hash r = h))
     | ClaimError e \<Rightarrow> t' = u \<and>
         ((\<exists>m. st_err en k = Some m \<and>
             e = Wrap (if k mod 3 = 0 then ''claim insert'' else if k mod 3 = 1 then ''read record'' else ''claim takeover'') m) \<or>
          st_err en k = None \<and> 7 \<le> k \<and> e = Leaf ''claim retries exhausted'')))"
proof -
  obtain res t' where c: "Claim en ttl key h t = (res, t')" by force
  have "\<exists>ks k. claim_explained en ttl key h t res t' ks k"
    by (rule claim_loop_explained [where i = 3 and n = 0 and ks = "[]"]) (use c in \<open>simp_all add: Claim_def\<close>)
  then show ?thesis unfolding c claim_explained_def by simp
qed

lemma claim_terminal:
  assumes "honest ttl en" and "st_err en 0 = None" "st_err en 1 = None" and "t key = Some r" "terminal r"
  shows "\<exists>t'. Claim en ttl key h t = (Existing \<lparr>PayloadHash = payload_hash r, State = row_state r,
       Status = row_status r, Headers = row_headers r, Body = row_body r\<rparr>, t') \<and> t' key = Some r"
proof -
  have others: "store_steps ttl u (st_others en n u)" for n u using assms(1) by (simp add: honest_def)
  have r0: "st_others en 0 t key = Some r" using store_steps_terminal others assms(4,5) by blast
  have r1: "st_others en 1 (st_others en 0 t) key = Some r" using store_steps_terminal others r0 assms(5) by blast
  show ?thesis using assms(2,3,5) r0 r1
    by (auto simp: Claim_def numeral_3_eq_3 Let_def sql_insert_def get_record_def terminal_def)
qed

subsection \<open>Fencing\<close>

text \<open>
  Tokens are random: a token that claims a row has owned none before. The second component
  lists the tokens that have owned a row.
\<close>

inductive fresh_step :: "int \<Rightarrow> table \<times> string list \<Rightarrow> table \<times> string list \<Rightarrow> bool" for ttl where
  claim_insert: "tok \<notin> set used \<Longrightarrow> sql_insert key h tok now t = (n, t') \<Longrightarrow> fresh_step ttl (t, used) (t', tok # used)"
| claim_takeover: "tok \<notin> set used \<Longrightarrow> sql_takeover key ttl tok now t = (n, t') \<Longrightarrow> fresh_step ttl (t, used) (t', tok # used)"
| complete: "fresh_step ttl (t, used) (snd (Complete err key tok status hs body t), used)"
| executed: "fresh_step ttl (t, used) (snd (MarkExecuted err key tok status t), used)"
| release: "fresh_step ttl (t, used) (snd (Release err key tok t), used)"

definition owner :: "table \<Rightarrow> string \<Rightarrow> string \<Rightarrow> bool" where
  "owner t key tok \<longleftrightarrow> (\<exists>r. t key = Some r \<and> owned tok r)"

lemma not_owner_refused:
  assumes "\<not> owner t key tok"
  shows "fst (Complete err key tok status hs body t) \<noteq> None" "snd (Complete err key tok status hs body t) = t"
    "fst (MarkExecuted err key tok status t) \<noteq> None" "snd (MarkExecuted err key tok status t) = t"
    "fst (Release err key tok t) \<noteq> None" "snd (Release err key tok t) = t"
  using assms
  by (auto simp: owner_def Complete_def MarkExecuted_def Release_def fenced_def sql_defs split: option.splits)

lemma fresh_step_spent: "fresh_step ttl w w' \<Longrightarrow> tok \<in> set (snd w) \<Longrightarrow> tok \<in> set (snd w')"
  by (induction rule: fresh_step.induct) auto

lemma fresh_step_acquire:
  "fresh_step ttl w w' \<Longrightarrow> tok \<in> set (snd w) \<Longrightarrow> owner (fst w') key tok \<Longrightarrow> owner (fst w) key tok"
  by (induction rule: fresh_step.induct)
    (auto simp: owner_def owned_def sql_defs Complete_def MarkExecuted_def Release_def fenced_def
      split: option.splits if_splits)

interpretation claims: lease "fresh_step ttl" "\<lambda>key tok w. owner (fst w) key tok" "\<lambda>tok w. tok \<in> set (snd w)" for ttl
  by unfold_locales (auto intro: fresh_step_spent fresh_step_acquire)

text \<open>
  Property C18. Fencing: a holder that lost a key, to a take-over, a release or a terminal
  state, never gets it back. Whatever happens later, each of its late \<open>Complete\<close>,
  \<open>MarkExecuted\<close> and \<open>Release\<close> is refused with an error and leaves the table untouched.
\<close>

theorem fencing:
  assumes "tok \<in> set used" and "\<not> owner t key tok" and "(fresh_step ttl)\<^sup>*\<^sup>* (t, used) (t', used')"
  shows "fst (Complete err key tok status hs body t') \<noteq> None \<and> snd (Complete err key tok status hs body t') = t' \<and>
    fst (MarkExecuted err key tok status t') \<noteq> None \<and> snd (MarkExecuted err key tok status t') = t' \<and>
    fst (Release err key tok t') \<noteq> None \<and> snd (Release err key tok t') = t'"
proof -
  have "\<not> owner t' key tok"
    using claims.never_regained [OF assms(3), of tok key] assms(1,2) by simp
  then show ?thesis by (simp add: not_owner_refused)
qed

definition sample_table :: table where
  "sample_table = [''k'' \<mapsto> \<lparr>payload_hash = ''h'', owner_token = ''old'', row_state = StateInProgress, row_status = 0,
     row_headers = [], row_body = [], created_at = 0\<rparr>]"

theorem fencing_witness:
  "snd (Complete None ''k'' ''old'' 200 [] ''late'' (snd (sql_takeover ''k'' 50 ''new'' 100 sample_table)))
     = snd (sql_takeover ''k'' 50 ''new'' 100 sample_table)"
proof -
  let ?t = "snd (sql_takeover ''k'' 50 ''new'' 100 sample_table)"
  have "\<not> owner ?t ''k'' ''old''"
    by (simp add: owner_def owned_def sql_takeover_def sample_table_def stale_row_def)
  from fencing [where used = "[''new'', ''old'']" and ttl = 50, OF _ this rtranclp.rtrancl_refl] show ?thesis by simp
qed

definition quiet_store :: "int \<Rightarrow> store_env" where
  "quiet_store now = \<lparr>st_err = (\<lambda>n. None), st_now = (\<lambda>n. now), st_others = (\<lambda>n t. t), st_token = (\<lambda>n. ''tok'' @ replicate n CHR ''+'')\<rparr>"

text \<open>An expired claim is taken over; the same claim before its time is left to its holder.\<close>

theorem claim_outcome_witness:
  "(\<exists>tok t' r. Claim (quiet_store 100) 50 ''k'' ''h'' sample_table = (Claimed tok, t') \<and> t' ''k'' = Some r \<and> owned tok r) \<and>
   (\<exists>rec. Claim (quiet_store 40) 50 ''k'' ''h'' sample_table = (Existing rec, sample_table) \<and> State rec = StateInProgress)"
proof
  have "case fst (Claim (quiet_store 100) 50 ''k'' ''h'' sample_table) of Claimed tok \<Rightarrow> True | _ \<Rightarrow> False" by code_simp
  then obtain tok t' where c: "Claim (quiet_store 100) 50 ''k'' ''h'' sample_table = (Claimed tok, t')"
    by (cases "Claim (quiet_store 100) 50 ''k'' ''h'' sample_table") (auto split: claim_result.splits)
  show "\<exists>tok t' r. Claim (quiet_store 100) 50 ''k'' ''h'' sample_table = (Claimed tok, t') \<and> t' ''k'' = Some r \<and> owned tok r"
    using claim_outcome [where en = "quiet_store 100" and ttl = 50 and key = "''k''" and h = "''h''" and t = sample_table]
    unfolding c by (auto simp: Let_def owned_def may_take_def)
  have same: "fold (st_others (quiet_store 40)) ks sample_table = sample_table" for ks
    by (induction ks) (simp_all add: quiet_store_def)
  have row: "\<exists>r. sample_table ''k'' = Some r \<and> \<not> may_take 50 40 r \<and> row_state r = StateInProgress"
    by (simp add: sample_table_def may_take_def)
  have "case fst (Claim (quiet_store 40) 50 ''k'' ''h'' sample_table) of Existing rec \<Rightarrow> True | _ \<Rightarrow> False" by code_simp
  then obtain rec t' where c: "Claim (quiet_store 40) 50 ''k'' ''h'' sample_table = (Existing rec, t')"
    by (cases "Claim (quiet_store 40) 50 ''k'' ''h'' sample_table") (auto split: claim_result.splits)
  show "\<exists>rec. Claim (quiet_store 40) 50 ''k'' ''h'' sample_table = (Existing rec, sample_table) \<and> State rec = StateInProgress"
    using claim_outcome [where en = "quiet_store 40" and ttl = 50 and key = "''k''" and h = "''h''" and t = sample_table] row
    unfolding c same by (auto simp: Let_def read_of_def)
qed

subsection \<open>Capturing the response\<close>

fun write_bytes :: "wop \<Rightarrow> string" where
  "write_bytes (WriteHeader c) = []"
| "write_bytes (Write b n failed) = b"

fun write_ok :: "wop \<Rightarrow> bool" where
  "write_ok (WriteHeader c) = True"
| "write_ok (Write b n failed) = (\<not> failed \<and> n = length b)"

fun op_status :: "wop \<Rightarrow> int" where
  "op_status (WriteHeader c) = c"
| "op_status (Write b n failed) = 200"

definition first_status :: "wop list \<Rightarrow> int" where
  "first_status ops = (case filter (\<lambda>s. s \<noteq> 0) (map op_status ops) of [] \<Rightarrow> 0 | s # ss \<Rightarrow> s)"

lemma capture_fold:
  "foldl (capture_op limit) w ops =
     \<lparr>cw_status = (if cw_status w = 0 then first_status ops else cw_status w),
      cw_buf = (if cw_overflow w then cw_buf w
        else if length (cw_buf w) + length (concat (map write_bytes ops)) > limit
          then [] else cw_buf w @ concat (map write_bytes ops)),
      cw_overflow = cw_overflow w \<or> (length (cw_buf w) + length (concat (map write_bytes ops)) > limit),
      cw_writeFailed = cw_writeFailed w \<or> list_ex (\<lambda>op. \<not> write_ok op) ops\<rparr>"
  if "length (cw_buf w) \<le> limit" "cw_overflow w \<longrightarrow> cw_buf w = []" for w :: capture
  using that
proof (induction ops arbitrary: w)
  case (Cons op ops)
  then show ?case by (cases op) (auto simp: first_status_def Let_def)
qed (simp add: first_status_def)

text \<open>
  What the capture writer knows after any sequence of writes: it overflowed
  exactly when the body is longer than the limit, it failed exactly when a write below
  failed or was short, the status is the first one set, and while it did not overflow
  its buffer is the whole body. So a response is replayed complete or not at all.
\<close>

theorem capture_exact:
  "(let cw = foldl (capture_op limit) new_capture ops; body = concat (map write_bytes ops) in
     cw_overflow cw = (limit < length body) \<and> cw_writeFailed cw = list_ex (\<lambda>op. \<not> write_ok op) ops \<and>
     cw_status cw = first_status ops \<and> cw_buf cw = (if limit < length body then [] else body))"
  by (simp add: capture_fold new_capture_def Let_def)

subsection \<open>Replaying\<close>

lemma middleware_after_claim:
  assumes "iq_key req \<noteq> []" and "scoped_key cfg req = Inr key" and "read_body cfg req = Inr body"
    and "canonicalizer cfg req body = Inr canonical"
    and "Claim en ttl key (payloadHash sha (iq_method req) (iq_path req) canonical) t = (Existing rec, t')"
  shows "Middleware sha en ttl cfg during err next req t =
    (replyExisting rec (payloadHash sha (iq_method req) (iq_path req) canonical), t')"
  using assms by (simp add: Middleware_def Let_def)

definition request_hash :: "(string \<Rightarrow> string) \<Rightarrow> idem_config \<Rightarrow> idem_request \<Rightarrow> (gerr, string \<times> string) result" where
  "request_hash sha cfg req = (case scoped_key cfg req of Inl e \<Rightarrow> Inl e | Inr key \<Rightarrow>
     (case read_body cfg req of Inl e \<Rightarrow> Inl e | Inr body \<Rightarrow>
     (case canonicalizer cfg req body of Inl e \<Rightarrow> Inl (rejectInjectedErr e ''canonicalization failed'')
      | Inr canonical \<Rightarrow> Inr (key, payloadHash sha (iq_method req) (iq_path req) canonical))))"

lemma middleware_terminal:
  assumes "iq_key req \<noteq> []" and "request_hash sha cfg req = Inr (key, h)"
    and "honest ttl en" and "st_err en 0 = None" "st_err en 1 = None" and "t key = Some r" "terminal r"
  shows "fst (Middleware sha en ttl cfg during err next req t) = replyExisting \<lparr>PayloadHash = payload_hash r,
    State = row_state r, Status = row_status r, Headers = row_headers r, Body = row_body r\<rparr> h"
proof -
  from assms(2) obtain body canonical where 1: "scoped_key cfg req = Inr key" "read_body cfg req = Inr body"
    "canonicalizer cfg req body = Inr canonical" "h = payloadHash sha (iq_method req) (iq_path req) canonical"
    by (auto simp: request_hash_def split: sum.splits)
  from claim_terminal [where t = t and key = key and r = r and h = h, OF assms(3-7)] 1 show ?thesis
    using middleware_after_claim [OF assms(1) 1(1-3)] by fastforce
qed

text \<open>The reply that a later request with the same key and fingerprint gets.\<close>

definition replay_of :: "wop list \<Rightarrow> headers \<Rightarrow> idem_reply" where
  "replay_of ops hs = (let body = concat (map write_bytes ops) in
     if maxCaptureBytes < length body \<or> list_ex (\<lambda>op. \<not> write_ok op) ops
     then Rejected errExecuted [(''Idempotency-Status'', [''executed''])]
     else Replayed (if first_status ops = 0 then 200 else first_status ops)
       (header_set (foldl (\<lambda>m (k, vs). AList.update (CanonicalHeaderKey k) vs m) [] (replayable_headers hs))
          ''Idempotency-Replayed'' ''true'') body)"

lemma finish_stores:
  assumes "t key = Some r" and "owned tok r"
  shows "\<exists>r'. snd (finish key tok ops hs None t) key = Some r' \<and> terminal r' \<and> payload_hash r' = payload_hash r \<and>
    replyExisting \<lparr>PayloadHash = payload_hash r', State = row_state r', Status = row_status r', Headers = row_headers r',
      Body = row_body r'\<rparr> (payload_hash r) = replay_of ops hs"
proof -
  let ?cw = "foldl (capture_op maxCaptureBytes) new_capture ops"
  note cw = capture_exact [of maxCaptureBytes ops, unfolded Let_def]
  show ?thesis
  proof (cases "cw_overflow ?cw \<or> cw_writeFailed ?cw")
    case True
    then have "maxCaptureBytes < length (concat (map write_bytes ops)) \<or> list_ex (\<lambda>op. \<not> write_ok op) ops"
      using cw by blast
    then have "replay_of ops hs = Rejected errExecuted [(''Idempotency-Status'', [''executed''])]"
      unfolding replay_of_def Let_def by (rule if_P)
    with True show ?thesis using assms
      by (auto simp: finish_def Let_def MarkExecuted_def fenced_def sql_executed_def terminal_def replyExisting_def)
  next
    case False
    then have n: "\<not> (maxCaptureBytes < length (concat (map write_bytes ops)) \<or> list_ex (\<lambda>op. \<not> write_ok op) ops)"
      and b: "cw_buf ?cw = concat (map write_bytes ops)" and s: "cw_status ?cw = first_status ops"
      using cw by auto
    have "replay_of ops hs = Replayed (if first_status ops = 0 then 200 else first_status ops)
       (header_set (foldl (\<lambda>m (k, vs). AList.update (CanonicalHeaderKey k) vs m) [] (replayable_headers hs))
          ''Idempotency-Replayed'' ''true'') (concat (map write_bytes ops))"
      unfolding replay_of_def Let_def using n by (rule if_not_P)
    with False show ?thesis using assms b s
      by (auto simp: finish_def Let_def Complete_def fenced_def sql_complete_def terminal_def replyExisting_def)
  qed
qed

text \<open>
  Property C20. A request is executed once and replayed after. When a request claimed its
  key, its handler returned, and the key was still its own, then every later request of
  the same key and fingerprint is answered with the recorded response, complete, or with
  the stable executed error if it could not be recorded, and a request of another
  fingerprint is refused with 422; the handler of neither runs, whatever all clients do to
  the table in between.
\<close>

theorem idem_replay:
  assumes "iq_key req \<noteq> []" and "request_hash sha cfg req = Inr (key, h)"
    and "Claim en ttl key h t = (Claimed tok, t0)" and "nxt req = Some (ops, hs)"
    and "during t0 key = Some r" and "owned tok r" and "payload_hash r = h"
    and "Middleware sha en ttl cfg during None nxt req t = (reply, t1)"
    and "store_steps ttl t1 t2" and "honest ttl enb" and "st_err enb 0 = None" and "st_err enb 1 = None"
    and "iq_key reqb \<noteq> []" and "request_hash sha cfg reqb = Inr (key, hb)"
  shows "reply = Ran ops hs \<and> fst (Middleware sha enb ttl cfg duringb errb nxtb reqb t2) =
    (if hb = h then replay_of ops hs else Rejected errPayloadMismatch [])"
proof -
  from assms(2) obtain body canonical where 1: "scoped_key cfg req = Inr key" "read_body cfg req = Inr body"
    "canonicalizer cfg req body = Inr canonical" "h = payloadHash sha (iq_method req) (iq_path req) canonical"
    by (auto simp: request_hash_def split: sum.splits)
  have run: "reply = Ran ops hs" "t1 = snd (finish key tok ops hs None (during t0))"
    using assms(8) assms(1,3,4) 1 by (auto simp: Middleware_def Let_def)
  obtain r' where r': "t1 key = Some r'" "terminal r'" "payload_hash r' = h"
    "replyExisting \<lparr>PayloadHash = payload_hash r', State = row_state r', Status = row_status r', Headers = row_headers r',
      Body = row_body r'\<rparr> h = replay_of ops hs"
    using finish_stores [where t = "during t0" and key = key and ops = ops and hs = hs, OF assms(5,6)] assms(7) run(2) by auto
  have "t2 key = Some r'" using store_steps_terminal assms(9) r'(1,2) by blast
  from middleware_terminal [where t = t2 and r = r', OF assms(13,14,10,11,12) this r'(2)]
  have "fst (Middleware sha enb ttl cfg duringb errb nxtb reqb t2) = replyExisting \<lparr>PayloadHash = payload_hash r',
    State = row_state r', Status = row_status r', Headers = row_headers r', Body = row_body r'\<rparr> hb" .
  then show ?thesis using run(1) r'(3,4) by (auto simp: replyExisting_def)
qed

definition sample_idem :: idem_config where
  "sample_idem = \<lparr>maxRequestBytes = 100, canonicalizer = (\<lambda>r b. Inr b), keyScope = Some (\<lambda>r k. Inr ''tenant'')\<rparr>"

definition sample_post :: idem_request where
  "sample_post = \<lparr>iq_key = ''k1'', iq_method = ''POST'', iq_path = ''/pay'', iq_body = ''80'', iq_readErr = None\<rparr>"

definition sample_pay :: "idem_request \<Rightarrow> (wop list \<times> headers) option" where
  "sample_pay r = Some ([WriteHeader 201, Write ''paid'' 4 False], [])"

theorem idem_replay_witness:
  "fst (Middleware id (quiet_store 7) 50 sample_idem id None (\<lambda>r. None) sample_post
     (snd (Middleware id (quiet_store 0) 50 sample_idem id None sample_pay sample_post Map.empty))) =
   replay_of [WriteHeader 201, Write ''paid'' 4 False] []"
proof -
  let ?h = "payloadHash id ''POST'' ''/pay'' ''80''" and ?key = "''tenant'' @ keyScopeSep @ ''k1''"
  let ?r = "\<lparr>payload_hash = ?h, owner_token = ''tok'', row_state = StateInProgress, row_status = 0,
       row_headers = [], row_body = [], created_at = 0\<rparr>"
  have rh: "request_hash id sample_idem sample_post = Inr (?key, ?h)"
    by (simp add: request_hash_def scoped_key_def sample_idem_def sample_post_def read_body_def validKeyPart_def)
  have cl: "Claim (quiet_store 0) 50 ?key ?h Map.empty = (Claimed ''tok'', [?key \<mapsto> ?r])"
    by (simp add: Claim_def numeral_3_eq_3 quiet_store_def sql_insert_def Let_def)
  obtain reply t1 where mw: "Middleware id (quiet_store 0) 50 sample_idem id None sample_pay sample_post Map.empty = (reply, t1)"
    by force
  have q: "honest 50 (quiet_store 7)" "st_err (quiet_store 7) 0 = None" "st_err (quiet_store 7) 1 = None"
    by (simp_all add: honest_def quiet_store_def)
  have k: "iq_key sample_post \<noteq> []" by (simp add: sample_post_def)
  from idem_replay [where nxt = sample_pay and during = id and r = ?r and reqb = sample_post and hb = ?h
      and enb = "quiet_store 7" and duringb = id and errb = None and nxtb = "\<lambda>r. None",
      OF k rh cl _ _ _ _ mw rtranclp.rtrancl_refl q k rh]
  show ?thesis by (simp add: mw sample_pay_def owned_def)
qed

subsection \<open>Keys and fingerprints\<close>

lemma split_at_sep:
  "s \<notin> set a \<Longrightarrow> s \<notin> set b \<Longrightarrow> a @ s # x = b @ s # y \<Longrightarrow> a = b \<and> x = y"
  by (induction a arbitrary: b) (metis append_Cons append_Nil list.exhaust_sel list.sel(1,3) list.set_intros(1,2))+

lemma validKeyPart_no_sep: "validKeyPart s \<Longrightarrow> CHR 0x1F \<notin> set s"
  by (auto simp: validKeyPart_def list_all_iff)

text \<open>
  Scopes partition the key space: two requests of a middleware with a key scope
  share a stored key only when both their scope and their client key are equal, so no
  choice of client key reaches the records of another scope.
\<close>

theorem scoped_keys_disjoint:
  assumes "keyScope cfg = Some f" and "scoped_key cfg a = Inr k" and "scoped_key cfg b = Inr k"
    and "f a (iq_key a) = Inr sa" and "f b (iq_key b) = Inr sb"
  shows "sa = sb \<and> iq_key a = iq_key b"
proof -
  have key: "validKeyPart (iq_key x) \<and> (s = [] \<longrightarrow> k = iq_key x) \<and> (s \<noteq> [] \<longrightarrow> validKeyPart s \<and> k = s @ CHR 0x1F # iq_key x)"
    if "scoped_key cfg x = Inr k" "f x (iq_key x) = Inr s" for x s
    using that assms(1) by (auto simp: scoped_key_def keyScopeSep_def split: if_splits)
  note ka = key [OF assms(2,4)] and kb = key [OF assms(3,5)]
  show ?thesis
  proof (cases "sa = [] \<or> sb = []")
    case True
    then show ?thesis using ka kb validKeyPart_no_sep [of "iq_key a"] validKeyPart_no_sep [of "iq_key b"] by auto
  next
    case False
    then have "sa @ CHR 0x1F # iq_key a = sb @ CHR 0x1F # iq_key b" using ka kb by simp
    then show ?thesis using split_at_sep [of "CHR 0x1F" sa sb] ka kb False validKeyPart_no_sep by blast
  qed
qed

theorem scoped_keys_disjoint_witness:
  "iq_key sample_post = iq_key (sample_post\<lparr>iq_body := ''81''\<rparr>)"
  using scoped_keys_disjoint [where cfg = sample_idem and f = "\<lambda>r k. Inr ''tenant''" and a = sample_post
      and b = "sample_post\<lparr>iq_body := ''81''\<rparr>" and k = "''tenant'' @ keyScopeSep @ ''k1''" and sa = "''tenant''" and sb = "''tenant''"]
  by (simp add: sample_idem_def sample_post_def scoped_key_def validKeyPart_def)

text \<open>
  The fingerprint's preimage tells requests apart as long as neither method nor path holds
  a newline. A decoded \<open>URL.Path\<close> can hold one (\<open>%0A\<close>), and then two different requests
  have the same preimage.
\<close>

lemma hash_input_inj:
  assumes "CHR 0x0A \<notin> set m" "CHR 0x0A \<notin> set m'" "CHR 0x0A \<notin> set p" "CHR 0x0A \<notin> set p'"
    and "hash_input m p b = hash_input m' p' b'"
  shows "m = m' \<and> p = p' \<and> b = b'"
proof -
  have "m = m' \<and> p @ CHR 0x0A # b = p' @ CHR 0x0A # b'"
    using split_at_sep [OF assms(1,2)] assms(5) by (simp add: hash_input_def)
  then show ?thesis using split_at_sep [OF assms(3,4)] by blast
qed

lemma fingerprint_collision:
  "payloadHash sha ''POST'' (''/a'' @ [CHR 0x0A] @ ''x'') ''y'' = payloadHash sha ''POST'' ''/a'' (''x'' @ [CHR 0x0A] @ ''y'')"
  by (simp add: payloadHash_def hash_input_def)

text \<open>
  The take-over statement does not compare the payload again: when the stale record was
  released and claimed anew with another payload just before it, and that claim is stale by
  then too, the caller takes over a record of another payload.
\<close>

definition racing_store :: store_env where
  "racing_store = (quiet_store 100)\<lparr>st_now := (\<lambda>n. if n < 2 then 100 else 200),
     st_others := (\<lambda>n t. if n = 2 then snd (sql_insert ''k'' ''other'' ''rival'' 101 (snd (sql_release ''k'' ''old'' t))) else t)\<rparr>"

lemma takeover_payload_race:
  "\<exists>tok t' r. Claim racing_store 50 ''k'' ''h'' sample_table = (Claimed tok, t') \<and> t' ''k'' = Some r \<and> payload_hash r = ''other''"
  by (simp add: Claim_def numeral_3_eq_3 racing_store_def quiet_store_def sample_table_def sql_insert_def sql_release_def
      sql_takeover_def owned_def get_record_def stale_row_def Let_def)

text \<open>An informational status is recorded as the status of the response.\<close>

lemma informational_status_recorded:
  "\<exists>hs. replay_of [WriteHeader 103, WriteHeader 201, Write ''x'' 1 False] [] = Replayed 103 hs ''x''"
  by (simp add: replay_of_def maxCaptureBytes_def first_status_def)

end
