(* ===== verification/Pgtx.thy ===== *)
theory Pgtx
  imports Call_Context
begin

text \<open>
  Transactions over PostgreSQL (pgtx/pgtx.go): \<open>Transactor.Do\<close> with savepoints, the scope a
  transaction is bound to, and rollback on every exit. The database is seen through the
  writes that reach it: each is logged with the transaction-local settings it ran under. An
  open transaction or savepoint is a frame; a savepoint starts from the settings of the
  frame it is on, releasing it keeps its settings (\<open>SET LOCAL\<close> lasts to the end of the
  transaction) and rolling back restores the ones before. \<open>faults\<close> gives the error of the
  n-th database operation, without any pattern: that a failed statement aborts its transaction, or that a connection on
  which a rollback failed is lost, are fault functions among the others (all later operations and the commit fail). A
  commit that reports an error is taken to have committed nothing; the reply lost after the commit took place is not modelled.
\<close>

definition schema_start :: "char \<Rightarrow> bool" where
  "schema_start c \<longleftrightarrow> is_lower c \<or> c = CHR ''_''"

text \<open>\<open>schemaRe\<close> of pgtx, outbox and pgmigrate.\<close>

definition schema_ok :: "string \<Rightarrow> bool" where
  "schema_ok s = (case s of [] \<Rightarrow> False | c # cs \<Rightarrow> schema_start c \<and> list_all (\<lambda>c. schema_start c \<or> is_digit c) cs)"

record settings =
  search_path :: "string option"
  tenant_guc :: "string option"
  all_guc :: bool

definition no_settings :: settings where
  "no_settings = \<lparr>search_path = None, tenant_guc = None, all_guc = False\<rparr>"

type_synonym 'w logged = "'w \<times> settings"

record 'w frame =
  fr_handle :: nat
  fr_conn :: nat
  fr_settings :: settings
  fr_writes :: "'w logged list"

record 'w sess =
  committed :: "'w logged list"
  frames :: "'w frame list"
  next_handle :: nat
  faults :: "nat \<Rightarrow> gerr option"
  ops_done :: nat

text \<open>One database operation: its error, and the session with the operation counted.\<close>

definition db_op :: "'w sess \<Rightarrow> gerr option \<times> 'w sess" where
  "db_op s = (faults s (ops_done s), s\<lparr>ops_done := Suc (ops_done s)\<rparr>)"

definition errTxClosed :: gerr where "errTxClosed = Leaf ''tx is closed''"

definition conn_of :: "nat \<Rightarrow> 'w sess \<Rightarrow> nat option" where
  "conn_of h s = map_option fr_conn (find (\<lambda>f. fr_handle f = h) (frames s))"

text \<open>Updating the innermost frame of a connection.\<close>

fun on_conn :: "nat \<Rightarrow> ('w frame \<Rightarrow> 'w frame) \<Rightarrow> 'w frame list \<Rightarrow> 'w frame list" where
  "on_conn c g [] = []"
| "on_conn c g (f # fs) = (if fr_conn f = c then g f # fs else f # on_conn c g fs)"

definition begin_root :: "'w sess \<Rightarrow> nat \<times> 'w sess" where
  "begin_root s = (next_handle s, s\<lparr>next_handle := Suc (next_handle s), frames :=
     \<lparr>fr_handle = next_handle s, fr_conn = next_handle s, fr_settings = no_settings, fr_writes = []\<rparr> # frames s\<rparr>)"

definition begin_savepoint :: "nat \<Rightarrow> 'w sess \<Rightarrow> (gerr, nat \<times> 'w sess) result" where
  "begin_savepoint h s = (case find (\<lambda>f. fr_handle f = h) (frames s) of
     None \<Rightarrow> Inl errTxClosed
   | Some f \<Rightarrow> (case find (\<lambda>g. fr_conn g = fr_conn f) (frames s) of
       None \<Rightarrow> Inl errTxClosed
     | Some g \<Rightarrow> Inr (next_handle s, s\<lparr>next_handle := Suc (next_handle s), frames :=
         \<lparr>fr_handle = next_handle s, fr_conn = fr_conn f, fr_settings = fr_settings g, fr_writes = []\<rparr> # frames s\<rparr>)))"

text \<open>Committing the frame of \<open>h\<close>: into the frame below on its connection, or to the database.\<close>

definition commit_frame :: "nat \<Rightarrow> 'w sess \<Rightarrow> (gerr, 'w sess) result" where
  "commit_frame h s = (case frames s of
     [] \<Rightarrow> Inl errTxClosed
   | f # fs \<Rightarrow>
       if fr_handle f \<noteq> h then Inl errTxClosed
       else if fr_conn f = h then Inr (s\<lparr>committed := committed s @ fr_writes f, frames := fs\<rparr>)
       else Inr (s\<lparr>frames := on_conn (fr_conn f)
          (\<lambda>g. g\<lparr>fr_settings := fr_settings f, fr_writes := fr_writes g @ fr_writes f\<rparr>) fs\<rparr>))"

definition rollback_frame :: "nat \<Rightarrow> 'w sess \<Rightarrow> 'w sess" where
  "rollback_frame h s = (case frames s of
     [] \<Rightarrow> s
   | f # fs \<Rightarrow> if fr_handle f = h then s\<lparr>frames := fs\<rparr> else s)"

subsection \<open>Scopes\<close>

record transactor =
  tr_route :: "(ctx \<Rightarrow> (gerr, string) result) option"
  tr_tenant :: bool

definition NewPlain :: transactor where "NewPlain = \<lparr>tr_route = None, tr_tenant = False\<rparr>"
definition NewTenant :: transactor where "NewTenant = \<lparr>tr_route = None, tr_tenant = True\<rparr>"

text \<open>A nil route panics.\<close>

definition NewRouted :: "(ctx \<Rightarrow> (gerr, string) result) option \<Rightarrow> transactor option" where
  "NewRouted route = (case route of None \<Rightarrow> None | Some f \<Rightarrow> Some \<lparr>tr_route = Some f, tr_tenant = False\<rparr>)"

definition NewRoutedTenant :: "(ctx \<Rightarrow> (gerr, string) result) option \<Rightarrow> transactor option" where
  "NewRoutedTenant route = (case route of None \<Rightarrow> None | Some f \<Rightarrow> Some \<lparr>tr_route = Some f, tr_tenant = True\<rparr>)"

definition IsRouted :: "transactor option \<Rightarrow> bool" where
  "IsRouted t = (case t of None \<Rightarrow> False | Some x \<Rightarrow> tr_route x \<noteq> None)"

definition deriveScope :: "transactor \<Rightarrow> ctx \<Rightarrow> (gerr, transactionScope) result" where
  "deriveScope t c = (let
     s = \<lparr>sc_tenant = tr_tenant t, sc_tenantID = (if tr_tenant t then TenantID (ctx_from c) else []),
       sc_readAll = ReadsAllTenants c, sc_routed = (tr_route t \<noteq> None), sc_schema = []\<rparr>
   in (case tr_route t of
        None \<Rightarrow> Inr s
      | Some route \<Rightarrow> (case route c of
          Inl e \<Rightarrow> Inl e
        | Inr schema \<Rightarrow> if \<not> schema_ok schema then Inl (Leaf ''invalid schema from route'')
            else Inr (s\<lparr>sc_schema := schema\<rparr>))))"

fun on_handle :: "nat \<Rightarrow> ('w frame \<Rightarrow> 'w frame) \<Rightarrow> 'w frame list \<Rightarrow> 'w frame list" where
  "on_handle h g [] = []"
| "on_handle h g (f # fs) = (if fr_handle f = h then g f # fs else f # on_handle h g fs)"

definition set_on :: "nat \<Rightarrow> (settings \<Rightarrow> settings) \<Rightarrow> 'w sess \<Rightarrow> 'w sess" where
  "set_on h g s = s\<lparr>frames := on_handle h (\<lambda>f. f\<lparr>fr_settings := g (fr_settings f)\<rparr>) (frames s)\<rparr>"

text \<open>One guarded \<open>SET LOCAL\<close> or \<open>set_config\<close> statement on the transaction just begun.\<close>

definition set_stmt :: "bool \<Rightarrow> string \<Rightarrow> nat \<Rightarrow> (settings \<Rightarrow> settings) \<Rightarrow> 'w sess \<Rightarrow> gerr option \<times> 'w sess" where
  "set_stmt wanted what h g s = (if \<not> wanted then (None, s)
     else (case db_op s of (Some e, s) \<Rightarrow> (Some (Wrap what e), s) | (None, s) \<Rightarrow> (None, set_on h g s)))"

definition applyScope :: "nat \<Rightarrow> transactionScope \<Rightarrow> 'w sess \<Rightarrow> gerr option \<times> 'w sess" where
  "applyScope h sc s = (case set_stmt (sc_routed sc) ''search_path'' h (\<lambda>x. x\<lparr>search_path := Some (sc_schema sc)\<rparr>) s of
     (Some e, s) \<Rightarrow> (Some e, s)
   | (None, s) \<Rightarrow> if \<not> sc_tenant sc then (None, s)
       else (case set_stmt (sc_tenantID sc \<noteq> []) ''tenant'' h (\<lambda>x. x\<lparr>tenant_guc := Some (sc_tenantID sc)\<rparr>) s of
           (Some e, s) \<Rightarrow> (Some e, s)
         | (None, s) \<Rightarrow> set_stmt (sc_readAll sc) ''read all'' h (\<lambda>x. x\<lparr>all_guc := True\<rparr>) s))"

subsection \<open>Do\<close>

datatype outcome = Done | Failed gerr | Panicking

definition deferred_rollback :: "nat \<Rightarrow> outcome \<Rightarrow> 'w sess \<Rightarrow> outcome \<times> 'w sess" where
  "deferred_rollback h out s = (case db_op s of (fault, s) \<Rightarrow>
     (case (out, fault) of
        (Failed e, Some rb) \<Rightarrow> if err_is ''tx is closed'' rb then (out, rollback_frame h s)
          else (Failed (Joined [e, Wrap ''rollback'' rb]), rollback_frame h s)
      | _ \<Rightarrow> (out, rollback_frame h s)))"

text \<open>The checks of \<open>Do\<close> before it begins: the scope, and on whom to begin.\<close>

definition check_nested :: "ctx \<Rightarrow> tx_handle \<Rightarrow> transactionScope \<Rightarrow> gerr option" where
  "check_nested c h sc = (case v_scope c of
     None \<Rightarrow> Some (Leaf ''transaction not established by pgtx.Do'')
   | Some (outer, marked) \<Rightarrow>
       if marked \<noteq> h then Some (Leaf ''transaction handle does not match the scope'')
       else if outer \<noteq> sc then Some (Leaf ''scope switched inside a transaction'')
       else None)"

definition begin_tx :: "ctx \<Rightarrow> transactionScope \<Rightarrow> 'w sess \<Rightarrow> (gerr, nat \<times> 'w sess) result \<times> 'w sess" where
  "begin_tx c sc s = (case v_tx c of
     None \<Rightarrow> (case db_op s of (Some e, s) \<Rightarrow> (Inl (Wrap ''begin'' e), s) | (None, s) \<Rightarrow> (Inr (begin_root s), s))
   | Some (ForeignTx n) \<Rightarrow> (Inl (Leaf ''foreign transaction handle''), s)
   | Some (PgTx h) \<Rightarrow> (case check_nested c (PgTx h) sc of
       Some e \<Rightarrow> (Inl e, s)
     | None \<Rightarrow> (case db_op s of
         (Some e, s) \<Rightarrow> (Inl (Wrap ''begin'' e), s)
       | (None, s) \<Rightarrow> (case begin_savepoint h s of Inl e \<Rightarrow> (Inl (Wrap ''begin'' e), s) | Inr x \<Rightarrow> (Inr x, s)))))"

definition fn_ctx :: "ctx \<Rightarrow> nat \<Rightarrow> transactionScope \<Rightarrow> ctx" where
  "fn_ctx c h sc = (tx_with c (PgTx h))\<lparr>v_scope := Some (sc, PgTx h)\<rparr>"

text \<open>After the begin: install the scope, run the function, commit; the rollback is deferred.\<close>

definition Do_body :: "nat \<Rightarrow> transactionScope \<Rightarrow> (ctx \<Rightarrow> 'w sess \<Rightarrow> outcome \<times> 'w sess) \<Rightarrow> ctx \<Rightarrow> 'w sess \<Rightarrow> outcome \<times> 'w sess" where
  "Do_body h sc fn c s = (case applyScope h sc s of
     (Some e, s) \<Rightarrow> deferred_rollback h (Failed e) s
   | (None, s) \<Rightarrow> (case fn (fn_ctx c h sc) s of
       (Done, s) \<Rightarrow> (case db_op s of
           (Some e, s) \<Rightarrow> deferred_rollback h (Failed (Wrap ''commit'' e)) s
         | (None, s) \<Rightarrow> (case commit_frame h s of
             Inl e \<Rightarrow> deferred_rollback h (Failed (Wrap ''commit'' e)) s
           | Inr s \<Rightarrow> (Done, s)))
     | (Failed e, s) \<Rightarrow> deferred_rollback h (Failed e) s
     | (Panicking, s) \<Rightarrow> deferred_rollback h Panicking s))"

definition Do :: "transactor \<Rightarrow> (ctx \<Rightarrow> 'w sess \<Rightarrow> outcome \<times> 'w sess) \<Rightarrow> ctx \<Rightarrow> 'w sess \<Rightarrow> outcome \<times> 'w sess" where
  "Do t fn c s =
     (if (case v_tx c of Some (ForeignTx n) \<Rightarrow> True | _ \<Rightarrow> False) then (Failed (Leaf ''foreign transaction handle''), s)
      else (case deriveScope t c of Inl e \<Rightarrow> (Failed e, s) | Inr sc \<Rightarrow>
      (case begin_tx c sc s of
         (Inl e, s) \<Rightarrow> (Failed e, s)
       | (Inr (h, s), _) \<Rightarrow> Do_body h sc fn c s)))"

text \<open>\<open>From\<close>: where a statement of a context goes. A foreign handle panics.\<close>

datatype db_target = OnPool | OnTx nat

definition pgtx_From :: "ctx \<Rightarrow> db_target option" where
  "pgtx_From c = (case v_tx c of None \<Rightarrow> Some OnPool | Some (PgTx h) \<Rightarrow> Some (OnTx h) | Some (ForeignTx n) \<Rightarrow> None)"

definition exec_write :: "db_target \<Rightarrow> 'w \<Rightarrow> 'w sess \<Rightarrow> gerr option \<times> 'w sess" where
  "exec_write tgt w s = (case db_op s of
     (Some e, s) \<Rightarrow> (Some e, s)
   | (None, s) \<Rightarrow> (case tgt of
       OnPool \<Rightarrow> (None, s\<lparr>committed := committed s @ [(w, no_settings)]\<rparr>)
     | OnTx h \<Rightarrow> (case conn_of h s of
         None \<Rightarrow> (Some errTxClosed, s)
       | Some cn \<Rightarrow> (None, s\<lparr>frames := on_conn cn (\<lambda>f. f\<lparr>fr_writes := fr_writes f @ [(w, fr_settings f)]\<rparr>) (frames s)\<rparr>))))"

text \<open>
  What the function given to \<open>Do\<close> can do: statements through \<open>From\<close> and nested \<open>Do\<close>s with a
  derived context, going on with the error of each; returning an error; panicking.
\<close>

datatype 'w prog =
    PDone
  | PFail gerr
  | PPanic
  | PExec 'w "gerr option \<Rightarrow> 'w prog"
  | PDo transactor "ctx \<Rightarrow> ctx" "'w prog" "gerr option \<Rightarrow> 'w prog"

primrec run_prog :: "'w prog \<Rightarrow> ctx \<Rightarrow> 'w sess \<Rightarrow> outcome \<times> 'w sess" where
  "run_prog PDone c s = (Done, s)"
| "run_prog (PFail e) c s = (Failed e, s)"
| "run_prog PPanic c s = (Panicking, s)"
| "run_prog (PExec w k) c s = (case pgtx_From c of
     None \<Rightarrow> (Panicking, s)
   | Some tgt \<Rightarrow> (case exec_write tgt w s of (e, s) \<Rightarrow> run_prog (k e) c s))"
| "run_prog (PDo t d p k) c s = (case Do t (run_prog p) (d c) s of
     (Done, s) \<Rightarrow> run_prog (k None) c s
   | (Failed e, s) \<Rightarrow> run_prog (k (Some e)) c s
   | (Panicking, s) \<Rightarrow> (Panicking, s))"

subsection \<open>The settings of a scope\<close>

definition settings_of :: "transactionScope \<Rightarrow> settings" where
  "settings_of sc = \<lparr>search_path = (if sc_routed sc then Some (sc_schema sc) else None),
     tenant_guc = (if sc_tenant sc \<and> sc_tenantID sc \<noteq> [] then Some (sc_tenantID sc) else None),
     all_guc = (sc_tenant sc \<and> sc_readAll sc)\<rparr>"

definition with_scope :: "transactionScope \<Rightarrow> settings \<Rightarrow> settings" where
  "with_scope sc x = \<lparr>search_path = (if sc_routed sc then Some (sc_schema sc) else search_path x),
     tenant_guc = (if sc_tenant sc \<and> sc_tenantID sc \<noteq> [] then Some (sc_tenantID sc) else tenant_guc x),
     all_guc = (sc_tenant sc \<and> sc_readAll sc \<or> all_guc x)\<rparr>"

lemma with_scope_settings [simp]:
  "with_scope sc no_settings = settings_of sc" "with_scope sc (settings_of sc) = settings_of sc"
  by (simp_all add: with_scope_def settings_of_def no_settings_def)

definition same_base :: "'w sess \<Rightarrow> 'w sess \<Rightarrow> bool" where
  "same_base s s' \<longleftrightarrow> committed s' = committed s \<and> next_handle s' = next_handle s"

lemma db_op_spec: "db_op s = (e, s') \<Longrightarrow> frames s' = frames s \<and> same_base s s'"
  by (auto simp: db_op_def same_base_def)

lemma set_stmt_spec:
  assumes "set_stmt wanted what h g s = (e, s')" and "frames s = f # fs" "fr_handle f = h"
  shows "same_base s s' \<and> (frames s' = f\<lparr>fr_settings := g (fr_settings f)\<rparr> # fs \<and> wanted \<or>
     frames s' = f # fs \<and> (e = None \<longrightarrow> \<not> wanted))"
  using assms by (auto simp: set_stmt_def db_op_def set_on_def same_base_def split: if_splits option.splits prod.splits)

lemma same_base_trans: "same_base s t \<Longrightarrow> same_base t u \<Longrightarrow> same_base s u"
  by (simp add: same_base_def)

lemma set_stmt_top:
  assumes "set_stmt wanted what h g s = (e, s')" and "frames s = f # fs" "fr_handle f = h"
  shows "\<exists>x. same_base s s' \<and> frames s' = f\<lparr>fr_settings := x\<rparr> # fs \<and>
    (e = None \<longrightarrow> x = (if wanted then g (fr_settings f) else fr_settings f))"
  using set_stmt_spec [OF assms]
proof (elim conjE disjE)
  assume "same_base s s'" "frames s' = f\<lparr>fr_settings := g (fr_settings f)\<rparr> # fs" wanted
  then show ?thesis by (intro exI [of _ "g (fr_settings f)"]) simp
next
  assume "same_base s s'" "frames s' = f # fs" "e = None \<longrightarrow> \<not> wanted"
  then show ?thesis by (intro exI [of _ "fr_settings f"]) simp
qed

lemma applyScope_spec:
  assumes "applyScope h sc s = (e, s')" and "frames s = f # fs" "fr_handle f = h"
  shows "\<exists>x. same_base s s' \<and> frames s' = f\<lparr>fr_settings := x\<rparr> # fs \<and> (e = None \<longrightarrow> x = with_scope sc (fr_settings f))"
proof -
  obtain e1 s1 where 1: "set_stmt (sc_routed sc) ''search_path'' h (\<lambda>x. x\<lparr>search_path := Some (sc_schema sc)\<rparr>) s = (e1, s1)"
    by force
  from set_stmt_top [OF 1 assms(2,3)] obtain x1 where x1: "same_base s s1" "frames s1 = f\<lparr>fr_settings := x1\<rparr> # fs"
    "e1 = None \<longrightarrow> x1 = (if sc_routed sc then (fr_settings f)\<lparr>search_path := Some (sc_schema sc)\<rparr> else fr_settings f)" by blast
  show ?thesis
  proof (cases "e1 \<noteq> None \<or> \<not> sc_tenant sc")
    case True
    then have "s' = s1" "e = e1" using assms(1) 1 by (auto simp: applyScope_def split: option.splits)
    then show ?thesis using x1 True by (auto simp: with_scope_def)
  next
    case False
    obtain e2 s2 where 2: "set_stmt (sc_tenantID sc \<noteq> []) ''tenant'' h (\<lambda>x. x\<lparr>tenant_guc := Some (sc_tenantID sc)\<rparr>) s1 = (e2, s2)"
      by force
    have h1: "fr_handle (f\<lparr>fr_settings := x1\<rparr>) = h" using assms(3) by simp
    from set_stmt_top [OF 2 x1(2) h1] obtain x2 where x2: "same_base s1 s2" "frames s2 = f\<lparr>fr_settings := x2\<rparr> # fs"
      "e2 = None \<longrightarrow> x2 = (if sc_tenantID sc \<noteq> [] then x1\<lparr>tenant_guc := Some (sc_tenantID sc)\<rparr> else x1)" by auto
    show ?thesis
    proof (cases e2)
      case (Some y)
      then have "s' = s2" "e = e2" using assms(1) 1 2 False by (auto simp: applyScope_def)
      then show ?thesis using x2 x1(1) Some same_base_trans by blast
    next
      case None
      then have 3: "set_stmt (sc_readAll sc) ''read all'' h (\<lambda>x. x\<lparr>all_guc := True\<rparr>) s2 = (e, s')"
        using assms(1) 1 2 False by (auto simp: applyScope_def)
      have h2: "fr_handle (f\<lparr>fr_settings := x2\<rparr>) = h" using assms(3) by simp
      from set_stmt_top [OF 3 x2(2) h2] obtain x3 where x3: "same_base s2 s'" "frames s' = f\<lparr>fr_settings := x3\<rparr> # fs"
        "e = None \<longrightarrow> x3 = (if sc_readAll sc then x2\<lparr>all_guc := True\<rparr> else x2)" by auto
      have "e = None \<longrightarrow> x3 = with_scope sc (fr_settings f)"
        using x1(3) x2(3) x3(3) None False by (auto simp: with_scope_def)
      then show ?thesis using x1(1) x2(1) x3(1,2) same_base_trans by blast
    qed
  qed
qed

lemma rollback_spec:
  assumes "deferred_rollback h out s = (out', s')" and "frames s = f # fs" "fr_handle f = h"
  shows "same_base s s' \<and> frames s' = fs \<and> (out \<noteq> Done \<longrightarrow> out' \<noteq> Done) \<and> (out' = Panicking \<longleftrightarrow> out = Panicking)"
  using assms
  by (auto simp: deferred_rollback_def db_op_def rollback_frame_def same_base_def split: outcome.splits option.splits if_splits)

subsection \<open>Running inside a transaction\<close>

definition sane :: "'w sess \<Rightarrow> bool" where
  "sane s \<longleftrightarrow> (\<forall>g\<in>set (frames s). fr_handle g < next_handle s \<and> fr_conn g < next_handle s)"

text \<open>The context of the innermost transaction, with the scope it was given.\<close>

definition atop :: "ctx \<Rightarrow> transactionScope \<Rightarrow> 'w sess \<Rightarrow> 'w frame \<Rightarrow> 'w frame list \<Rightarrow> bool" where
  "atop c sc s f fs \<longleftrightarrow> frames s = f # fs \<and> v_tx c = Some (PgTx (fr_handle f)) \<and>
     v_scope c = Some (sc, PgTx (fr_handle f)) \<and> fr_settings f = settings_of sc \<and> sane s"

text \<open>Only the innermost frame grows, by writes under the settings of the scope.\<close>

definition grows :: "transactionScope \<Rightarrow> 'w frame \<Rightarrow> 'w frame list \<Rightarrow> 'w sess \<Rightarrow> 'w sess \<Rightarrow> bool" where
  "grows sc f fs s s' \<longleftrightarrow> (\<exists>ws. frames s' = f\<lparr>fr_writes := fr_writes f @ ws\<rparr> # fs \<and> list_all (\<lambda>w. snd w = settings_of sc) ws) \<and>
     committed s' = committed s \<and> next_handle s \<le> next_handle s'"

definition framed :: "transactionScope \<Rightarrow> (ctx \<Rightarrow> 'w sess \<Rightarrow> outcome \<times> 'w sess) \<Rightarrow> bool" where
  "framed sc fn \<longleftrightarrow> (\<forall>c s f fs. atop c sc s f fs \<longrightarrow> grows sc f fs s (snd (fn c s)))"

text \<open>The same, with what the writes of a successful function are known to be.\<close>

definition framed_by :: "(ctx \<Rightarrow> 'w sess \<Rightarrow> 'w frame \<Rightarrow> 'w logged list \<Rightarrow> bool) \<Rightarrow> transactionScope \<Rightarrow>
    (ctx \<Rightarrow> 'w sess \<Rightarrow> outcome \<times> 'w sess) \<Rightarrow> bool" where
  "framed_by Q sc fn \<longleftrightarrow> (\<forall>c s f fs out s'. atop c sc s f fs \<longrightarrow> fn c s = (out, s') \<longrightarrow>
     (\<exists>ws. frames s' = f\<lparr>fr_writes := fr_writes f @ ws\<rparr> # fs \<and> list_all (\<lambda>w. snd w = settings_of sc) ws \<and>
        committed s' = committed s \<and> next_handle s \<le> next_handle s' \<and> (out = Done \<longrightarrow> Q c s f ws)))"

lemma framed_framed_by: "framed sc fn \<Longrightarrow> framed_by (\<lambda>c s f ws. True) sc fn"
  unfolding framed_def framed_by_def grows_def by (metis snd_conv)

lemma framed_byD: "framed_by Q sc fn \<Longrightarrow> atop c sc s f fs \<Longrightarrow> fn c s = (out, s') \<Longrightarrow>
  \<exists>ws. frames s' = f\<lparr>fr_writes := fr_writes f @ ws\<rparr> # fs \<and> list_all (\<lambda>w. snd w = settings_of sc) ws \<and>
        committed s' = committed s \<and> next_handle s \<le> next_handle s' \<and> (out = Done \<longrightarrow> Q c s f ws)"
  unfolding framed_by_def by blast

lemma framedD: "framed sc fn \<Longrightarrow> atop c sc s f fs \<Longrightarrow> fn c s = (out, s') \<Longrightarrow> grows sc f fs s s'"
  by (metis framed_def snd_conv)

lemma grows_refl: "frames s = f # fs \<Longrightarrow> same_base s s' \<Longrightarrow> frames s' = f # fs \<Longrightarrow> grows sc f fs s s'"
  unfolding grows_def same_base_def by (intro conjI exI [of _ "[]"]) auto

lemma grows_trans: "grows sc f fs s s1 \<Longrightarrow> (\<And>f1. fr_handle f1 = fr_handle f \<Longrightarrow> fr_settings f1 = fr_settings f \<Longrightarrow> fr_conn f1 = fr_conn f \<Longrightarrow>
    frames s1 = f1 # fs \<Longrightarrow> grows sc f1 fs s1 s2) \<Longrightarrow> grows sc f fs s s2"
proof -
  assume a: "grows sc f fs s s1" and b: "\<And>f1. fr_handle f1 = fr_handle f \<Longrightarrow> fr_settings f1 = fr_settings f \<Longrightarrow>
    fr_conn f1 = fr_conn f \<Longrightarrow> frames s1 = f1 # fs \<Longrightarrow> grows sc f1 fs s1 s2"
  from a obtain ws where ws: "frames s1 = f\<lparr>fr_writes := fr_writes f @ ws\<rparr> # fs" "list_all (\<lambda>w. snd w = settings_of sc) ws"
    "committed s1 = committed s" "next_handle s \<le> next_handle s1" by (auto simp: grows_def)
  from b [of "f\<lparr>fr_writes := fr_writes f @ ws\<rparr>"] ws(1) have "grows sc (f\<lparr>fr_writes := fr_writes f @ ws\<rparr>) fs s1 s2" by simp
  then obtain ws' where "frames s2 = f\<lparr>fr_writes := fr_writes f @ ws @ ws'\<rparr> # fs" "list_all (\<lambda>w. snd w = settings_of sc) ws'"
    "committed s2 = committed s1" "next_handle s1 \<le> next_handle s2" by (auto simp: grows_def)
  then show "grows sc f fs s s2" using ws unfolding grows_def by (intro conjI exI [of _ "ws @ ws'"]) auto
qed

lemma atop_after:
  assumes "atop c sc s f fs" and "grows sc f fs s s'"
  shows "\<exists>f'. atop c sc s' f' fs \<and> fr_handle f' = fr_handle f \<and> fr_settings f' = fr_settings f \<and> frames s' = f' # fs"
proof -
  from assms(2) obtain ws where ws: "frames s' = f\<lparr>fr_writes := fr_writes f @ ws\<rparr> # fs" "next_handle s \<le> next_handle s'"
    by (auto simp: grows_def)
  have "sane s'" using assms(1) ws by (auto simp: atop_def sane_def intro: less_le_trans)
  then show ?thesis using assms(1) ws(1) by (intro exI [of _ "f\<lparr>fr_writes := fr_writes f @ ws\<rparr>"]) (auto simp: atop_def)
qed

lemma Do_body_spec:
  assumes fn: "framed_by Q sc fn" and fr: "frames s = f # fs" "fr_handle f = h" "with_scope sc (fr_settings f) = settings_of sc"
    and sane: "sane s" and b: "Do_body h sc fn c s = (out, s')"
  shows "(out \<noteq> Done \<and> frames s' = fs \<and> committed s' = committed s \<and> next_handle s \<le> next_handle s') \<or>
    (out = Done \<and> (\<exists>ws t s1. list_all (\<lambda>w. snd w = settings_of sc) ws \<and>
       Q (fn_ctx c h sc) s1 (f\<lparr>fr_settings := settings_of sc\<rparr>) ws \<and> same_base s s1 \<and> frames s1 = f\<lparr>fr_settings := settings_of sc\<rparr> # fs \<and>
       frames t = f\<lparr>fr_settings := settings_of sc, fr_writes := fr_writes f @ ws\<rparr> # fs \<and>
       committed t = committed s \<and> next_handle s \<le> next_handle t \<and> commit_frame h t = Inr s'))"
proof -
  have undo: "out \<noteq> Done \<and> frames s' = fs \<and> committed s' = committed s \<and> next_handle s \<le> next_handle s'"
    if "deferred_rollback h o0 u = (out, s')" "o0 \<noteq> Done" "frames u = g # fs" "fr_handle g = h"
      "committed u = committed s" "next_handle s \<le> next_handle u" for o0 u g
    using rollback_spec [OF that(1,3,4)] that by (auto simp: same_base_def)
  obtain e s1 where a: "applyScope h sc s = (e, s1)" by force
  from applyScope_spec [OF a fr(1,2)] obtain x where x: "same_base s s1" "frames s1 = f\<lparr>fr_settings := x\<rparr> # fs"
    "e = None \<longrightarrow> x = settings_of sc" using fr(3) by auto
  show ?thesis
  proof (cases e)
    case (Some y)
    then have "deferred_rollback h (Failed y) s1 = (out, s')" using b a by (simp add: Do_body_def)
    from undo [OF this _ x(2)] fr(2) x(1) show ?thesis by (simp add: same_base_def)
  next
    case None
    let ?f1 = "f\<lparr>fr_settings := settings_of sc\<rparr>"
    have at: "atop (fn_ctx c h sc) sc s1 ?f1 fs"
      using x None fr(1,2) sane by (auto simp: atop_def fn_ctx_def tx_with_def sane_def same_base_def)
    obtain o1 s2 where f: "fn (fn_ctx c h sc) s1 = (o1, s2)" by force
    from framed_byD [OF fn at f] obtain ws where ws: "frames s2 = ?f1\<lparr>fr_writes := fr_writes f @ ws\<rparr> # fs"
      "list_all (\<lambda>w. snd w = settings_of sc) ws" "committed s2 = committed s" "next_handle s \<le> next_handle s2"
      "o1 = Done \<longrightarrow> Q (fn_ctx c h sc) s1 ?f1 ws"
      using x(1) by (auto simp: same_base_def)
    have hd: "fr_handle (?f1\<lparr>fr_writes := fr_writes f @ ws\<rparr>) = h" using fr(2) by simp
    show ?thesis
    proof (cases "o1 = Done")
      case False
      then have "\<exists>o0. o0 \<noteq> Done \<and> deferred_rollback h o0 s2 = (out, s')"
        using b a f None by (cases o1) (auto simp: Do_body_def)
      then show ?thesis using undo ws hd by blast
    next
      case True
      obtain e3 s3 where d: "db_op s2 = (e3, s3)" by force
      note s3 = db_op_spec [OF d]
      show ?thesis
      proof (cases e3)
        case (Some y)
        then have "deferred_rollback h (Failed (Wrap ''commit'' y)) s3 = (out, s')"
          using b a f None True d by (simp add: Do_body_def)
        from undo [OF this _ _ hd] s3 ws show ?thesis by (simp add: same_base_def)
      next
        case no_err: None
        show ?thesis
        proof (cases "commit_frame h s3")
          case (Inl y)
          then have "deferred_rollback h (Failed (Wrap ''commit'' y)) s3 = (out, s')"
            using b a f None True d no_err by (simp add: Do_body_def)
          from undo [OF this _ _ hd] s3 ws show ?thesis by (simp add: same_base_def)
        next
          case (Inr t)
          then have "out = Done \<and> s' = t" using b a f None True d no_err by (auto simp: Do_body_def)
          then show ?thesis using Inr s3 ws x None True
            by (intro disjI2 conjI exI [of _ ws] exI [of _ s3] exI [of _ s1]) (auto simp: same_base_def)
        qed
      qed
    qed
  qed
qed

lemma Do_inside:
  assumes fn: "framed sc fn" and at: "atop c sc s f fs" and d: "Do t fn c s = (out, s')"
  shows "grows sc f fs s s' \<and> (out \<noteq> Done \<longrightarrow> frames s' = f # fs)"
proof -
  have same: "grows sc f fs s s" by (rule grows_refl) (use at in \<open>auto simp: atop_def same_base_def\<close>)
  have tx: "v_tx c = Some (PgTx (fr_handle f))" "v_scope c = Some (sc, PgTx (fr_handle f))" "frames s = f # fs" "sane s"
    "fr_settings f = settings_of sc" using at by (auto simp: atop_def)
  show ?thesis
  proof (cases "deriveScope t c")
    case (Inl e) then show ?thesis using d tx same by (auto simp: Do_def)
  next
    case (Inr sc')
    show ?thesis
    proof (cases "sc' = sc")
      case False
      then have "out \<noteq> Done \<and> s' = s" using d tx Inr by (auto simp: Do_def begin_tx_def check_nested_def)
      then show ?thesis using same tx by simp
    next
      case True
      obtain e1 s1 where op: "db_op s = (e1, s1)" by force
      note s1 = db_op_spec [OF op]
      show ?thesis
      proof (cases e1)
        case (Some y)
        then have "out \<noteq> Done \<and> s' = s1" using d tx Inr True op by (auto simp: Do_def begin_tx_def check_nested_def)
        then show ?thesis using s1 tx grows_refl [of s f fs s1 sc] by simp
      next
        case None
        let ?h = "next_handle s"
        let ?f' = "\<lparr>fr_handle = ?h, fr_conn = fr_conn f, fr_settings = settings_of sc, fr_writes = []\<rparr>"
        let ?s2 = "s1\<lparr>next_handle := Suc ?h, frames := ?f' # f # fs\<rparr>"
        have "begin_savepoint (fr_handle f) s1 = Inr (?h, ?s2)"
          using s1 tx by (simp add: begin_savepoint_def same_base_def)
        then have body: "Do_body ?h sc fn c ?s2 = (out, s')"
          using d tx Inr True op None by (auto simp: Do_def begin_tx_def check_nested_def)
        have sane2: "sane ?s2" using tx(4) s1 tx(3) by (auto simp: sane_def less_Suc_eq)
        have conn: "fr_conn f < ?h" using tx(3,4) by (simp add: sane_def)
        from Do_body_spec [OF framed_framed_by [OF fn] _ _ _ sane2 body, of ?f' "f # fs"]
        consider "out \<noteq> Done" "frames s' = f # fs" "committed s' = committed s" "?h \<le> next_handle s'"
          | ws u where "out = Done" "list_all (\<lambda>w. snd w = settings_of sc) ws"
            "frames u = ?f'\<lparr>fr_writes := ws\<rparr> # f # fs" "committed u = committed s" "?h \<le> next_handle u" "commit_frame ?h u = Inr s'"
          using s1 by (auto simp: same_base_def)
        then show ?thesis
        proof cases
          case 1
          then show ?thesis unfolding grows_def by (intro conjI exI [of _ "[]"]) auto
        next
          case 2
          then have "frames s' = f\<lparr>fr_settings := settings_of sc, fr_writes := fr_writes f @ ws\<rparr> # fs \<and>
              committed s' = committed s \<and> next_handle s' = next_handle u"
            using conn by (auto simp: commit_frame_def)
          then show ?thesis using 2 tx(5) unfolding grows_def by (intro conjI exI [of _ ws]) auto
        qed
      qed
    qed
  qed
qed

text \<open>Programs that stay in the transaction they are given: no context loses or replaces it.\<close>

primrec stays_inside :: "'w prog \<Rightarrow> bool" where
  "stays_inside PDone = True"
| "stays_inside (PFail e) = True"
| "stays_inside PPanic = True"
| "stays_inside (PExec w k) = (\<forall>e. stays_inside (k e))"
| "stays_inside (PDo t d p k) = ((\<forall>c. v_tx (d c) = v_tx c \<and> v_scope (d c) = v_scope c) \<and> stays_inside p \<and> (\<forall>e. stays_inside (k e)))"

lemma exec_inside:
  assumes "atop c sc s f fs" and "exec_write (OnTx (fr_handle f)) w s = (e, s')"
  shows "grows sc f fs s s'"
proof -
  obtain e1 s1 where op: "db_op s = (e1, s1)" by force
  note s1 = db_op_spec [OF op]
  show ?thesis
  proof (cases e1)
    case (Some y)
    then have "s' = s1" using assms(2) op by (auto simp: exec_write_def)
    then show ?thesis using grows_refl [of s f fs s1 sc] s1 assms(1) by (auto simp: atop_def)
  next
    case None
    then have "frames s' = f\<lparr>fr_writes := fr_writes f @ [(w, fr_settings f)]\<rparr> # fs \<and> same_base s s'"
      using assms op s1 by (auto simp: exec_write_def conn_of_def atop_def same_base_def)
    then show ?thesis using assms(1) unfolding grows_def
      by (intro conjI exI [of _ "[(w, fr_settings f)]"]) (auto simp: atop_def same_base_def)
  qed
qed

lemma run_inside:
  fixes p :: "'w prog"
  shows "stays_inside p \<Longrightarrow> framed sc (run_prog p)"
proof (induction p)
  case (PExec w k)
  show ?case unfolding framed_def
  proof (intro allI impI)
    fix c and s :: "'w sess" and f fs assume at: "atop c sc s f fs"
    then have tgt: "pgtx_From c = Some (OnTx (fr_handle f))" by (simp add: atop_def pgtx_From_def)
    obtain e s1 where ex: "exec_write (OnTx (fr_handle f)) w s = (e, s1)" by force
    have g: "grows sc f fs s s1" by (rule exec_inside [OF at ex])
    from atop_after [OF at g] obtain f1 where f1: "atop c sc s1 f1 fs" "frames s1 = f1 # fs" by blast
    have "framed sc (run_prog (k e))" using PExec by simp
    then have "grows sc f1 fs s1 (snd (run_prog (k e) c s1))" using f1 by (simp add: framed_def)
    then show "grows sc f fs s (snd (run_prog (PExec w k) c s))"
      using tgt ex grows_trans [OF g] f1(2) by auto
  qed
next
  case (PDo t d p k)
  show ?case unfolding framed_def
  proof (intro allI impI)
    fix c and s :: "'w sess" and f fs assume at: "atop c sc s f fs"
    then have at': "atop (d c) sc s f fs" using PDo.prems by (simp add: atop_def)
    obtain out s1 where dd: "Do t (run_prog p) (d c) s = (out, s1)" by force
    have "framed sc (run_prog p)" using PDo by simp
    from Do_inside [OF this at' dd] have g: "grows sc f fs s s1" by blast
    from atop_after [OF at g] obtain f1 where f1: "atop c sc s1 f1 fs" "frames s1 = f1 # fs" by blast
    have "framed sc (run_prog (k e))" for e using PDo by simp
    then have k: "grows sc f1 fs s1 (snd (run_prog (k e) c s1))" for e using f1 by (simp add: framed_def)
    have "grows sc f fs s (snd (run_prog (k e) c s1))" for e
      by (rule grows_trans [OF g]) (use k f1(2) in auto)
    then show "grows sc f fs s (snd (run_prog (PDo t d p k) c s))"
      using dd g by (cases out) auto
  qed
qed (auto simp: framed_def atop_def same_base_def intro!: grows_refl)

lemma Do_root:
  assumes "\<And>sc. framed_by Q sc fn" and "sane s" and "v_tx c = None" and "Do t fn c s = (out, s')"
  shows "frames s' = frames s \<and> (out \<noteq> Done \<longrightarrow> committed s' = committed s) \<and>
    (out = Done \<longrightarrow> (\<exists>sc ws s1 f. deriveScope t c = Inr sc \<and> committed s' = committed s @ ws \<and>
       list_all (\<lambda>w. snd w = settings_of sc) ws \<and> Q (fn_ctx c (next_handle s) sc) s1 f ws \<and> committed s1 = committed s \<and>
       frames s1 = f # frames s \<and> f = \<lparr>fr_handle = next_handle s, fr_conn = next_handle s, fr_settings = settings_of sc, fr_writes = []\<rparr>))"
proof (cases "deriveScope t c")
  case (Inl e)
  then show ?thesis using assms(3,4) by (auto simp: Do_def)
next
  case (Inr sc)
  obtain e1 s1 where op: "db_op s = (e1, s1)" by force
  note s1 = db_op_spec [OF op]
  show ?thesis
  proof (cases e1)
    case (Some y)
    then have "out \<noteq> Done \<and> s' = s1" using assms(3,4) Inr op by (auto simp: Do_def begin_tx_def)
    then show ?thesis using s1 by (simp add: same_base_def)
  next
    case None
    let ?h = "next_handle s"
    let ?f = "\<lparr>fr_handle = ?h, fr_conn = ?h, fr_settings = no_settings, fr_writes = []\<rparr>"
    let ?s2 = "s1\<lparr>next_handle := Suc ?h, frames := ?f # frames s\<rparr>"
    have "begin_root s1 = (?h, ?s2)" using s1 by (simp add: begin_root_def same_base_def)
    then have body: "Do_body ?h sc fn c ?s2 = (out, s')"
      using assms(3,4) Inr op None by (auto simp: Do_def begin_tx_def)
    have sane2: "sane ?s2" using assms(2) by (auto simp: sane_def less_Suc_eq)
    have c2: "committed ?s2 = committed s" using s1 by (simp add: same_base_def)
    from Do_body_spec [OF assms(1) _ _ _ sane2 body, of ?f "frames s"]
    consider "out \<noteq> Done" "frames s' = frames s" "committed s' = committed ?s2"
      | ws u w1 where "out = Done" "list_all (\<lambda>w. snd w = settings_of sc) ws"
        "Q (fn_ctx c ?h sc) w1 (?f\<lparr>fr_settings := settings_of sc\<rparr>) ws" "same_base ?s2 w1" "frames w1 = ?f\<lparr>fr_settings := settings_of sc\<rparr> # frames s"
        "frames u = ?f\<lparr>fr_settings := settings_of sc, fr_writes := ws\<rparr> # frames s" "committed u = committed ?s2" "commit_frame ?h u = Inr s'"
      by fastforce
    then show ?thesis
    proof cases
      case 1 then show ?thesis using c2 by simp
    next
      case 2
      then have "frames s' = frames s \<and> committed s' = committed s @ ws" using c2 by (auto simp: commit_frame_def)
      moreover have "committed w1 = committed s" using 2(4) c2 by (simp add: same_base_def)
      ultimately show ?thesis using 2(1,2,3,5) Inr
        by (intro conjI impI exI [of _ sc] exI [of _ ws] exI [of _ w1] exI [of _ "?f\<lparr>fr_settings := settings_of sc\<rparr>"]) simp_all
    qed
  qed
qed

text \<open>What a function did in the transaction it was given: it returned nil, leaving exactly \<open>ws\<close> in the frame.\<close>

definition left_by :: "(ctx \<Rightarrow> 'w sess \<Rightarrow> outcome \<times> 'w sess) \<Rightarrow> ctx \<Rightarrow> 'w sess \<Rightarrow> 'w frame \<Rightarrow> 'w logged list \<Rightarrow> bool" where
  "left_by fn c s f ws \<longleftrightarrow> (\<exists>s' fs. fn c s = (Done, s') \<and> frames s = f # fs \<and> frames s' = f\<lparr>fr_writes := fr_writes f @ ws\<rparr> # fs)"

lemma framed_left_by: "framed sc fn \<Longrightarrow> framed_by (left_by fn) sc fn"
  unfolding framed_by_def
proof (intro allI impI)
  fix c s f fs out s'
  assume fn: "framed sc fn" and at: "atop c sc s f fs" and r: "fn c s = (out, s')"
  obtain ws where ws: "frames s' = f\<lparr>fr_writes := fr_writes f @ ws\<rparr> # fs" "list_all (\<lambda>w. snd w = settings_of sc) ws"
    "committed s' = committed s" "next_handle s \<le> next_handle s'" using framedD [OF fn at r] by (auto simp: grows_def)
  moreover have "out = Done \<Longrightarrow> left_by fn c s f ws" using r ws(1) at by (auto simp: left_by_def atop_def)
  ultimately show "\<exists>ws. frames s' = f\<lparr>fr_writes := fr_writes f @ ws\<rparr> # fs \<and> list_all (\<lambda>w. snd w = settings_of sc) ws \<and>
      committed s' = committed s \<and> next_handle s \<le> next_handle s' \<and> (out = Done \<longrightarrow> left_by fn c s f ws)" by blast
qed

lemma do_atomic_root:
  assumes "stays_inside p" and "sane s" and "v_tx c = None" and "Do t (run_prog p) c s = (out, s')"
  shows "frames s' = frames s \<and> (out \<noteq> Done \<longrightarrow> committed s' = committed s) \<and>
    (out = Done \<longrightarrow> (\<exists>sc ws s1 s2 f. deriveScope t c = Inr sc \<and>
       f = \<lparr>fr_handle = next_handle s, fr_conn = next_handle s, fr_settings = settings_of sc, fr_writes = []\<rparr> \<and>
       frames s1 = f # frames s \<and> committed s1 = committed s \<and>
       run_prog p (fn_ctx c (next_handle s) sc) s1 = (Done, s2) \<and> frames s2 = f\<lparr>fr_writes := ws\<rparr> # frames s \<and>
       committed s' = committed s @ ws \<and> list_all (\<lambda>w. snd w = settings_of sc) ws))"
  using Do_root [OF framed_left_by [OF run_inside [OF assms(1)]] assms(2-4)] by (fastforce simp: left_by_def)

text \<open>
  Property C16. A transaction is all or nothing. When \<open>Do\<close> succeeds, its function was run once, in a fresh
  transaction with the settings of the scope derived from the context, it returned nil, and exactly the writes it left
  in that transaction (all it made, less those of the nested \<open>Do\<close>s that failed) are committed, in order and each under those settings. When \<open>Do\<close> fails, at any
  of its steps, or its function fails or panics, nothing is committed. No transaction stays open, however
  the function nests further \<open>Do\<close>s.
\<close>

theorem do_atomic:
  assumes "stays_inside p" and "sane s" and "v_tx c = None" and "Do t (run_prog p) c s = (out, s')"
  shows "frames s' = frames s \<and> (out \<noteq> Done \<longrightarrow> committed s' = committed s) \<and>
    (out = Done \<longrightarrow> (\<exists>sc ws s1 s2 f. deriveScope t c = Inr sc \<and>
       f = \<lparr>fr_handle = next_handle s, fr_conn = next_handle s, fr_settings = settings_of sc, fr_writes = []\<rparr> \<and>
       frames s1 = f # frames s \<and> committed s1 = committed s \<and>
       run_prog p (fn_ctx c (next_handle s) sc) s1 = (Done, s2) \<and> frames s2 = f\<lparr>fr_writes := ws\<rparr> # frames s \<and>
       committed s' = committed s @ ws \<and> list_all (\<lambda>w. snd w = settings_of sc) ws))"
  by (rule do_atomic_root [OF assms])

definition calm_session :: "string sess" where
  "calm_session = \<lparr>committed = [], frames = [], next_handle = 0, faults = (\<lambda>n. None), ops_done = 0\<rparr>"

definition tenant_ctx :: ctx where
  "tenant_ctx = ctx_with background (zero_meta\<lparr>TenantID := ''t1''\<rparr>)"

text \<open>A write, a failing savepoint whose error is ignored, another write.\<close>

definition sample_prog :: "string prog" where
  "sample_prog = PExec ''a'' (\<lambda>e. PDo NewTenant id (PExec ''b'' (\<lambda>e. PFail (Leaf ''no''))) (\<lambda>e. PExec ''c'' (\<lambda>e. PDone)))"

theorem do_atomic_witness:
  "\<exists>ws. committed (snd (Do NewTenant (run_prog sample_prog) tenant_ctx calm_session)) = ws \<and> map fst ws = [''a'', ''c''] \<and>
     list_all (\<lambda>w. tenant_guc (snd w) = Some ''t1'') ws"
proof -
  obtain out s' where d: "Do NewTenant (run_prog sample_prog) tenant_ctx calm_session = (out, s')" by force
  have v: "fst (Do NewTenant (run_prog sample_prog) tenant_ctx calm_session) = Done"
    "map fst (committed (snd (Do NewTenant (run_prog sample_prog) tenant_ctx calm_session))) = [''a'', ''c'']"
    by code_simp+
  have "stays_inside sample_prog" by (simp add: sample_prog_def)
  moreover have "sane calm_session" "v_tx tenant_ctx = None"
    by (simp_all add: sane_def calm_session_def tenant_ctx_def ctx_with_def background_def)
  moreover have "out = Done" using v(1) by (simp add: d)
  moreover have "committed calm_session = []" by (simp add: calm_session_def)
  ultimately obtain sc where "deriveScope NewTenant tenant_ctx = Inr sc"
    "list_all (\<lambda>w. snd w = settings_of sc) (committed s')"
    using do_atomic [OF _ _ _ d] by fastforce
  then have "list_all (\<lambda>w. tenant_guc (snd w) = Some ''t1'') (committed s')"
    by (auto simp: deriveScope_def NewTenant_def tenant_ctx_def ctx_from_with settings_of_def list_all_iff zero_meta_def)
  then show ?thesis using v(2) by (simp add: d)
qed

text \<open>
  Property C17. A nested \<open>Do\<close> is a savepoint of the transaction it is in: nothing is committed
  before the outermost returns; when it does not succeed the transaction is exactly as
  before, writes and settings; when it succeeds the transaction has grown by writes
  under its own settings; and it is refused when it would switch tenant, route or
  read-all mode.
\<close>

theorem savepoint_atomic:
  assumes "stays_inside p" and "atop c sc s f fs" and "Do t (run_prog p) c s = (out, s')"
  shows "committed s' = committed s \<and> (deriveScope t c \<noteq> Inr sc \<longrightarrow> out \<noteq> Done) \<and>
    (out \<noteq> Done \<longrightarrow> frames s' = frames s) \<and>
    (\<exists>ws. frames s' = f\<lparr>fr_writes := fr_writes f @ ws\<rparr> # fs \<and> list_all (\<lambda>w. snd w = settings_of sc) ws)"
proof -
  have "out \<noteq> Done" if "deriveScope t c \<noteq> Inr sc"
  proof (cases "deriveScope t c")
    case (Inl e) then show ?thesis using assms(2,3) by (auto simp: Do_def atop_def)
  next
    case (Inr sc')
    then show ?thesis using that assms(2,3) by (auto simp: Do_def atop_def begin_tx_def check_nested_def)
  qed
  moreover have "frames s = f # fs" using assms(2) by (simp add: atop_def)
  ultimately show ?thesis
    using Do_inside [OF run_inside [OF assms(1)] assms(2,3)] unfolding grows_def by auto
qed

definition tenant_scope :: transactionScope where
  "tenant_scope = \<lparr>sc_tenant = True, sc_tenantID = ''t1'', sc_readAll = False, sc_routed = False, sc_schema = []\<rparr>"

definition tenant_frame :: "string frame" where
  "tenant_frame = \<lparr>fr_handle = 0, fr_conn = 0, fr_settings = settings_of tenant_scope, fr_writes = []\<rparr>"

theorem savepoint_atomic_witness:
  "fst (Do NewPlain (run_prog (PDone :: string prog)) (fn_ctx tenant_ctx 0 tenant_scope)
      (calm_session\<lparr>frames := [tenant_frame], next_handle := 1\<rparr>)) \<noteq> Done"
proof -
  let ?c = "fn_ctx tenant_ctx 0 tenant_scope" and ?s = "calm_session\<lparr>frames := [tenant_frame], next_handle := 1\<rparr>"
  obtain out s' where d: "Do NewPlain (run_prog (PDone :: string prog)) ?c ?s = (out, s')" by force
  have "atop ?c tenant_scope ?s tenant_frame []"
    by (simp add: atop_def fn_ctx_def tx_with_def tenant_frame_def sane_def)
  moreover have "deriveScope NewPlain ?c \<noteq> Inr tenant_scope"
    by (simp add: deriveScope_def NewPlain_def tenant_scope_def)
  moreover have "stays_inside (PDone :: string prog)" by simp
  ultimately have "out \<noteq> Done" using savepoint_atomic [OF _ _ d] by blast
  then show ?thesis unfolding d by simp
qed

end
