(* ===== verification/Outbox.thy ===== *)
theory Outbox
  imports Pgtx Leases "HOL-Library.Product_Lexorder"
begin

text \<open>
  The transactional outbox (outbox/outbox.go, relay.go, bus.go, inbox.go, deadletter.go).
  The outbox table is the list of its rows, each SQL statement an atomic function of it
  and of the database clock. Parsing of UUIDs (package google/uuid) and of the JSON of
  \<open>meta\<close> is done by arguments; times are milliseconds in the SQL and nanoseconds in Go.
\<close>

type_synonym strmap = "(string \<times> string) list"

datatype meta_json = MetaNull | MetaMap strmap | MetaBad gerr

record orow =
  o_id :: string
  o_topic :: string
  o_payload :: string
  o_meta :: meta_json
  o_attempts :: nat
  o_next :: int
  o_claimedUntil :: "int option"
  o_token :: "string option"
  o_failed :: "int option"
  o_error :: "gerr option"
  o_created :: int
  o_published :: "int option"

type_synonym outbox_table = "orow list"

record event =
  ev_id :: string
  ev_topic :: string
  ev_payload :: string
  ev_meta :: "strmap option"

subsection \<open>Publishing\<close>

definition errNoTx :: gerr where
  "errNoTx = New CodeTxBoundary 500 ''outbox.Publish must be called in a transaction''"

definition new_row :: "string \<Rightarrow> string \<Rightarrow> string \<Rightarrow> strmap option \<Rightarrow> int \<Rightarrow> orow" where
  "new_row eid topic payload m now = \<lparr>o_id = eid, o_topic = topic, o_payload = payload,
     o_meta = (case m of None \<Rightarrow> MetaNull | Some x \<Rightarrow> MetaMap x), o_attempts = 0, o_next = now,
     o_claimedUntil = None, o_token = None, o_failed = None, o_error = None, o_created = now, o_published = None\<rparr>"

datatype 'a db_row = InboxRow string string string | OutboxRow orow | Business 'a

text \<open>What a statement of a transaction sees: the committed rows and those of its connection.\<close>

definition visible :: "nat \<Rightarrow> 'w sess \<Rightarrow> 'w logged list" where
  "visible cn s = committed s @ concat (map fr_writes (filter (\<lambda>f. fr_conn f = cn) (frames s)))"

definition outbox_has :: "string \<Rightarrow> 'a db_row logged list \<Rightarrow> bool" where
  "outbox_has eid ws \<longleftrightarrow> list_ex (\<lambda>w. case fst w of OutboxRow r \<Rightarrow> o_id r = eid | _ \<Rightarrow> False) ws"

definition db_sees :: "db_target \<Rightarrow> 'w sess \<Rightarrow> 'w logged list" where
  "db_sees tgt s = (case tgt of OnPool \<Rightarrow> committed s
     | OnTx h \<Rightarrow> (case conn_of h s of None \<Rightarrow> [] | Some cn \<Rightarrow> visible cn s))"

text \<open>The insert of a row whose primary key is taken is a unique violation.\<close>

definition outbox_insert :: "db_target \<Rightarrow> orow \<Rightarrow> 'a db_row sess \<Rightarrow> gerr option \<times> 'a db_row sess" where
  "outbox_insert tgt r s = (if outbox_has (o_id r) (db_sees tgt s)
     then (case db_op s of (e, s) \<Rightarrow> (Some (case e of Some e \<Rightarrow> e | None \<Rightarrow> Leaf ''unique violation''), s))
     else exec_write tgt (OutboxRow r) s)"

text \<open>
  \<open>Publish\<close> on the database \<open>tgt\<close>: its error, and the session with the row it inserted;
  \<open>fresh\<close> is the UUID generated for an event without one.
\<close>

definition event_row :: "string \<Rightarrow> ctx \<Rightarrow> event \<Rightarrow> int \<Rightarrow> orow" where
  "event_row fresh c evt now = (let
     eid = (if ev_id evt = [] then fresh else ev_id evt);
     payload = (if ev_payload evt = [] then ''null'' else ev_payload evt);
     metaMap = ToMap (ctx_from c) (ev_meta evt)
   in new_row eid (ev_topic evt) payload (case metaMap of None \<Rightarrow> None | Some m \<Rightarrow> if m = [] then None else Some m) now)"

definition Publish :: "(string \<Rightarrow> gerr option) \<Rightarrow> string \<Rightarrow> ctx \<Rightarrow> db_target \<Rightarrow> string \<Rightarrow> event \<Rightarrow> int \<Rightarrow>
    'a db_row sess \<Rightarrow> gerr option \<times> 'a db_row sess" where
  "Publish uuid_parse fresh c db schema evt now s =
     (if \<not> HasTx c then (Some (with_detail ''topic'' (DStr (ev_topic evt)) errNoTx), s)
      else if \<not> schema_ok schema then (Some (InvalidArgument ''invalid schema name''), s)
      else if ev_topic evt = [] then (Some (InvalidArgument ''event without topic''), s)
      else (case (if ev_id evt = [] then None else uuid_parse (ev_id evt)) of
          Some e \<Rightarrow> (Some (with_cause (Some e) (InvalidArgument ''event id is not a uuid'')), s)
        | None \<Rightarrow> (case outbox_insert db (event_row fresh c evt now) s of
            (Some e, s) \<Rightarrow> (Some (Wrap ''write outbox'' e), s) | (None, s) \<Rightarrow> (None, s))))"

text \<open>A \<open>Publisher\<close> is its schema; \<open>None\<close> where the constructor or \<open>pgtx.From\<close> panics.\<close>

definition NewPublisher :: "string \<Rightarrow> string option" where
  "NewPublisher schema = (if schema_ok schema then Some schema else None)"

definition Publisher_Publish :: "(string \<Rightarrow> gerr option) \<Rightarrow> string \<Rightarrow> string \<Rightarrow> ctx \<Rightarrow> event \<Rightarrow> int \<Rightarrow>
    'a db_row sess \<Rightarrow> outcome \<times> 'a db_row sess" where
  "Publisher_Publish uuid_parse fresh schema c evt now s = (case pgtx_From c of
     None \<Rightarrow> (Panicking, s)
   | Some db \<Rightarrow> (case Publish uuid_parse fresh c db schema evt now s of
       (Some e, s) \<Rightarrow> (Failed e, s) | (None, s) \<Rightarrow> (Done, s)))"

subsection \<open>The relay's statements\<close>

definition pending_row :: "orow \<Rightarrow> bool" where
  "pending_row r \<longleftrightarrow> o_published r = None \<and> o_failed r = None"

definition due_row :: "int \<Rightarrow> orow \<Rightarrow> bool" where
  "due_row now r \<longleftrightarrow> pending_row r \<and> o_next r \<le> now \<and>
     (case o_claimedUntil r of None \<Rightarrow> True | Some u \<Rightarrow> u < now)"

text \<open>\<open>locked\<close>: the rows other transactions have locked, which \<open>SKIP LOCKED\<close> passes over.\<close>

definition claim_select :: "int \<Rightarrow> nat \<Rightarrow> (string \<Rightarrow> bool) \<Rightarrow> outbox_table \<Rightarrow> orow list" where
  "claim_select now batch locked t =
     take batch (sort_key (\<lambda>r. (o_created r, o_id r)) (filter (\<lambda>r. due_row now r \<and> \<not> locked (o_id r)) t))"

definition update_where :: "(orow \<Rightarrow> bool) \<Rightarrow> (orow \<Rightarrow> orow) \<Rightarrow> outbox_table \<Rightarrow> nat \<times> outbox_table" where
  "update_where P f t = (length (filter P t), map (\<lambda>r. if P r then f r else r) t)"

definition claim_mark :: "string list \<Rightarrow> int \<Rightarrow> string \<Rightarrow> int \<Rightarrow> outbox_table \<Rightarrow> nat \<times> outbox_table" where
  "claim_mark ids ms tok now = update_where (\<lambda>r. o_id r \<in> set ids \<and> pending_row r)
     (\<lambda>r. r\<lparr>o_claimedUntil := Some (now + ms), o_token := Some tok\<rparr>)"

definition held :: "string \<Rightarrow> orow \<Rightarrow> bool" where
  "held tok r \<longleftrightarrow> pending_row r \<and> o_token r = Some tok"

definition sql_published :: "string list \<Rightarrow> string \<Rightarrow> int \<Rightarrow> outbox_table \<Rightarrow> nat \<times> outbox_table" where
  "sql_published ids tok now = update_where (\<lambda>r. o_id r \<in> set ids \<and> held tok r)
     (\<lambda>r. r\<lparr>o_published := Some now, o_claimedUntil := None, o_token := None\<rparr>)"

definition sql_retry :: "string \<Rightarrow> int \<Rightarrow> gerr \<Rightarrow> string \<Rightarrow> int \<Rightarrow> outbox_table \<Rightarrow> nat \<times> outbox_table" where
  "sql_retry eid delay e tok now = update_where (\<lambda>r. o_id r = eid \<and> held tok r)
     (\<lambda>r. r\<lparr>o_attempts := o_attempts r + 1, o_next := now + delay, o_error := Some e, o_claimedUntil := None, o_token := None\<rparr>)"

definition sql_dead :: "string \<Rightarrow> gerr \<Rightarrow> string \<Rightarrow> int \<Rightarrow> outbox_table \<Rightarrow> nat \<times> outbox_table" where
  "sql_dead eid e tok now = update_where (\<lambda>r. o_id r = eid \<and> held tok r)
     (\<lambda>r. r\<lparr>o_attempts := o_attempts r + 1, o_failed := Some now, o_error := Some e, o_claimedUntil := None, o_token := None\<rparr>)"

definition lease_release :: "string list \<Rightarrow> string \<Rightarrow> outbox_table \<Rightarrow> nat \<times> outbox_table" where
  "lease_release ids tok = update_where (\<lambda>r. o_id r \<in> set ids \<and> held tok r)
     (\<lambda>r. r\<lparr>o_claimedUntil := None, o_token := None\<rparr>)"

subsection \<open>Backoff\<close>

definition maxBackoff :: int where "maxBackoff = 5 * 60 * 10 ^ 9"

fun backoff_loop :: "nat \<Rightarrow> int \<Rightarrow> int" where
  "backoff_loop 0 d = min d maxBackoff"
| "backoff_loop (Suc n) d = (let d = i64 (d * 2) in
     if d \<ge> maxBackoff \<or> d \<le> 0 then maxBackoff else backoff_loop n d)"

definition backoff :: "int \<Rightarrow> nat \<Rightarrow> int" where
  "backoff base attempts = backoff_loop attempts base"

definition milliseconds :: "int \<Rightarrow> int" where
  "milliseconds d = (if d < 0 then - ((- d) div 1000000) else d div 1000000)"

subsection \<open>The relay\<close>

record relay =
  rl_batch :: nat
  rl_interval :: int
  rl_lease :: int
  rl_maxAttempts :: int

definition default_relay :: relay where
  "default_relay = \<lparr>rl_batch = 100, rl_interval = 10 ^ 9, rl_lease = 30 * 10 ^ 9, rl_maxAttempts = 10\<rparr>"

definition WithBatchSize :: "int \<Rightarrow> relay \<Rightarrow> relay" where
  "WithBatchSize n r = (if n > 0 then r\<lparr>rl_batch := nat n\<rparr> else r)"

definition WithInterval :: "int \<Rightarrow> relay \<Rightarrow> relay" where
  "WithInterval d r = (if d > 0 then r\<lparr>rl_interval := d\<rparr> else r)"

definition WithLease :: "int \<Rightarrow> relay \<Rightarrow> relay" where
  "WithLease d r = (if d > 0 then r\<lparr>rl_lease := d\<rparr> else r)"

definition WithMaxAttempts :: "int \<Rightarrow> relay \<Rightarrow> relay" where
  "WithMaxAttempts n r = (if n > 0 then r\<lparr>rl_maxAttempts := n\<rparr> else r)"

definition NewRelay :: "string \<Rightarrow> (relay \<Rightarrow> relay) list \<Rightarrow> relay option" where
  "NewRelay schema opts = (if \<not> schema_ok schema then None else Some (foldl (\<lambda>r f. f r) default_relay opts))"

text \<open>
  Statement \<open>n\<close> of a round: its error, the clock, and what other clients did to the table
  just before it. \<open>re_token\<close> is the UUID of the claim; \<open>re_publish\<close> is what the bus answers,
  a recovered panic included.
\<close>

record relay_env =
  re_err :: "nat \<Rightarrow> gerr option"
  re_now :: "nat \<Rightarrow> int"
  re_others :: "nat \<Rightarrow> outbox_table \<Rightarrow> outbox_table"
  re_token :: string
  re_locked :: "string \<Rightarrow> bool"
  re_publish :: "meta \<Rightarrow> event \<Rightarrow> gerr option"

definition errRelayLeaseLost :: gerr where "errRelayLeaseLost = Leaf ''relay claim fencing rejected''"

text \<open>Statement 0 is the whole claim transaction: its row locks keep others out until it commits.\<close>

definition claim_batch :: "relay_env \<Rightarrow> relay \<Rightarrow> outbox_table \<Rightarrow> (gerr, orow list) result \<times> outbox_table" where
  "claim_batch en rl t = (let t = re_others en 0 t in
     (case re_err en 0 of Some e \<Rightarrow> (Inl (Wrap ''claim'' e), t) | None \<Rightarrow> (let
        claimed = claim_select (re_now en 0) (rl_batch rl) (re_locked en) t
      in if claimed = [] then (Inr [], t)
         else (case claim_mark (map o_id claimed) (milliseconds (rl_lease rl)) (re_token en) (re_now en 0) t of
           (n, t') \<Rightarrow> if n \<noteq> length claimed then (Inl (Leaf ''claim marked too few rows''), t)
             else (Inr claimed, t')))))"

definition deliver :: "relay_env \<Rightarrow> orow \<Rightarrow> gerr option" where
  "deliver en r = (case o_meta r of
     MetaBad e \<Rightarrow> Some (Wrap ''meta'' e)
   | MetaNull \<Rightarrow> re_publish en (FromMap None) \<lparr>ev_id = o_id r, ev_topic = o_topic r, ev_payload = o_payload r, ev_meta = None\<rparr>
   | MetaMap m \<Rightarrow> re_publish en (FromMap (Some m)) \<lparr>ev_id = o_id r, ev_topic = o_topic r, ev_payload = o_payload r, ev_meta = Some m\<rparr>)"

text \<open>Delivered rows, the failed row with its error, and the rows not tried.\<close>

fun deliver_all :: "relay_env \<Rightarrow> orow list \<Rightarrow> orow list \<times> (orow \<times> gerr) option \<times> orow list" where
  "deliver_all en [] = ([], None, [])"
| "deliver_all en (r # rs) = (case deliver en r of
     Some e \<Rightarrow> ([], Some (r, Wrap ''deliver'' e), rs)
   | None \<Rightarrow> (case deliver_all en rs of (ds, f, left) \<Rightarrow> (r # ds, f, left)))"

definition recordFailure :: "relay_env \<Rightarrow> relay \<Rightarrow> orow \<Rightarrow> gerr \<Rightarrow> outbox_table \<Rightarrow> gerr option \<times> outbox_table" where
  "recordFailure en rl r cause t = (let attempts = o_attempts r + 1; t = re_others en 2 t in
     (case re_err en 2 of
        Some e \<Rightarrow> (Some (Wrap (if int attempts \<ge> rl_maxAttempts rl then ''mark dead'' else ''record backoff'') e), t)
      | None \<Rightarrow> (case (if int attempts \<ge> rl_maxAttempts rl then sql_dead (o_id r) cause (re_token en) (re_now en 2) t
            else sql_retry (o_id r) (milliseconds (backoff (rl_interval rl) (o_attempts r))) cause (re_token en) (re_now en 2) t) of
          (n, t') \<Rightarrow> (if n = 0 then Some (Wrap (o_id r) errRelayLeaseLost) else None, t'))))"

definition finish_delivered :: "relay_env \<Rightarrow> orow list \<Rightarrow> outbox_table \<Rightarrow> gerr option \<times> outbox_table" where
  "finish_delivered en ds t = (if ds = [] then (None, t) else (let t = re_others en 1 t in
     (case re_err en 1 of Some e \<Rightarrow> (Some (Wrap ''mark published'' e), t)
      | None \<Rightarrow> (case sql_published (map o_id ds) (re_token en) (re_now en 1) t of
          (n, t') \<Rightarrow> (if n \<noteq> length ds then Some (Wrap ''published too few'' errRelayLeaseLost) else None, t')))))"

definition finish_rest :: "relay_env \<Rightarrow> orow list \<Rightarrow> outbox_table \<Rightarrow> gerr option \<times> outbox_table" where
  "finish_rest en left t = (if left = [] then (None, t) else (let t = re_others en 3 t in
     (case re_err en 3 of Some e \<Rightarrow> (Some (Wrap ''release leases'' e), t)
      | None \<Rightarrow> (None, snd (lease_release (map o_id left) (re_token en) t)))))"

definition relayOnce :: "relay_env \<Rightarrow> relay \<Rightarrow> outbox_table \<Rightarrow> (nat \<times> gerr option) \<times> outbox_table" where
  "relayOnce en rl t = (case claim_batch en rl t of
     (Inl e, t) \<Rightarrow> ((0, Some e), t)
   | (Inr claimed, t) \<Rightarrow> if claimed = [] then ((0, None), t)
       else (case deliver_all en claimed of (ds, f, left) \<Rightarrow>
         (case finish_delivered en ds t of (e1, t) \<Rightarrow>
         (case (case f of None \<Rightarrow> (None, t) | Some (r, cause) \<Rightarrow> recordFailure en rl r cause t) of (e2, t) \<Rightarrow>
         (case finish_rest en left t of (e3, t) \<Rightarrow>
           ((length claimed, errors_join [e1, e2, e3, map_option snd f]), t))))))"

text \<open>One turn of \<open>Run\<close>: stop when the context is done, go on at once after a full batch, or wait.\<close>

datatype turn = StopRun | AgainNow | AfterInterval

definition run_turn :: "bool \<Rightarrow> relay \<Rightarrow> nat \<times> gerr option \<Rightarrow> turn" where
  "run_turn done_after rl res = (case res of (n, err) \<Rightarrow>
     if err = None \<and> n \<ge> rl_batch rl then AgainNow
     else if done_after then StopRun else AfterInterval)"

text \<open>The backlog query: the rows not yet published or dead, and the age of the oldest.\<close>

definition backlog :: "int \<Rightarrow> outbox_table \<Rightarrow> nat \<times> int" where
  "backlog now t = (let ps = filter pending_row t in
     (length ps, if ps = [] then 0 else now - Min (o_created ` set ps)))"

subsection \<open>The in-process bus\<close>

datatype handler_result = HOk | HErr gerr | HPanic

definition ErrNoSubscriber :: gerr where "ErrNoSubscriber = Leaf ''topic has no subscriber''"

type_synonym subscribers = "(string \<times> nat list) list"

definition Subscribe :: "string \<Rightarrow> nat \<Rightarrow> subscribers \<Rightarrow> subscribers" where
  "Subscribe topic h b = AList.update topic ((case map_of b topic of None \<Rightarrow> [] | Some hs \<Rightarrow> hs) @ [h]) b"

text \<open>The handlers called, in order, and the errors; \<open>None\<close> when one panics.\<close>

fun call_handlers :: "(nat \<Rightarrow> handler_result) \<Rightarrow> nat list \<Rightarrow> nat list \<times> gerr list option" where
  "call_handlers run [] = ([], Some [])"
| "call_handlers run (h # hs) = (case run h of
     HPanic \<Rightarrow> ([h], None)
   | HOk \<Rightarrow> (case call_handlers run hs of (called, es) \<Rightarrow> (h # called, es))
   | HErr e \<Rightarrow> (case call_handlers run hs of (called, es) \<Rightarrow> (h # called, map_option (\<lambda>xs. Wrap ''handler'' e # xs) es)))"

datatype bus_result = Published | BusErr gerr | BusPanic

definition Bus_Publish :: "(nat \<Rightarrow> handler_result) \<Rightarrow> subscribers \<Rightarrow> event \<Rightarrow> nat list \<times> bus_result" where
  "Bus_Publish run b evt = (case (case map_of b (ev_topic evt) of None \<Rightarrow> [] | Some hs \<Rightarrow> hs) of
     [] \<Rightarrow> ([], BusErr (Wrap (ev_topic evt) ErrNoSubscriber))
   | handlers \<Rightarrow> (case call_handlers run handlers of
       (called, None) \<Rightarrow> (called, BusPanic)
     | (called, Some es) \<Rightarrow> (called, case errors_join (map Some es) of None \<Rightarrow> Published | Some e \<Rightarrow> BusErr e)))"

text \<open>What \<open>deliver\<close> sees of the bus: a panic is recovered as an error.\<close>

definition recovered :: "bus_result \<Rightarrow> gerr option" where
  "recovered r = (case r of Published \<Rightarrow> None | BusErr e \<Rightarrow> Some e | BusPanic \<Rightarrow> Some (Leaf ''handler panic''))"

subsection \<open>Dead letters\<close>

definition NewDeadLetters :: "string \<Rightarrow> string option" where
  "NewDeadLetters schema = (if schema_ok schema then Some schema else None)"

definition List_dead :: "gerr option \<Rightarrow> int \<Rightarrow> outbox_table \<Rightarrow> (gerr, orow list) result" where
  "List_dead db_err limit t = (case db_err of Some e \<Rightarrow> Inl (Wrap ''query dead letters'' e)
     | None \<Rightarrow> Inr (take (nat (if limit \<le> 0 then 50 else limit))
         (sort_key (\<lambda>r. - the (o_failed r)) (filter (\<lambda>r. o_failed r \<noteq> None) t))))"

definition sql_requeue :: "string list \<Rightarrow> int \<Rightarrow> outbox_table \<Rightarrow> nat \<times> outbox_table" where
  "sql_requeue ids now = update_where (\<lambda>r. o_id r \<in> set ids \<and> o_failed r \<noteq> None \<and> o_published r = None)
     (\<lambda>r. r\<lparr>o_failed := None, o_attempts := 0, o_next := now, o_claimedUntil := None, o_token := None\<rparr>)"

definition Retry :: "(string \<Rightarrow> gerr option) \<Rightarrow> gerr option \<Rightarrow> string list \<Rightarrow> int \<Rightarrow> outbox_table \<Rightarrow>
    (gerr, nat) result \<times> outbox_table" where
  "Retry uuid_parse db_err ids now t =
     (if ids = [] then (Inr 0, t)
      else (case first_error uuid_parse ids of
          Some e \<Rightarrow> (Inl (with_cause (Some e) (InvalidArgument ''event id is not a uuid'')), t)
        | None \<Rightarrow> (case db_err of Some e \<Rightarrow> (Inl (Wrap ''requeue'' e), t)
          | None \<Rightarrow> (case sql_requeue ids now t of (n, t') \<Rightarrow> (Inr n, t')))))"

subsection \<open>The inbox\<close>

definition inbox_has :: "string \<Rightarrow> string \<Rightarrow> 'a db_row logged list \<Rightarrow> bool" where
  "inbox_has consumer eid ws \<longleftrightarrow> list_ex (\<lambda>w. case fst w of InboxRow cn i tp \<Rightarrow> cn = consumer \<and> i = eid | _ \<Rightarrow> False) ws"

definition inbox_insert :: "db_target \<Rightarrow> string \<Rightarrow> string \<Rightarrow> string \<Rightarrow> 'a db_row sess \<Rightarrow> (gerr, nat) result \<times> 'a db_row sess" where
  "inbox_insert db consumer eid topic s = (if inbox_has consumer eid (db_sees db s)
     then (case db_op s of (Some e, s) \<Rightarrow> (Inl e, s) | (None, s) \<Rightarrow> (Inr 0, s))
     else (case exec_write db (InboxRow consumer eid topic) s of (Some e, s) \<Rightarrow> (Inl e, s) | (None, s) \<Rightarrow> (Inr 1, s)))"

definition inbox_fn :: "string \<Rightarrow> (ctx \<Rightarrow> event \<Rightarrow> 'a db_row sess \<Rightarrow> outcome \<times> 'a db_row sess) \<Rightarrow> event \<Rightarrow>
    ctx \<Rightarrow> 'a db_row sess \<Rightarrow> outcome \<times> 'a db_row sess" where
  "inbox_fn consumer nxt evt c s = (case pgtx_From c of
     None \<Rightarrow> (Panicking, s)
   | Some db \<Rightarrow> (case inbox_insert db consumer (ev_id evt) (ev_topic evt) s of
       (Inl e, s) \<Rightarrow> (Failed (Wrap ''write inbox'' e), s)
     | (Inr n, s) \<Rightarrow> if n = 0 then (Done, s) else nxt c evt s))"

text \<open>\<open>InboxWithTransactor\<close>: \<open>None\<close> where the constructor panics, otherwise the handler.\<close>

definition InboxWithTransactor :: "transactor option \<Rightarrow> string \<Rightarrow> string \<Rightarrow>
    (ctx \<Rightarrow> event \<Rightarrow> 'a db_row sess \<Rightarrow> outcome \<times> 'a db_row sess) \<Rightarrow>
    (ctx \<Rightarrow> event \<Rightarrow> 'a db_row sess \<Rightarrow> outcome \<times> 'a db_row sess) option" where
  "InboxWithTransactor t schema consumer nxt =
     (if consumer = [] then None
      else (case t of None \<Rightarrow> None | Some tr \<Rightarrow>
        if IsRouted t \<and> schema \<noteq> [] \<or> \<not> IsRouted t \<and> \<not> schema_ok schema then None
        else Some (\<lambda>c evt s. if ev_id evt = [] then (Failed (InvalidArgument ''event without id''), s)
          else (case Do tr (inbox_fn consumer nxt evt) c s of
              (Failed e, s) \<Rightarrow> (Failed (Wrap ''inbox event'' e), s) | (out, s) \<Rightarrow> (out, s)))))"

definition Inbox :: "string \<Rightarrow> string \<Rightarrow> (ctx \<Rightarrow> event \<Rightarrow> 'a db_row sess \<Rightarrow> outcome \<times> 'a db_row sess) \<Rightarrow>
    (ctx \<Rightarrow> event \<Rightarrow> 'a db_row sess \<Rightarrow> outcome \<times> 'a db_row sess) option" where
  "Inbox schema consumer nxt = InboxWithTransactor (Some NewPlain) schema consumer nxt"

subsection \<open>Backoff\<close>

text \<open>Property C21. The backoff after \<open>n\<close> failures is the base doubled \<open>n\<close> times, capped; no overflow of the 64-bit duration shows.\<close>

theorem backoff_exact:
  assumes "0 < base" and "base < 2 ^ 63"
  shows "backoff base n = min (base * 2 ^ n) maxBackoff"
proof -
  have "backoff_loop n d = min (d * 2 ^ n) maxBackoff" if "0 < d" "d < 2 ^ 63" for d
    using that
  proof (induction n arbitrary: d)
    case (Suc n)
    have pos: "d * 2 \<le> d * 2 ^ Suc n" using Suc.prems by simp
    show ?case
    proof (cases "d * 2 < 2 ^ 63")
      case True
      then have i: "i64 (d * 2) = d * 2" using Suc.prems by simp
      show ?thesis
      proof (cases "d * 2 \<ge> maxBackoff")
        case True
        then have "maxBackoff \<le> d * 2 ^ Suc n" using pos by linarith
        then show ?thesis using True by (simp add: i min_def)
      next
        case False
        then show ?thesis using Suc.IH [of "d * 2"] Suc.prems \<open>d * 2 < 2 ^ 63\<close> by (simp add: i mult.assoc)
      qed
    next
      case False
      have "i64 (d * 2) = d * 2 - 2 ^ 64" using False Suc.prems
        by (simp add: i64_def) (subst mod_pos_geq, simp_all)
      then have "i64 (d * 2) \<le> 0" using Suc.prems by simp
      moreover have "maxBackoff \<le> d * 2" using False by (simp add: maxBackoff_def)
      then have "maxBackoff \<le> d * 2 ^ Suc n" using pos by linarith
      ultimately show ?thesis by (simp add: min_def del: power_Suc)
    qed
  qed simp
  then show ?thesis using assms by (simp add: backoff_def)
qed

theorem backoff_exact_witness: "backoff 1000000000 3 = 8000000000 \<and> backoff 1000000000 20 = maxBackoff"
  using backoff_exact [of 1000000000 3] backoff_exact [of 1000000000 20] by (simp add: maxBackoff_def)

subsection \<open>One round of the relay\<close>

text \<open>The settled row of a round whose deliveries are \<open>ds\<close>, the failure \<open>f\<close> and the rest \<open>left\<close>.\<close>

definition failed_row :: "relay_env \<Rightarrow> relay \<Rightarrow> gerr \<Rightarrow> orow \<Rightarrow> orow" where
  "failed_row en rl cause r = (let r' = r\<lparr>o_attempts := o_attempts r + 1, o_error := Some cause, o_claimedUntil := None, o_token := None\<rparr> in
     if int (o_attempts r + 1) \<ge> rl_maxAttempts rl then r'\<lparr>o_failed := Some (re_now en 2)\<rparr>
     else r'\<lparr>o_next := re_now en 2 + milliseconds (backoff (rl_interval rl) (o_attempts r))\<rparr>)"

definition settled :: "relay_env \<Rightarrow> relay \<Rightarrow> orow list \<Rightarrow> (orow \<times> gerr) option \<Rightarrow> orow list \<Rightarrow> orow \<Rightarrow> orow" where
  "settled en rl ds f left r =
     (if r \<in> set ds then r\<lparr>o_published := Some (re_now en 1), o_claimedUntil := None, o_token := None\<rparr>
      else case f of
        None \<Rightarrow> r
      | Some (x, cause) \<Rightarrow> if r = x then failed_row en rl cause r
          else if r \<in> set left then r\<lparr>o_claimedUntil := None, o_token := None\<rparr> else r)"

definition calm :: "relay_env \<Rightarrow> bool" where
  "calm en \<longleftrightarrow> (\<forall>n. re_err en n = None) \<and> (\<forall>n t. re_others en n t = t)"

lemma deliver_all_split:
  assumes "deliver_all en rs = (ds, f, left)"
  shows "rs = ds @ (case f of None \<Rightarrow> [] | Some (x, e) \<Rightarrow> [x]) @ left \<and> (\<forall>r\<in>set ds. deliver en r = None) \<and>
    (f = None \<longrightarrow> left = []) \<and> (\<forall>x e. f = Some (x, e) \<longrightarrow> (\<exists>d. deliver en x = Some d \<and> e = Wrap ''deliver'' d))"
  using assms
proof (induction rs arbitrary: ds f left)
  case (Cons r rs)
  obtain ds1 f1 l1 where r: "deliver_all en rs = (ds1, f1, l1)" by (metis prod_cases3)
  show ?case using Cons.prems Cons.IH [OF r] r by (auto split: option.splits)
qed simp

lemma update_where_map: "update_where P f (map g t) =
    (length (filter (\<lambda>r. P (g r)) t), map (\<lambda>r. if P (g r) then f (g r) else g r) t)"
  by (simp add: update_where_def filter_map comp_def)

lemma count_in: "distinct t \<Longrightarrow> distinct xs \<Longrightarrow> set xs \<subseteq> set t \<Longrightarrow> length (filter (\<lambda>r. r \<in> set xs) t) = length xs"
  by (metis Int_absorb1 distinct_card distinct_filter set_filter Collect_mem_eq inter_set_filter inf_commute)

lemma claim_select_props:
  assumes "distinct (map o_id t)"
  shows "distinct (claim_select now n locked t) \<and> set (claim_select now n locked t) \<subseteq> set t \<and>
    (\<forall>r\<in>set (claim_select now n locked t). due_row now r)"
  using assms unfolding claim_select_def
  by (auto simp: distinct_map intro!: distinct_take dest!: in_set_takeD)

text \<open>A statement that names the rows \<open>xs\<close> by their ids changes exactly them, and counts them.\<close>

lemma update_ids:
  assumes ids: "distinct (map o_id t)" and xs: "distinct xs" "set xs \<subseteq> set t"
    and H: "\<forall>r\<in>set xs. H (g r)" and g: "\<forall>r\<in>set t. o_id (g r) = o_id r"
  shows "update_where (\<lambda>r. o_id r \<in> o_id ` set xs \<and> H r) F (map g t) =
    (length xs, map (\<lambda>r. if r \<in> set xs then F (g r) else g r) t)"
proof -
  have dt: "distinct t" using ids by (simp add: distinct_map)
  have inj: "(o_id (g r) \<in> o_id ` set xs \<and> H (g r)) \<longleftrightarrow> r \<in> set xs" if "r \<in> set t" for r
  proof -
    have "o_id r \<in> o_id ` set xs \<longleftrightarrow> r \<in> set xs"
      by (rule inj_on_image_mem_iff [OF _ that xs(2)]) (use ids in \<open>simp add: distinct_map\<close>)
    then show ?thesis using that H g by auto
  qed
  have "filter (\<lambda>r. o_id (g r) \<in> o_id ` set xs \<and> H (g r)) t = filter (\<lambda>r. r \<in> set xs) t"
    by (rule filter_cong) (simp_all add: inj)
  then show ?thesis using count_in [OF dt xs] inj unfolding update_where_map by auto
qed

text \<open>The three statements that settle a round, on a table seen through the rows claimed in it.\<close>

lemma settle_stages:
  assumes ids: "distinct (map o_id t)" and xs: "distinct xs" "set xs \<subseteq> set t" and calm: "calm en"
    and H: "\<forall>r\<in>set xs. held (re_token en) (g r)" and g: "\<forall>r\<in>set t. o_id (g r) = o_id r"
  shows finish_delivered_map: "finish_delivered en xs (map g t) = (None,
      map (\<lambda>r. if r \<in> set xs then (g r)\<lparr>o_published := Some (re_now en 1), o_claimedUntil := None, o_token := None\<rparr> else g r) t)"
    and finish_rest_map: "finish_rest en xs (map g t) = (None,
      map (\<lambda>r. if r \<in> set xs then (g r)\<lparr>o_claimedUntil := None, o_token := None\<rparr> else g r) t)"
proof -
  have env: "re_err en k = None" "re_others en k u = u" for k u using calm by (auto simp: calm_def)
  note u = update_ids [OF ids xs H g]
  show "finish_delivered en xs (map g t) = (None,
      map (\<lambda>r. if r \<in> set xs then (g r)\<lparr>o_published := Some (re_now en 1), o_claimedUntil := None, o_token := None\<rparr> else g r) t)"
    by (cases "xs = []") (simp_all add: finish_delivered_def sql_published_def env Let_def u)
  show "finish_rest en xs (map g t) = (None,
      map (\<lambda>r. if r \<in> set xs then (g r)\<lparr>o_claimedUntil := None, o_token := None\<rparr> else g r) t)"
    by (cases "xs = []") (simp_all add: finish_rest_def lease_release_def env Let_def u)
qed

lemma relayOnce_stages:
  assumes "claim_batch en rl t = (Inr claimed, t1)" and "claimed \<noteq> []" and "deliver_all en claimed = (ds, f, left)"
    and "finish_delivered en ds t1 = (None, t2)"
    and "(case f of None \<Rightarrow> (None, t2) | Some (r, cause) \<Rightarrow> recordFailure en rl r cause t2) = (None, t3)"
    and "finish_rest en left t3 = (None, t4)"
  shows "relayOnce en rl t = ((length claimed, map_option (\<lambda>x. Joined [snd x]) f), t4)"
  using assms by (cases f) (auto simp: relayOnce_def errors_join_def map_filter_simps)

text \<open>
  Property C22. A round with no fault and no interference from others: the rows claimed before the first failed
  delivery are published, the failed row counts an attempt and backs off or is dead, the rows after it only
  lose their lease, every other row is untouched, and the round answers the claimed count and the failure.
\<close>

theorem relay_round:
  assumes ids: "distinct (map o_id t)" and calm: "calm en"
    and c: "claimed = claim_select (re_now en 0) (rl_batch rl) (re_locked en) t"
    and d: "deliver_all en claimed = (ds, f, left)"
  shows "relayOnce en rl t = ((length claimed, map_option (\<lambda>x. Joined [snd x]) f), map (settled en rl ds f left) t)"
proof (cases "claimed = []")
  case True
  then have "map (settled en rl ds f left) t = t" "f = None" using d by (auto simp: settled_def intro: map_idI)
  then show ?thesis using True calm c by (simp add: relayOnce_def claim_batch_def calm_def Let_def)
next
  case False
  let ?tok = "re_token en"
  let ?mark = "\<lambda>r. r\<lparr>o_claimedUntil := Some (re_now en 0 + milliseconds (rl_lease rl)), o_token := Some ?tok\<rparr>"
  let ?m = "\<lambda>r. if r \<in> set claimed then ?mark r else r"
  let ?p = "\<lambda>r. if r \<in> set ds then (?m r)\<lparr>o_published := Some (re_now en 1), o_claimedUntil := None, o_token := None\<rparr> else ?m r"
  let ?f = "\<lambda>r. case f of None \<Rightarrow> ?p r | Some (x, cause) \<Rightarrow> if r = x then failed_row en rl cause r else ?p r"
  have env: "re_err en k = None" "re_others en k u = u" for k u using calm by (auto simp: calm_def)
  have cp: "distinct claimed" "set claimed \<subseteq> set t" "\<forall>r\<in>set claimed. pending_row r"
    using claim_select_props [OF ids] unfolding c by (auto simp: due_row_def)
  note sp = deliver_all_split [OF d]
  have sub: "set ds \<subseteq> set claimed" "set left \<subseteq> set claimed" "distinct ds" "distinct left" "set ds \<inter> set left = {}"
    using sp cp(1) by auto
  have heldm: "held ?tok (?m r)" if "r \<in> set claimed" for r
    using that cp(3) by (auto simp: held_def pending_row_def)
  have mark: "claim_mark (map o_id claimed) (milliseconds (rl_lease rl)) ?tok (re_now en 0) t = (length claimed, map ?m t)"
    using update_ids [OF ids cp(1,2), of pending_row "\<lambda>r. r"] cp(3) by (simp add: claim_mark_def)
  have pub: "finish_delivered en ds (map ?m t) = (None, map ?p t)"
    by (rule finish_delivered_map [OF ids sub(3) _ calm]) (use sub(1) cp(2) heldm in auto)
  have fl: "(case f of None \<Rightarrow> (None, map ?p t) | Some (r, cause) \<Rightarrow> recordFailure en rl r cause (map ?p t)) = (None, map ?f t)"
  proof (cases f)
    case None then show ?thesis by simp
  next
    case (Some y)
    obtain x cause where f: "f = Some (x, cause)" using Some by (cases y) auto
    have x: "x \<in> set claimed" "x \<notin> set ds" "distinct [x]" "set [x] \<subseteq> set t" "?p x = ?mark x"
      using sp f cp(1,2) by auto
    have h: "\<forall>r\<in>set [x]. held ?tok (?p r)" using heldm [OF x(1)] x by simp
    have "\<forall>r\<in>set t. o_id (?p r) = o_id r" by simp
    note u = update_ids [OF ids x(3,4) h this]
    have "o_attempts x = o_attempts (?p x)" using x by simp
    then show ?thesis using u x(1,2)
      by (auto simp: f recordFailure_def env sql_dead_def sql_retry_def failed_row_def Let_def)
  qed
  have rel: "finish_rest en left (map ?f t) = (None, map (\<lambda>r. if r \<in> set left then (?f r)\<lparr>o_claimedUntil := None, o_token := None\<rparr> else ?f r) t)"
  proof -
    have same: "?f r = ?mark r" if "r \<in> set left" for r
    proof -
      have "r \<in> set claimed" "r \<notin> set ds" using that sub by blast+
      moreover have "r \<noteq> x" if "f = Some (x, e)" for x e using \<open>r \<in> set left\<close> that sp cp(1) by auto
      ultimately show ?thesis by (cases f) auto
    qed
    have h: "\<forall>r\<in>set left. held ?tok (?f r)" using same heldm sub(2) by (auto simp: subset_iff)
    have o: "\<forall>r\<in>set t. o_id (?f r) = o_id r" by (auto simp: failed_row_def Let_def split: option.splits)
    have l: "set left \<subseteq> set t" using sub(2) cp(2) by blast
    show ?thesis by (rule finish_rest_map [OF ids sub(4) l calm h o])
  qed
  have fin: "(if r \<in> set left then (?f r)\<lparr>o_claimedUntil := None, o_token := None\<rparr> else ?f r) = settled en rl ds f left r" for r
  proof (cases f)
    case None
    then have "left = []" "claimed = ds" using sp by auto
    then show ?thesis by (simp add: None settled_def)
  next
    case (Some y)
    obtain x cause where f: "f = Some (x, cause)" using Some by (cases y) auto
    then have cl: "claimed = ds @ x # left" using sp by simp
    have "x \<notin> set ds" "x \<notin> set left" using cl cp(1) by auto
    moreover have "r \<in> set claimed \<longleftrightarrow> r \<in> set ds \<or> r = x \<or> r \<in> set left" using cl by auto
    ultimately show ?thesis using sub(5) by (auto simp: settled_def f)
  qed
  have "claim_batch en rl t = (Inr claimed, map ?m t)"
    using mark False c [symmetric] unfolding claim_batch_def env Let_def by (simp only: option.case prod.case if_False simp_thms)
  from relayOnce_stages [OF this False d pub fl rel] show ?thesis unfolding fin .
qed

definition sample_row :: "string \<Rightarrow> int \<Rightarrow> orow" where "sample_row eid at = new_row eid ''orders'' ''null'' None at"

definition sample_env :: relay_env where
  "sample_env = \<lparr>re_err = (\<lambda>n. None), re_now = (\<lambda>n. 10), re_others = (\<lambda>n t. t), re_token = ''T'', re_locked = (\<lambda>x. False),
     re_publish = (\<lambda>m e. if ev_id e = ''b'' then Some (Leaf ''down'') else None)\<rparr>"

theorem relay_round_witness:
  "map (\<lambda>r. (o_id r, o_published r, o_attempts r)) (snd (relayOnce sample_env default_relay [sample_row ''c'' 3, sample_row ''a'' 1, sample_row ''b'' 2])) =
     [(''c'', None, 0), (''a'', Some 10, 0), (''b'', None, 1)]"
proof -
  let ?t = "[sample_row ''c'' 3, sample_row ''a'' 1, sample_row ''b'' 2]"
  have c: "claim_select (re_now sample_env 0) (rl_batch default_relay) (re_locked sample_env) ?t = [sample_row ''a'' 1, sample_row ''b'' 2, sample_row ''c'' 3]"
    by code_simp
  have d: "deliver_all sample_env [sample_row ''a'' 1, sample_row ''b'' 2, sample_row ''c'' 3] =
      ([sample_row ''a'' 1], Some (sample_row ''b'' 2, Wrap ''deliver'' (Leaf ''down'')), [sample_row ''c'' 3])"
    by code_simp
  have "distinct (map o_id ?t)" "calm sample_env" by (simp_all add: sample_row_def new_row_def calm_def sample_env_def)
  from relay_round [OF this c [symmetric] d] show ?thesis
    by (simp add: settled_def failed_row_def sample_row_def new_row_def sample_env_def default_relay_def Let_def)
qed

subsection \<open>The inbox\<close>








subsection \<open>The table under every client\<close>

text \<open>
  What the clients of the table can do to it, whatever their arguments and clocks: publishers insert rows with new
  ids, a relay claims with a token never used before, any holder of a token settles its rows, an operator requeues.
  The second component is the tokens used so far.
\<close>

inductive relay_step :: "outbox_table \<times> string list \<Rightarrow> outbox_table \<times> string list \<Rightarrow> bool" where
  st_insert: "eid \<notin> o_id ` set t \<Longrightarrow> relay_step (t, u) (t @ [new_row eid topic payload m now], u)"
| st_claim: "tok \<notin> set u \<Longrightarrow> relay_step (t, u) (snd (claim_mark ids ms tok now t), tok # u)"
| st_published: "relay_step (t, u) (snd (sql_published ids tok now t), u)"
| st_retry: "relay_step (t, u) (snd (sql_retry eid delay e tok now t), u)"
| st_dead: "relay_step (t, u) (snd (sql_dead eid e tok now t), u)"
| st_release: "relay_step (t, u) (snd (lease_release ids tok t), u)"
| st_requeue: "relay_step (t, u) (snd (sql_requeue ids now t), u)"

inductive_cases relay_stepE: "relay_step w w'"

lemmas sql_defs = claim_mark_def sql_published_def sql_retry_def sql_dead_def lease_release_def sql_requeue_def

text \<open>The content of an event, which no statement changes.\<close>

definition content :: "orow \<Rightarrow> string \<times> string \<times> string \<times> meta_json \<times> int" where
  "content r = (o_id r, o_topic r, o_payload r, o_meta r, o_created r)"

definition published_row :: "orow \<Rightarrow> outbox_table \<times> string list \<Rightarrow> bool" where
  "published_row r w \<longleftrightarrow> r \<in> set (fst w) \<and> o_published r \<noteq> None"

definition has_event :: "string \<times> string \<times> string \<times> meta_json \<times> int \<Rightarrow> outbox_table \<times> string list \<Rightarrow> bool" where
  "has_event x w \<longleftrightarrow> x \<in> content ` set (fst w)"

definition holds_row :: "string \<Rightarrow> string \<Rightarrow> outbox_table \<times> string list \<Rightarrow> bool" where
  "holds_row eid tok w \<longleftrightarrow> (\<exists>r\<in>set (fst w). o_id r = eid \<and> held tok r)"

lemma update_where_keeps: "r \<in> set t \<Longrightarrow> \<not> P r \<Longrightarrow> r \<in> set (snd (update_where P f t))"
  by (force simp: update_where_def)

lemma update_where_image: "(\<And>r. g (f r) = g r) \<Longrightarrow> g ` set (snd (update_where P f t)) = g ` set t"
proof -
  assume g: "\<And>r. g (f r) = g r"
  have "map g (snd (update_where P f t)) = map g t" by (simp add: update_where_def g)
  then show ?thesis by (metis set_map)
qed

lemma content_updates [simp]:
  "content (r\<lparr>o_attempts := a\<rparr>) = content r" "content (r\<lparr>o_next := n\<rparr>) = content r"
  "content (r\<lparr>o_claimedUntil := c\<rparr>) = content r" "content (r\<lparr>o_token := k\<rparr>) = content r"
  "content (r\<lparr>o_failed := b\<rparr>) = content r" "content (r\<lparr>o_error := e\<rparr>) = content r"
  "content (r\<lparr>o_published := p\<rparr>) = content r"
  by (simp_all add: content_def)

lemma update_where_member: "r' \<in> set (snd (update_where P f t)) \<Longrightarrow> \<exists>r\<in>set t. r' = (if P r then f r else r)"
  by (auto simp: update_where_def)

lemma published_step: "relay_step w w' \<Longrightarrow> published_row r w \<Longrightarrow> published_row r w'"
  by (induction rule: relay_step.induct)
    (auto simp: published_row_def sql_defs held_def pending_row_def intro!: update_where_keeps)

lemma event_step: "relay_step w w' \<Longrightarrow> has_event x w \<Longrightarrow> has_event x w'"
  by (induction rule: relay_step.induct)
    (simp_all add: has_event_def sql_defs update_where_image [of content])

lemma token_step: "relay_step w w' \<Longrightarrow> tok \<in> set (snd w) \<Longrightarrow> tok \<in> set (snd w')"
  by (induction rule: relay_step.induct) auto

lemma holds_step: "relay_step w w' \<Longrightarrow> tok \<in> set (snd w) \<Longrightarrow> holds_row eid tok w' \<Longrightarrow> holds_row eid tok w"
  by (induction rule: relay_step.induct)
    (auto simp: holds_row_def sql_defs held_def pending_row_def new_row_def dest!: update_where_member split: if_splits)

interpretation published: stable_fact relay_step published_row
  by unfold_locales (rule published_step)

interpretation events: stable_fact relay_step has_event
  by unfold_locales (rule event_step)

interpretation claims: lease relay_step holds_row "\<lambda>tok w. tok \<in> set (snd w)"
  by unfold_locales (auto intro: token_step holds_step)

text \<open>
  Property C23. A relay whose claim on an event was taken over, released or settled can never change that event again:
  each of its statements with the old token affects no row of it and leaves the table as it is, whatever all clients
  did in between.
\<close>

theorem relay_fencing:
  assumes "relay_step\<^sup>*\<^sup>* w w'" and "tok \<in> set (snd w)" and "\<not> holds_row eid tok w"
  shows "sql_published [eid] tok now (fst w') = (0, fst w') \<and> sql_retry eid delay e tok now (fst w') = (0, fst w') \<and>
    sql_dead eid e tok now (fst w') = (0, fst w') \<and> lease_release [eid] tok (fst w') = (0, fst w')"
proof -
  have "\<not> holds_row eid tok w'" using claims.never_regained [OF assms] by simp
  then have no: "\<not> (o_id r = eid \<and> held tok r)" if "r \<in> set (fst w')" for r using that by (auto simp: holds_row_def)
  have "update_where (\<lambda>r. o_id r = eid \<and> held tok r) f (fst w') = (0, fst w')" for f
    using no by (auto simp: update_where_def filter_empty_conv intro!: map_idI)
  then show ?thesis by (simp add: sql_defs)
qed

definition relay_witness_table :: outbox_table where
  "relay_witness_table = [(sample_row ''a'' 1)\<lparr>o_token := Some ''T2'', o_claimedUntil := Some 50\<rparr>]"

theorem relay_fencing_witness:
  "sql_published [''a''] ''T1'' 60 relay_witness_table = (0, relay_witness_table)"
proof -
  have "\<not> holds_row ''a'' ''T1'' (relay_witness_table, [''T2'', ''T1''])"
    by (simp add: holds_row_def relay_witness_table_def held_def)
  moreover have "''T1'' \<in> set (snd (relay_witness_table, [''T2'', ''T1'']))" by simp
  ultimately show ?thesis using relay_fencing [OF rtranclp.rtrancl_refl, of "''T1''" "(relay_witness_table, [''T2'', ''T1''])" "''a''"] by simp
qed

text \<open>
  A round of the relay is made of these steps, so what they keep it keeps, with other clients at work between its
  statements. \<open>tame\<close>: the others change the table only by such steps and do not guess the token of the round.
\<close>

definition tame :: "relay_env \<Rightarrow> bool" where
  "tame en \<longleftrightarrow> (\<forall>n t u. \<exists>u'. relay_step\<^sup>*\<^sup>* (t, u) (re_others en n t, u') \<and> (re_token en \<notin> set u \<longrightarrow> re_token en \<notin> set u'))"

lemma tame_others:
  assumes "tame en"
  obtains u' where "relay_step\<^sup>*\<^sup>* (t, u) (re_others en n t, u')" "re_token en \<notin> set u \<longrightarrow> re_token en \<notin> set u'"
  using assms unfolding tame_def by blast

lemma steps_then: "relay_step\<^sup>*\<^sup>* (t, u) (t1, u1) \<Longrightarrow> relay_step (t1, u1) (t2, u2) \<Longrightarrow> \<exists>u'. relay_step\<^sup>*\<^sup>* (t, u) (t2, u')"
  by (meson rtranclp.rtrancl_into_rtrancl)

lemma sql_steps:
  "sql_published ids tok now t = (n, t') \<Longrightarrow> relay_step (t, u) (t', u)"
  "sql_retry eid delay e tok now t = (n, t') \<Longrightarrow> relay_step (t, u) (t', u)"
  "sql_dead eid e tok now t = (n, t') \<Longrightarrow> relay_step (t, u) (t', u)"
  using st_published st_retry st_dead by (metis snd_conv)+

lemma claim_steps:
  assumes "tame en" and "re_token en \<notin> set u" and "claim_batch en rl t = (res, t')"
  shows "\<exists>u'. relay_step\<^sup>*\<^sup>* (t, u) (t', u')"
proof -
  obtain u1 where o: "relay_step\<^sup>*\<^sup>* (t, u) (re_others en 0 t, u1)" "re_token en \<notin> set u1"
    using tame_others [OF assms(1)] assms(2) by metis
  have "t' = re_others en 0 t \<or> (\<exists>ids ms now. t' = snd (claim_mark ids ms (re_token en) now (re_others en 0 t)))"
    using assms(3) by (auto simp: claim_batch_def Let_def split: option.splits if_splits prod.splits) (metis snd_conv)
  then show ?thesis using o steps_then [OF o(1) st_claim [OF o(2)]] by blast
qed

lemma finish_steps:
  assumes "tame en"
  shows "finish_delivered en ds t = (e, t') \<Longrightarrow> \<exists>u'. relay_step\<^sup>*\<^sup>* (t, u) (t', u')"
    and "recordFailure en rl r cause t = (e, t') \<Longrightarrow> \<exists>u'. relay_step\<^sup>*\<^sup>* (t, u) (t', u')"
    and "finish_rest en left t = (e, t') \<Longrightarrow> \<exists>u'. relay_step\<^sup>*\<^sup>* (t, u) (t', u')"
proof -
  have fin: "\<exists>u'. relay_step\<^sup>*\<^sup>* (t, u) (t', u')"
    if "t' = t \<or> t' = re_others en n t \<or> (\<forall>u. relay_step (re_others en n t, u) (t', u))" for n
    using that tame_others [OF assms, of t u n] steps_then [of t u "re_others en n t"] by (metis rtranclp.rtrancl_refl)
  show "finish_delivered en ds t = (e, t') \<Longrightarrow> \<exists>u'. relay_step\<^sup>*\<^sup>* (t, u) (t', u')"
    by (rule fin [of 1]) (auto simp: finish_delivered_def Let_def intro: sql_steps split: option.splits if_splits prod.splits)
  show "recordFailure en rl r cause t = (e, t') \<Longrightarrow> \<exists>u'. relay_step\<^sup>*\<^sup>* (t, u) (t', u')"
    by (rule fin [of 2]) (auto simp: recordFailure_def Let_def intro: sql_steps split: option.splits if_splits prod.splits)
  show "finish_rest en left t = (e, t') \<Longrightarrow> \<exists>u'. relay_step\<^sup>*\<^sup>* (t, u) (t', u')"
    by (rule fin [of 3]) (auto simp: finish_rest_def Let_def st_release split: option.splits if_splits prod.splits)
qed

lemma relayOnce_steps:
  assumes "tame en" and "re_token en \<notin> set u" and "relayOnce en rl t = (res, t')"
  shows "\<exists>u'. relay_step\<^sup>*\<^sup>* (t, u) (t', u')"
proof -
  obtain r1 t1 where 1: "claim_batch en rl t = (r1, t1)" by force
  from claim_steps [OF assms(1,2) 1] obtain u1 where u1: "relay_step\<^sup>*\<^sup>* (t, u) (t1, u1)" by blast
  show ?thesis
  proof (cases r1)
    case (Inl e)
    then show ?thesis using assms(3) 1 u1 by (auto simp: relayOnce_def)
  next
    case (Inr claimed)
    obtain ds f left where d: "deliver_all en claimed = (ds, f, left)" by (metis prod_cases3)
    obtain e2 t2 where 2: "finish_delivered en ds t1 = (e2, t2)" by force
    obtain e3 t3 where 3: "(case f of None \<Rightarrow> (None, t2) | Some (r, cause) \<Rightarrow> recordFailure en rl r cause t2) = (e3, t3)" by force
    obtain e4 t4 where 4: "finish_rest en left t3 = (e4, t4)" by force
    from finish_steps(1) [OF assms(1) 2] obtain u2 where u2: "relay_step\<^sup>*\<^sup>* (t1, u1) (t2, u2)" by blast
    obtain u3 where u3: "relay_step\<^sup>*\<^sup>* (t2, u2) (t3, u3)"
      using 3 finish_steps(2) [OF assms(1), of rl _ _ t2 e3 t3 u2] by (cases f) auto
    from finish_steps(3) [OF assms(1) 4] obtain u4 where u4: "relay_step\<^sup>*\<^sup>* (t3, u3) (t4, u4)" by blast
    have "t' = t1 \<or> t' = t4" using assms(3) 1 Inr d 2 3 4 by (auto simp: relayOnce_def split: if_splits)
    then show ?thesis using u1 u2 u3 u4 by (meson rtranclp_trans)
  qed
qed

text \<open>
  Property C24. No event is lost and none is un-published. Across a round of a relay, with any faults of the database
  and any other publishers, relays and operators at work between its statements, every row of the outbox keeps its
  id, topic, payload, meta and time, and a published row is not touched at all, so it is never claimed again.
\<close>

theorem no_event_lost:
  assumes "tame en" and "re_token en \<notin> set u" and "relayOnce en rl t = (res, t')"
  shows "content ` set t \<subseteq> content ` set t' \<and>
    set (filter (\<lambda>r. o_published r \<noteq> None) t) \<subseteq> set (filter (\<lambda>r. o_published r \<noteq> None \<and> \<not> due_row now r) t')"
proof -
  from relayOnce_steps [OF assms] obtain u' where s: "relay_step\<^sup>*\<^sup>* (t, u) (t', u')" by blast
  show ?thesis
  proof (intro conjI subsetI)
    fix x assume "x \<in> content ` set t"
    then show "x \<in> content ` set t'" using events.stable_steps [OF s, of x] by (simp add: has_event_def)
  next
    fix r assume "r \<in> set (filter (\<lambda>r. o_published r \<noteq> None) t)"
    then show "r \<in> set (filter (\<lambda>r. o_published r \<noteq> None \<and> \<not> due_row now r) t')"
      using published.stable_steps [OF s, of r] by (simp add: published_row_def due_row_def pending_row_def)
  qed
qed

lemma calm_tame: "(\<And>n t. re_others en n t = t) \<Longrightarrow> tame en"
  by (auto simp: tame_def)

theorem no_event_lost_witness:
  "content ` set [sample_row ''b'' 2] \<subseteq> content ` set (snd (relayOnce sample_env default_relay [sample_row ''b'' 2]))"
proof -
  have "tame sample_env" by (rule calm_tame) (simp add: sample_env_def)
  moreover obtain res t' where "relayOnce sample_env default_relay [sample_row ''b'' 2] = (res, t')" by (metis surj_pair)
  ultimately show ?thesis using no_event_lost [of sample_env "[]" default_relay "[sample_row ''b'' 2]" res t'] by simp
qed

subsection \<open>The bus\<close>

lemma call_handlers_spec:
  assumes "call_handlers run hs = (called, es)"
  shows "(HPanic \<notin> run ` set hs \<longrightarrow> called = hs) \<and> (es = None \<longleftrightarrow> HPanic \<in> run ` set hs) \<and>
    (es = Some [] \<longleftrightarrow> run ` set hs \<subseteq> {HOk}) \<and> (\<exists>later. hs = called @ later)"
  using assms
proof (induction hs arbitrary: called es)
  case (Cons h hs)
  obtain c1 e1 where r: "call_handlers run hs = (c1, e1)" by force
  note IH = Cons.IH [OF r]
  show ?case using Cons.prems r IH by (cases "run h") auto
qed simp

text \<open>
  The bus confirms an event exactly when its topic has a subscriber and every subscriber handled it; an
  error of one subscriber does not keep the others from being called, in the order of subscription; an event with no
  subscriber is refused with the sentinel, so the relay never marks it published; and a panic is seen by the relay as
  a failed delivery.
\<close>

theorem bus_confirms_all:
  "(let hs = (case map_of b (ev_topic evt) of None \<Rightarrow> [] | Some hs \<Rightarrow> hs); (called, r) = Bus_Publish run b evt in
     (recovered r = None \<longleftrightarrow> hs \<noteq> [] \<and> run ` set hs \<subseteq> {HOk}) \<and>
     (hs = [] \<longleftrightarrow> r = BusErr (Wrap (ev_topic evt) ErrNoSubscriber) \<and> called = []) \<and>
     (r = BusPanic \<longleftrightarrow> HPanic \<in> run ` set hs) \<and> (r = BusPanic \<or> called = hs) \<and> (\<exists>later. hs = called @ later))"
proof -
  let ?hs = "case map_of b (ev_topic evt) of None \<Rightarrow> [] | Some hs \<Rightarrow> hs"
  obtain called es where c: "call_handlers run ?hs = (called, es)" by force
  note spec = call_handlers_spec [OF c]
  show ?thesis
  proof (cases ?hs)
    case Nil
    then show ?thesis unfolding Let_def Bus_Publish_def by (simp add: recovered_def)
  next
    case (Cons h hs)
    have join: "errors_join (map Some xs) = (if xs = [] then None else Some (Joined xs))" for xs
    proof -
      have "List.map_filter id (map Some xs) = xs" by (induction xs) (simp_all add: map_filter_simps)
      then show ?thesis by (cases xs) (simp_all add: errors_join_def)
    qed
    have pub: "Bus_Publish run b evt = (case es of None \<Rightarrow> (called, BusPanic)
        | Some es \<Rightarrow> (called, if es = [] then Published else BusErr (Joined es)))"
      using c Cons by (simp add: Bus_Publish_def join split: option.splits)
    have ne: "called = [] \<Longrightarrow> es = None" using spec Cons by auto
    show ?thesis using spec ne Cons unfolding Let_def pub
      by (cases es) (auto simp: recovered_def)
  qed
qed

subsection \<open>Dead letters\<close>

lemma dead_letter_retry:
  assumes "Retry uuid_parse None ids now t = (Inr n, t')"
  shows "n = length (filter (\<lambda>r. o_id r \<in> set ids \<and> o_failed r \<noteq> None \<and> o_published r = None) t) \<and>
    list_all2 (\<lambda>r r'. if o_id r \<in> set ids \<and> o_failed r \<noteq> None \<and> o_published r = None
       then due_row now r' \<and> o_attempts r' = 0 \<and> content r' = content r else r' = r) t t'"
  using assms
  by (auto simp: Retry_def sql_requeue_def update_where_def list_all2_map2 due_row_def pending_row_def
      intro!: list_all2_refl split: if_splits option.splits)

end
