(* ===== verification/Tenant_Rls.thy ===== *)
theory Tenant_Rls
  imports Pgtx
begin

text \<open>
  Row-level security of tenant tables (pgtx/tenant.go): what the generated functions and policies decide under the
  transaction-local settings, and the start-up check \<open>VerifyTenantRLS\<close> over the catalogue of a database.
\<close>

subsection \<open>The generated functions and policies\<close>

text \<open>\<open>appkit_read_all_tenants()\<close> and \<open>appkit_current_tenant()\<close>; \<open>None\<close>: the function raises.\<close>

definition appkit_read_all_tenants :: "settings \<Rightarrow> bool" where
  "appkit_read_all_tenants x = all_guc x"

definition appkit_current_tenant :: "settings \<Rightarrow> string option option" where
  "appkit_current_tenant x = (let v = (case tenant_guc x of None \<Rightarrow> None | Some t \<Rightarrow> if t = [] then None else Some t) in
     if v = None then (if all_guc x then Some None else None) else Some v)"

text \<open>
  Is a row of tenant \<open>tid\<close> seen by a \<open>SELECT\<close>, and accepted from an \<open>INSERT\<close> or \<open>UPDATE\<close>? Policies of a command
  are joined by \<open>OR\<close>; a comparison with NULL is not true.
\<close>

definition policy_select :: "settings \<Rightarrow> string \<Rightarrow> bool option" where
  "policy_select x tid = map_option (\<lambda>v. v = Some tid \<or> appkit_read_all_tenants x) (appkit_current_tenant x)"

definition policy_check :: "settings \<Rightarrow> string \<Rightarrow> bool option" where
  "policy_check x tid = map_option (\<lambda>v. v = Some tid) (appkit_current_tenant x)"

subsection \<open>The start-up check\<close>

record table_rls =
  rt_name :: string
  rt_enabled :: bool
  rt_forced :: bool
  rt_isolation :: bool
  rt_readAll :: bool

text \<open>What the catalogue queries answer: the tables of the schema with a \<open>tenant_id\<close> column, then the role.\<close>

record catalogue =
  cg_query_err :: "gerr option"
  cg_tables :: "table_rls list"
  cg_rows_err :: "gerr option"
  cg_bypass :: "(gerr, bool) result"

datatype rls_problem = NotEnabled string | NotForced string | NoIsolation string | NoReadAll string | RoleBypasses

datatype rls_result = RlsOk | RlsError gerr | RlsIncomplete "rls_problem list"

definition table_problem :: "table_rls \<Rightarrow> rls_problem option" where
  "table_problem t =
     (if \<not> rt_enabled t then Some (NotEnabled (rt_name t))
      else if \<not> rt_forced t then Some (NotForced (rt_name t))
      else if \<not> rt_isolation t then Some (NoIsolation (rt_name t))
      else if \<not> rt_readAll t then Some (NoReadAll (rt_name t))
      else None)"

definition VerifyTenantRLS :: "catalogue \<Rightarrow> string \<Rightarrow> rls_result" where
  "VerifyTenantRLS db schema =
     (if \<not> schema_ok schema then RlsError (Leaf ''invalid schema name'')
      else (case cg_query_err db of
        Some e \<Rightarrow> RlsError (Wrap ''query RLS state'' e)
      | None \<Rightarrow> (case cg_rows_err db of
          Some e \<Rightarrow> RlsError (Wrap ''read RLS state'' e)
        | None \<Rightarrow> if cg_tables db = [] then RlsOk
            else (case cg_bypass db of
                Inl e \<Rightarrow> RlsError (Wrap ''query role'' e)
              | Inr bypass \<Rightarrow> (let problems = List.map_filter table_problem (cg_tables db) @ (if bypass then [RoleBypasses] else [])
                  in if problems \<noteq> [] then RlsIncomplete problems else RlsOk)))))"

subsection \<open>Properties\<close>

lemma table_problem_None: "table_problem t = None \<longleftrightarrow> rt_enabled t \<and> rt_forced t \<and> rt_isolation t \<and> rt_readAll t"
  by (simp add: table_problem_def)

lemma map_filter_Nil: "List.map_filter g xs = [] \<longleftrightarrow> (\<forall>x\<in>set xs. g x = None)"
  by (induction xs) (auto simp: map_filter_simps split: option.splits)

text \<open>
  The start-up check of a tenant schema passes exactly when the schema name is valid, the catalogue can
  be read and either there is no tenant table or every tenant table has enabled, forced security with both policies
  and the role does not bypass it.
\<close>

theorem verify_rls_complete:
  "VerifyTenantRLS db schema = RlsOk \<longleftrightarrow> schema_ok schema \<and> cg_query_err db = None \<and> cg_rows_err db = None \<and>
     (cg_tables db = [] \<or> cg_bypass db = Inr False \<and>
        list_all (\<lambda>t. rt_enabled t \<and> rt_forced t \<and> rt_isolation t \<and> rt_readAll t) (cg_tables db))"
proof -
  have "List.map_filter table_problem (cg_tables db) = [] \<longleftrightarrow>
      list_all (\<lambda>t. rt_enabled t \<and> rt_forced t \<and> rt_isolation t \<and> rt_readAll t) (cg_tables db)"
    by (simp add: map_filter_Nil table_problem_None list_all_iff)
  then show ?thesis
    by (auto simp: VerifyTenantRLS_def Let_def split: option.split sum.split)
qed

lemma policies_of_scope:
  assumes "deriveScope t c = Inr sc" and "tr_tenant t" and "x = settings_of sc"
  shows "appkit_read_all_tenants x = ReadsAllTenants c"
    and "appkit_current_tenant x = (if TenantID (ctx_from c) \<noteq> [] then Some (Some (TenantID (ctx_from c)))
           else if ReadsAllTenants c then Some None else None)"
  using assms by (auto simp: deriveScope_def settings_of_def appkit_read_all_tenants_def appkit_current_tenant_def Let_def
      split: option.splits sum.splits if_splits)

text \<open>What the policies decide under settings \<open>x\<close>, for every row, of a call with context \<open>c\<close>.\<close>

definition isolated :: "ctx \<Rightarrow> settings \<Rightarrow> bool" where
  "isolated c x \<longleftrightarrow> (\<forall>tid.
     (policy_check x tid = Some True \<longleftrightarrow> tid = TenantID (ctx_from c) \<and> tid \<noteq> []) \<and>
     (policy_select x tid = Some True \<longleftrightarrow> tid = TenantID (ctx_from c) \<and> tid \<noteq> [] \<or> ReadsAllTenants c) \<and>
     (policy_select x tid = None \<longleftrightarrow> TenantID (ctx_from c) = [] \<and> \<not> ReadsAllTenants c))"

lemma scope_isolated:
  assumes "deriveScope t c = Inr sc" and "tr_tenant t"
  shows "isolated c (settings_of sc)"
proof -
  note pol = policies_of_scope [OF assms refl]
  consider "TenantID (ctx_from c) \<noteq> []" | "TenantID (ctx_from c) = []" "ReadsAllTenants c"
    | "TenantID (ctx_from c) = []" "\<not> ReadsAllTenants c" by blast
  then show ?thesis
    by cases (auto simp: isolated_def policy_check_def policy_select_def pol)
qed

text \<open>
  Property C26. Tenant isolation end to end. Every statement a tenant transaction has committed ran under settings for
  which the row policies accept only rows of the tenant of the call's context, whatever the transaction's function did
  and however it nested; without the read-all mode they also show only those rows, and without any tenant they raise
  instead of showing nothing; the read-all mode widens reads and never writes.
\<close>

theorem tenant_isolation:
  assumes "stays_inside p" and "sane s" and "v_tx c = None" and "tr_tenant t" and "Do t (run_prog p) c s = (Done, s')"
  shows "\<exists>ws. committed s' = committed s @ ws \<and> list_all (\<lambda>w. isolated c (snd w)) ws"
proof -
  from do_atomic_root [OF assms(1-3,5)] obtain sc ws where d: "deriveScope t c = Inr sc" and ws: "committed s' = committed s @ ws"
    and st: "list_all (\<lambda>w. snd w = settings_of sc) ws" by blast
  have "list_all (\<lambda>w. isolated c (snd w)) ws"
    using st by (rule list.pred_mono_strong) (simp add: scope_isolated [OF d assms(4)])
  then show ?thesis using ws by blast
qed

theorem tenant_isolation_witness:
  "list_all (\<lambda>w. policy_check (snd w) ''t1'' = Some True) (committed (snd (Do NewTenant (run_prog sample_prog) tenant_ctx calm_session)))"
proof -
  obtain out s' where d: "Do NewTenant (run_prog sample_prog) tenant_ctx calm_session = (out, s')" by force
  have "fst (Do NewTenant (run_prog sample_prog) tenant_ctx calm_session) = Done" by code_simp
  then have d': "Do NewTenant (run_prog sample_prog) tenant_ctx calm_session = (Done, s')" using d by simp
  have "stays_inside sample_prog" "sane calm_session" "v_tx tenant_ctx = None" "tr_tenant NewTenant"
    by (simp_all add: sample_prog_def sane_def calm_session_def tenant_ctx_def ctx_with_def background_def NewTenant_def)
  from tenant_isolation [OF this d'] obtain ws where ws: "committed s' = committed calm_session @ ws"
    "list_all (\<lambda>w. isolated tenant_ctx (snd w)) ws" by blast
  have t: "TenantID (ctx_from tenant_ctx) = ''t1''" by code_simp
  have "list_all (\<lambda>w. policy_check (snd w) ''t1'' = Some True) ws"
    using ws(2) by (rule list.pred_mono_strong) (simp add: isolated_def t)
  moreover have "committed calm_session = []" by (simp add: calm_session_def)
  ultimately show ?thesis using ws(1) unfolding d by simp
qed

end
