(* ===== verification/Json_String.thy ===== *)
theory Json_String
  imports Prelude
begin

text \<open>
  Strings of encoding/json: how the library writes a Go string (with its HTML-safe escapes) and reads the inside of a
  literal back. UTF-8 is the prelude's. Used by the packages that parse JSON by hand (refs).
\<close>

subsection \<open>Code points as bytes\<close>

definition byte :: "nat \<Rightarrow> char" where "byte n = char_of n"

text \<open>\<open>utf8.AppendRune\<close>: surrogates and values out of range are U+FFFD.\<close>

definition utf8_encode :: "nat \<Rightarrow> string" where
  "utf8_encode r =
     (if r < 128 then [byte r]
      else if r < 2048 then [byte (192 + r div 64), byte (128 + r mod 64)]
      else if (55296 \<le> r \<and> r \<le> 57343) \<or> 1114112 \<le> r then [byte 239, byte 191, byte 189]
      else if r < 65536 then [byte (224 + r div 4096), byte (128 + r div 64 mod 64), byte (128 + r mod 64)]
      else [byte (240 + r div 262144), byte (128 + r div 4096 mod 64), byte (128 + r div 64 mod 64), byte (128 + r mod 64)])"

subsection \<open>Writing\<close>

definition hex_digit :: "nat \<Rightarrow> char" where
  "hex_digit n = (if n < 10 then byte (48 + n) else byte (87 + n))"

definition u_escape :: "nat \<Rightarrow> string" where
  "u_escape r = [CHR 0x5C, CHR ''u'', hex_digit (r div 4096 mod 16), hex_digit (r div 256 mod 16), hex_digit (r div 16 mod 16), hex_digit (r mod 16)]"

definition quote_ascii :: "nat \<Rightarrow> string" where
  "quote_ascii r =
     (if r = 34 \<or> r = 92 then [CHR 0x5C, byte r]
      else if r = 8 then [CHR 0x5C, CHR ''b''] else if r = 12 then [CHR 0x5C, CHR ''f'']
      else if r = 10 then [CHR 0x5C, CHR ''n''] else if r = 13 then [CHR 0x5C, CHR ''r'']
      else if r = 9 then [CHR 0x5C, CHR ''t'']
      else if r < 32 \<or> r = 60 \<or> r = 62 \<or> r = 38 then u_escape r
      else [byte r])"

fun quote_rune :: "nat option \<times> string \<Rightarrow> string" where
  "quote_rune (None, bs) = u_escape 65533"
| "quote_rune (Some r, bs) =
     (if r < 128 then quote_ascii r else if r = 8232 \<or> r = 8233 then u_escape r else bs)"

definition json_quote :: "string \<Rightarrow> string" where
  "json_quote s = CHR 0x22 # concat (map quote_rune (runes s)) @ [CHR 0x22]"

subsection \<open>Reading\<close>

definition hex_value :: "char \<Rightarrow> nat option" where
  "hex_value c = (let n = byte_of c in
     if 48 \<le> n \<and> n \<le> 57 then Some (n - 48)
     else if 97 \<le> n \<and> n \<le> 102 then Some (n - 87)
     else if 65 \<le> n \<and> n \<le> 70 then Some (n - 55)
     else None)"

text \<open>Four hexadecimal digits and what follows them.\<close>

fun hex_unit :: "string \<Rightarrow> (nat \<times> string) option" where
  "hex_unit (a # b # c # d # s) = (case (hex_value a, hex_value b, hex_value c, hex_value d) of
     (Some w, Some x, Some y, Some z) \<Rightarrow> Some (((w * 16 + x) * 16 + y) * 16 + z, s)
   | _ \<Rightarrow> None)"
| "hex_unit _ = None"

lemma hex_unit_length: "hex_unit s = Some (n, t) \<Longrightarrow> length s = length t + 4"
  by (induction s rule: hex_unit.induct) (auto split: option.splits prod.splits)

definition simple_escape :: "char \<Rightarrow> char option" where
  "simple_escape e = (if e = CHR 0x22 \<or> e = CHR 0x5C \<or> e = CHR ''/'' then Some e
     else if e = CHR ''b'' then Some (byte 8) else if e = CHR ''f'' then Some (byte 12)
     else if e = CHR ''n'' then Some (byte 10) else if e = CHR ''r'' then Some (byte 13)
     else if e = CHR ''t'' then Some (byte 9) else None)"

definition is_high :: "nat \<Rightarrow> bool" where "is_high u \<longleftrightarrow> 55296 \<le> u \<and> u \<le> 56319"
definition is_low :: "nat \<Rightarrow> bool" where "is_low u \<longleftrightarrow> 56320 \<le> u \<and> u \<le> 57343"

text \<open>A second \<open>\u\<close> escape that completes a pair: the code point and what follows.\<close>

definition low_escape :: "nat \<Rightarrow> string \<Rightarrow> (nat \<times> string) option" where
  "low_escape u s = (if take 2 s = [CHR 0x5C, CHR ''u''] then (case hex_unit (drop 2 s) of
       Some (v, t) \<Rightarrow> if is_high u \<and> is_low v then Some (65536 + (u - 55296) * 1024 + (v - 56320), t) else None
     | None \<Rightarrow> None) else None)"

lemma low_escape_length: "low_escape u s = Some (r, t) \<Longrightarrow> length t < length s"
  by (auto simp: low_escape_def dest!: hex_unit_length split: option.splits if_splits)

lemma low_escape_not_high: "\<not> is_high u \<Longrightarrow> low_escape u s = None"
  by (simp add: low_escape_def split: option.split)

text \<open>The inside of a literal, unescaped; a lone surrogate and an invalid byte become U+FFFD.\<close>

function (sequential) json_unquote :: "string \<Rightarrow> string option" where
  "json_unquote [] = Some []"
| "json_unquote (c # s) =
     (if c = CHR 0x5C then (case s of
          [] \<Rightarrow> None
        | e # s' \<Rightarrow> (case simple_escape e of
            Some x \<Rightarrow> map_option (Cons x) (json_unquote s')
          | None \<Rightarrow> if e \<noteq> CHR ''u'' then None
              else (case hex_unit s' of
                  None \<Rightarrow> None
                | Some (u, t) \<Rightarrow> (case low_escape u t of
                    Some (r, t') \<Rightarrow> map_option (append (utf8_encode r)) (json_unquote t')
                  | None \<Rightarrow> map_option (append (utf8_encode u)) (json_unquote t)))))
      else if c = CHR 0x22 \<or> byte_of c < 32 then None
      else (case decode_rune (c # s) of
          (Some r, w) \<Rightarrow> map_option (append (take w (c # s))) (json_unquote (drop w (c # s)))
        | (None, w) \<Rightarrow> map_option (append (utf8_encode 65533)) (json_unquote (drop w (c # s)))))"
  by pat_completeness auto
termination
  by (relation "measure length") (auto dest!: hex_unit_length low_escape_length simp: Let_def split: if_splits)

declare json_unquote.simps(2) [simp del]

subsection \<open>The round trip\<close>

lemma byte_of_byte [simp]: "n < 256 \<Longrightarrow> byte_of (byte n) = n"
  by (simp add: byte_of_def byte_def)

lemma byte_byte_of [simp]: "byte (byte_of c) = c"
  by (simp add: byte_of_def byte_def)

lemma byte_of_less [simp]: "byte_of c < 256"
  by (simp add: byte_of_def)

lemma byte_of_eq_iff: "byte_of c = byte_of d \<longleftrightarrow> c = d"
  by (metis byte_byte_of)

lemma byte_eq_iff: "n < 256 \<Longrightarrow> byte n = c \<longleftrightarrow> n = byte_of c"
  by (metis byte_byte_of byte_of_byte)

lemma hex_digit_value: "n < 16 \<Longrightarrow> hex_value (hex_digit n) = Some n"
  by (auto simp: hex_value_def hex_digit_def Let_def)

lemma hex_unit_escape: "r < 65536 \<Longrightarrow> hex_unit (drop 2 (u_escape r) @ s) = Some (r, s)"
proof -
  assume "r < 65536"
  then have "((r div 4096 mod 16 * 16 + r div 256 mod 16) * 16 + r div 16 mod 16) * 16 + r mod 16 = r"
  proof -
    have d: "r div 256 = r div 16 div 16" "r div 4096 = r div 16 div 16 div 16" by (simp_all add: div_mult2_eq [symmetric])
    have "r div 16 div 16 div 16 mod 16 = r div 16 div 16 div 16" using \<open>r < 65536\<close> by simp
    then show ?thesis unfolding d by (simp only: div_mult_mod_eq)
  qed
  with \<open>r < 65536\<close> show ?thesis by (simp add: u_escape_def hex_digit_value)
qed

text \<open>Decoding looks at no byte after the rune it decodes.\<close>

lemma rune_ranges:
  "rune2 a b = Some r \<Longrightarrow> 128 \<le> r \<and> 128 \<le> a \<and> 128 \<le> b"
  "rune3 a b c = Some r \<Longrightarrow> 128 \<le> r \<and> 128 \<le> a \<and> 128 \<le> b \<and> 128 \<le> c"
  "rune4 a b c d = Some r \<Longrightarrow> 128 \<le> r \<and> 128 \<le> a \<and> 128 \<le> b \<and> 128 \<le> c \<and> 128 \<le> d"
  by (auto simp: rune2_def rune3_def rune4_def is_cont_def split: if_splits)

lemma decode_rune_cases:
  assumes "decode_rune (a # s) = (Some r, w)"
  obtains (one) "byte_of a < 128" "r = byte_of a" "w = 1"
    | (two) b s' where "\<not> byte_of a < 128" "s = b # s'" "w = 2" "rune2 (byte_of a) (byte_of b) = Some r"
    | (three) b c s' where "\<not> byte_of a < 128" "s = b # c # s'" "w = 3" "rune2 (byte_of a) (byte_of b) = None"
        "rune3 (byte_of a) (byte_of b) (byte_of c) = Some r"
    | (four) b c d s' where "\<not> byte_of a < 128" "s = b # c # d # s'" "w = 4" "rune2 (byte_of a) (byte_of b) = None"
        "rune3 (byte_of a) (byte_of b) (byte_of c) = None" "rune4 (byte_of a) (byte_of b) (byte_of c) (byte_of d) = Some r"
proof -
  let ?a = "byte_of a" and ?bs = "map byte_of (take 3 s)"
  consider (1) "?a < 128" "r = ?a" "w = 1"
    | (2) "\<not> ?a < 128" "length s \<ge> 1" "rune2 ?a (?bs ! 0) = Some r" "w = 2"
    | (3) "\<not> ?a < 128" "length s \<ge> 2" "rune2 ?a (?bs ! 0) = None" "rune3 ?a (?bs ! 0) (?bs ! 1) = Some r" "w = 3"
    | (4) "\<not> ?a < 128" "length s \<ge> 3" "rune2 ?a (?bs ! 0) = None" "rune3 ?a (?bs ! 0) (?bs ! 1) = None"
        "rune4 ?a (?bs ! 0) (?bs ! 1) (?bs ! 2) = Some r" "w = 4"
    using assms by (auto simp: Let_def split: if_splits)
  then show thesis
  proof cases
    case 1 then show ?thesis by (rule one)
  next
    case 2
    then obtain b s' where s: "s = b # s'" by (cases s) auto
    show ?thesis by (rule two [OF 2(1) s 2(4)]) (use 2 s in simp)
  next
    case 3
    then obtain b c s' where s: "s = b # c # s'" by (cases s; cases "tl s") auto
    show ?thesis by (rule three [OF 3(1) s 3(5)]) (use 3 s in simp_all)
  next
    case 4
    then obtain b c d s' where s: "s = b # c # d # s'" by (cases s; cases "tl s"; cases "tl (tl s)") auto
    show ?thesis by (rule four [OF 4(1) s 4(6)]) (use 4 s in simp_all)
  qed
qed

lemma decode_rune_prefix:
  assumes "decode_rune (a # s) = (Some r, w)"
  shows "decode_rune (take w (a # s) @ t) = (Some r, w) \<and> take w (a # s) \<noteq> [] \<and> length (take w (a # s)) = w \<and>
    (if r < 128 then take w (a # s) = [byte r] else \<forall>c\<in>set (take w (a # s)). 128 \<le> byte_of c)"
  using assms
proof (cases rule: decode_rune_cases)
  case one then show ?thesis by simp
next
  case (two b s')
  with rune_ranges(1) [OF two(4)] show ?thesis by auto
next
  case (three b c s')
  with rune_ranges(2) [OF three(5)] show ?thesis by auto
next
  case (four b c d s')
  with rune_ranges(3) [OF four(6)] show ?thesis by auto
qed

text \<open>Encoding a decoded rune gives back its bytes.\<close>

lemma digits64:
  fixes x y z u :: nat
  assumes "y < 64" and "z < 64" and "u < 64"
  shows "(x * 64 + y) div 64 = x" "(x * 64 + y) mod 64 = y"
    "(x * 4096 + y * 64 + z) div 4096 = x" "(x * 4096 + y * 64 + z) div 64 mod 64 = y" "(x * 4096 + y * 64 + z) mod 64 = z"
    "(x * 262144 + y * 4096 + z * 64 + u) div 262144 = x" "(x * 262144 + y * 4096 + z * 64 + u) div 4096 mod 64 = y"
    "(x * 262144 + y * 4096 + z * 64 + u) div 64 mod 64 = z" "(x * 262144 + y * 4096 + z * 64 + u) mod 64 = u"
proof -
  have one: "(a * 64 + v) div 64 = a" "(a * 64 + v) mod 64 = v" if "v < 64" for a v :: nat using that by simp_all
  have e: "x * 4096 + y * 64 + z = (x * 64 + y) * 64 + z" "x * 262144 + y * 4096 + z * 64 + u = ((x * 64 + y) * 64 + z) * 64 + u"
    by simp_all
  have d: "n div 4096 = n div 64 div 64" "n div 262144 = n div 64 div 64 div 64" for n :: nat
    by (simp_all add: div_mult2_eq [symmetric])
  note n = one(1) [OF assms(1)] one(2) [OF assms(1)] one(1) [OF assms(2)] one(2) [OF assms(2)] one(1) [OF assms(3)] one(2) [OF assms(3)]
  show "(x * 64 + y) div 64 = x" "(x * 64 + y) mod 64 = y"
    "(x * 4096 + y * 64 + z) div 4096 = x" "(x * 4096 + y * 64 + z) div 64 mod 64 = y" "(x * 4096 + y * 64 + z) mod 64 = z"
    "(x * 262144 + y * 4096 + z * 64 + u) div 262144 = x" "(x * 262144 + y * 4096 + z * 64 + u) div 4096 mod 64 = y"
    "(x * 262144 + y * 4096 + z * 64 + u) div 64 mod 64 = z" "(x * 262144 + y * 4096 + z * 64 + u) mod 64 = u"
    by (simp_all only: e d n)
qed

lemma byte_cont: "is_cont (byte_of b) \<Longrightarrow> byte (128 + (byte_of b - 128)) = b" "is_cont (byte_of b) \<Longrightarrow> byte_of b - 128 < 64"
  by (auto simp: is_cont_def)

lemma utf8_encode_rune:
  "rune2 (byte_of a) (byte_of b) = Some r \<Longrightarrow> utf8_encode r = [a, b]"
  "rune3 (byte_of a) (byte_of b) (byte_of c) = Some r \<Longrightarrow> utf8_encode r = [a, b, c]"
  "rune4 (byte_of a) (byte_of b) (byte_of c) (byte_of d) = Some r \<Longrightarrow> utf8_encode r = [a, b, c, d]"
proof -
  assume "rune2 (byte_of a) (byte_of b) = Some r"
  then have r: "194 \<le> byte_of a" "byte_of a \<le> 223" "is_cont (byte_of b)" "r = (byte_of a - 192) * 64 + (byte_of b - 128)"
    by (auto simp: rune2_def split: if_splits)
  have "\<not> r < 128" "r < 2048" using r(1-3) unfolding r(4) is_cont_def by linarith+
  moreover have "byte (192 + (byte_of a - 192)) = a" using r(1) by simp
  ultimately show "utf8_encode r = [a, b]"
    using digits64(1,2) [OF byte_cont(2) [OF r(3)] byte_cont(2) [OF r(3)] byte_cont(2) [OF r(3)]] byte_cont(1) [OF r(3)]
    by (simp add: utf8_encode_def r(4))
next
  assume "rune3 (byte_of a) (byte_of b) (byte_of c) = Some r"
  then have r: "224 \<le> byte_of a" "byte_of a \<le> 239" "is_cont (byte_of b)" "is_cont (byte_of c)"
    "byte_of a = 224 \<Longrightarrow> 160 \<le> byte_of b" "byte_of a = 237 \<Longrightarrow> byte_of b \<le> 159"
    "r = (byte_of a - 224) * 4096 + (byte_of b - 128) * 64 + (byte_of c - 128)"
    by (auto simp: rune3_def split: if_splits)
  have "\<not> r < 2048" using r(1-5) unfolding r(7) is_cont_def by (cases "byte_of a = 224") linarith+
  moreover have "r < 65536" using r(1-4) unfolding r(7) is_cont_def by linarith
  moreover have "\<not> (55296 \<le> r \<and> r \<le> 57343)"
  proof (cases "byte_of a = 237")
    case True
    then have "byte_of b - 128 \<le> 31" "byte_of c - 128 \<le> 63" "byte_of a - 224 = 13"
      using r(3,4,6) unfolding is_cont_def by linarith+
    then show ?thesis unfolding r(7) by linarith
  next
    case False
    then have "byte_of a \<le> 236 \<or> 238 \<le> byte_of a" by linarith
    then show ?thesis using r(1-4) unfolding r(7) is_cont_def by linarith
  qed
  moreover have "byte (224 + (byte_of a - 224)) = a" using r(1) by simp
  ultimately show "utf8_encode r = [a, b, c]"
    using digits64(3-5) [OF byte_cont(2) [OF r(3)] byte_cont(2) [OF r(4)] byte_cont(2) [OF r(4)], of "byte_of a - 224", folded r(7)]
      byte_cont(1) [OF r(3)] byte_cont(1) [OF r(4)]
    by (auto simp: utf8_encode_def)
next
  assume "rune4 (byte_of a) (byte_of b) (byte_of c) (byte_of d) = Some r"
  then have r: "240 \<le> byte_of a" "byte_of a \<le> 244" "is_cont (byte_of b)" "is_cont (byte_of c)" "is_cont (byte_of d)"
    "byte_of a = 240 \<Longrightarrow> 144 \<le> byte_of b" "byte_of a = 244 \<Longrightarrow> byte_of b \<le> 143"
    "r = (byte_of a - 240) * 262144 + (byte_of b - 128) * 4096 + (byte_of c - 128) * 64 + (byte_of d - 128)"
    by (auto simp: rune4_def split: if_splits)
  have "\<not> r < 65536" using r(1-6) unfolding r(8) is_cont_def by (cases "byte_of a = 240") linarith+
  moreover have "r < 1114112" using r(1-5,7) unfolding r(8) is_cont_def by (cases "byte_of a = 244") linarith+
  moreover have "byte (240 + (byte_of a - 240)) = a" using r(1) by simp
  ultimately show "utf8_encode r = [a, b, c, d]"
    using digits64(6-9) [OF byte_cont(2) [OF r(3)] byte_cont(2) [OF r(4)] byte_cont(2) [OF r(5)]]
      byte_cont(1) [OF r(3)] byte_cont(1) [OF r(4)] byte_cont(1) [OF r(5)]
    by (simp add: utf8_encode_def r(8))
qed

lemma utf8_encode_decode: "decode_rune (a # s) = (Some r, w) \<Longrightarrow> utf8_encode r = take w (a # s)"
  by (erule decode_rune_cases) (simp add: utf8_encode_def, auto dest: utf8_encode_rune)

text \<open>The elements of \<open>runes\<close> that are code points.\<close>

definition good_rune :: "nat \<Rightarrow> string \<Rightarrow> bool" where
  "good_rune r bs \<longleftrightarrow> (\<forall>t. decode_rune (bs @ t) = (Some r, length bs)) \<and> bs \<noteq> [] \<and> utf8_encode r = bs \<and>
     (if r < 128 then bs = [byte r] else \<forall>c\<in>set bs. 128 \<le> byte_of c)"

lemma runes_good: "(Some r, bs) \<in> set (runes s) \<Longrightarrow> good_rune r bs"
proof (induction s rule: runes.induct)
  case (1 s)
  show ?case
  proof (cases s)
    case Nil then show ?thesis using 1(2) by simp
  next
    case (Cons a s')
    then consider "decode_rune (a # s') = (Some r, length bs)" "bs = take (length bs) (a # s')"
      | "(Some r, bs) \<in> set (runes (drop (snd (decode_rune s)) s))"
    proof -
      have "(Some r, bs) = (fst (decode_rune s), take (snd (decode_rune s)) s) \<or> (Some r, bs) \<in> set (runes (drop (snd (decode_rune s)) s))"
        using 1(2) Cons by (subst (asm) runes.simps) simp
      then show thesis
      proof
        assume e: "(Some r, bs) = (fst (decode_rune s), take (snd (decode_rune s)) s)"
        then have d: "decode_rune (a # s') = (Some r, snd (decode_rune s))" using Cons by (metis fst_conv prod.collapse)
        then show thesis using decode_rune_prefix [OF d] e Cons that(1) by simp
      qed (rule that(2))
    qed
    then show ?thesis
    proof cases
      case 1
      then show ?thesis using decode_rune_prefix [OF 1(1), folded 1(2)] utf8_encode_decode [OF 1(1), folded 1(2)]
        unfolding good_rune_def by blast
    next
      case 2 then show ?thesis using 1(1) Cons by simp
    qed
  qed
qed

lemma append_single: "append [x] = Cons x"
  by (rule ext) simp

lemma unquote_u_escape:
  assumes "r < 65536" and "\<not> is_high r"
  shows "json_unquote (u_escape r @ t) = map_option (append (utf8_encode r)) (json_unquote t)"
proof -
  have u: "u_escape r @ t = CHR 0x5C # CHR ''u'' # drop 2 (u_escape r) @ t" by (simp add: u_escape_def)
  show ?thesis unfolding u
    by (subst json_unquote.simps(2)) (simp add: simple_escape_def hex_unit_escape [OF assms(1)] low_escape_not_high [OF assms(2)])
qed

lemma quote_ascii_cases:
  assumes "r < 128"
  obtains (short) e where "quote_ascii r = [CHR 0x5C, e]" "simple_escape e = Some (byte r)"
    | (escape) "quote_ascii r = u_escape r"
    | (plain) "quote_ascii r = [byte r]" "r \<noteq> 34" "r \<noteq> 92" "32 \<le> r"
proof -
  have q: "simple_escape (byte 34) = Some (byte 34)" "simple_escape (byte 92) = Some (byte 92)"
    "simple_escape (CHR ''b'') = Some (byte 8)" "simple_escape (CHR ''f'') = Some (byte 12)" "simple_escape (CHR ''n'') = Some (byte 10)"
    "simple_escape (CHR ''r'') = Some (byte 13)" "simple_escape (CHR ''t'') = Some (byte 9)"
    by (simp_all add: simple_escape_def byte_eq_iff byte_of_def)
  consider "r = 34" | "r = 92" | "r = 8" | "r = 12" | "r = 10" | "r = 13" | "r = 9" | "r \<notin> {34, 92, 8, 12, 10, 13, 9}" by blast
  then show thesis
  proof cases
    case 8
    then show ?thesis using escape plain by (cases "r < 32 \<or> r = 60 \<or> r = 62 \<or> r = 38") (auto simp: quote_ascii_def)
  qed (rule short, simp add: quote_ascii_def, simp add: q)+
qed

lemma unquote_quote_rune:
  assumes "good_rune r bs"
  shows "json_unquote (quote_rune (Some r, bs) @ t) = map_option (append bs) (json_unquote t)"
proof (cases "r < 128")
  case True
  then have bs: "bs = [byte r]" using assms by (simp add: good_rune_def)
  have dec: "decode_rune (byte r # t) = (Some r, 1)" using True by simp
  have esc: "json_unquote (u_escape r @ t) = map_option (append [byte r]) (json_unquote t)"
    using unquote_u_escape [of r t] True by (simp add: is_high_def utf8_encode_def [of r])
  have "json_unquote (quote_ascii r @ t) = map_option (append [byte r]) (json_unquote t)"
    using True
  proof (cases rule: quote_ascii_cases)
    case (short e)
    then show ?thesis unfolding short(1) append_Cons append_Nil json_unquote.simps(2) [of "CHR 0x5C"] by (simp add: append_single)
  next
    case escape then show ?thesis using esc by simp
  next
    case plain
    have "byte r \<noteq> CHR 0x5C" "byte r \<noteq> CHR 0x22" "\<not> byte_of (byte r) < 32"
      using plain True by (simp_all add: byte_eq_iff byte_of_def [of "CHR 0x5C"] byte_of_def [of "CHR 0x22"])
    then show ?thesis using dec unfolding plain(1) append_Cons append_Nil
      by (subst json_unquote.simps(2)) (simp del: decode_rune.simps add: append_single)
  qed
  then show ?thesis using True by (simp add: bs)
next
  case False
  show ?thesis
  proof (cases "r = 8232 \<or> r = 8233")
    case True
    have "json_unquote (u_escape r @ t) = map_option (append (utf8_encode r)) (json_unquote t)"
      by (rule unquote_u_escape) (use True in \<open>auto simp: is_high_def\<close>)
    then show ?thesis using assms True by (auto simp: good_rune_def)
  next
    case False
    have big: "\<forall>c\<in>set bs. 128 \<le> byte_of c" and ne: "bs \<noteq> []" and d: "decode_rune (bs @ t) = (Some r, length bs)"
      using assms \<open>\<not> r < 128\<close> by (auto simp: good_rune_def)
    obtain c bs' where bs: "bs = c # bs'" using ne by (cases bs) auto
    have "c \<noteq> CHR 0x5C" "c \<noteq> CHR 0x22" "\<not> byte_of c < 32" using big bs by (auto simp: byte_of_def)
    then have "json_unquote (bs @ t) = map_option (append bs) (json_unquote t)"
      using d unfolding bs append_Cons
      by (subst json_unquote.simps(2), cases "json_unquote t") (simp_all del: decode_rune.simps)
    then show ?thesis using False \<open>\<not> r < 128\<close> by simp
  qed
qed

theorem unquote_quote: "utf8_valid s \<Longrightarrow> json_unquote (concat (map quote_rune (runes s))) = Some s"
proof -
  assume v: "utf8_valid s"
  have "json_unquote (concat (map quote_rune rs)) = Some (concat (map snd rs))"
    if "\<forall>x\<in>set rs. \<exists>r. fst x = Some r \<and> good_rune r (snd x)" for rs
    using that
  proof (induction rs)
    case (Cons x rs)
    then obtain r where "x = (Some r, snd x)" "good_rune r (snd x)" by (metis list.set_intros(1) prod.collapse)
    then show ?case using unquote_quote_rune Cons by (metis (no_types, lifting) concat.simps(2) list.map(2) list.set_intros(2) option.map(2) snd_conv)
  qed simp
  moreover have "\<forall>x\<in>set (runes s). \<exists>r. fst x = Some r \<and> good_rune r (snd x)"
    using v runes_good by (fastforce simp: utf8_valid_def list_all_iff)
  ultimately show ?thesis by (simp add: concat_runes)
qed

subsection \<open>Valid strings\<close>

lemma runes_good_head: "good_rune r bs \<Longrightarrow> runes (bs @ t) = (Some r, bs) # runes t"
  by (cases bs) (simp_all add: good_rune_def runes.simps del: decode_rune.simps)

lemma runes_concat_good:
  "\<forall>x\<in>set rs. \<exists>r. fst x = Some r \<and> good_rune r (snd x) \<Longrightarrow> runes (concat (map snd rs) @ t) = rs @ runes t"
proof (induction rs)
  case (Cons x rs)
  then obtain r where "x = (Some r, snd x)" "good_rune r (snd x)" by (metis list.set_intros(1) prod.collapse)
  then show ?case using Cons runes_good_head [of r "snd x"] by simp
qed simp

lemma valid_good: "utf8_valid s \<longleftrightarrow> (\<forall>x\<in>set (runes s). \<exists>r. fst x = Some r \<and> good_rune r (snd x))"
  using runes_good by (fastforce simp: utf8_valid_def list_all_iff)

lemma runes_append: "utf8_valid s \<Longrightarrow> runes (s @ t) = runes s @ runes t"
  using runes_concat_good [of "runes s" t] by (simp add: valid_good concat_runes)

lemma utf8_valid_append: "utf8_valid s \<Longrightarrow> utf8_valid t \<Longrightarrow> utf8_valid (s @ t)"
  by (simp add: utf8_valid_def runes_append [unfolded utf8_valid_def])

lemma utf8_valid_concat: "\<forall>s\<in>set ss. utf8_valid s \<Longrightarrow> utf8_valid (concat ss)"
proof (induction ss)
  case Nil then show ?case by (simp add: utf8_valid_def)
qed (simp add: utf8_valid_append)

lemma utf8_valid_ascii: "list_all (\<lambda>c. byte_of c < 128) s \<Longrightarrow> utf8_valid s"
  by (induction s) (simp_all add: utf8_valid_def runes_ascii_Cons)

lemma utf8_valid_good: "good_rune r bs \<Longrightarrow> utf8_valid bs"
  using runes_good_head [of r bs "[]"] by (simp add: utf8_valid_def)

lemma hex_digit_ascii: "n < 16 \<Longrightarrow> byte_of (hex_digit n) < 128"
  by (simp add: hex_digit_def)

lemma u_escape_ascii: "list_all (\<lambda>c. byte_of c < 128) (u_escape r)"
  using hex_digit_ascii by (simp add: u_escape_def byte_of_def [of "CHR 0x5C"] byte_of_def [of "CHR ''u''"])

lemma quote_ascii_ascii: "r < 128 \<Longrightarrow> list_all (\<lambda>c. byte_of c < 128) (quote_ascii r)"
  using u_escape_ascii [of r] by (simp add: quote_ascii_def) (simp add: byte_of_def)

lemma quote_rune_valid: "good_rune r bs \<Longrightarrow> utf8_valid (quote_rune (Some r, bs))"
  using utf8_valid_ascii [OF quote_ascii_ascii] utf8_valid_ascii [OF u_escape_ascii] utf8_valid_good by simp

lemma json_quote_valid: "utf8_valid s \<Longrightarrow> utf8_valid (json_quote s)"
proof -
  assume v: "utf8_valid s"
  have q: "utf8_valid [CHR 0x22]" by (rule utf8_valid_ascii) (simp add: byte_of_def)
  have "utf8_valid (quote_rune x)" if "x \<in> set (runes s)" for x
    using v that quote_rune_valid by (metis prod.collapse valid_good)
  then have "utf8_valid (concat (map quote_rune (runes s)))" by (intro utf8_valid_concat) auto
  then show ?thesis using utf8_valid_append [OF q utf8_valid_append [OF _ q]] by (simp add: json_quote_def)
qed

lemma quote_rune_length: "good_rune r bs \<Longrightarrow> length (quote_rune (Some r, bs)) \<le> 6 * length bs"
  by (cases bs) (auto simp: quote_ascii_def u_escape_def good_rune_def)

lemma json_quote_length: "utf8_valid s \<Longrightarrow> length (json_quote s) \<le> 6 * length s + 2"
proof -
  assume "utf8_valid s"
  have "length (concat (map quote_rune rs)) \<le> 6 * length (concat (map snd rs))"
    if "\<forall>x\<in>set rs. \<exists>r. fst x = Some r \<and> good_rune r (snd x)" for rs
    using that
  proof (induction rs)
    case (Cons x rs)
    then obtain r where "x = (Some r, snd x)" "good_rune r (snd x)" by (metis list.set_intros(1) prod.collapse)
    then have "length (quote_rune x) \<le> 6 * length (snd x)" using quote_rune_length by metis
    then show ?case using Cons by simp
  qed simp
  from this [of "runes s"] \<open>utf8_valid s\<close> show ?thesis by (simp add: valid_good concat_runes json_quote_def)
qed

end
