(* ===== verification/Refs.thy ===== *)
theory Refs
  imports Json_String Go_Errors Leases
begin

text \<open>
  External references (refs/values.go, schema.go, errors.go): collections of named opaque ids, their strict JSON form,
  and the versioned schema that validates them. A Go map from strings is an association list; the map inside a
  \<open>Values\<close> is kept sorted by key, so that equal maps are equal lists. The parser's position is the input left.
\<close>

subsection \<open>errors.go\<close>

definition CodeInvalidSchema :: string where "CodeInvalidSchema = ''REFS_SCHEMA_INVALID''"
definition CodeInvalidValues :: string where "CodeInvalidValues = ''REFS_VALUES_INVALID''"
definition CodeUnknownReference :: string where "CodeUnknownReference = ''REFS_UNKNOWN''"
definition CodeRequiredReference :: string where "CodeRequiredReference = ''REFS_REQUIRED''"
definition CodeInvalidID :: string where "CodeInvalidID = ''REFS_ID_INVALID''"
definition CodeImmutableReference :: string where "CodeImmutableReference = ''REFS_IMMUTABLE''"

definition schemaError :: "string \<Rightarrow> gerr" where "schemaError message = New CodeInvalidSchema 500 message"
definition valueError :: "string \<Rightarrow> gerr" where "valueError message = New CodeInvalidValues 422 message"

definition referenceError :: "string \<Rightarrow> string \<Rightarrow> string \<Rightarrow> gerr" where
  "referenceError code message key = (let status = (if code = CodeImmutableReference then 409 else 422) in
     with_detail ''key'' (DStr key) (New code status message))"

subsection \<open>values.go\<close>

definition MaxEntries :: nat where "MaxEntries = 64"
definition MaxKeyBytes :: nat where "MaxKeyBytes = 64"
definition MaxIDBytes :: nat where "MaxIDBytes = 256"
definition MaxJSONBytes :: nat where "MaxJSONBytes = 128 * 1024"

fun key_from :: "bool \<Rightarrow> string \<Rightarrow> bool" where
  "key_from segmentStart [] = (\<not> segmentStart)"
| "key_from segmentStart (c # s) =
     (if segmentStart then is_lower c \<and> key_from False s
      else if c = CHR ''.'' then key_from True s
      else (is_lower c \<or> is_digit c \<or> c = CHR ''_'') \<and> key_from False s)"

definition validReferenceKey :: "string \<Rightarrow> bool" where
  "validReferenceKey key \<longleftrightarrow> key \<noteq> [] \<and> length key \<le> MaxKeyBytes \<and> key_from True key"

definition validOpaqueID :: "string \<Rightarrow> bool" where
  "validOpaqueID eid \<longleftrightarrow> eid \<noteq> [] \<and> length eid \<le> MaxIDBytes \<and> utf8_valid eid \<and>
     list_all (\<lambda>x. case fst x of Some r \<Rightarrow> \<not> is_space r \<and> \<not> is_control r | None \<Rightarrow> True) (runes eid)"

type_synonym ref_values = "(string \<times> string) list"

definition values_of :: "(string \<times> string) list \<Rightarrow> ref_values" where
  "values_of m = map (\<lambda>k. (k, the (map_of m k))) (sorted_keys m)"

definition NewValues :: "(string \<times> string) list \<Rightarrow> (gerr, ref_values) result" where
  "NewValues input =
     (if length input > MaxEntries then Inl (valueError ''too many references'')
      else if \<not> list_all (\<lambda>(k, x). validReferenceKey k) input then Inl (valueError ''invalid reference key'')
      else if \<not> list_all (\<lambda>k. validOpaqueID (the (map_of input k))) (sorted_keys input) then Inl (valueError ''invalid reference ID'')
      else Inr (values_of input))"

definition Get :: "ref_values \<Rightarrow> string \<Rightarrow> string option" where "Get v key = map_of v key"
definition Len :: "ref_values \<Rightarrow> nat" where "Len v = length v"
definition Map :: "ref_values \<Rightarrow> (string \<times> string) list" where "Map v = v"

definition MarshalJSON :: "ref_values \<Rightarrow> string" where
  "MarshalJSON v = (if v = [] then ''{}''
     else CHR ''{'' # join_with '','' (map (\<lambda>(k, x). json_quote k @ CHR '':'' # json_quote x) v) @ ''}'')"

subsubsection \<open>The parser\<close>

fun skip_space :: "string \<Rightarrow> string" where
  "skip_space [] = []"
| "skip_space (c # s) = (if c = CHR '' '' \<or> c = byte 9 \<or> c = byte 10 \<or> c = byte 13 then skip_space s else c # s)"

lemma skip_space_length: "length (skip_space s) \<le> length s"
  by (induction s) auto

definition take_byte :: "char \<Rightarrow> string \<Rightarrow> bool \<times> string" where
  "take_byte c s = (case skip_space s of
     x # t \<Rightarrow> if x = c then (True, t) else (False, x # t)
   | [] \<Rightarrow> (False, []))"

lemma take_byte_length: "take_byte c s = (ok, t) \<Longrightarrow> length t \<le> length s \<and> (ok \<longrightarrow> length t < length s)"
proof -
  assume "take_byte c s = (ok, t)"
  then have "length t \<le> length (skip_space s) \<and> (ok \<longrightarrow> length t < length (skip_space s))"
    by (auto simp: take_byte_def dest: arg_cong [where f = length] split: list.splits if_splits)
  then show ?thesis using skip_space_length [of s] by linarith
qed

text \<open>The escape after a backslash: its bytes and what follows, if it is well-formed and not a lone surrogate.\<close>

definition scan_escape :: "string \<Rightarrow> (string \<times> string) option" where
  "scan_escape s = (case s of
     [] \<Rightarrow> None
   | e # s' \<Rightarrow>
       if simple_escape e \<noteq> None then Some ([e], s')
       else if e \<noteq> CHR ''u'' then None
       else (case hex_unit s' of
           None \<Rightarrow> None
         | Some (u, t) \<Rightarrow>
             if is_high u then
               (if take 2 t \<noteq> [CHR 0x5C, CHR ''u''] then None
                else (case hex_unit (drop 2 t) of
                    None \<Rightarrow> None
                  | Some (low, t') \<Rightarrow> if \<not> is_low low then None else Some (e # take 10 s', t')))
             else if is_low u then None
             else Some (e # take 4 s', t)))"

lemma scan_escape_length: "scan_escape s = Some (bs, t) \<Longrightarrow> length t < length s"
  by (auto simp: scan_escape_def dest!: hex_unit_length split: list.splits option.splits if_splits)

text \<open>From behind the opening quote: the bytes up to the closing one, and what follows it.\<close>

function (sequential) scan_string :: "string \<Rightarrow> (string \<times> string) option" where
  "scan_string [] = None"
| "scan_string (c # s) =
     (if c = CHR 0x22 then Some ([], s)
      else if c = CHR 0x5C then (case scan_escape s of
          None \<Rightarrow> None
        | Some (bs, t) \<Rightarrow> map_option (\<lambda>(inner, t'). (c # bs @ inner, t')) (scan_string t))
      else if byte_of c < 32 then None
      else map_option (\<lambda>(inner, t). (c # inner, t)) (scan_string s))"
  by pat_completeness auto
termination
  by (relation "measure length") (auto dest: scan_escape_length)

lemma scan_string_length: "scan_string s = Some (inner, t) \<Longrightarrow> length t < length s"
proof (induction s arbitrary: inner rule: scan_string.induct)
  case (2 c s)
  consider "c = CHR 0x22" "t = s"
    | bs u i where "c \<noteq> CHR 0x22" "c = CHR 0x5C" "scan_escape s = Some (bs, u)" "scan_string u = Some (i, t)"
    | i where "c \<noteq> CHR 0x22" "c \<noteq> CHR 0x5C" "\<not> byte_of c < 32" "scan_string s = Some (i, t)"
    using 2(3) by (auto split: if_splits option.splits)
  then show ?case
  proof cases
    case 2
    then show ?thesis using "2.IH"(1) [OF 2(1,2,3) refl] scan_escape_length [OF 2(3)] by fastforce
  next
    case 3
    then show ?thesis using "2.IH"(2) [OF 3(1,2,3,4)] by simp
  qed simp
qed simp

definition stringValue :: "string \<Rightarrow> (string \<times> string) option" where
  "stringValue s = (case take_byte (CHR 0x22) s of
     (False, _) \<Rightarrow> None
   | (True, t) \<Rightarrow> (case scan_string t of
       None \<Rightarrow> None
     | Some (inner, t') \<Rightarrow> map_option (\<lambda>x. (x, t')) (json_unquote inner)))"

lemma stringValue_length: "stringValue s = Some (x, t) \<Longrightarrow> length t < length s"
  by (auto simp: stringValue_def dest!: take_byte_length scan_string_length split: prod.splits bool.splits option.splits)

text \<open>The loop over the members, from behind the opening brace or a comma.\<close>

function members :: "(string \<times> string) list \<Rightarrow> string \<Rightarrow> (gerr, (string \<times> string) list \<times> string) result" where
  "members entries s = (case stringValue s of
     None \<Rightarrow> Inl (valueError ''invalid reference JSON key'')
   | Some (key, s1) \<Rightarrow>
       if \<not> validReferenceKey key then Inl (valueError ''invalid reference JSON key'')
       else if map_of entries key \<noteq> None then Inl (valueError ''duplicate reference JSON key'')
       else if length entries \<ge> MaxEntries then Inl (valueError ''too many references'')
       else (case take_byte (CHR '':'') s1 of
           (False, _) \<Rightarrow> Inl (valueError ''invalid reference JSON object'')
         | (True, s2) \<Rightarrow> (case stringValue s2 of
             None \<Rightarrow> Inl (valueError ''invalid reference JSON ID'')
           | Some (eid, s3) \<Rightarrow>
               if \<not> validOpaqueID eid then Inl (valueError ''invalid reference JSON ID'')
               else (case take_byte (CHR ''}'') s3 of
                   (True, s4) \<Rightarrow> Inr (AList.update key eid entries, s4)
                 | (False, s4) \<Rightarrow> (case take_byte (CHR '','') s4 of
                     (False, _) \<Rightarrow> Inl (valueError ''invalid reference JSON object'')
                   | (True, s5) \<Rightarrow> members (AList.update key eid entries) s5)))))"
  by pat_completeness auto
termination
apply (relation "measure (\<lambda>(entries, s). length s)")
   apply simp
  subgoal premises p for entries s x2 key s1 xa s2 x2a eid s3 xab s4 xac s5
  proof -
    have "length s1 < length s" "length s3 < length s2"
      using p stringValue_length [of s key s1] stringValue_length [of s2 eid s3] by auto
    moreover have "length s2 < length s1" "length s4 \<le> length s3" "length s5 < length s4"
      using take_byte_length p(6,7,11-14) by (metis (no_types))+
    ultimately show ?thesis by simp
  qed
  done

declare members.simps [simp del]

definition DecodeJSON :: "string \<Rightarrow> (gerr, ref_values) result" where
  "DecodeJSON data =
     (if length data > MaxJSONBytes then Inl (valueError ''reference JSON exceeds size limit'')
      else if \<not> utf8_valid data then Inl (valueError ''reference JSON must be valid UTF-8'')
      else (case take_byte (CHR ''{'') data of
          (False, _) \<Rightarrow> Inl (valueError ''references must be a JSON object'')
        | (True, s) \<Rightarrow> (case (case take_byte (CHR ''}'') s of (True, t) \<Rightarrow> Inr ([], t) | (False, t) \<Rightarrow> members [] t) of
            Inl e \<Rightarrow> Inl e
          | Inr (entries, t) \<Rightarrow> if skip_space t \<noteq> [] then Inl (valueError ''unexpected data after reference JSON object'')
              else Inr (values_of entries))))"

text \<open>\<open>UnmarshalJSON\<close> on a receiver (\<open>None\<close>: nil): the error and the new value of the receiver.\<close>

definition UnmarshalJSON :: "ref_values option \<Rightarrow> string \<Rightarrow> gerr option \<times> ref_values option" where
  "UnmarshalJSON v data = (case v of
     None \<Rightarrow> (Some (valueError ''nil reference values receiver''), None)
   | Some _ \<Rightarrow> (case DecodeJSON data of Inl e \<Rightarrow> (Some e, v) | Inr decoded \<Rightarrow> (None, Some decoded)))"

subsection \<open>The round trip of the JSON form\<close>

lemma scan_plain:
  "\<forall>c\<in>set bs. c \<noteq> CHR 0x22 \<and> c \<noteq> CHR 0x5C \<and> 32 \<le> byte_of c \<Longrightarrow>
   scan_string (bs @ t) = map_option (\<lambda>(i, t'). (bs @ i, t')) (scan_string t)"
proof (induction bs)
  case Nil then show ?case by (cases "scan_string t") auto
next
  case (Cons c bs)
  then have "scan_string (bs @ t) = map_option (\<lambda>(i, t'). (bs @ i, t')) (scan_string t)" by simp
  then show ?case using Cons.prems by (cases "scan_string t") auto
qed

lemma scan_u_escape:
  assumes "r < 65536" and "\<not> is_high r" and "\<not> is_low r"
  shows "scan_string (u_escape r @ t) = map_option (\<lambda>(i, t'). (u_escape r @ i, t')) (scan_string t)"
proof -
  have u: "u_escape r @ t = CHR 0x5C # CHR ''u'' # drop 2 (u_escape r) @ t" by (simp add: u_escape_def)
  have "scan_escape (CHR ''u'' # drop 2 (u_escape r) @ t) = Some (CHR ''u'' # drop 2 (u_escape r), t)"
    using assms(2,3) by (simp add: scan_escape_def hex_unit_escape [OF assms(1)] simple_escape_def) (simp add: u_escape_def)
  then show ?thesis unfolding u by (simp add: u_escape_def)
qed

lemma scan_quote_rune:
  assumes "good_rune r bs"
  shows "scan_string (quote_rune (Some r, bs) @ t) = map_option (\<lambda>(i, t'). (quote_rune (Some r, bs) @ i, t')) (scan_string t)"
proof (cases "r < 128")
  case True
  then show ?thesis
  proof (cases rule: quote_ascii_cases)
    case (short e)
    then have "scan_escape (e # t) = Some ([e], t)" by (simp add: scan_escape_def)
    then show ?thesis using True short(1) by simp
  next
    case escape
    then show ?thesis using True scan_u_escape [of r t] by (simp add: is_high_def is_low_def)
  next
    case plain
    have "byte r \<noteq> CHR 0x22 \<and> byte r \<noteq> CHR 0x5C \<and> 32 \<le> byte_of (byte r)"
      using plain True by (simp add: byte_eq_iff byte_of_def [of "CHR 0x5C"] byte_of_def [of "CHR 0x22"])
    then show ?thesis using True plain(1) scan_plain [of "[byte r]" t] by simp
  qed
next
  case False
  have "128 \<le> byte_of c \<Longrightarrow> c \<noteq> CHR 0x22 \<and> c \<noteq> CHR 0x5C \<and> 32 \<le> byte_of c" for c by (auto simp: byte_of_def)
  then have "\<forall>c\<in>set bs. c \<noteq> CHR 0x22 \<and> c \<noteq> CHR 0x5C \<and> 32 \<le> byte_of c"
    using assms False by (auto simp: good_rune_def)
  note plain = scan_plain [OF this, of t]
  show ?thesis
  proof (cases "r = 8232 \<or> r = 8233")
    case True
    then have "quote_rune (Some r, bs) = u_escape r" by auto
    moreover have "r < 65536" "\<not> is_high r" "\<not> is_low r" using True by (auto simp: is_high_def is_low_def)
    ultimately show ?thesis using scan_u_escape by metis
  next
    case neither: False
    then have "quote_rune (Some r, bs) = bs" using False by simp
    then show ?thesis using plain by simp
  qed
qed

lemma skip_space_visible: "32 < byte_of c \<Longrightarrow> skip_space (c # s) = c # s"
  by (auto simp: byte_of_def byte_def)

lemma take_byte_visible [simp]:
  "take_byte (CHR 0x22) (CHR 0x22 # s) = (True, s)" "take_byte (CHR '':'') (CHR '':'' # s) = (True, s)"
  "take_byte (CHR ''{'') (CHR ''{'' # s) = (True, s)" "take_byte (CHR ''}'') (CHR ''}'' # s) = (True, s)"
  "take_byte (CHR '','') (CHR '','' # s) = (True, s)" "take_byte (CHR ''}'') (CHR '','' # s) = (False, CHR '','' # s)"
  "take_byte (CHR ''}'') (CHR 0x22 # s) = (False, CHR 0x22 # s)"
  by (simp_all add: take_byte_def skip_space_visible byte_of_def del: skip_space.simps)

lemma stringValue_quote:
  assumes "utf8_valid s"
  shows "stringValue (json_quote s @ t) = Some (s, t)"
proof -
  have "scan_string (concat (map quote_rune rs) @ CHR 0x22 # t) = Some (concat (map quote_rune rs), t)"
    if "\<forall>x\<in>set rs. \<exists>r. fst x = Some r \<and> good_rune r (snd x)" for rs
    using that
  proof (induction rs)
    case (Cons x rs)
    then obtain r where "x = (Some r, snd x)" "good_rune r (snd x)" by (metis list.set_intros(1) prod.collapse)
    then have "scan_string (quote_rune x @ u) = map_option (\<lambda>(i, t'). (quote_rune x @ i, t')) (scan_string u)" for u
      using scan_quote_rune by metis
    then show ?case using Cons by simp
  qed simp
  then have "scan_string (concat (map quote_rune (runes s)) @ CHR 0x22 # t) = Some (concat (map quote_rune (runes s)), t)"
    using assms by (simp add: valid_good)
  then show ?thesis using unquote_quote [OF assms] by (simp add: stringValue_def json_quote_def)
qed

text \<open>What a \<open>Values\<close> built by any constructor satisfies.\<close>

definition wf_values :: "ref_values \<Rightarrow> bool" where
  "wf_values v \<longleftrightarrow> length v \<le> MaxEntries \<and> sorted (map fst v) \<and> distinct (map fst v) \<and>
     list_all (\<lambda>(k, x). validReferenceKey k \<and> validOpaqueID x) v"

lemma sorted_keys_id: "sorted (map fst v) \<Longrightarrow> distinct (map fst v) \<Longrightarrow> sorted_keys v = map fst v"
  by (simp add: sorted_keys_def distinct_remdups_id sorted_sort_id)

lemma values_of_id: "sorted (map fst v) \<Longrightarrow> distinct (map fst v) \<Longrightarrow> values_of v = v"
  by (auto simp: values_of_def sorted_keys_id comp_def intro: map_idI)

lemma values_of_wf:
  assumes "length m \<le> MaxEntries" and "\<And>k x. map_of m k = Some x \<Longrightarrow> validReferenceKey k \<and> validOpaqueID x"
  shows "wf_values (values_of m)"
proof -
  have "length (sorted_keys m) \<le> length m" unfolding sorted_keys_def
    by (metis length_map length_remdups_leq length_sort)
  moreover have "map_of m k = Some (the (map_of m k))" if "k \<in> fst ` set m" for k
    using that by (metis map_of_eq_None_keys option.collapse)
  ultimately show ?thesis using assms by (auto simp: wf_values_def values_of_def comp_def list_all_iff)
qed

lemma key_from_bytes: "key_from b s \<Longrightarrow> c \<in> set s \<Longrightarrow> byte_of c < 128"
proof (induction s arbitrary: b)
  case (Cons x s)
  have "byte_of x < 128"
    using Cons.prems(1) by (auto simp: is_lower_def is_digit_def less_eq_char_def byte_of_def split: if_splits)
  then show ?case using Cons by (auto split: if_splits)
qed simp

lemma key_valid: "validReferenceKey k \<Longrightarrow> utf8_valid k"
  by (rule utf8_valid_ascii) (auto simp: validReferenceKey_def list_all_iff dest: key_from_bytes)

lemma id_valid: "validOpaqueID x \<Longrightarrow> utf8_valid x"
  by (simp add: validOpaqueID_def)


definition member_json :: "string \<times> string \<Rightarrow> string" where
  "member_json x = json_quote (fst x) @ CHR '':'' # json_quote (snd x)"

lemma update_new: "k \<notin> fst ` set m \<Longrightarrow> AList.update k v m = m @ [(k, v)]"
  by (induction m) auto

lemma members_step:
  assumes "validReferenceKey k" and "validOpaqueID x" and "k \<notin> fst ` set acc" and "length acc < MaxEntries"
  shows "members acc (member_json (k, x) @ CHR ''}'' # t) = Inr (acc @ [(k, x)], t)"
    and "members acc (member_json (k, x) @ CHR '','' # t) = members (acc @ [(k, x)]) t"
proof -
  have m: "map_of acc k = None" using assms(3) by (simp add: map_of_eq_None_keys)
  have key: "stringValue (member_json (k, x) @ u) = Some (k, CHR '':'' # json_quote x @ u)" for u
    using stringValue_quote [OF key_valid [OF assms(1)], of "CHR '':'' # json_quote x @ u"] by (simp add: member_json_def)
  note val = stringValue_quote [OF id_valid [OF assms(2)]]
  show "members acc (member_json (k, x) @ CHR ''}'' # t) = Inr (acc @ [(k, x)], t)"
    using assms m by (subst members.simps) (simp add: key val update_new)
  show "members acc (member_json (k, x) @ CHR '','' # t) = members (acc @ [(k, x)]) t"
    using assms m by (subst members.simps) (simp add: key val update_new)
qed

lemma members_render:
  assumes "list_all (\<lambda>(k, x). validReferenceKey k \<and> validOpaqueID x) (y # ys)" and "distinct (map fst (acc @ y # ys))"
    and "length acc + length (y # ys) \<le> MaxEntries"
  shows "members acc (member_json y @ concat (map (\<lambda>z. '','' @ member_json z) ys) @ CHR ''}'' # t) = Inr (acc @ y # ys, t)"
  using assms
proof (induction ys arbitrary: acc y)
  case Nil
  then show ?case using members_step(1) [of "fst y" "snd y" acc t] by (auto simp: case_prod_beta)
next
  case (Cons z zs)
  have "members (acc @ [y]) (member_json z @ concat (map (\<lambda>z. '','' @ member_json z) zs) @ CHR ''}'' # t) = Inr ((acc @ [y]) @ z # zs, t)"
    by (rule Cons.IH) (use Cons.prems in auto)
  then show ?case using Cons.prems members_step(2) [of "fst y" "snd y" acc] by (auto simp: case_prod_beta)
qed

lemma marshal_valid:
  assumes "wf_values v"
  shows "utf8_valid (MarshalJSON v)" and "length (MarshalJSON v) \<le> MaxJSONBytes"
proof -
  have mem: "utf8_valid (member_json x) \<and> length (member_json x) \<le> 1925" if x: "x \<in> set v" for x
  proof -
    have kx: "validReferenceKey (fst x)" "validOpaqueID (snd x)" using assms x by (auto simp: wf_values_def list_all_iff)
    note u = key_valid [OF kx(1)] id_valid [OF kx(2)]
    have colon: "utf8_valid [CHR '':'']" by (rule utf8_valid_ascii) (simp add: byte_of_def)
    have "length (fst x) \<le> 64" "length (snd x) \<le> 256"
      using kx by (simp_all add: validReferenceKey_def validOpaqueID_def MaxKeyBytes_def MaxIDBytes_def)
    then have "length (member_json x) \<le> 1925"
      using json_quote_length [OF u(1)] json_quote_length [OF u(2)] by (simp add: member_json_def)
    moreover have "utf8_valid (json_quote (fst x) @ [CHR '':''] @ json_quote (snd x))"
      by (intro utf8_valid_append colon json_quote_valid u)
    ultimately show ?thesis by (simp add: member_json_def)
  qed
  have render: "MarshalJSON v = (if v = [] then ''{}'' else ''{'' @ member_json (hd v) @ concat (map (\<lambda>z. '','' @ member_json z) (tl v)) @ ''}'')"
    by (cases v) (simp_all add: MarshalJSON_def join_with_def member_json_def case_prod_beta comp_def)
  have a: "utf8_valid ''{''" "utf8_valid ''}''" "utf8_valid '',''" "utf8_valid ''{}''"
    by (rule utf8_valid_ascii, simp add: byte_of_def)+
  have tl: "z \<in> set v" if "z \<in> set (tl v)" for z using that by (metis list.set_sel(2) tl_Nil)
  have cvalid: "utf8_valid (concat (map (\<lambda>z. '','' @ member_json z) (tl v)))"
    by (rule utf8_valid_concat) (auto intro!: utf8_valid_append [OF a(3), simplified] dest!: tl mem)
  have "utf8_valid (''{'' @ member_json (hd v) @ concat (map (\<lambda>z. '','' @ member_json z) (tl v)) @ ''}'')" if "v \<noteq> []"
    by (rule utf8_valid_append [OF a(1) utf8_valid_append [OF _ utf8_valid_append [OF cvalid a(2)]]]) (use mem [of "hd v"] that in simp)
  then show "utf8_valid (MarshalJSON v)" using a(4) unfolding render by simp
  have len: "length (concat (map (\<lambda>z. '','' @ member_json z) zs)) \<le> 1926 * length zs" if "set zs \<subseteq> set v" for zs
    using that by (induction zs) (use mem in fastforce)+
  have "length (tl v) \<le> 63" using assms by (auto simp: wf_values_def MaxEntries_def)
  then show "length (MarshalJSON v) \<le> MaxJSONBytes"
    unfolding render using len [of "tl v"] tl mem [of "hd v"] by (auto simp: MaxJSONBytes_def subset_iff)
qed

lemma decode_rendered:
  assumes "NewValues m = Inr v"
  shows "DecodeJSON (MarshalJSON v) = Inr v"
proof -
  have "validReferenceKey k \<and> validOpaqueID x" if "map_of m k = Some x" for k x
    using assms that map_of_SomeD [OF that] by (force simp: NewValues_def list_all_iff split: if_splits)
  then have wf: "wf_values v" using assms values_of_wf [of m] by (auto simp: NewValues_def split: if_splits)
  note js = marshal_valid [OF wf]
  show ?thesis
  proof (cases v)
    case Nil
    then show ?thesis using js by (simp add: DecodeJSON_def MarshalJSON_def values_of_def sorted_keys_def)
  next
    case (Cons y ys)
    have m: "MarshalJSON v = CHR ''{'' # member_json y @ concat (map (\<lambda>z. '','' @ member_json z) ys) @ CHR ''}'' # []"
      by (simp add: Cons MarshalJSON_def join_with_def member_json_def case_prod_beta comp_def)
    have "members [] (member_json y @ concat (map (\<lambda>z. '','' @ member_json z) ys) @ CHR ''}'' # []) = Inr ([] @ y # ys, [])"
      by (rule members_render) (use wf Cons in \<open>auto simp: wf_values_def\<close>)
    moreover have "take_byte (CHR ''}'') (member_json y @ u) = (False, member_json y @ u)" for u
      by (simp add: member_json_def json_quote_def)
    moreover have "values_of v = v" using wf by (intro values_of_id) (auto simp: wf_values_def)
    ultimately show ?thesis using js unfolding DecodeJSON_def m by (simp add: Cons)
  qed
qed


text \<open>
  Property C27. The JSON form is a faithful, strict encoding: whatever \<open>NewValues\<close> accepts is read back from its JSON
  unchanged, within the size limit of the reader.
\<close>

theorem refs_json_roundtrip:
  assumes "NewValues m = Inr v"
  shows "DecodeJSON (MarshalJSON v) = Inr v"
  by (rule decode_rendered [OF assms])

lemma new_sample: "NewValues [(''c'', ''d''), (''a'', ''<b'')] = Inr [(''a'', ''<b''), (''c'', ''d'')]"
proof -
  have id: "validOpaqueID ''<b''" "validOpaqueID ''d''" by code_simp+
  have key: "validReferenceKey ''a''" "validReferenceKey ''c''" by code_simp+
  have "sorted_keys [(''c'', ''d''), (''a'', ''<b'')] = [''a'', ''c'']" by code_simp
  then show ?thesis using id key by (simp add: NewValues_def values_of_def MaxEntries_def)
qed

theorem refs_json_roundtrip_witness: "DecodeJSON (MarshalJSON [(''a'', ''<b''), (''c'', ''d'')]) = Inr [(''a'', ''<b''), (''c'', ''d'')]"
  by (rule refs_json_roundtrip [OF new_sample])

subsection \<open>Well-formed values\<close>

definition wf_entries :: "(string \<times> string) list \<Rightarrow> bool" where
  "wf_entries m \<longleftrightarrow> length m \<le> MaxEntries \<and> list_all (\<lambda>(k, x). validReferenceKey k \<and> validOpaqueID x) m"

lemma members_wf: "members entries s = Inr (es, t) \<Longrightarrow> wf_entries entries \<Longrightarrow> wf_entries es"
proof (induction entries s rule: members.induct)
  case (1 entries s)
  from 1(2) obtain key s1 s2 eid s3 where p: "stringValue s = Some (key, s1)" "validReferenceKey key" "map_of entries key = None"
    "length entries < MaxEntries" "take_byte (CHR '':'') s1 = (True, s2)" "stringValue s2 = Some (eid, s3)" "validOpaqueID eid"
    and r: "(case take_byte (CHR ''}'') s3 of (True, s4) \<Rightarrow> Inr (AList.update key eid entries, s4)
        | (False, s4) \<Rightarrow> (case take_byte (CHR '','') s4 of (False, _) \<Rightarrow> Inl (valueError ''invalid reference JSON object'')
            | (True, s5) \<Rightarrow> members (AList.update key eid entries) s5)) = Inr (es, t)"
    by (subst (asm) members.simps) (auto split: option.splits if_splits bool.splits prod.splits)
  have w: "wf_entries (AList.update key eid entries)"
    using 1(3) p(2,3,4,7) update_new [of key entries eid] by (auto simp: wf_entries_def map_of_eq_None_keys)
  obtain b s4 where 4: "take_byte (CHR ''}'') s3 = (b, s4)" by force
  show ?case
  proof (cases b)
    case True then show ?thesis using r w 4 by simp
  next
    case False
    then obtain s5 where 5: "take_byte (CHR '','') s4 = (True, s5)" "members (AList.update key eid entries) s5 = Inr (es, t)"
      using r 4 by (auto split: bool.splits prod.splits)
    show ?thesis
      using 1(1) [OF p(1) refl _ _ _ p(5) [symmetric] refl p(6) refl _ 4 [symmetric] _ 5(1) [symmetric] refl 5(2) w] p False by auto
  qed
qed

lemma wf_entries_values: "wf_entries m \<Longrightarrow> wf_values (values_of m)"
  by (rule values_of_wf) (auto simp: wf_entries_def list_all_iff dest!: map_of_SomeD)

text \<open>
  Property C28. No reader or constructor makes an ill-formed collection: a value accepted from JSON or built from a map
  has at most 64 entries with distinct, canonical keys in order and opaque ids free of spaces and control characters;
  a rejected document leaves the receiver as it was.
\<close>

theorem refs_values_wellformed:
  assumes "UnmarshalJSON (Some v) data = (err, Some v')" and "wf_values v"
  shows "wf_values v' \<and> (err \<noteq> None \<longrightarrow> v' = v) \<and> (\<forall>m w. NewValues m = Inr w \<longrightarrow> wf_values w)"
proof -
  have new: "wf_values w" if "NewValues m = Inr w" for m w
  proof -
    have "validReferenceKey k \<and> validOpaqueID x" if "map_of m k = Some x" for k x
      using \<open>NewValues m = Inr w\<close> that map_of_SomeD [OF that] by (force simp: NewValues_def list_all_iff split: if_splits)
    then show ?thesis using that values_of_wf [of m] by (auto simp: NewValues_def split: if_splits)
  qed
  have dec: "wf_values w" if d: "DecodeJSON data = Inr w" for w
  proof -
    obtain es where "w = values_of es" "es = [] \<or> (\<exists>s t. members [] s = Inr (es, t))"
      using d by (auto simp: DecodeJSON_def split: if_splits prod.splits bool.splits sum.splits)
    moreover have "wf_entries []" by (simp add: wf_entries_def)
    ultimately show ?thesis using members_wf wf_entries_values by metis
  qed
  show ?thesis using assms new dec by (auto simp: UnmarshalJSON_def split: sum.splits)
qed

theorem refs_values_wellformed_witness: "wf_values (the (snd (UnmarshalJSON (Some []) (MarshalJSON [(''a'', ''<b''), (''c'', ''d'')]))))"
proof -
  have "UnmarshalJSON (Some []) (MarshalJSON [(''a'', ''<b''), (''c'', ''d'')]) = (None, Some [(''a'', ''<b''), (''c'', ''d'')])"
    by (simp add: UnmarshalJSON_def decode_rendered [OF new_sample])
  from refs_values_wellformed [OF this] this show ?thesis by (simp add: wf_values_def)
qed

subsection \<open>schema.go\<close>

datatype Format = FormatOpaque | FormatUUID | FormatOther string

definition MaxTargetBytes :: nat where "MaxTargetBytes = 128"

record Definition =
  Key :: string
  Target :: string
  Format :: Format
  Required :: bool
  Immutable :: bool

record Spec =
  Domain :: string
  Resource :: string
  Version :: nat
  Definitions :: "Definition list"

text \<open>A schema holds the spec with its definitions sorted by key and the map of them; a nil or zero one is \<open>None\<close>.\<close>

record schema =
  rs_spec :: Spec
  rs_definitions :: "(string \<times> Definition) list"

definition validName :: "string \<Rightarrow> bool" where
  "validName name \<longleftrightarrow> length name \<le> MaxKeyBytes \<and> CHR ''.'' \<notin> set name \<and> validReferenceKey name"

definition validTarget :: "string \<Rightarrow> bool" where
  "validTarget target \<longleftrightarrow> length target \<le> MaxTargetBytes \<and>
     (let parts = split_on (CHR ''.'') target in length parts \<ge> 2 \<and> list_all validName parts)"

definition uuid_byte :: "nat \<Rightarrow> char \<Rightarrow> bool" where
  "uuid_byte i c \<longleftrightarrow> (if i \<in> {8, 13, 18, 23} then c = CHR ''-'' else is_digit c \<or> CHR ''a'' \<le> c \<and> c \<le> CHR ''f'')"

definition validUUID :: "string \<Rightarrow> bool" where
  "validUUID eid \<longleftrightarrow> length eid = 36 \<and> list_all (\<lambda>i. uuid_byte i (eid ! i)) [0..<36] \<and>
     list_ex (\<lambda>i. i \<notin> {8, 13, 18, 23} \<and> eid ! i \<noteq> CHR ''0'') [0..<36]"

text \<open>The loop over the definitions: the map so far, or the first error.\<close>

fun collect_definitions :: "(string \<times> Definition) list \<Rightarrow> Definition list \<Rightarrow> (gerr, (string \<times> Definition) list) result" where
  "collect_definitions m [] = Inr m"
| "collect_definitions m (d # ds) =
     (if \<not> validReferenceKey (Key d) \<or> \<not> validTarget (Target d) then
        Inl (schemaError ''refs definition requires a canonical key and namespaced target'')
      else if Format d \<noteq> FormatOpaque \<and> Format d \<noteq> FormatUUID then
        Inl (schemaError ''refs definition requires an explicit supported ID format'')
      else if map_of m (Key d) \<noteq> None then Inl (schemaError ''refs schema contains duplicate keys'')
      else collect_definitions (AList.update (Key d) d m) ds)"

definition NewSchema :: "Spec \<Rightarrow> (gerr, schema) result" where
  "NewSchema spec =
     (if \<not> validName (Domain spec) \<or> \<not> validName (Resource spec) \<or> Version spec = 0 then
        Inl (schemaError ''refs schema requires canonical domain/resource names and a nonzero version'')
      else if length (Definitions spec) > MaxEntries then Inl (schemaError ''refs schema has too many definitions'')
      else (case collect_definitions [] (Definitions spec) of
          Inl e \<Rightarrow> Inl e
        | Inr m \<Rightarrow> Inr \<lparr>rs_spec = spec\<lparr>Definitions := sort_key Key (Definitions spec)\<rparr>, rs_definitions = m\<rparr>))"

definition configured :: "schema option \<Rightarrow> bool" where
  "configured s = (case s of None \<Rightarrow> False | Some x \<Rightarrow> Version (rs_spec x) \<noteq> 0)"

definition Schema_Spec :: "schema option \<Rightarrow> Spec" where
  "Schema_Spec s = (case s of
     Some x \<Rightarrow> if configured s then rs_spec x else \<lparr>Domain = [], Resource = [], Version = 0, Definitions = []\<rparr>
   | None \<Rightarrow> \<lparr>Domain = [], Resource = [], Version = 0, Definitions = []\<rparr>)"

definition check_entry :: "schema \<Rightarrow> string \<times> string \<Rightarrow> gerr option" where
  "check_entry s x = (case map_of (rs_definitions s) (fst x) of
     None \<Rightarrow> Some (referenceError CodeUnknownReference ''reference is not declared by the resource schema'' (fst x))
   | Some d \<Rightarrow> if \<not> validOpaqueID (snd x) \<or> Format d = FormatUUID \<and> \<not> validUUID (snd x)
       then Some (referenceError CodeInvalidID ''reference ID does not match its declared format'' (fst x)) else None)"

definition check_required :: "ref_values \<Rightarrow> Definition \<Rightarrow> gerr option" where
  "check_required v d = (if Required d \<and> map_of v (Key d) = None
     then Some (referenceError CodeRequiredReference ''required reference is missing'' (Key d)) else None)"

definition schema_validate :: "schema option \<Rightarrow> ref_values \<Rightarrow> bool \<Rightarrow> gerr option" where
  "schema_validate s v requireAll = (case s of
     None \<Rightarrow> Some (schemaError ''refs schema is not configured'')
   | Some x \<Rightarrow> if \<not> configured s then Some (schemaError ''refs schema is not configured'')
       else (case first_error (check_entry x) (values_of (Map v)) of
           Some e \<Rightarrow> Some e
         | None \<Rightarrow> if requireAll then first_error (check_required v) (Definitions (rs_spec x)) else None))"

definition Validate :: "schema option \<Rightarrow> ref_values \<Rightarrow> gerr option" where
  "Validate s v = schema_validate s v True"

definition ValidateFilter :: "schema option \<Rightarrow> ref_values \<Rightarrow> gerr option" where
  "ValidateFilter s v = schema_validate s v False"

definition Schema_DecodeJSON :: "schema option \<Rightarrow> string \<Rightarrow> (gerr, ref_values) result" where
  "Schema_DecodeJSON s data =
     (if \<not> configured s then Inl (schemaError ''refs schema is not configured'')
      else (case DecodeJSON data of Inl e \<Rightarrow> Inl e
        | Inr v \<Rightarrow> (case Validate s v of Some e \<Rightarrow> Inl e | None \<Rightarrow> Inr v)))"

definition check_immutable :: "ref_values \<Rightarrow> ref_values \<Rightarrow> Definition \<Rightarrow> gerr option" where
  "check_immutable before after d =
     (if \<not> Immutable d then None
      else (case Get before (Key d) of
          None \<Rightarrow> None
        | Some previous \<Rightarrow> if Get after (Key d) \<noteq> Some previous
            then Some (referenceError CodeImmutableReference ''reference cannot be changed or removed'' (Key d)) else None))"

definition ValidateUpdate :: "schema option \<Rightarrow> ref_values \<Rightarrow> ref_values \<Rightarrow> gerr option" where
  "ValidateUpdate s before after = (case Validate s before of
     Some e \<Rightarrow> Some e
   | None \<Rightarrow> (case Validate s after of
       Some e \<Rightarrow> Some e
     | None \<Rightarrow> (case s of None \<Rightarrow> None | Some x \<Rightarrow> first_error (check_immutable before after) (Definitions (rs_spec x)))))"

subsection \<open>What a schema guarantees\<close>

lemma collect_definitions_spec:
  "collect_definitions m ds = Inr m' \<Longrightarrow> distinct (map fst m) \<Longrightarrow>
   distinct (map Key ds) \<and> fst ` set m \<inter> Key ` set ds = {} \<and>
   (\<forall>k. map_of m' k = (case map_of m k of Some d \<Rightarrow> Some d | None \<Rightarrow> find (\<lambda>d. Key d = k) ds)) \<and>
   list_all (\<lambda>d. validReferenceKey (Key d) \<and> validTarget (Target d) \<and> (Format d = FormatOpaque \<or> Format d = FormatUUID)) ds"
proof (induction ds arbitrary: m)
  case Nil then show ?case by (auto split: option.split)
next
  case (Cons d ds)
  then have c: "validReferenceKey (Key d)" "validTarget (Target d)" "Format d = FormatOpaque \<or> Format d = FormatUUID"
    "collect_definitions (AList.update (Key d) d m) ds = Inr m'"
    by (simp_all split: if_splits)
  have "map_of m (Key d) = None" using Cons.prems(1) by (cases "map_of m (Key d)") (auto split: if_splits)
  then have k: "map_of m (Key d) = None" "Key d \<notin> fst ` set m" by (simp_all add: map_of_eq_None_keys)
  from Cons.IH [OF c(4) distinct_update [OF Cons.prems(2)]] show ?case
    using c k by (auto split: option.splits)
qed

text \<open>A definition declares its key in the schema.\<close>

definition declares_ref :: "schema \<Rightarrow> Definition \<Rightarrow> bool" where
  "declares_ref s d \<longleftrightarrow> d \<in> set (Definitions (rs_spec s))"

lemma schema_lookup:
  assumes "NewSchema spec = Inr s"
  shows "map_of (rs_definitions s) k = Some d \<longleftrightarrow> declares_ref s d \<and> Key d = k"
    and "Version (rs_spec s) \<noteq> 0" and "set (Definitions (rs_spec s)) = set (Definitions spec)"
proof -
  obtain m where c: "collect_definitions [] (Definitions spec) = Inr m" "Version spec \<noteq> 0"
    "s = \<lparr>rs_spec = spec\<lparr>Definitions := sort_key Key (Definitions spec)\<rparr>, rs_definitions = m\<rparr>"
    using assms by (auto simp: NewSchema_def split: if_splits sum.splits)
  have spec: "distinct (map Key (Definitions spec))" "map_of m k = find (\<lambda>d. Key d = k) (Definitions spec)" for k
    using collect_definitions_spec [OF c(1)] by auto
  have "find (\<lambda>d. Key d = k) ds = Some d \<longleftrightarrow> d \<in> set ds \<and> Key d = k" if "distinct (map Key ds)" for ds
    using that by (induction ds) auto
  then show "map_of (rs_definitions s) k = Some d \<longleftrightarrow> declares_ref s d \<and> Key d = k"
    using spec c(3) by (simp add: declares_ref_def)
  show "Version (rs_spec s) \<noteq> 0" "set (Definitions (rs_spec s)) = set (Definitions spec)" using c by simp_all
qed

text \<open>The specification of a valid snapshot, over the schema as declared.\<close>

definition snapshot_ok :: "Spec \<Rightarrow> bool \<Rightarrow> ref_values \<Rightarrow> bool" where
  "snapshot_ok spec full v \<longleftrightarrow>
     (\<forall>k x. Get v k = Some x \<longrightarrow> (\<exists>d\<in>set (Definitions spec). Key d = k \<and> validOpaqueID x \<and> (Format d = FormatUUID \<longrightarrow> validUUID x))) \<and>
     (full \<longrightarrow> (\<forall>d\<in>set (Definitions spec). Required d \<longrightarrow> Get v (Key d) \<noteq> None))"

lemma validate_exact:
  assumes s: "NewSchema spec = Inr s" and v: "wf_values v"
  shows "schema_validate (Some s) v full = None \<longleftrightarrow> snapshot_ok spec full v"
proof -
  have vv: "values_of v = v" using v by (intro values_of_id) (auto simp: wf_values_def)
  have mem: "(k, x) \<in> set v \<longleftrightarrow> Get v k = Some x" for k x
    using v by (simp add: wf_values_def Get_def)
  note look = schema_lookup [OF s]
  have chk: "check_entry s (k, x) = None \<longleftrightarrow> (\<exists>d\<in>set (Definitions spec). Key d = k \<and> validOpaqueID x \<and> (Format d = FormatUUID \<longrightarrow> validUUID x))" for k x
  proof -
    have "check_entry s (k, x) = None \<longleftrightarrow>
        (\<exists>d. map_of (rs_definitions s) k = Some d \<and> validOpaqueID x \<and> (Format d = FormatUUID \<longrightarrow> validUUID x))"
      by (cases "map_of (rs_definitions s) k") (simp_all add: check_entry_def)
    then show ?thesis unfolding look(1) declares_ref_def look(3) by (simp only: Bex_def conj_assoc)
  qed
  have "first_error (check_entry s) v = None \<longleftrightarrow>
      (\<forall>k x. Get v k = Some x \<longrightarrow> (\<exists>d\<in>set (Definitions spec). Key d = k \<and> validOpaqueID x \<and> (Format d = FormatUUID \<longrightarrow> validUUID x)))"
    by (simp only: first_error_None_iff Ball_def [of "set v"] split_paired_All mem chk)
  moreover have "first_error (check_required v) (Definitions (rs_spec s)) = None \<longleftrightarrow>
      (\<forall>d\<in>set (Definitions spec). Required d \<longrightarrow> Get v (Key d) \<noteq> None)"
    by (auto simp: first_error_None_iff look(3) check_required_def Get_def)
  ultimately show ?thesis using look(2)
    by (auto simp: schema_validate_def configured_def Map_def vv snapshot_ok_def split: option.split)
qed


text \<open>
  Property C29. A schema decides full snapshots and partial filters exactly as declared: every present key is declared
  and its id is opaque and of the declared format, and a full snapshot also has every required reference. Sorting the
  definitions and the order of the checks make no difference, and a schema that could not be built decides nothing.
\<close>

theorem refs_validate_exact:
  assumes "NewSchema spec = Inr s" and "wf_values v"
  shows "(Validate (Some s) v = None \<longleftrightarrow> snapshot_ok spec True v) \<and> (ValidateFilter (Some s) v = None \<longleftrightarrow> snapshot_ok spec False v)"
  using validate_exact [OF assms] by (simp add: Validate_def ValidateFilter_def)

definition order_spec :: Spec where
  "order_spec = \<lparr>Domain = ''sales'', Resource = ''order'', Version = 1, Definitions =
     [\<lparr>Key = ''b'', Target = ''pay.acct'', Format = FormatOpaque, Required = True, Immutable = True\<rparr>,
      \<lparr>Key = ''a'', Target = ''crm.user'', Format = FormatOpaque, Required = False, Immutable = False\<rparr>]\<rparr>"

definition order_schema :: schema where
  "order_schema = (case NewSchema order_spec of Inr s \<Rightarrow> s | Inl e \<Rightarrow> undefined)"

lemma order_schema: "NewSchema order_spec = Inr order_schema"
proof -
  have "is_ok (NewSchema order_spec)" by code_simp
  then show ?thesis by (auto simp: order_schema_def split: sum.split)
qed

lemma order_values: "wf_values [(''a'', ''<b'')]" "snapshot_ok order_spec False [(''a'', ''<b'')]" "\<not> snapshot_ok order_spec True [(''a'', ''<b'')]"
proof -
  have id: "validOpaqueID ''<b''" "validReferenceKey ''a''" by code_simp+
  then show "wf_values [(''a'', ''<b'')]" by (simp add: wf_values_def MaxEntries_def)
  show "snapshot_ok order_spec False [(''a'', ''<b'')]" "\<not> snapshot_ok order_spec True [(''a'', ''<b'')]"
    using id by (simp_all add: snapshot_ok_def order_spec_def Get_def)
qed

theorem refs_validate_exact_witness:
  "Validate (Some order_schema) [(''a'', ''<b'')] \<noteq> None \<and> ValidateFilter (Some order_schema) [(''a'', ''<b'')] = None"
  using refs_validate_exact [OF order_schema order_values(1)] order_values by simp

text \<open>Updates form steps; an immutable reference, once set, is a fact no accepted update can undo.\<close>

definition update_step :: "schema option \<Rightarrow> ref_values \<Rightarrow> ref_values \<Rightarrow> bool" where
  "update_step s before after \<longleftrightarrow> ValidateUpdate s before after = None"

definition fixed_ref :: "schema option \<Rightarrow> string \<times> string \<Rightarrow> ref_values \<Rightarrow> bool" where
  "fixed_ref s x v \<longleftrightarrow> (case s of None \<Rightarrow> False
     | Some y \<Rightarrow> list_ex (\<lambda>d. Immutable d \<and> Key d = fst x) (Definitions (rs_spec y))) \<and> Get v (fst x) = Some (snd x)"

lemma update_keeps_fixed: "update_step s v w \<Longrightarrow> fixed_ref s x v \<Longrightarrow> fixed_ref s x w"
  by (auto simp: update_step_def ValidateUpdate_def fixed_ref_def first_error_None_iff check_immutable_def list_ex_iff
      split: option.splits if_splits)

interpretation immutable_refs: stable_fact "update_step s" "fixed_ref s" for s
  by unfold_locales (rule update_keeps_fixed)

text \<open>
  Property C30. An immutable reference is written at most once: through any sequence of accepted updates a reference
  that was set keeps its id, and each accepted update ends in a valid snapshot.
\<close>

theorem refs_immutable_once:
  assumes s: "NewSchema spec = Inr s" and steps: "(update_step (Some s))\<^sup>*\<^sup>* v w" and d: "d \<in> set (Definitions spec)"
    and imm: "Immutable d" and set: "Get v (Key d) = Some x"
  shows "Get w (Key d) = Some x \<and> (v = w \<or> Validate (Some s) w = None)"
proof -
  have "fixed_ref (Some s) (Key d, x) v"
    using d imm set schema_lookup(3) [OF s] by (auto simp: fixed_ref_def list_ex_iff)
  from immutable_refs.stable_steps [OF steps this] have "Get w (Key d) = Some x" by (simp add: fixed_ref_def)
  moreover have "v = w \<or> Validate (Some s) w = None"
    using steps by (cases rule: rtranclp.cases) (auto simp: update_step_def ValidateUpdate_def split: option.splits)
  ultimately show ?thesis by blast
qed

theorem refs_immutable_once_witness:
  "Get [(''b'', ''<b'')] ''b'' = Some ''<b'' \<and> update_step (Some order_schema) [(''b'', ''<b'')] [(''b'', ''<b'')]"
proof -
  have id: "validOpaqueID ''<b''" "validReferenceKey ''b''" by code_simp+
  then have wf: "wf_values [(''b'', ''<b'')]" by (simp add: wf_values_def MaxEntries_def)
  have "snapshot_ok order_spec True [(''b'', ''<b'')]" using id by (simp add: snapshot_ok_def order_spec_def Get_def)
  then have "Validate (Some order_schema) [(''b'', ''<b'')] = None"
    using validate_exact [OF order_schema wf] by (simp add: Validate_def)
  then have u: "update_step (Some order_schema) [(''b'', ''<b'')] [(''b'', ''<b'')]"
    by (auto simp: update_step_def ValidateUpdate_def first_error_None_iff check_immutable_def split: option.split)
  have "hd (Definitions order_spec) \<in> set (Definitions order_spec)" "Immutable (hd (Definitions order_spec))"
    "Key (hd (Definitions order_spec)) = ''b''" by (simp_all add: order_spec_def)
  with refs_immutable_once [OF order_schema r_into_rtranclp [where r = "update_step (Some order_schema)", OF u] this(1,2), of "''<b''"] u show ?thesis by (simp add: Get_def)
qed

end
