(* ===== verification/Contract_Stream.thy ===== *)
theory Contract_Stream
  imports Call_Context Leases
begin

text \<open>
  In-process contract streams (contract/stream.go): the session with its single terminal error, the bounded queue of a
  direction, and the operations of the endpoints. A Go \<open>select\<close> is a function of the arm it takes, one of the arms
  that are ready; a blocked operation stays at its select. Spans and metrics are not modelled, nor is the idle clock
  (that it has run out is an event of the environment).
\<close>

record StreamConfig =
  MaxDuration :: int
  IdleTimeout :: int
  CloseTimeout :: int
  QueueSize :: int

definition ErrEOF :: gerr where "ErrEOF = Leaf ''EOF''"
definition is_eof :: "gerr \<Rightarrow> bool" where "is_eof e \<longleftrightarrow> err_is ''EOF'' e"
definition errStreamIdle :: gerr where "errStreamIdle = Leaf ''stream idle timeout''"
definition errConcurrentSend :: gerr where "errConcurrentSend = Conflict ''stream permits only one concurrent Send''"
definition errConcurrentRecv :: gerr where "errConcurrentRecv = Conflict ''stream permits only one concurrent Recv''"
definition errSendSideClosed :: gerr where "errSendSideClosed = Conflict ''stream send side is closed''"

definition validateStreamConfig :: "StreamConfig \<Rightarrow> gerr option" where
  "validateStreamConfig cfg =
     (if MaxDuration cfg \<le> 0 then Some (InvalidArgument ''contract stream: MaxDuration must be positive'')
      else if IdleTimeout cfg < 0 then Some (InvalidArgument ''contract stream: IdleTimeout must not be negative'')
      else if CloseTimeout cfg \<le> 0 then Some (InvalidArgument ''contract stream: CloseTimeout must be positive'')
      else if QueueSize cfg < 0 then Some (InvalidArgument ''contract stream: QueueSize must not be negative'')
      else None)"

subsection \<open>The session\<close>

text \<open>\<open>s_terminal\<close> is set with the closing of \<open>done\<close>; \<open>s_ctx\<close> is the error of the stream's context.\<close>

record session =
  s_terminal :: "gerr option"
  s_ctx :: "ctx_err option"
  s_forced :: bool
  s_timedOut :: bool

definition new_session :: session where
  "new_session = \<lparr>s_terminal = None, s_ctx = None, s_forced = False, s_timedOut = False\<rparr>"

definition finishWithTimeout :: "gerr option \<Rightarrow> bool \<Rightarrow> session \<Rightarrow> session" where
  "finishWithTimeout err timedOut s = (if s_terminal s \<noteq> None then s
     else (let e = (case err of
             None \<Rightarrow> (case s_ctx s of Some c \<Rightarrow> normalize (s_ctx s) (ctx_error c) | None \<Rightarrow> ErrEOF)
           | Some x \<Rightarrow> if is_eof x then (case s_ctx s of Some c \<Rightarrow> normalize (s_ctx s) (ctx_error c) | None \<Rightarrow> ErrEOF)
               else normalize (s_ctx s) x)
       in s\<lparr>s_terminal := Some e, s_timedOut := timedOut,
            s_ctx := (case s_ctx s of None \<Rightarrow> Some CtxCanceled | Some c \<Rightarrow> Some c)\<rparr>))"

definition finish :: "gerr option \<Rightarrow> session \<Rightarrow> session" where "finish err s = finishWithTimeout err False s"
definition finishTimeout :: "gerr \<Rightarrow> session \<Rightarrow> session" where "finishTimeout err s = finishWithTimeout (Some err) True s"

text \<open>The reaction to the end of the stream's context, wherever an operation or the watcher sees it.\<close>

definition finish_ctx :: "session \<Rightarrow> session" where
  "finish_ctx s = (case s_ctx s of None \<Rightarrow> s | Some c \<Rightarrow> finish (Some (normalize (s_ctx s) (ctx_error c))) s)"

definition currentTerminal :: "session \<Rightarrow> gerr option \<times> session" where
  "currentTerminal s = (if s_terminal s \<noteq> None then (s_terminal s, s)
     else if s_ctx s \<noteq> None then (let s' = finish_ctx s in (s_terminal s', s'))
     else (None, s))"

text \<open>The watcher: the context ended, or the idle time is over (\<open>idle\<close>: since the last activity it has run out).\<close>

definition watch :: "int \<Rightarrow> bool \<Rightarrow> session \<Rightarrow> session" where
  "watch idleTimeout idle s = (if s_ctx s \<noteq> None then finish_ctx s
     else if idleTimeout > 0 \<and> idle then finishTimeout (Unavailable (Some errStreamIdle)) s
     else s)"

subsection \<open>A direction\<close>

record 'a direction =
  d_queue :: "'a list"
  d_cap :: nat
  d_closed :: bool
  d_busy :: bool

definition newStreamDirection :: "nat \<Rightarrow> 'a direction" where
  "newStreamDirection capacity = \<lparr>d_queue = [], d_cap = capacity, d_closed = False, d_busy = False\<rparr>"

definition send_begin :: "'a direction \<Rightarrow> (gerr, 'a direction) result" where
  "send_begin d = (if d_closed d then Inl errSendSideClosed
     else if d_busy d then Inl errConcurrentSend
     else Inr (d\<lparr>d_busy := True\<rparr>))"

definition send_end :: "'a direction \<Rightarrow> 'a direction" where "send_end d = d\<lparr>d_busy := False\<rparr>"

text \<open>The context of one operation: nil, or its error if any.\<close>

type_synonym op_ctx = "ctx_err option option"

definition op_error :: "ctx_err \<Rightarrow> gerr" where "op_error c = normalize (Some c) (ctx_error c)"

datatype 'r answer = Returned 'r | AtSelect

text \<open>\<open>Send\<close> up to its select, where it holds the send side.\<close>

definition Send_start :: "op_ctx \<Rightarrow> 'a direction \<Rightarrow> session \<Rightarrow> gerr option answer \<times> 'a direction \<times> session" where
  "Send_start c d s = (case c of
     None \<Rightarrow> (Returned (Some (InvalidArgument ''contract stream: Send context must not be nil'')), d, s)
   | Some (Some e) \<Rightarrow> (Returned (Some (op_error e)), d, s)
   | Some None \<Rightarrow> (case send_begin d of
       Inl e \<Rightarrow> (Returned (Some (from_err e)), d, s)
     | Inr d' \<Rightarrow> (case currentTerminal s of
         (Some e, s') \<Rightarrow> (Returned (Some e), send_end d', s')
       | (None, s') \<Rightarrow> (AtSelect, d', s'))))"

datatype arm = ArmOp ctx_err | ArmDone | ArmSession | ArmForce | ArmClosed | ArmQueue

text \<open>
  Which arms of the select are ready, for a sender and for a receiver. \<open>peer\<close>: a receiver (a sender) is at its select
  too, so that the message is handed over even through a channel without room.
\<close>

definition send_ready :: "arm \<Rightarrow> bool \<Rightarrow> 'a direction \<Rightarrow> session \<Rightarrow> bool" where
  "send_ready a peer d s = (case a of
     ArmOp c \<Rightarrow> True
   | ArmDone \<Rightarrow> s_terminal s \<noteq> None
   | ArmSession \<Rightarrow> s_ctx s \<noteq> None
   | ArmForce \<Rightarrow> s_forced s
   | ArmClosed \<Rightarrow> d_closed d
   | ArmQueue \<Rightarrow> length (d_queue d) < d_cap d \<or> peer)"

definition Send_select :: "arm \<Rightarrow> 'a \<Rightarrow> 'a direction \<Rightarrow> session \<Rightarrow> gerr option \<times> 'a direction \<times> session" where
  "Send_select a v d s = (case a of
     ArmOp c \<Rightarrow> (Some (op_error c), send_end d, s)
   | ArmDone \<Rightarrow> (s_terminal s, send_end d, s)
   | ArmSession \<Rightarrow> (let s' = finish_ctx s in (s_terminal s', send_end d, s'))
   | ArmForce \<Rightarrow> (s_terminal s, send_end d, s)
   | ArmClosed \<Rightarrow> (Some (from_err errSendSideClosed), send_end d, s)
   | ArmQueue \<Rightarrow> (None, send_end (d\<lparr>d_queue := d_queue d @ [v]\<rparr>), s))"

text \<open>\<open>Recv\<close>: its entry, the top of its loop, and its select. \<open>busy\<close> is the gate of the endpoint.\<close>

definition Recv_start :: "op_ctx \<Rightarrow> bool \<Rightarrow> gerr option answer \<times> bool" where
  "Recv_start c busy = (case c of
     None \<Rightarrow> (Returned (Some (InvalidArgument ''contract stream: Recv context must not be nil'')), busy)
   | Some x \<Rightarrow> if busy then (Returned (Some (from_err errConcurrentRecv)), busy)
       else (case x of Some e \<Rightarrow> (Returned (Some (op_error e)), False) | None \<Rightarrow> (AtSelect, True)))"

definition Recv_poll :: "'a direction \<Rightarrow> session \<Rightarrow> (gerr, 'a) result answer \<times> 'a direction" where
  "Recv_poll d s = (case d_queue d of
     v # q \<Rightarrow> (Returned (Inr v), d\<lparr>d_queue := q\<rparr>)
   | [] \<Rightarrow> (case s_terminal s of Some e \<Rightarrow> (Returned (Inl e), d) | None \<Rightarrow> (AtSelect, d)))"

definition recv_ready :: "arm \<Rightarrow> bool \<Rightarrow> 'a direction \<Rightarrow> session \<Rightarrow> bool" where
  "recv_ready a peer d s = (case a of
     ArmQueue \<Rightarrow> d_queue d \<noteq> [] \<or> peer
   | _ \<Rightarrow> send_ready a peer d s)"

text \<open>The select; \<open>AtSelect\<close> stands for \<open>continue\<close>, back to the top of the loop.\<close>

definition Recv_select :: "arm \<Rightarrow> 'a direction \<Rightarrow> session \<Rightarrow> (gerr, 'a) result answer \<times> 'a direction \<times> session" where
  "Recv_select a d s = (case a of
     ArmQueue \<Rightarrow> (case d_queue d of v # q \<Rightarrow> (Returned (Inr v), d\<lparr>d_queue := q\<rparr>, s) | [] \<Rightarrow> (AtSelect, d, s))
   | ArmClosed \<Rightarrow> (case d_queue d of v # q \<Rightarrow> (Returned (Inr v), d\<lparr>d_queue := q\<rparr>, s) | [] \<Rightarrow> (Returned (Inl ErrEOF), d, s))
   | ArmOp c \<Rightarrow> (Returned (Inl (op_error c)), d, s)
   | ArmDone \<Rightarrow> (AtSelect, d, s)
   | ArmSession \<Rightarrow> (AtSelect, d, finish_ctx s)
   | ArmForce \<Rightarrow> (AtSelect, d, s))"

text \<open>One turn of \<open>closeSend\<close>, called from \<open>CloseSend\<close>; its select waits for the active send to end.\<close>

definition closeSend_turn :: "ctx_err option \<Rightarrow> 'a direction \<Rightarrow> session \<Rightarrow> gerr option answer \<times> 'a direction \<times> session" where
  "closeSend_turn c d s = (case currentTerminal s of
     (Some e, s') \<Rightarrow> (Returned (Some e), d, s')
   | (None, s') \<Rightarrow>
       if d_closed d then (Returned None, d, s')
       else (case c of
           Some e \<Rightarrow> (Returned (Some (op_error e)), d, s')
         | None \<Rightarrow> if \<not> d_busy d then (Returned None, d\<lparr>d_closed := True\<rparr>, s') else (AtSelect, d, s')))"

text \<open>The arms of that select; \<open>CloseChanged\<close> is the signal that the active send has ended, and goes back to the top.\<close>

datatype close_arm = CloseChanged | CloseOp ctx_err | CloseDone | CloseSession | CloseForce

definition closeSend_select :: "close_arm \<Rightarrow> session \<Rightarrow> gerr option answer \<times> session" where
  "closeSend_select a s = (case a of
     CloseChanged \<Rightarrow> (AtSelect, s)
   | CloseOp c \<Rightarrow> (Returned (Some (op_error c)), s)
   | CloseDone \<Rightarrow> (Returned (s_terminal s), s)
   | CloseSession \<Rightarrow> (let s' = finish_ctx s in (Returned (s_terminal s'), s'))
   | CloseForce \<Rightarrow> (Returned (s_terminal s), s))"

definition close_ready :: "close_arm \<Rightarrow> session \<Rightarrow> bool" where
  "close_ready a s = (case a of
     CloseDone \<Rightarrow> s_terminal s \<noteq> None
   | CloseSession \<Rightarrow> s_ctx s \<noteq> None
   | CloseForce \<Rightarrow> s_forced s
   | _ \<Rightarrow> True)"

definition CloseSend :: "op_ctx \<Rightarrow> 'a direction \<Rightarrow> session \<Rightarrow> gerr option answer \<times> 'a direction \<times> session" where
  "CloseSend c d s = (case c of
     None \<Rightarrow> (Returned (Some (InvalidArgument ''contract stream: CloseSend context must not be nil'')), d, s)
   | Some x \<Rightarrow> closeSend_turn x d s)"

text \<open>
  \<open>Close\<close>: end the session, then wait for the handler and the watcher or for the close budget. \<open>stopped\<close>: both were
  seen to be done within the budget; \<open>budget\<close> is the rendered duration.
\<close>

definition close_begin :: "session \<Rightarrow> session" where
  "close_begin s = (if s_terminal s = None then finish (Some (Unavailable (Some (ctx_error CtxCanceled)))) s else s)"

definition closeBounded :: "string \<Rightarrow> bool \<Rightarrow> session \<Rightarrow> gerr option \<times> session" where
  "closeBounded budget stopped s = (let s = close_begin s in
     if stopped then (None, s)
     else (Some (Unavailable (Some (Wrap (''local producer did not stop within '' @ budget) (ctx_error CtxDeadlineExceeded)))), s\<lparr>s_forced := True\<rparr>))"

subsection \<open>Opening\<close>

text \<open>What \<open>OpenLocal\<close> starts: the context of the handler, the session and the two directions.\<close>

record ('a, 'b) opened =
  op_ctx :: ctx
  op_session :: session
  op_requests :: "'a direction"
  op_responses :: "'b direction"

definition OpenLocal :: "int \<Rightarrow> ctx option \<Rightarrow> string \<Rightarrow> string \<Rightarrow> StreamConfig \<Rightarrow> bool \<Rightarrow> (gerr, ('a, 'b) opened) result" where
  "OpenLocal now c system method cfg has_handler = (case c of
     None \<Rightarrow> Inl (InvalidArgument ''contract stream: context must not be nil'')
   | Some c \<Rightarrow>
       if HasTx c then Inl (with_detail ''method'' (DStr method) (with_detail ''system'' (DStr system) errTxBoundary))
       else (case c_err c of
           Some e \<Rightarrow> Inl (with_detail ''method'' (DStr method) (with_detail ''system'' (DStr system) (Unavailable (Some (ctx_error e)))))
         | None \<Rightarrow> (case validateStreamConfig cfg of
             Some e \<Rightarrow> Inl e
           | None \<Rightarrow> if \<not> has_handler then Inl (InvalidArgument ''contract stream: handler must not be nil'')
               else Inr \<lparr>op_ctx = with_timeout now (Firewall c) (MaxDuration cfg), op_session = new_session,
                  op_requests = newStreamDirection (nat (QueueSize cfg)), op_responses = newStreamDirection (nat (QueueSize cfg))\<rparr>)))"

subsection \<open>A direction at work\<close>

text \<open>
  One direction with its sender, its receiver and the session shared with everything else. \<open>f_sending\<close>: the message
  of the send at its select; \<open>f_recvBusy\<close>, \<open>f_atSelect\<close>: a receive is running, and is at its select. \<open>f_log\<close> is what the
  callers have seen: each answer of \<open>Send\<close>, \<open>Recv\<close> and \<open>CloseSend\<close>, exactly as the operation returned it.
\<close>

datatype 'a outcome = Sent 'a "gerr option" | Received "(gerr, 'a) result" | HalfClosed "gerr option"

record 'a flow =
  f_dir :: "'a direction"
  f_sess :: session
  f_sending :: "'a option"
  f_recvBusy :: bool
  f_atSelect :: bool
  f_log :: "'a outcome list"

definition new_flow :: "nat \<Rightarrow> 'a flow" where
  "new_flow cap = \<lparr>f_dir = newStreamDirection cap, f_sess = new_session, f_sending = None, f_recvBusy = False,
     f_atSelect = False, f_log = []\<rparr>"

text \<open>The messages of the sends that answered nil, and those that receives have returned.\<close>

definition confirmed :: "'a outcome list \<Rightarrow> 'a list" where
  "confirmed l = concat (map (\<lambda>x. case x of Sent v None \<Rightarrow> [v] | _ \<Rightarrow> []) l)"

definition received :: "'a outcome list \<Rightarrow> 'a list" where
  "received l = concat (map (\<lambda>x. case x of Received (Inr v) \<Rightarrow> [v] | _ \<Rightarrow> []) l)"

lemma confirmed_simps [simp]: "confirmed [] = []" "confirmed (l @ l') = confirmed l @ confirmed l'"
  "confirmed (Sent v e # l) = (if e = None then v # confirmed l else confirmed l)" "confirmed (Received r # l) = confirmed l"
  "confirmed (HalfClosed e # l) = confirmed l"
  by (simp_all add: confirmed_def split: option.split)

lemma received_simps [simp]: "received [] = []" "received (l @ l') = received l @ received l'"
  "received (Sent v e # l) = received l" "received (Received (Inr v) # l) = v # received l" "received (Received (Inl r) # l) = received l"
  "received (HalfClosed e # l) = received l"
  by (simp_all add: received_def)

text \<open>What everything outside the direction does to the session.\<close>

inductive session_step :: "session \<Rightarrow> session \<Rightarrow> bool" where
  ss_ctx: "s_ctx s = None \<Longrightarrow> session_step s (s\<lparr>s_ctx := Some c\<rparr>)"
| ss_finish: "session_step s (finish err s)"
| ss_watch: "session_step s (watch t idle s)"
| ss_close: "session_step s (close_begin s)"
| ss_closed: "session_step s (snd (closeBounded budget stopped s))"

text \<open>A receive that answers is over; one that does not has moved to its select, or back to the top of its loop.\<close>

definition after_recv :: "(gerr, 'a) result answer \<Rightarrow> bool \<Rightarrow> 'a flow \<Rightarrow> 'a flow" where
  "after_recv ans waiting w = (case ans of
     AtSelect \<Rightarrow> w\<lparr>f_atSelect := waiting\<rparr>
   | Returned r \<Rightarrow> w\<lparr>f_recvBusy := False, f_atSelect := False, f_log := f_log w @ [Received r]\<rparr>)"

definition after_close :: "gerr option answer \<Rightarrow> 'a flow \<Rightarrow> 'a flow" where
  "after_close ans w = (case ans of AtSelect \<Rightarrow> w | Returned e \<Rightarrow> w\<lparr>f_log := f_log w @ [HalfClosed e]\<rparr>)"

text \<open>
  The two hand-overs are a channel without room: the message of a sender at its select goes straight to a receiver at
  its select, or to the non-blocking receive at the top of its loop.
\<close>

inductive flow_step :: "'a flow \<Rightarrow> 'a flow \<Rightarrow> bool" where
  fs_send_start: "Send_start c (f_dir w) (f_sess w) = (AtSelect, d, s) \<Longrightarrow>
    flow_step w (w\<lparr>f_dir := d, f_sess := s, f_sending := Some v\<rparr>)"
| fs_send_refused: "Send_start c (f_dir w) (f_sess w) = (Returned e, d, s) \<Longrightarrow>
    flow_step w (w\<lparr>f_dir := d, f_sess := s, f_log := f_log w @ [Sent v e]\<rparr>)"
| fs_send_select: "f_sending w = Some v \<Longrightarrow> send_ready a False (f_dir w) (f_sess w) \<Longrightarrow>
    Send_select a v (f_dir w) (f_sess w) = (e, d, s) \<Longrightarrow>
    flow_step w (w\<lparr>f_dir := d, f_sess := s, f_sending := None, f_log := f_log w @ [Sent v e]\<rparr>)"
| fs_handover: "f_sending w = Some v \<Longrightarrow> f_atSelect w \<Longrightarrow> d_queue (f_dir w) = [] \<Longrightarrow>
    Send_select ArmQueue v (f_dir w) (f_sess w) = (e, d, s) \<Longrightarrow> Recv_select ArmQueue d s = (ans, d', s') \<Longrightarrow>
    flow_step w (after_recv ans False (w\<lparr>f_dir := d', f_sess := s', f_sending := None, f_log := f_log w @ [Sent v e]\<rparr>))"
| fs_poll_handover: "f_sending w = Some v \<Longrightarrow> f_recvBusy w \<Longrightarrow> \<not> f_atSelect w \<Longrightarrow> d_queue (f_dir w) = [] \<Longrightarrow>
    Send_select ArmQueue v (f_dir w) (f_sess w) = (e, d, s) \<Longrightarrow> Recv_poll d s = (ans, d') \<Longrightarrow>
    flow_step w (after_recv ans True (w\<lparr>f_dir := d', f_sess := s, f_sending := None, f_log := f_log w @ [Sent v e]\<rparr>))"
| fs_recv_start: "Recv_start c (f_recvBusy w) = (AtSelect, b) \<Longrightarrow> flow_step w (w\<lparr>f_recvBusy := b, f_atSelect := False\<rparr>)"
| fs_recv_refused: "Recv_start c (f_recvBusy w) = (Returned (Some e), b) \<Longrightarrow> flow_step w (w\<lparr>f_log := f_log w @ [Received (Inl e)]\<rparr>)"
| fs_recv_poll: "f_recvBusy w \<Longrightarrow> \<not> f_atSelect w \<Longrightarrow> Recv_poll (f_dir w) (f_sess w) = (ans, d) \<Longrightarrow>
    flow_step w (after_recv ans True (w\<lparr>f_dir := d\<rparr>))"
| fs_recv_select: "f_atSelect w \<Longrightarrow> recv_ready a False (f_dir w) (f_sess w) \<Longrightarrow> Recv_select a (f_dir w) (f_sess w) = (ans, d, s) \<Longrightarrow>
    flow_step w (after_recv ans False (w\<lparr>f_dir := d, f_sess := s\<rparr>))"
| fs_close_send: "CloseSend c (f_dir w) (f_sess w) = (ans, d, s) \<Longrightarrow> flow_step w (after_close ans (w\<lparr>f_dir := d, f_sess := s\<rparr>))"
| fs_close_select: "close_ready ca (f_sess w) \<Longrightarrow> closeSend_select ca (f_sess w) = (ans, s) \<Longrightarrow>
    flow_step w (after_close ans (w\<lparr>f_sess := s\<rparr>))"
| fs_session: "session_step (f_sess w) s \<Longrightarrow> flow_step w (w\<lparr>f_sess := s\<rparr>)"

text \<open>A session that is well-formed stays so, and its terminal error is written once.\<close>

definition session_inv :: "session \<Rightarrow> bool" where
  "session_inv s \<longleftrightarrow> (s_forced s \<longrightarrow> s_terminal s \<noteq> None) \<and> (s_terminal s \<noteq> None \<longrightarrow> s_ctx s \<noteq> None) \<and>
     (\<forall>e. s_terminal s = Some e \<longrightarrow> e = ErrEOF \<or> is_app e)"

definition session_moves :: "session \<Rightarrow> session \<Rightarrow> bool" where
  "session_moves s s' \<longleftrightarrow> (session_inv s \<longrightarrow> session_inv s') \<and> (\<forall>e. s_terminal s = Some e \<longrightarrow> s_terminal s' = Some e) \<and>
     (s_ctx s \<noteq> None \<longrightarrow> s_ctx s' \<noteq> None)"

lemma session_moves_refl [simp]: "session_moves s s"
  by (simp add: session_moves_def)

lemma finish_moves: "session_moves s (finishWithTimeout err b s)"
  by (auto simp: session_moves_def session_inv_def finishWithTimeout_def Let_def split: option.splits)

lemma finish_terminal: "s_terminal (finishWithTimeout err b s) \<noteq> None"
  by (simp add: finishWithTimeout_def Let_def)

lemma finish_ctx_moves: "session_moves s (finish_ctx s)" "s_ctx s \<noteq> None \<Longrightarrow> s_terminal (finish_ctx s) \<noteq> None"
  by (auto simp: finish_ctx_def finish_def finish_moves finish_terminal simp del: not_None_eq split: option.split)

lemma currentTerminal_moves: "currentTerminal s = (e, s') \<Longrightarrow> session_moves s s' \<and> e = s_terminal s'"
  by (auto simp: currentTerminal_def Let_def finish_ctx_moves(1) split: if_splits)

lemma forced_inv: "session_inv t \<Longrightarrow> s_terminal t \<noteq> None \<Longrightarrow> session_inv (t\<lparr>s_forced := True\<rparr>)"
  by (simp add: session_inv_def)

lemma forced_moves: "session_moves s t \<Longrightarrow> s_terminal t \<noteq> None \<Longrightarrow> session_moves s (t\<lparr>s_forced := True\<rparr>)"
  using forced_inv [of t] unfolding session_moves_def by (elim conjE, intro conjI) simp_all

lemma session_step_moves: "session_step s s' \<Longrightarrow> session_moves s s'"
proof (induction rule: session_step.induct)
  case (ss_ctx s c) then show ?case by (auto simp: session_moves_def session_inv_def)
next
  case (ss_finish s err) then show ?case using finish_moves by (simp add: finish_def)
next
  case (ss_watch s t idle)
  show ?case by (simp add: watch_def finishTimeout_def finish_moves finish_ctx_moves)
next
  case (ss_close s) then show ?case by (simp add: close_begin_def finish_def finish_moves)
next
  case (ss_closed s budget stopped)
  have m: "session_moves s (close_begin s)" by (simp add: close_begin_def finish_def finish_moves)
  have "s_terminal (close_begin s) \<noteq> None" 
  proof (cases "s_terminal s = None")
    case True show ?thesis unfolding close_begin_def finish_def if_P [OF True] by (rule finish_terminal)
  next
    case False show ?thesis unfolding close_begin_def if_not_P [OF False] by (rule False)
  qed
  with m forced_moves [OF m this] show ?case by (cases stopped) (simp_all only: closeBounded_def Let_def if_True if_False snd_conv)
qed

lemma op_moves:
  "Send_start c d s = (ans, d', s') \<Longrightarrow> session_moves s s'"
  "Send_select a v d s = (e, d', s') \<Longrightarrow> session_moves s s'"
  "Recv_select a d s = (r, d', s') \<Longrightarrow> session_moves s s'"
  "CloseSend x d s = (ans, d', s') \<Longrightarrow> session_moves s s'"
proof -
  assume "Send_start c d s = (ans, d', s')"
  then show "session_moves s s'"
    by (auto simp: Send_start_def dest!: currentTerminal_moves split: option.splits sum.splits prod.splits)
next
  assume "Send_select a v d s = (e, d', s')"
  then show "session_moves s s'" by (cases a) (auto simp: Send_select_def Let_def finish_ctx_moves)
next
  assume "Recv_select a d s = (r, d', s')"
  then show "session_moves s s'" by (cases a) (auto simp: Recv_select_def finish_ctx_moves split: list.splits)
next
  assume "CloseSend x d s = (ans, d', s')"
  then show "session_moves s s'"
    by (auto simp: CloseSend_def closeSend_turn_def dest!: currentTerminal_moves split: option.splits prod.splits if_splits)
qed

lemma close_select_moves: "closeSend_select a s = (ans, s') \<Longrightarrow> session_moves s s'"
  by (cases a) (auto simp: closeSend_select_def Let_def finish_ctx_moves)

lemma after_recv_frame [simp]:
  "f_sess (after_recv ans b w) = f_sess w" "f_dir (after_recv ans b w) = f_dir w" "f_sending (after_recv ans b w) = f_sending w"
  "f_log (after_recv ans b w) = f_log w @ (case ans of Returned r \<Rightarrow> [Received r] | AtSelect \<Rightarrow> [])"
  "f_recvBusy w \<Longrightarrow> f_atSelect (after_recv ans b w) \<longrightarrow> f_recvBusy (after_recv ans b w)"
  by (simp_all add: after_recv_def split: answer.split)

lemma after_close_frame [simp]:
  "f_sess (after_close ans w) = f_sess w" "f_dir (after_close ans w) = f_dir w" "f_sending (after_close ans w) = f_sending w"
  "f_log (after_close ans w) = f_log w @ (case ans of Returned e \<Rightarrow> [HalfClosed e] | AtSelect \<Rightarrow> [])"
  "f_atSelect (after_close ans w) = f_atSelect w" "f_recvBusy (after_close ans w) = f_recvBusy w"
  by (simp_all add: after_close_def split: answer.split)

lemma flow_step_session: "flow_step w w' \<Longrightarrow> session_moves (f_sess w) (f_sess w')"
proof (induction rule: flow_step.induct)
  case (fs_handover w v e d s ans d' s')
  have "f_sess w = s" using fs_handover(4) by (simp add: Send_select_def)
  then show ?case using op_moves(3) [OF fs_handover(5)] by simp
next
  case (fs_poll_handover w v e d s ans d')
  then show ?case using op_moves(2) [OF fs_poll_handover(5)] by simp
next
  case (fs_send_select w v a e d s)
  then show ?case using op_moves(2) [OF fs_send_select(3)] by simp
next
  case (fs_recv_select w a ans d s)
  then show ?case using op_moves(3) [OF fs_recv_select(3)] by simp
qed (simp_all add: op_moves(1,4) session_step_moves close_select_moves)

text \<open>What an operation answers, and what it does to the direction.\<close>

lemma op_error_app: "op_error c \<noteq> ErrEOF" "from_err errConcurrentRecv \<noteq> ErrEOF" "InvalidArgument m \<noteq> ErrEOF"
  by (cases c; simp add: op_error_def normalize_def ErrEOF_def ctx_canceled_def Unavailable_def from_err_def From_def New_def)
    (simp_all add: ErrEOF_def errConcurrentRecv_def Conflict_def InvalidArgument_def from_err_def From_def New_def)

lemma Send_start_dir: "Send_start c d s = (ans, d', s') \<Longrightarrow>
    ans \<noteq> Returned None \<and> (ans = AtSelect \<longrightarrow> \<not> d_closed d \<and> \<not> d_busy d \<and> d' = d\<lparr>d_busy := True\<rparr>) \<and> (ans \<noteq> AtSelect \<longrightarrow> d' = d)"
  by (auto simp: Send_start_def send_begin_def send_end_def split: option.splits sum.splits prod.splits if_splits)

lemma Send_select_dir: "Send_select a v d s = (e, d', s') \<Longrightarrow>
    d' = d\<lparr>d_busy := False, d_queue := d_queue d @ (if a = ArmQueue then [v] else [])\<rparr>"
  by (cases a) (auto simp: Send_select_def send_end_def Let_def)

lemma Send_select_answer: "Send_select a v d s = (e, d', s') \<Longrightarrow> send_ready a b d s \<Longrightarrow> session_inv s \<Longrightarrow> e = None \<longleftrightarrow> a = ArmQueue"
  using finish_ctx_moves(2) [of s] by (cases a) (auto simp: Send_select_def send_ready_def session_inv_def Let_def)

lemma Recv_poll_dir: "Recv_poll d s = (ans, d') \<Longrightarrow>
    (case ans of Returned (Inr x) \<Rightarrow> d_queue d = x # d_queue d' \<and> d' = d\<lparr>d_queue := d_queue d'\<rparr> | _ \<Rightarrow> d' = d)"
  "Recv_poll d s = (Returned (Inl e), d') \<Longrightarrow> d_queue d = [] \<and> s_terminal s = Some e"
  by (auto simp: Recv_poll_def split: list.splits option.splits)

lemma Recv_select_dir: "Recv_select a d s = (ans, d', s') \<Longrightarrow>
    (case ans of Returned (Inr x) \<Rightarrow> d_queue d = x # d_queue d' \<and> d' = d\<lparr>d_queue := d_queue d'\<rparr> | _ \<Rightarrow> d' = d)"
  "Recv_select a d s = (Returned (Inl ErrEOF), d', s') \<Longrightarrow> a = ArmClosed \<and> d_queue d = []"
  using op_error_app(1) by (cases a; auto simp: Recv_select_def split: list.splits option.splits)+

lemma CloseSend_dir: "CloseSend c d s = (ans, d', s') \<Longrightarrow>
    (ans = Returned None \<longrightarrow> (d_closed d \<or> \<not> d_busy d) \<and> d' = d\<lparr>d_closed := True\<rparr>) \<and> (ans \<noteq> Returned None \<longrightarrow> d' = d)"
  by (auto simp: CloseSend_def closeSend_turn_def split: option.splits prod.splits if_splits)

lemma close_select_answer: "closeSend_select a s = (ans, s') \<Longrightarrow> close_ready a s \<Longrightarrow> session_inv s \<Longrightarrow> ans \<noteq> Returned None"
  using finish_ctx_moves(2) [of s] by (cases a) (auto simp: closeSend_select_def close_ready_def session_inv_def Let_def)

lemma recv_queue:
  assumes "case ans of Returned (Inr x) \<Rightarrow> d_queue d = x # d_queue d' \<and> d' = d\<lparr>d_queue := d_queue d'\<rparr> | _ \<Rightarrow> d' = d"
  shows "d_queue d = received (case ans of Returned r \<Rightarrow> [Received r] | AtSelect \<Rightarrow> []) @ d_queue d'"
    "d_cap d' = d_cap d" "d_busy d' = d_busy d" "d_closed d' = d_closed d"
    "confirmed (case ans of Returned r \<Rightarrow> [Received r] | AtSelect \<Rightarrow> []) = []"
    "HalfClosed None \<notin> set (case ans of Returned r \<Rightarrow> [Received r] | AtSelect \<Rightarrow> [])"
  using assms by (cases d; cases d'; auto split: answer.splits sum.splits)+

text \<open>
  The log: at each end of the input everything confirmed so far had been received, and no send is confirmed after the
  half-close. Both are kept by one more answer under the conditions on the right.
\<close>

definition eof_drained :: "'a outcome list \<Rightarrow> bool" where
  "eof_drained l \<longleftrightarrow> (\<forall>l1 l2. l = l1 @ Received (Inl ErrEOF) # l2 \<longrightarrow> received l1 = confirmed l1)"

definition closed_final :: "'a outcome list \<Rightarrow> bool" where
  "closed_final l \<longleftrightarrow> (\<forall>l1 l2. l = l1 @ HalfClosed None # l2 \<longrightarrow> confirmed l2 = [])"

lemma snoc_split: "l @ [x] = l1 @ y # l2 \<longleftrightarrow> l2 = [] \<and> x = y \<and> l1 = l \<or> (\<exists>k. l2 = k @ [x] \<and> l = l1 @ y # k)"
  by (cases l2 rule: rev_cases) auto

lemma eof_drained_simps [simp]: "eof_drained []"
  "eof_drained (l @ [x]) \<longleftrightarrow> eof_drained l \<and> (x = Received (Inl ErrEOF) \<longrightarrow> received l = confirmed l)"
  by (auto simp: eof_drained_def snoc_split)

lemma closed_final_simps [simp]: "closed_final []"
  "closed_final (l @ [x]) \<longleftrightarrow> closed_final l \<and> (HalfClosed None \<in> set l \<longrightarrow> confirmed [x] = [])"
proof -
  show "closed_final []" by (simp add: closed_final_def)
  show "closed_final (l @ [x]) \<longleftrightarrow> closed_final l \<and> (HalfClosed None \<in> set l \<longrightarrow> confirmed [x] = [])"
    unfolding closed_final_def snoc_split by (fastforce simp: in_set_conv_decomp)
qed

lemma log_two [simp]:
  "eof_drained (l @ [x, y]) \<longleftrightarrow> eof_drained (l @ [x]) \<and> (y = Received (Inl ErrEOF) \<longrightarrow> received (l @ [x]) = confirmed (l @ [x]))"
  "closed_final (l @ [x, y]) \<longleftrightarrow> closed_final (l @ [x]) \<and> (HalfClosed None \<in> set (l @ [x]) \<longrightarrow> confirmed [y] = [])"
  using eof_drained_simps(2) [of "l @ [x]" y] closed_final_simps(2) [of "l @ [x]" y] by simp_all

text \<open>The state of the direction itself.\<close>

definition flow_inv :: "'a flow \<Rightarrow> bool" where
  "flow_inv w \<longleftrightarrow> confirmed (f_log w) = received (f_log w) @ d_queue (f_dir w) \<and> length (d_queue (f_dir w)) \<le> d_cap (f_dir w) \<and>
     (d_busy (f_dir w) \<longleftrightarrow> f_sending w \<noteq> None) \<and> (d_closed (f_dir w) \<longrightarrow> \<not> d_busy (f_dir w)) \<and>
     (d_closed (f_dir w) \<longleftrightarrow> HalfClosed None \<in> set (f_log w)) \<and> eof_drained (f_log w) \<and> closed_final (f_log w) \<and>
     (Received (Inl ErrEOF) \<in> set (f_log w) \<longrightarrow> d_closed (f_dir w) \<or> s_terminal (f_sess w) = Some ErrEOF) \<and>
     (f_atSelect w \<longrightarrow> f_recvBusy w) \<and> session_inv (f_sess w)"

lemma flow_inv_step: "flow_step w w' \<Longrightarrow> flow_inv w \<Longrightarrow> flow_inv w'"
proof -
  assume st: "flow_step w w'" and inv: "flow_inv w"
  have ses: "session_inv (f_sess w')" "\<And>e. s_terminal (f_sess w) = Some e \<Longrightarrow> s_terminal (f_sess w') = Some e"
    using flow_step_session [OF st] inv by (auto simp: session_moves_def flow_inv_def)
  show ?thesis using st inv ses
  proof (induction rule: flow_step.induct)
    case (fs_send_start c w d s v)
    then show ?case using Send_start_dir [OF fs_send_start(1)] by (auto simp: flow_inv_def)
  next
    case (fs_send_refused c w e d s v)
    then show ?case using Send_start_dir [OF fs_send_refused(1)] by (auto simp: flow_inv_def)
  next
    case (fs_send_select w v a e d s)
    have "e = None \<longleftrightarrow> a = ArmQueue"
      using Send_select_answer [OF fs_send_select(3,2)] fs_send_select(4) by (simp add: flow_inv_def)
    then show ?case using fs_send_select(1,2,4,5,6) Send_select_dir [OF fs_send_select(3)]
      by (auto simp: flow_inv_def send_ready_def)
  next
    case (fs_handover w v e d s ans d' s')
    note d = Send_select_dir [OF fs_handover(4)]
    have a: "e = None" "ans = Returned (Inr v) \<and> d' = d\<lparr>d_queue := []\<rparr>"
      using fs_handover(3,4,5) d by (auto simp: Recv_select_def Send_select_def)
    then show ?case using fs_handover(1,3,6,7,8) d by (auto simp: flow_inv_def after_recv_def)
  next
    case (fs_poll_handover w v e d s ans d')
    note d = Send_select_dir [OF fs_poll_handover(5)]
    have a: "e = None" "ans = Returned (Inr v) \<and> d' = d\<lparr>d_queue := []\<rparr>"
      using fs_poll_handover(4,5,6) d by (auto simp: Recv_poll_def Send_select_def)
    then show ?case using fs_poll_handover(1,4,7,8,9) d by (auto simp: flow_inv_def after_recv_def)
  next
    case (fs_recv_start c w b)
    then show ?case by (auto simp: flow_inv_def Recv_start_def split: option.splits if_splits)
  next
    case (fs_recv_refused c w e b)
    have "e \<noteq> ErrEOF" using fs_recv_refused(1) by (auto simp: Recv_start_def op_error_app split: option.splits if_splits)
    then show ?case using fs_recv_refused(2,3) by (auto simp: flow_inv_def)
  next
    case (fs_recv_poll w ans d)
    note q = recv_queue [OF Recv_poll_dir(1) [OF fs_recv_poll(3)]]
    have eof: "ans = Returned (Inl ErrEOF) \<Longrightarrow> d_queue (f_dir w) = [] \<and> s_terminal (f_sess w) = Some ErrEOF"
      using Recv_poll_dir(2) fs_recv_poll(3) by blast
    show ?case using fs_recv_poll(1,2,4,5) q eof
      by (auto simp: flow_inv_def split: answer.splits)
  next
    case (fs_recv_select w a ans d s)
    note q = recv_queue [OF Recv_select_dir(1) [OF fs_recv_select(3)]]
    have eof: "ans = Returned (Inl ErrEOF) \<Longrightarrow> d_queue (f_dir w) = [] \<and> d_closed (f_dir w)"
      using Recv_select_dir(2) fs_recv_select(2,3) by (fastforce simp: recv_ready_def send_ready_def)
    have "f_recvBusy w" using fs_recv_select(1,4) by (simp add: flow_inv_def)
    then show ?case using fs_recv_select(4,5,6) q eof
      by (auto simp: flow_inv_def split: answer.splits)
  next
    case (fs_close_send c w ans d s)
    then show ?case using CloseSend_dir [OF fs_close_send(1)] by (auto simp: flow_inv_def split: answer.splits)
  next
    case (fs_close_select ca w ans s)
    have "ans \<noteq> Returned None" using close_select_answer [OF fs_close_select(2,1)] fs_close_select(3) by (simp add: flow_inv_def)
    then show ?case using fs_close_select(3,4,5) by (auto simp: flow_inv_def split: answer.splits)
  next
    case (fs_session w s)
    then show ?case by (auto simp: flow_inv_def)
  qed
qed

lemma flow_inv_new: "flow_inv (new_flow cap)"
  by (simp add: flow_inv_def new_flow_def newStreamDirection_def new_session_def session_inv_def)

lemma flow_inv_steps: "flow_step\<^sup>*\<^sup>* w w' \<Longrightarrow> flow_inv w \<Longrightarrow> flow_inv w'"
  by (induction rule: rtranclp_induct) (auto intro: flow_inv_step)

lemmas flow_inv_reach = flow_inv_steps [OF _ flow_inv_new]

lemma flow_cap: "flow_step w w' \<Longrightarrow> d_cap (f_dir w') = d_cap (f_dir w)"
proof (induction rule: flow_step.induct)
  case (fs_handover w v e d s ans d' s')
  then show ?case using Send_select_dir [OF fs_handover(4)] recv_queue(2) [OF Recv_select_dir(1) [OF fs_handover(5)]] by simp
next
  case (fs_poll_handover w v e d s ans d')
  then show ?case using Send_select_dir [OF fs_poll_handover(5)] recv_queue(2) [OF Recv_poll_dir(1) [OF fs_poll_handover(6)]] by simp
next
  case (fs_recv_poll w ans d) then show ?case using recv_queue(2) [OF Recv_poll_dir(1) [OF fs_recv_poll(3)]] by simp
next
  case (fs_recv_select w a ans d s) then show ?case using recv_queue(2) [OF Recv_select_dir(1) [OF fs_recv_select(3)]] by simp
next
  case (fs_close_send c w ans d s) then show ?case using CloseSend_dir [OF fs_close_send(1)] by (cases "ans = Returned None") auto
qed (auto dest: Send_start_dir Send_select_dir)

text \<open>
  Property C31. A direction of a stream is a bounded queue, judged by what its callers see. Whatever the interleaving of
  sends, receives, half-close, cancellations, timeouts and the end of the session: the messages that receives have
  returned, followed by those still queued, are in order exactly those of the sends that answered nil. So a message whose
  send failed is never received, one whose send was confirmed is neither lost, doubled nor overtaken, and never more than
  the configured size is queued; and at most one send is in flight, none once the side is closed.
\<close>

theorem stream_in_order:
  assumes "flow_step\<^sup>*\<^sup>* (new_flow cap) w"
  shows "confirmed (f_log w) = received (f_log w) @ d_queue (f_dir w) \<and> length (d_queue (f_dir w)) \<le> cap \<and>
    (d_busy (f_dir w) \<longleftrightarrow> f_sending w \<noteq> None) \<and> \<not> (d_closed (f_dir w) \<and> d_busy (f_dir w))"
proof -
  have "d_cap (f_dir w) = cap" using assms
    by (induction rule: rtranclp_induct) (auto simp: flow_cap new_flow_def newStreamDirection_def)
  then show ?thesis using flow_inv_reach [OF assms] by (auto simp: flow_inv_def)
qed

text \<open>The end of a session lasts, on states that satisfy the invariant.\<close>

definition ended_with :: "gerr \<Rightarrow> 'a flow \<Rightarrow> bool" where
  "ended_with e w \<longleftrightarrow> s_terminal (f_sess w) = Some e"

interpretation ended: stable_fact flow_step ended_with
  by unfold_locales (use flow_step_session in \<open>auto simp: ended_with_def session_moves_def\<close>)

text \<open>
  Property C32. A half-close loses nothing. Whenever a receive has answered \<open>io.EOF\<close>, every message confirmed until then
  had been received, and either the sender had closed its side or the stream had ended without an error; and once a
  \<open>CloseSend\<close> has answered nil no send is confirmed any more, so that after an \<open>io.EOF\<close> that follows it nothing is
  received either: the receiver has the whole conversation.
\<close>

theorem stream_half_close_complete:
  assumes "flow_step\<^sup>*\<^sup>* (new_flow cap) w" and "f_log w = l1 @ Received (Inl ErrEOF) # l2"
  shows "received l1 = confirmed l1 \<and>
    (HalfClosed None \<in> set (f_log w) \<or> s_terminal (f_sess w) = Some ErrEOF) \<and>
    (\<forall>k1 k2. f_log w = k1 @ HalfClosed None # k2 \<longrightarrow> confirmed k2 = []) \<and>
    (HalfClosed None \<in> set l1 \<longrightarrow> confirmed l2 = [] \<and> received l2 = [])"
proof -
  have inv: "flow_inv w" by (rule flow_inv_reach [OF assms(1)])
  have drained: "received l1 = confirmed l1" using inv assms(2) by (auto simp: flow_inv_def eof_drained_def)
  have final: "\<forall>k1 k2. f_log w = k1 @ HalfClosed None # k2 \<longrightarrow> confirmed k2 = []"
    using inv by (simp add: flow_inv_def closed_final_def)
  have "confirmed l2 = [] \<and> received l2 = []" if closed: "HalfClosed None \<in> set l1"
  proof -
    obtain k1 k2 where l1: "l1 = k1 @ HalfClosed None # k2" using split_list [OF closed] by blast
    then have "confirmed (k2 @ Received (Inl ErrEOF) # l2) = []"
      using final [rule_format, of k1 "k2 @ Received (Inl ErrEOF) # l2"] by (simp add: assms(2) l1)
    then have c: "confirmed l2 = []" by simp
    have "confirmed (f_log w) = received (f_log w) @ d_queue (f_dir w)" using inv by (simp add: flow_inv_def)
    then show ?thesis using c drained by (simp add: assms(2))
  qed
  moreover have "HalfClosed None \<in> set (f_log w) \<or> s_terminal (f_sess w) = Some ErrEOF"
    using inv assms(2) by (auto simp: flow_inv_def)
  ultimately show ?thesis using drained final by blast
qed

text \<open>
  Property C33. A stream ends once, and everybody is told the same. Once the session has a terminal error, which is the
  end of the input or a contract error, it is that error in every later state, and every operation that reports the end
  answers it: a new send on an idle open side, each arm of a waiting send that stands for the end, a receive as soon as
  the queue is drained (what was queued is still handed out first, and a waiting receive goes back to that test), a
  half-close and one that waits. \<open>currentTerminal\<close>, which they all ask, answers it and leaves the session alone.
\<close>

theorem stream_ends_once:
  assumes "flow_step\<^sup>*\<^sup>* (new_flow cap) w" and "s_terminal (f_sess w) = Some e" and "flow_step\<^sup>*\<^sup>* w w'"
    and "d = f_dir w'" and "s = f_sess w'"
  shows "s_terminal s = Some e \<and> (e = ErrEOF \<or> is_app e) \<and> currentTerminal s = (Some e, s) \<and>
    (\<not> d_closed d \<and> \<not> d_busy d \<longrightarrow> Send_start (Some None) d s = (Returned (Some e), d, s)) \<and>
    (\<forall>a v. a \<in> {ArmDone, ArmSession, ArmForce} \<longrightarrow>
       Send_select a v d s = (Some e, d\<lparr>d_busy := False\<rparr>, s) \<and> Recv_select a d s = (AtSelect, d, s)) \<and>
    Recv_poll d s = (case d_queue d of [] \<Rightarrow> (Returned (Inl e), d) | v # q \<Rightarrow> (Returned (Inr v), d\<lparr>d_queue := q\<rparr>)) \<and>
    (\<forall>c. CloseSend (Some c) d s = (Returned (Some e), d, s)) \<and>
    (\<forall>a \<in> {CloseDone, CloseSession, CloseForce}. closeSend_select a s = (Returned (Some e), s))"
proof -
  have inv: "session_inv (f_sess w')"
    using flow_inv_steps [OF assms(3) flow_inv_reach [OF assms(1)]] by (simp add: flow_inv_def)
  have "ended_with e w'"
    by (rule ended.stable_steps [OF assms(3)]) (simp add: ended_with_def assms(2))
  then have e: "s_terminal s = Some e" by (simp add: ended_with_def assms(5))
  have c: "s_ctx s \<noteq> None" "e = ErrEOF \<or> is_app e" using inv e by (auto simp: session_inv_def assms(5))
  have fin: "finish_ctx s = s" using e c(1) by (auto simp: finish_ctx_def finish_def finishWithTimeout_def)
  have cur: "currentTerminal s = (Some e, s)" by (simp add: currentTerminal_def e)
  show ?thesis using e c fin cur
    by (auto simp: Send_start_def send_begin_def send_end_def Send_select_def Recv_select_def Recv_poll_def CloseSend_def closeSend_turn_def
        closeSend_select_def Let_def split: list.split)
qed

text \<open>
  No operation hangs on a stream that has ended. In every reachable state whose session context is over,
  a send and a receive at their select have a ready arm; whichever ready arm it takes, the send returns and frees the
  send side, and the receive returns at once or on its next turn; a half-close returns as well, at its next turn or
  at once when its select takes the arm of the session.
\<close>

theorem stream_wakes:
  assumes "flow_step\<^sup>*\<^sup>* (new_flow cap) w" and "s_ctx (f_sess w) \<noteq> None"
  shows "send_ready ArmSession False (f_dir w) (f_sess w) \<and> recv_ready ArmSession False (f_dir w) (f_sess w) \<and>
    (\<forall>a v e d s. Send_select a v (f_dir w) (f_sess w) = (e, d, s) \<longrightarrow> \<not> d_busy d) \<and>
    (\<forall>a ans d s. recv_ready a False (f_dir w) (f_sess w) \<and> Recv_select a (f_dir w) (f_sess w) = (ans, d, s) \<and> ans = AtSelect \<longrightarrow>
       fst (Recv_poll d s) \<noteq> AtSelect) \<and>
    (\<forall>c. fst (CloseSend c (f_dir w) (f_sess w)) \<noteq> AtSelect) \<and> fst (closeSend_select CloseSession (f_sess w)) \<noteq> AtSelect"
proof (intro conjI allI impI)
  have inv: "session_inv (f_sess w)" using flow_inv_reach [OF assms(1)] by (simp add: flow_inv_def)
  show "send_ready ArmSession False (f_dir w) (f_sess w)" "recv_ready ArmSession False (f_dir w) (f_sess w)"
    using assms(2) by (simp_all add: send_ready_def recv_ready_def)
  show "\<not> d_busy d" if "Send_select a v (f_dir w) (f_sess w) = (e, d, s)" for a v e d s
    using Send_select_dir [OF that] by simp
  show "fst (Recv_poll d s) \<noteq> AtSelect"
    if a: "recv_ready a False (f_dir w) (f_sess w) \<and> Recv_select a (f_dir w) (f_sess w) = (ans, d, s) \<and> ans = AtSelect" for a ans d s
  proof -
    have "s_terminal s \<noteq> None"
      using a inv finish_ctx_moves(2) [OF assms(2)]
      by (cases a) (auto simp: recv_ready_def send_ready_def Recv_select_def session_inv_def split: list.splits)
    then show ?thesis by (auto simp: Recv_poll_def split: list.splits option.splits)
  qed
  show "fst (closeSend_select CloseSession (f_sess w)) \<noteq> AtSelect" by (simp add: closeSend_select_def Let_def)
  show "fst (CloseSend c (f_dir w) (f_sess w)) \<noteq> AtSelect" for c
  proof -
    have "fst (currentTerminal (f_sess w)) \<noteq> None"
      using assms(2) finish_ctx_moves(2) [OF assms(2)] by (simp add: currentTerminal_def Let_def)
    then show ?thesis by (auto simp: CloseSend_def closeSend_turn_def split: option.splits prod.splits)
  qed
qed

subsection \<open>A sample run\<close>

text \<open>One message is sent and received, the sender half-closes, and the receiver is told the end; then the stream is closed.\<close>

definition state_of :: "bool \<Rightarrow> nat list \<Rightarrow> nat option \<Rightarrow> bool \<Rightarrow> bool \<Rightarrow> nat outcome list \<Rightarrow> nat flow" where
  "state_of closed q sending busy waiting l =
     \<lparr>f_dir = \<lparr>d_queue = q, d_cap = 1, d_closed = closed, d_busy = (sending \<noteq> None)\<rparr>, f_sess = new_session, f_sending = sending,
      f_recvBusy = busy, f_atSelect = waiting, f_log = l\<rparr>"

lemmas run_defs = state_of_def new_session_def Send_start_def send_begin_def Send_select_def send_end_def Recv_start_def Recv_poll_def Recv_select_def
  CloseSend_def closeSend_turn_def after_recv_def after_close_def currentTerminal_def send_ready_def recv_ready_def

lemma sample_steps:
  "flow_step (new_flow 1) (state_of False [] (Some 7) False False [])"
  "flow_step (state_of False [] (Some 7) False False []) (state_of False [7] None False False [Sent 7 None])"
  "flow_step (state_of False [7] None False False [Sent 7 None]) (state_of True [7] None False False [Sent 7 None, HalfClosed None])"
  "flow_step (state_of True [7] None False False [Sent 7 None, HalfClosed None]) (state_of True [7] None True False [Sent 7 None, HalfClosed None])"
  "flow_step (state_of True [7] None True False [Sent 7 None, HalfClosed None])
     (state_of True [] None False False [Sent 7 None, HalfClosed None, Received (Inr 7)])"
  "flow_step (state_of True [] None False False [Sent 7 None, HalfClosed None, Received (Inr 7)])
     (state_of True [] None True False [Sent 7 None, HalfClosed None, Received (Inr 7)])"
  "flow_step (state_of True [] None True False [Sent 7 None, HalfClosed None, Received (Inr 7)])
     (state_of True [] None True True [Sent 7 None, HalfClosed None, Received (Inr 7)])"
  "flow_step (state_of True [] None True True [Sent 7 None, HalfClosed None, Received (Inr 7)])
     (state_of True [] None False False [Sent 7 None, HalfClosed None, Received (Inr 7), Received (Inl ErrEOF)])"
proof -
  show "flow_step (new_flow 1) (state_of False [] (Some 7) False False [])"
    using fs_send_start [of "Some None" "new_flow 1" _ _ 7] by (simp add: run_defs new_flow_def newStreamDirection_def)
  show "flow_step (state_of False [] (Some 7) False False []) (state_of False [7] None False False [Sent 7 None])"
    using fs_send_select [of "state_of False [] (Some 7) False False []" 7 ArmQueue] by (simp add: run_defs)
  show "flow_step (state_of False [7] None False False [Sent 7 None]) (state_of True [7] None False False [Sent 7 None, HalfClosed None])"
    using fs_close_send [of "Some None" "state_of False [7] None False False [Sent 7 None]"] by (simp add: run_defs)
  show "flow_step (state_of True [7] None False False [Sent 7 None, HalfClosed None]) (state_of True [7] None True False [Sent 7 None, HalfClosed None])"
    using fs_recv_start [of "Some None" "state_of True [7] None False False [Sent 7 None, HalfClosed None]"] by (simp add: run_defs)
  show "flow_step (state_of True [7] None True False [Sent 7 None, HalfClosed None])
     (state_of True [] None False False [Sent 7 None, HalfClosed None, Received (Inr 7)])"
    using fs_recv_poll [of "state_of True [7] None True False [Sent 7 None, HalfClosed None]"] by (simp add: run_defs)
  show "flow_step (state_of True [] None False False [Sent 7 None, HalfClosed None, Received (Inr 7)])
     (state_of True [] None True False [Sent 7 None, HalfClosed None, Received (Inr 7)])"
    using fs_recv_start [of "Some None" "state_of True [] None False False [Sent 7 None, HalfClosed None, Received (Inr 7)]"] by (simp add: run_defs)
  show "flow_step (state_of True [] None True False [Sent 7 None, HalfClosed None, Received (Inr 7)])
     (state_of True [] None True True [Sent 7 None, HalfClosed None, Received (Inr 7)])"
    using fs_recv_poll [of "state_of True [] None True False [Sent 7 None, HalfClosed None, Received (Inr 7)]"] by (simp add: run_defs)
  show "flow_step (state_of True [] None True True [Sent 7 None, HalfClosed None, Received (Inr 7)])
     (state_of True [] None False False [Sent 7 None, HalfClosed None, Received (Inr 7), Received (Inl ErrEOF)])"
    using fs_recv_select [of "state_of True [] None True True [Sent 7 None, HalfClosed None, Received (Inr 7)]" ArmClosed] by (simp add: run_defs)
qed

definition whole_conversation :: "nat flow" where
  "whole_conversation = state_of True [] None False False [Sent 7 None, HalfClosed None, Received (Inr 7), Received (Inl ErrEOF)]"

lemma sample_run: "flow_step\<^sup>*\<^sup>* (new_flow 1) whole_conversation"
  unfolding whole_conversation_def by (rule converse_rtranclp_into_rtranclp, rule sample_steps)+ simp

definition closed_flow :: "nat flow" where
  "closed_flow = whole_conversation\<lparr>f_sess := close_begin new_session\<rparr>"

lemma sample_closed: "flow_step whole_conversation closed_flow"
  unfolding closed_flow_def whole_conversation_def using fs_session [OF ss_close, of whole_conversation]
  by (simp add: state_of_def whole_conversation_def)

lemma closed_run: "flow_step\<^sup>*\<^sup>* (new_flow 1) closed_flow"
  using sample_run sample_closed by (rule rtranclp.rtrancl_into_rtrancl)

lemma closed_flow_session: "s_ctx (f_sess closed_flow) \<noteq> None" "s_terminal (f_sess closed_flow) = Some (Unavailable (Some (ctx_error CtxCanceled)))"
  by (simp_all add: closed_flow_def close_begin_def finish_def finishWithTimeout_def new_session_def Let_def is_eof_def ctx_canceled_def normalize_def
      Unavailable_def from_err_def From_def New_def ErrEOF_def)

lemmas sample_defs = closed_flow_def whole_conversation_def state_of_def

theorem stream_in_order_witness: "confirmed (f_log closed_flow) = [7] \<and> received (f_log closed_flow) = [7]"
  using stream_in_order [OF closed_run] by (simp add: sample_defs)

theorem stream_half_close_complete_witness:
  "received [Sent 7 None, HalfClosed None, Received (Inr (7::nat))] = confirmed [Sent 7 None, HalfClosed None, Received (Inr (7::nat))]"
  using stream_half_close_complete [OF sample_run, of "[Sent 7 None, HalfClosed None, Received (Inr 7)]" "[]"]
  by (simp add: whole_conversation_def state_of_def)

theorem stream_ends_once_witness:
  "Recv_poll (f_dir closed_flow) (f_sess closed_flow) = (Returned (Inl (Unavailable (Some (ctx_error CtxCanceled)))), f_dir closed_flow)"
  using stream_ends_once [OF closed_run closed_flow_session(2) rtranclp.rtrancl_refl refl refl] by (simp add: sample_defs)

theorem stream_wakes_witness: "fst (CloseSend (Some None) (f_dir closed_flow) (f_sess closed_flow)) \<noteq> AtSelect"
  using stream_wakes [OF closed_run closed_flow_session(1)] by blast

text \<open>
  The end of a stream is decided by \<open>errors.Is(err, io.EOF)\<close>: a handler error that wraps \<open>io.EOF\<close> is reported as a
  clean end of the input.
\<close>

lemma wrapped_eof_is_clean_end:
  "s_terminal (finish (Some (Unavailable (Some (Wrap ''upstream read'' ErrEOF)))) new_session) = Some ErrEOF"
  by (simp add: finish_def finishWithTimeout_def new_session_def Let_def is_eof_def ErrEOF_def Unavailable_def New_def)

end
