(* ===== verification/Sse.thy ===== *)
theory Sse
  imports Contract_Stream Json_String
begin

text \<open>
  Server-sent events (httpserver/sse.go, sse_client.go, sse_client_parser.go): the frames the server writes, the loop
  that serves one request, the bounded decoder of the client and its reading loop. JSON values are parameters: \<open>enc\<close>
  and \<open>dec\<close> stand for \<open>json.Marshal\<close> and \<open>json.Unmarshal\<close> of the event type.
\<close>

abbreviation LF :: char where "LF \<equiv> CHR 0x0A"
abbreviation CR :: char where "CR \<equiv> CHR 0x0D"
abbreviation NUL :: char where "NUL \<equiv> CHR 0x00"

subsection \<open>Configuration\<close>

record SSEConfig =
  sc_System :: string
  sc_Method :: string
  sc_Stream :: StreamConfig
  sc_MaxRequestBodyBytes :: int
  sc_WriteTimeout :: int
  sc_HeartbeatInterval :: int

definition validateSSEConfig :: "SSEConfig \<Rightarrow> gerr option" where
  "validateSSEConfig cfg =
     (if trim_space (sc_System cfg) = [] then Some (InvalidArgument ''httpserver SSE: System must not be empty'')
      else if trim_space (sc_Method cfg) = [] then Some (InvalidArgument ''httpserver SSE: Method must not be empty'')
      else if MaxDuration (sc_Stream cfg) \<le> 0 then Some (InvalidArgument ''httpserver SSE: Stream.MaxDuration must be positive'')
      else if IdleTimeout (sc_Stream cfg) < 0 then Some (InvalidArgument ''httpserver SSE: Stream.IdleTimeout must not be negative'')
      else if CloseTimeout (sc_Stream cfg) \<le> 0 then Some (InvalidArgument ''httpserver SSE: Stream.CloseTimeout must be positive'')
      else if QueueSize (sc_Stream cfg) < 0 then Some (InvalidArgument ''httpserver SSE: Stream.QueueSize must not be negative'')
      else if sc_MaxRequestBodyBytes cfg \<le> 0 then Some (InvalidArgument ''httpserver SSE: MaxRequestBodyBytes must be positive'')
      else if sc_WriteTimeout cfg \<le> 0 then Some (InvalidArgument ''httpserver SSE: WriteTimeout must be positive'')
      else if sc_HeartbeatInterval cfg < 0 then Some (InvalidArgument ''httpserver SSE: HeartbeatInterval must not be negative'')
      else None)"

record SSEClientConfig =
  cc_System :: string
  cc_Method :: string
  cc_Stream :: StreamConfig
  cc_MaxRequestBodyBytes :: int
  cc_MaxEventBytes :: int
  cc_LastEventID :: string

definition bad_cursor :: "string \<Rightarrow> bool" where
  "bad_cursor s \<longleftrightarrow> NUL \<in> set s \<or> CR \<in> set s \<or> LF \<in> set s"

definition validateSSEClientConfig :: "SSEClientConfig \<Rightarrow> gerr option" where
  "validateSSEClientConfig cfg =
     (if trim_space (cc_System cfg) = [] \<or> trim_space (cc_Method cfg) = []
        then Some (InvalidArgument ''httpserver SSE dial: System and Method are required'')
      else if MaxDuration (cc_Stream cfg) \<le> 0 \<or> CloseTimeout (cc_Stream cfg) \<le> 0 \<or> IdleTimeout (cc_Stream cfg) < 0 \<or> QueueSize (cc_Stream cfg) < 0
        then Some (InvalidArgument ''httpserver SSE dial: Stream config is invalid'')
      else if cc_MaxRequestBodyBytes cfg \<le> 0 \<or> cc_MaxEventBytes cfg \<le> 0 \<or> cc_MaxEventBytes cfg = 2 ^ 63 - 1
        then Some (InvalidArgument ''httpserver SSE dial: request and event limits must be positive and bounded'')
      else if bad_cursor (cc_LastEventID cfg)
        then Some (InvalidArgument ''httpserver SSE dial: LastEventID must not contain NUL, CR or LF'')
      else None)"

subsection \<open>Admission of a request\<close>

text \<open>
  \<open>mime\<close> stands for \<open>mime.ParseMediaType\<close>. What a JSON decoder finds at the start of its input: a value and
  the rest, nothing but white space, a syntax error, or the beginning of a value that the input cuts off.
\<close>

datatype 'a json_read = JValue 'a string | JEnd | JSyntax | JCut

definition isJSONRequest :: "(string \<Rightarrow> string option) \<Rightarrow> string \<Rightarrow> bool" where
  "isJSONRequest mime contentType = (case mime contentType of
     None \<Rightarrow> False
   | Some t \<Rightarrow> t = ''application/json'' \<or> has_prefix (rev t) (rev ''+json''))"

definition body_too_large :: gerr where
  "body_too_large = New CodeInvalidArgument 413 ''request body too large''"

definition decodeSSERequest :: "(string \<Rightarrow> 'a json_read) \<Rightarrow> nat \<Rightarrow> string \<Rightarrow> (gerr, 'a) result" where
  "decodeSSERequest jr maxBytes body = (let cut = length body > maxBytes in
     case jr (take maxBytes body) of
       JValue v s \<Rightarrow> (case jr s of
           JEnd \<Rightarrow> if cut then Inl body_too_large else Inr v
         | JCut \<Rightarrow> Inl (if cut then body_too_large else InvalidArgument ''request body must contain exactly one JSON value'')
         | _ \<Rightarrow> Inl (InvalidArgument ''request body must contain exactly one JSON value''))
     | JSyntax \<Rightarrow> Inl (InvalidArgument ''invalid JSON request'')
     | _ \<Rightarrow> Inl (if cut then body_too_large else InvalidArgument ''invalid JSON request''))"

record sse_post =
  sp_method :: string
  sp_contentType :: string
  sp_body :: string

definition admit :: "(string \<Rightarrow> string option) \<Rightarrow> (string \<Rightarrow> 'a json_read) \<Rightarrow> SSEConfig \<Rightarrow> sse_post \<Rightarrow> (gerr, 'a) result" where
  "admit mime jr cfg r =
     (if sp_method r \<noteq> ''POST'' then Inl (New CodeInvalidArgument 405 ''method not allowed'')
      else if \<not> isJSONRequest mime (sp_contentType r) then Inl (New CodeInvalidArgument 415 ''content type must be JSON'')
      else decodeSSERequest jr (nat (sc_MaxRequestBodyBytes cfg)) (sp_body r))"

subsection \<open>Writing\<close>

type_synonym 'a sse_event = "string \<times> 'a"

definition marshalSSEEvent :: "('a \<Rightarrow> (gerr, string) result) \<Rightarrow> 'a sse_event \<Rightarrow> (gerr, string) result" where
  "marshalSSEEvent enc ev =
     (if bad_cursor (fst ev) then Inl (Internal (Some (Leaf ''invalid SSE event cursor'')))
      else (case enc (snd ev) of
          Inl e \<Rightarrow> Inl (Internal (Some e))
        | Inr js \<Rightarrow> Inr ((if fst ev \<noteq> [] then ''id: '' @ fst ev @ [LF] else []) @ ''data: '' @ js @ [LF, LF])))"

definition keep_alive :: string where "keep_alive = '': keep-alive'' @ [LF, LF]"

definition error_payload :: "gerr \<Rightarrow> string" where
  "error_payload e = CHR ''{'' # json_quote ''code'' @ CHR '':'' # json_quote (ecode (from_err e)) @ ''}''"

definition error_frame :: "gerr \<Rightarrow> string" where
  "error_frame e = ''event: error'' @ [LF] @ ''data: '' @ error_payload e @ [LF, LF]"

text \<open>
  The response of one request, and what happens to one write: the deadline cannot be set, the writer takes \<open>n\<close> bytes
  and fails, or the flush or the reset of the deadline fails after the whole frame.
\<close>

record response =
  rs_committed :: bool
  rs_wire :: string
  rs_problem :: "gerr option"
  rs_open :: bool

datatype write_result = WriteOk | NoDeadline gerr | WriteFails nat gerr | FlushFails gerr

definition writeSSEFrame :: "write_result \<Rightarrow> string \<Rightarrow> response \<Rightarrow> gerr option \<times> response" where
  "writeSSEFrame w frame r = (case w of
     NoDeadline e \<Rightarrow> (Some e, r)
   | WriteFails n e \<Rightarrow> (Some e, r\<lparr>rs_committed := True, rs_wire := rs_wire r @ take n frame\<rparr>)
   | FlushFails e \<Rightarrow> (Some e, r\<lparr>rs_committed := True, rs_wire := rs_wire r @ frame\<rparr>)
   | WriteOk \<Rightarrow> (None, r\<lparr>rs_committed := True, rs_wire := rs_wire r @ frame\<rparr>))"

definition writeSSEProblem :: "gerr \<Rightarrow> response \<Rightarrow> response" where
  "writeSSEProblem e r = r\<lparr>rs_problem := Some e\<rparr>"

definition writeEmptySSE :: "write_result \<Rightarrow> response \<Rightarrow> response" where
  "writeEmptySSE w r = (case w of
     NoDeadline e \<Rightarrow> writeSSEProblem e r
   | _ \<Rightarrow> r\<lparr>rs_committed := True\<rparr>)"

definition writeSSEError :: "write_result \<Rightarrow> gerr \<Rightarrow> response \<Rightarrow> response" where
  "writeSSEError w e r = snd (writeSSEFrame w (error_frame e) r)"

text \<open>What the select of the serving loop takes: the client is gone, a tick, or a result of \<open>Recv\<close>.\<close>

datatype 'a serve_input = ClientGone | Tick | Event "'a sse_event" | Ended gerr

definition fail_uncommitted :: "gerr \<Rightarrow> response \<Rightarrow> response" where
  "fail_uncommitted e r = (if rs_committed r then r else writeSSEProblem e r)"

definition closed :: "response \<Rightarrow> response" where "closed r = r\<lparr>rs_open := False\<rparr>"

fun serve_turn :: "('a \<Rightarrow> (gerr, string) result) \<Rightarrow> 'a serve_input \<times> write_result \<Rightarrow> response \<Rightarrow> response" where
  "serve_turn enc (ClientGone, w) r = closed r"
| "serve_turn enc (Tick, w) r = (case writeSSEFrame w keep_alive r of
     (Some e, r) \<Rightarrow> closed (fail_uncommitted e r)
   | (None, r) \<Rightarrow> r)"
| "serve_turn enc (Ended e, w) r = closed
     (if is_eof e then (if rs_committed r then r else writeEmptySSE w r)
      else if rs_committed r then writeSSEError w e r else writeSSEProblem e r)"
| "serve_turn enc (Event ev, w) r = (case marshalSSEEvent enc ev of
     Inl e \<Rightarrow> closed (if rs_committed r then writeSSEError w e r else writeSSEProblem e r)
   | Inr frame \<Rightarrow> (case writeSSEFrame w frame r of
       (Some e, r) \<Rightarrow> closed (fail_uncommitted e r)
     | (None, r) \<Rightarrow> r))"

definition serve_loop :: "('a \<Rightarrow> (gerr, string) result) \<Rightarrow> ('a serve_input \<times> write_result) list \<Rightarrow> response" where
  "serve_loop enc is = foldl (\<lambda>r i. if rs_open r then serve_turn enc i r else r)
     \<lparr>rs_committed = False, rs_wire = [], rs_problem = None, rs_open = True\<rparr> is"

subsection \<open>The decoder\<close>

record decoder =
  dc_id :: string
  dc_first :: bool
  dc_skipLF :: bool
  dc_blockLF :: bool

definition newSSEDecoder :: "string \<Rightarrow> decoder" where
  "newSSEDecoder initialID = \<lparr>dc_id = initialID, dc_first = True, dc_skipLF = False, dc_blockLF = False\<rparr>"

definition block_too_large :: gerr where
  "block_too_large = InvalidArgument ''SSE event exceeds the configured wire limit''"

text \<open>
  \<open>line\<close>: \<open>e\<close> is what the reader returns after its last byte. The result is the line, with the error if it is not
  complete, the size so far, the decoder and the input left.
\<close>

fun read_line :: "nat \<Rightarrow> gerr \<Rightarrow> string \<Rightarrow> decoder \<Rightarrow> nat \<Rightarrow> string \<Rightarrow> (string \<times> gerr option) \<times> nat \<times> decoder \<times> string" where
  "read_line m e acc d sz [] = ((acc, Some e), sz, d, [])"
| "read_line m e acc d sz (b # s) =
     (if dc_skipLF d \<and> b = LF then
        (if dc_blockLF d then read_line m e acc (d\<lparr>dc_skipLF := False, dc_blockLF := False\<rparr>) sz s
         else if sz + 1 > m then (([], Some block_too_large), sz + 1, d\<lparr>dc_skipLF := False\<rparr>, s)
         else read_line m e acc (d\<lparr>dc_skipLF := False\<rparr>) (sz + 1) s)
      else if sz + 1 > m then (([], Some block_too_large), sz + 1, d\<lparr>dc_skipLF := False, dc_blockLF := False\<rparr>, s)
      else if b = CR then ((acc, None), sz + 1, d\<lparr>dc_skipLF := True, dc_blockLF := False\<rparr>, s)
      else if b = LF then ((acc, None), sz + 1, d\<lparr>dc_skipLF := False, dc_blockLF := False\<rparr>, s)
      else read_line m e (acc @ [b]) (d\<lparr>dc_skipLF := False, dc_blockLF := False\<rparr>) (sz + 1) s)"

datatype frame_kind = FrameData | FrameError | FrameHeartbeat | OutcomeOther

record client_frame =
  fr_kind :: frame_kind
  fr_id :: string
  fr_data :: string

definition BOM :: string where "BOM = [CHR 0xEF, CHR 0xBB, CHR 0xBF]"

definition strip_bom :: "decoder \<Rightarrow> string \<Rightarrow> string" where
  "strip_bom d line = (if dc_first d then trim_prefix line BOM else line)"

definition trim_suffix_LF :: "string \<Rightarrow> string" where
  "trim_suffix_LF s = (if s \<noteq> [] \<and> last s = LF then butlast s else s)"

text \<open>The block being read.\<close>

record block =
  bk_data :: string
  bk_event :: string
  bk_hasData :: bool
  bk_hasComment :: bool

definition dispatch :: "block \<Rightarrow> decoder \<Rightarrow> (gerr, client_frame) result" where
  "dispatch b d =
     (if \<not> bk_hasData b then Inr \<lparr>fr_kind = (if bk_hasComment b then FrameHeartbeat else OutcomeOther), fr_id = [], fr_data = []\<rparr>
      else if bk_event b = [] \<or> bk_event b = ''message''
        then Inr \<lparr>fr_kind = FrameData, fr_id = dc_id d, fr_data = trim_suffix_LF (bk_data b)\<rparr>
      else if bk_event b = ''error''
        then Inr \<lparr>fr_kind = FrameError, fr_id = dc_id d, fr_data = trim_suffix_LF (bk_data b)\<rparr>
      else Inl (InvalidArgument ''unsupported SSE event type''))"

definition take_field :: "string \<Rightarrow> block \<Rightarrow> decoder \<Rightarrow> block \<times> decoder" where
  "take_field line b d =
     (if has_prefix line '':'' then (b\<lparr>bk_hasComment := True\<rparr>, d)
      else (case cut_on (CHR '':'') line of (field, v, found) \<Rightarrow>
        (let v = trim_prefix v '' '' in
          if field = ''event'' then (b\<lparr>bk_event := v\<rparr>, d)
          else if field = ''data'' then (b\<lparr>bk_hasData := True, bk_data := bk_data b @ v @ [LF]\<rparr>, d)
          else if field = ''id'' then (if NUL \<notin> set v then (b, d\<lparr>dc_id := v\<rparr>) else (b, d))
          else (b, d))))"

lemma read_line_length:
  "read_line m e acc d sz s = ((l, err), n, d', s') \<Longrightarrow> length s' \<le> length s \<and> (err = None \<longrightarrow> length s' < length s)"
  by (induction m e acc d sz s rule: read_line.induct) (fastforce split: if_splits)+

function next_frame :: "nat \<Rightarrow> gerr \<Rightarrow> block \<Rightarrow> decoder \<Rightarrow> nat \<Rightarrow> string \<Rightarrow> (gerr, client_frame) result \<times> decoder \<times> string" where
  "next_frame m e b d sz s = (case read_line m e [] d sz s of
     ((line, Some err), sz, d, s) \<Rightarrow>
       (Inl (if is_eof err \<and> (bk_hasData b \<or> line \<noteq> []) then Unavailable None else err), d, s)
   | ((line, None), sz, d, s) \<Rightarrow>
       (let line = strip_bom d line; d = d\<lparr>dc_first := False\<rparr> in
        if \<not> utf8_valid line then (Inl (InvalidArgument ''SSE event must be UTF-8''), d, s)
        else if line = [] then (dispatch b d, d\<lparr>dc_blockLF := dc_skipLF d\<rparr>, s)
        else (case take_field line b d of (b, d) \<Rightarrow> next_frame m e b d sz s)))"
  by pat_completeness auto
termination
  by (relation "measure (\<lambda>(m, e, b, d, sz, s). length s)") (auto dest!: read_line_length [OF sym])

declare next_frame.simps [simp del]

definition new_block :: block where
  "new_block = \<lparr>bk_data = [], bk_event = [], bk_hasData = False, bk_hasComment = False\<rparr>"

text \<open>\<open>next\<close>.\<close>

definition sse_next :: "nat \<Rightarrow> gerr \<Rightarrow> decoder \<Rightarrow> string \<Rightarrow> (gerr, client_frame) result \<times> decoder \<times> string" where
  "sse_next m e d s = next_frame m e new_block d 0 s"

lemma next_frame_length: "next_frame m e b d sz s = (Inr fr, d', s') \<Longrightarrow> length s' < length s"
proof (induction m e b d sz s rule: next_frame.induct)
  case (1 m e b d sz s)
  obtain line err n d1 s1 where l: "read_line m e [] d sz s = ((line, err), n, d1, s1)" by (metis prod_cases3 surj_pair)
  show ?case
  proof (cases err)
    case (Some x) then show ?thesis using 1(2) l by (simp add: next_frame.simps [of m e b d sz s])
  next
    case None
    have len: "length s1 < length s" using read_line_length [OF l] None by simp
    show ?thesis
      using 1(2) l None len 1(1) [OF l [symmetric] refl None refl refl refl refl]
      by (auto simp: next_frame.simps [of m e b d sz s] Let_def split: if_splits prod.splits)
  qed
qed

subsection \<open>The client's reading loop\<close>

definition validWireCode :: "string \<Rightarrow> bool" where
  "validWireCode code \<longleftrightarrow> (case code of
     [] \<Rightarrow> False
   | c # s \<Rightarrow> length code \<le> 64 \<and> is_upper c \<and>
       list_all (\<lambda>x. case x of (Some r, bs) \<Rightarrow> (65 \<le> r \<and> r \<le> 90) \<or> (48 \<le> r \<and> r \<le> 57) \<or> r = 95 | (None, bs) \<Rightarrow> False) (runes s))"

definition safeWireCode :: "string \<Rightarrow> string" where
  "safeWireCode code = (if validWireCode code then code else CodeInternal)"

definition remoteWireError :: "string \<Rightarrow> gerr" where
  "remoteWireError code = New (if validWireCode code then code else CodeInternal) 500 ''remote stream failed''"

text \<open>The cause and error of the stream's context.\<close>

definition sseClientIOError :: "(bool \<times> ctx_err) option \<Rightarrow> gerr \<Rightarrow> gerr" where
  "sseClientIOError c err = (case c of
     Some (expired, e) \<Rightarrow> if expired then Unauthenticated ''service credential expired'' else Unavailable (Some (ctx_error e))
   | None \<Rightarrow> (case List.find (app_is err) [CodeUnauthenticated, CodePermissionDenied, CodeInvalidArgument] of
       Some code \<Rightarrow> New code (estatus (from_err err)) ''secure SSE request failed''
     | None \<Rightarrow> Unavailable None))"

text \<open>
  The surroundings of the loop: the context after the n-th frame, the result of the n-th \<open>Send\<close> to the local stream,
  and the context after it; \<open>dec\<close> decodes an event and \<open>dec_code\<close> the code of an error payload.
\<close>

record 'a client_env =
  ce_ctx :: "nat \<Rightarrow> (bool \<times> ctx_err) option"
  ce_send :: "nat \<Rightarrow> gerr option"
  ce_after :: "nat \<Rightarrow> (bool \<times> ctx_err) option"
  ce_dec :: "string \<Rightarrow> 'a option"
  ce_code :: "string \<Rightarrow> string option"

function read_events :: "'a client_env \<Rightarrow> nat \<Rightarrow> gerr \<Rightarrow> nat \<Rightarrow> decoder \<Rightarrow> string \<Rightarrow> 'a sse_event list \<times> gerr option" where
  "read_events en m e n d s = (case sse_next m e d s of
     (r, d, s') \<Rightarrow>
     if ce_ctx en n \<noteq> None then ([], Some (sseClientIOError (ce_ctx en n) ErrEOF))
     else (case r of
       Inl err \<Rightarrow> ([], if is_eof err then None else if app_is err CodeInvalidArgument then Some err else Some (sseClientIOError None err))
     | Inr fr \<Rightarrow> (case fr_kind fr of
         FrameHeartbeat \<Rightarrow> read_events en m e (n + 1) d s'
       | OutcomeOther \<Rightarrow> read_events en m e (n + 1) d s'
       | FrameError \<Rightarrow> ([], Some (case ce_code en (fr_data fr) of
             None \<Rightarrow> InvalidArgument ''invalid SSE error event JSON''
           | Some code \<Rightarrow> remoteWireError code))
       | FrameData \<Rightarrow> (case ce_dec en (fr_data fr) of
             None \<Rightarrow> ([], Some (InvalidArgument ''invalid SSE event JSON''))
           | Some v \<Rightarrow> (case ce_send en n of
                 Some err \<Rightarrow> ([], Some (if ce_after en n \<noteq> None then sseClientIOError (ce_after en n) err else err))
               | None \<Rightarrow> (case read_events en m e (n + 1) d s' of (evs, res) \<Rightarrow> ((fr_id fr, v) # evs, res)))))))"
  by pat_completeness auto
termination
  by (relation "measure (\<lambda>(en, m, e, n, d, s). length s)") (auto simp: sse_next_def dest!: next_frame_length [OF sym])

declare read_events.simps [simp del]

definition readSSEClientEvents :: "'a client_env \<Rightarrow> SSEClientConfig \<Rightarrow> gerr \<Rightarrow> string \<Rightarrow> 'a sse_event list \<times> gerr option" where
  "readSSEClientEvents en cfg e body = read_events en (nat (cc_MaxEventBytes cfg)) e 0 (newSSEDecoder (cc_LastEventID cfg)) body"

subsection \<open>Line delimiters\<close>

text \<open>Every delimiter written as LF; \<open>k\<close>: the byte before was a CR.\<close>

fun unix_lines :: "bool \<Rightarrow> string \<Rightarrow> string" where
  "unix_lines k [] = []"
| "unix_lines k (b # s) =
     (if k \<and> b = LF then unix_lines False s
      else if b = CR then LF # unix_lines True s
      else b # unix_lines False s)"

lemma unix_lines_length: "length (unix_lines k s) \<le> length s"
  by (induction k s rule: unix_lines.induct) auto

text \<open>The decoder without a pending LF.\<close>

definition clean :: "decoder \<Rightarrow> decoder" where
  "clean d = d\<lparr>dc_skipLF := False, dc_blockLF := False\<rparr>"

lemma clean_simps [simp]:
  "strip_bom (clean d) line = strip_bom d line"
  "dc_id (clean d) = dc_id d" "dc_first (clean d) = dc_first d" "\<not> dc_skipLF (clean d)" "\<not> dc_blockLF (clean d)"
  "clean (clean d) = clean d" "clean (d\<lparr>dc_skipLF := x\<rparr>) = clean d" "clean (d\<lparr>dc_blockLF := x\<rparr>) = clean d"
  "clean (d\<lparr>dc_first := f\<rparr>) = (clean d)\<lparr>dc_first := f\<rparr>" "clean (d\<lparr>dc_id := i\<rparr>) = (clean d)\<lparr>dc_id := i\<rparr>"
  "(clean d)\<lparr>dc_skipLF := False\<rparr> = clean d" "(clean d)\<lparr>dc_blockLF := False\<rparr> = clean d"
  by (simp_all add: clean_def strip_bom_def)

lemma clean_updates [simp]:
  "(d\<lparr>dc_skipLF := x, dc_blockLF := y\<rparr>)\<lparr>dc_skipLF := False, dc_blockLF := False\<rparr> = clean d"
  "(clean d)\<lparr>dc_skipLF := False, dc_blockLF := False\<rparr> = clean d"
  by (simp_all add: clean_def)

lemma clean_dispatch [simp]: "dispatch b (clean d) = dispatch b d" "dispatch b (d\<lparr>dc_first := f\<rparr>) = dispatch b d"
  by (simp_all add: dispatch_def)

lemma clean_first [simp]: "(clean d)\<lparr>dc_first := f, dc_blockLF := False\<rparr> = (clean d)\<lparr>dc_first := f\<rparr>"
  by (simp add: clean_def)

lemma clean_field: "take_field line b (clean d) = map_prod (\<lambda>x. x) clean (take_field line b d)"
  by (simp add: take_field_def Let_def split: prod.split)

lemma read_line_unix:
  assumes "read_line m e acc d sz s = ((l, err), n, d1, s1)" and "sz + length s \<le> m" and "sz' + length s \<le> m"
  shows "\<exists>n'. read_line m e acc (clean d) sz' (unix_lines (dc_skipLF d) s) = ((l, err), n', clean d1, unix_lines (dc_skipLF d1) s1) \<and>
     n + length s1 \<le> m \<and> n' + length s1 \<le> m"
  using assms
proof (induction m e acc d sz s arbitrary: sz' rule: read_line.induct)
  case (2 m e acc d sz b s)
  show ?case
  proof (cases "dc_skipLF d \<and> b = LF")
    case skip: True
    then show ?thesis using 2(1,2)[of sz'] 2(4-6) by (cases "dc_blockLF d") (auto simp: clean_def)
  next
    case False
    have m: "sz + 1 \<le> m" "sz' + 1 \<le> m" using 2(5,6) by auto
    show ?thesis
    proof (cases "b = CR \<or> b = LF")
      case True
      then show ?thesis using 2(4-6) False m by (auto simp: clean_def)
    next
      case plain: False
      have "unix_lines (dc_skipLF d) (b # s) = b # unix_lines False s" using False plain by auto
      then show ?thesis using 2(3) [of "sz' + 1"] 2(4-6) False plain m by (auto simp: clean_def)
    qed
  qed
qed auto

lemma next_frame_unix:
  assumes "next_frame m e b d sz s = (r, d1, s1)" and "sz + length s \<le> m" and "sz' + length s \<le> m"
  shows "next_frame m e b (clean d) sz' (unix_lines (dc_skipLF d) s) = (r, clean d1, unix_lines (dc_skipLF d1) s1)"
  using assms
proof (induction m e b d sz s arbitrary: sz' rule: next_frame.induct)
  case (1 m e b d sz s)
  obtain line err n d2 s2 where l: "read_line m e [] d sz s = ((line, err), n, d2, s2)" by (metis prod_cases3 surj_pair)
  obtain n' where l': "read_line m e [] (clean d) sz' (unix_lines (dc_skipLF d) s) = ((line, err), n', clean d2, unix_lines (dc_skipLF d2) s2)"
    and n: "n + length s2 \<le> m" "n' + length s2 \<le> m"
    using read_line_unix [OF l 1(3,4)] by blast
  note unf = next_frame.simps [of m e b d sz s] next_frame.simps [of m e b "clean d" sz']
  show ?case
  proof (cases err)
    case (Some x) then show ?thesis using 1(2) by (auto simp: unf l l')
  next
    case None
    let ?line = "strip_bom d2 line" and ?d = "d2\<lparr>dc_first := False\<rparr>"
    show ?thesis
    proof (cases "\<not> utf8_valid ?line \<or> ?line = []")
      case True
      then show ?thesis using 1(2) None
        by (elim disjE) (auto simp: unf l l' Let_def split: if_splits)
    next
      case False
      obtain b2 d3 where f: "take_field ?line b ?d = (b2, d3)" by force
      have skip: "dc_skipLF d3 = dc_skipLF d2" using f by (auto simp: take_field_def Let_def split: if_splits prod.splits)
      have f': "take_field ?line b ((clean d2)\<lparr>dc_first := False\<rparr>) = (b2, clean d3)"
        using clean_field [of ?line b ?d] f by simp
      have "next_frame m e b2 d3 n s2 = (r, d1, s1)" using 1(2) None False f by (simp add: unf l Let_def split: if_splits)
      from 1(1) [OF l [symmetric] refl None refl refl refl refl _ _ f [symmetric] this n] False
      have "next_frame m e b2 (clean d3) n' (unix_lines (dc_skipLF d3) s2) = (r, clean d1, unix_lines (dc_skipLF d1) s1)" by simp
      then show ?thesis using None False f' skip by (simp add: unf l' Let_def split: if_splits)
    qed
  qed
qed

lemma read_events_unix:
  assumes "length s \<le> m"
  shows "read_events en m e n (clean d) (unix_lines (dc_skipLF d) s) = read_events en m e n d s"
  using assms
proof (induction en m e n d s rule: read_events.induct)
  case (1 en m e n d s)
  obtain r d1 s1 where r: "sse_next m e d s = (r, d1, s1)" by (metis prod_cases3)
  have r': "sse_next m e (clean d) (unix_lines (dc_skipLF d) s) = (r, clean d1, unix_lines (dc_skipLF d1) s1)"
    using next_frame_unix [of m e new_block d 0 s r d1 s1 0] r 1(4) by (simp add: sse_next_def)
  note unf = read_events.simps [of en m e n d s] read_events.simps [of en m e n "clean d"]
  show ?case
  proof (cases "ce_ctx en n")
    case (Some x) then show ?thesis by (simp add: unf r r')
  next
    case none: None
    show ?thesis
    proof (cases r)
      case (Inl x) then show ?thesis using none by (simp add: unf r r')
    next
      case (Inr fr)
      have len: "length s1 \<le> m" using next_frame_length [of m e new_block d 0 s fr d1 s1] r Inr 1(4) by (simp add: sse_next_def)
      note IH = 1(1-3) [OF r [symmetric] refl _ Inr]
      show ?thesis
        using IH none len Inr
        by (cases "fr_kind fr") (auto simp: unf r r' split: option.splits)
    qed
  qed
qed

text \<open>
  Property C35. The three line delimiters of the format mean the same. A client that reads a body within its event
  limit delivers the same events and ends with the same result as on the body in which every CRLF and every CR is
  written as LF, whatever the bytes, the transport error at the end and the surroundings.
\<close>

theorem sse_delimiters_equal:
  assumes "int (length body) \<le> cc_MaxEventBytes cfg"
  shows "readSSEClientEvents en cfg e (unix_lines False body) = readSSEClientEvents en cfg e body"
proof -
  have "clean (newSSEDecoder i) = newSSEDecoder i" "\<not> dc_skipLF (newSSEDecoder i)" for i
    by (simp_all add: clean_def newSSEDecoder_def)
  then show ?thesis
    using read_events_unix [of body "nat (cc_MaxEventBytes cfg)" en e 0 "newSSEDecoder (cc_LastEventID cfg)"] assms
    by (simp add: readSSEClientEvents_def)
qed

subsection \<open>The bound of a block\<close>

lemma read_line_unblocked: "read_line m e acc d sz s = ((l, None), n, d1, s1) \<Longrightarrow> \<not> dc_blockLF d1"
  by (induction m e acc d sz s rule: read_line.induct) (auto split: if_splits)

lemma read_line_bound:
  assumes "read_line m e acc d sz s = ((l, err), n, d1, s1)" and "sz \<le> m"
  shows "length s + sz \<le> length s1 + n + (if dc_skipLF d \<and> dc_blockLF d then 1 else 0) \<and> sz \<le> n \<and>
    (if err = None then n \<le> m \<and> sz + length l + 1 \<le> n + length acc else n \<le> m + 1)"
  using assms
proof (induction m e acc d sz s rule: read_line.induct)
  case (1 m e acc d sz) then show ?case by auto
next
  case (2 m e acc d sz b s)
  consider "dc_skipLF d \<and> b = LF" "dc_blockLF d" | "dc_skipLF d \<and> b = LF" "\<not> dc_blockLF d" "m < sz + 1"
    | "dc_skipLF d \<and> b = LF" "\<not> dc_blockLF d" "sz + 1 \<le> m" | "\<not> (dc_skipLF d \<and> b = LF)" "m < sz + 1"
    | "\<not> (dc_skipLF d \<and> b = LF)" "sz + 1 \<le> m" "b = CR \<or> b = LF" | "\<not> (dc_skipLF d \<and> b = LF)" "sz + 1 \<le> m" "b \<noteq> CR" "b \<noteq> LF"
    by linarith
  then show ?case
  proof cases
    case 1 then show ?thesis using 2(1) 2(4,5) by (auto split: if_splits)
  next
    case 3 then show ?thesis using 2(2) 2(4,5) by (auto split: if_splits)
  next
    case 6 then show ?thesis using 2(3) 2(4,5) by (auto split: if_splits)
  qed (use 2(4,5) in \<open>auto split: if_splits\<close>)
qed

lemma field_bound:
  "take_field line b d = (b', d') \<Longrightarrow> length (bk_data b') \<le> length (bk_data b) + length line + 1"
proof -
  have cut: "length (fst (snd (cut_on c xs))) \<le> length xs" for c xs
    by (induction c xs rule: cut_on.induct) (auto split: prod.splits)
  have trim: "length (trim_prefix v p) \<le> length v" for v p by (simp add: trim_prefix_def)
  assume f: "take_field line b d = (b', d')"
  obtain f1 v found where c: "cut_on (CHR '':'') line = (f1, v, found)" by (metis prod_cases3)
  have "length (trim_prefix v '' '') \<le> length line" using cut [of "CHR '':''" line] trim [of v "'' ''"] c by simp
  then show ?thesis using f c by (auto simp: take_field_def Let_def split: if_splits)
qed

lemma next_frame_bound:
  assumes "next_frame m e b d sz s = (r, d1, s1)" and "sz \<le> m" and "length (bk_data b) \<le> sz"
  shows "length s + sz \<le> length s1 + m + 1 + (if dc_skipLF d \<and> dc_blockLF d then 1 else 0) \<and> (\<forall>fr. r = Inr fr \<longrightarrow> length (fr_data fr) \<le> m)"
  using assms
proof (induction m e b d sz s rule: next_frame.induct)
  case (1 m e b d sz s)
  obtain line err n d2 s2 where l: "read_line m e [] d sz s = ((line, err), n, d2, s2)" by (metis prod_cases3 surj_pair)
  note bd = read_line_bound [OF l 1(3)]
  note unf = next_frame.simps [of m e b d sz s]
  have data: "length (fr_data fr) \<le> length (bk_data b)" if "dispatch b x = Inr fr" for x fr
    using that by (auto simp: dispatch_def trim_suffix_LF_def split: if_splits)
  show ?case
  proof (cases err)
    case (Some x) then show ?thesis using 1(2) bd by (auto simp: unf l)
  next
    case None
    show ?thesis
    proof (cases "\<not> utf8_valid (strip_bom d2 line) \<or> strip_bom d2 line = []")
      case True
      then show ?thesis using 1(2) bd None data 1(3,4) by (auto simp: unf l Let_def split: if_splits) (force+)?
    next
      case False
      obtain b2 d3 where f: "take_field (strip_bom d2 line) b (d2\<lparr>dc_first := False\<rparr>) = (b2, d3)" by force
      have len: "length (strip_bom d2 line) \<le> length line" by (simp add: strip_bom_def trim_prefix_def)
      have nx: "next_frame m e b2 d3 n s2 = (r, d1, s1)" using 1(2) None False f by (simp add: unf l Let_def split: if_splits)
      have "dc_blockLF d3 = dc_blockLF d2" using f by (auto simp: take_field_def Let_def split: if_splits prod.splits)
      then have blk: "\<not> (dc_skipLF d3 \<and> dc_blockLF d3)" using read_line_unblocked l None by blast
      have "length (bk_data b2) \<le> n" using field_bound [OF f] len bd 1(4) None by simp
      from 1(1) [OF l [symmetric] refl None refl refl refl refl _ _ f [symmetric] nx _ this] False bd None blk
      show ?thesis by auto
    qed
  qed
qed


text \<open>
  Property C36. The decoder works in bounded space on any input. One call of \<open>next\<close> consumes at most two bytes more
  than the configured limit, whether it succeeds or fails, and a frame it returns carries at most the limit; a call
  that returns a frame has consumed input, so the reading loop ends.
\<close>

theorem sse_bounded:
  assumes "sse_next m e d s = (r, d', s')"
  shows "length s \<le> length s' + m + 2 \<and> (\<forall>fr. r = Inr fr \<longrightarrow> length (fr_data fr) \<le> m \<and> length s' < length s)"
  using next_frame_bound [of m e new_block d 0 s r d' s'] next_frame_length [of m e new_block d 0 s _ d' s'] assms
  by (auto simp: sse_next_def new_block_def split: if_splits)

subsection \<open>The server's frames in the client\<close>

definition plain :: "string \<Rightarrow> bool" where
  "plain s \<longleftrightarrow> CR \<notin> set s \<and> LF \<notin> set s"

definition calm_decoder :: "decoder \<Rightarrow> bool" where
  "calm_decoder d \<longleftrightarrow> \<not> dc_skipLF d \<and> \<not> dc_blockLF d"

lemma read_plain:
  "plain l \<Longrightarrow> calm_decoder d \<Longrightarrow> sz + length l + 1 \<le> m \<Longrightarrow>
    read_line m e acc d sz (l @ LF # s) = ((acc @ l, None), sz + length l + 1, d, s)"
proof (induction l arbitrary: acc sz)
  case Nil
  then show ?case by (cases d) (simp add: calm_decoder_def)
next
  case (Cons b l)
  have d: "d\<lparr>dc_skipLF := False, dc_blockLF := False\<rparr> = d" using Cons(3) by (cases d) (simp add: calm_decoder_def)
  show ?case using Cons.IH [of "sz + 1" "acc @ [b]"] Cons.prems by (auto simp: plain_def calm_decoder_def d)
qed

lemma next_plain:
  assumes "plain l" and "calm_decoder d" and "sz + length l + 1 \<le> m" and "utf8_valid l" and "strip_bom d l = l"
  shows "next_frame m e b d sz (l @ LF # s) =
    (if l = [] then (dispatch b d, d\<lparr>dc_first := False\<rparr>, s)
     else (case take_field l b (d\<lparr>dc_first := False\<rparr>) of (b, d) \<Rightarrow> next_frame m e b d (sz + length l + 1) s))"
proof -
  have d: "d\<lparr>dc_first := False, dc_blockLF := dc_skipLF d\<rparr> = d\<lparr>dc_first := False\<rparr>"
    using assms(2) by (cases d) (simp add: calm_decoder_def)
  show ?thesis
    using assms(4,5) by (simp add: next_frame.simps [of m e b d sz "l @ LF # s"] read_plain [OF assms(1-3)] Let_def d)
qed


lemma strip_bom_other: "hd l \<noteq> CHR 0xEF \<Longrightarrow> strip_bom d l = l"
  by (cases l) (auto simp: strip_bom_def trim_prefix_def has_prefix_def BOM_def)

lemma strip_bom_Nil [simp]: "strip_bom d [] = []"
  by (simp add: strip_bom_def trim_prefix_def)

lemma ascii_append: "list_all (\<lambda>c. byte_of c < 128) a \<Longrightarrow> utf8_valid s \<Longrightarrow> utf8_valid (a @ s)"
  by (rule utf8_valid_append [OF utf8_valid_ascii])

lemma calm_first [simp]: "calm_decoder (d\<lparr>dc_first := f\<rparr>) = calm_decoder d" "calm_decoder (d\<lparr>dc_id := i\<rparr>) = calm_decoder d"
  by (simp_all add: calm_decoder_def)

text \<open>One field line of a block, and the empty line that ends it.\<close>

lemma next_data:
  assumes "plain js" "utf8_valid js" "calm_decoder d" "sz + length js + 7 \<le> m"
  shows "next_frame m e b d sz (''data: '' @ js @ LF # s) =
    next_frame m e (b\<lparr>bk_hasData := True, bk_data := bk_data b @ js @ [LF]\<rparr>) (d\<lparr>dc_first := False\<rparr>) (sz + length js + 7) s"
proof -
  have v: "utf8_valid (''data: '' @ js)" by (rule ascii_append) (simp_all add: byte_of_def assms(2))
  show ?thesis
    using next_plain [of "''data: '' @ js" d sz m e b s] v assms strip_bom_other [of "''data: '' @ js" d]
    by (simp add: plain_def take_field_def has_prefix_def trim_prefix_def numeral_eq_Suc)
qed

lemma next_id:
  assumes "plain i" "NUL \<notin> set i" "utf8_valid i" "calm_decoder d" "sz + length i + 5 \<le> m"
  shows "next_frame m e b d sz (''id: '' @ i @ LF # s) = next_frame m e b (d\<lparr>dc_first := False, dc_id := i\<rparr>) (sz + length i + 5) s"
proof -
  have v: "utf8_valid (''id: '' @ i)" by (rule ascii_append) (simp_all add: byte_of_def assms(3))
  show ?thesis
    using next_plain [of "''id: '' @ i" d sz m e b s] v assms strip_bom_other [of "''id: '' @ i" d]
    by (simp add: plain_def take_field_def has_prefix_def trim_prefix_def numeral_eq_Suc)
qed

lemma next_end:
  assumes "calm_decoder d" "sz + 1 \<le> m"
  shows "next_frame m e b d sz (LF # s) = (dispatch b d, d\<lparr>dc_first := False\<rparr>, s)"
  using next_plain [of "[]" d sz m e b s] assms by (simp add: plain_def utf8_valid_def)

definition inherited :: "string \<Rightarrow> string \<Rightarrow> string" where
  "inherited i j = (if j = [] then i else j)"

lemma next_event_frame:
  assumes "marshalSSEEvent enc (i, v) = Inr frame" and "enc v = Inr js" and "plain js" and "utf8_valid js" and "utf8_valid i"
    and "calm_decoder d" and "length frame \<le> m"
  shows "sse_next m e d (frame @ s) =
    (Inr \<lparr>fr_kind = FrameData, fr_id = inherited (dc_id d) i, fr_data = js\<rparr>, d\<lparr>dc_first := False, dc_id := inherited (dc_id d) i\<rparr>, s)"
proof -
  have fr: "frame = (if i \<noteq> [] then ''id: '' @ i @ [LF] else []) @ ''data: '' @ js @ [LF, LF]" and i: "plain i" "NUL \<notin> set i"
    using assms(1,2) by (auto simp: marshalSSEEvent_def bad_cursor_def plain_def split: if_splits)
  have len: "(if i \<noteq> [] then length i + 5 else 0) + length js + 8 \<le> m" using assms(7) fr by (simp split: if_splits)
  have nodata: "bk_data new_block = []" "bk_event new_block = []" by (simp_all add: new_block_def)
  show ?thesis
  proof (cases "i = []")
    case True
    then show ?thesis
      using next_data [OF assms(3,4,6), of 0 m e new_block "LF # s"] next_end [of "d\<lparr>dc_first := False\<rparr>" "length js + 7" m e] assms(6) len nodata
      by (simp add: sse_next_def fr dispatch_def trim_suffix_LF_def inherited_def)
  next
    case False
    let ?d = "d\<lparr>dc_first := False, dc_id := i\<rparr>"
    have swap: "d\<lparr>dc_id := i, dc_first := False\<rparr> = ?d" by (cases d) simp
    have "sse_next m e d (frame @ s) = next_frame m e new_block ?d (length i + 5) (''data: '' @ js @ LF # LF # s)"
      using next_id [OF i assms(5,6), of 0 m e new_block "''data: '' @ js @ LF # LF # s"] len False by (simp add: sse_next_def fr)
    also have "\<dots> = next_frame m e (new_block\<lparr>bk_hasData := True, bk_data := js @ [LF]\<rparr>) ?d (length i + 5 + length js + 7) (LF # s)"
      using next_data [OF assms(3,4), of ?d "length i + 5" m e new_block "LF # s"] assms(6) len False nodata by (simp add: swap)
    also have "\<dots> = (Inr \<lparr>fr_kind = FrameData, fr_id = i, fr_data = js\<rparr>, ?d, s)"
      using next_end [of ?d "length i + 5 + length js + 7" m e _ s] assms(6) len False nodata
      by (simp add: swap dispatch_def trim_suffix_LF_def)
    finally show ?thesis using False by (simp add: inherited_def)
  qed
qed

lemma next_comment:
  assumes "plain c" "utf8_valid c" "calm_decoder d" "sz + length c + 2 \<le> m"
  shows "next_frame m e b d sz (CHR '':'' # c @ LF # s) =
    next_frame m e (b\<lparr>bk_hasComment := True\<rparr>) (d\<lparr>dc_first := False\<rparr>) (sz + length c + 2) s"
proof -
  have v: "utf8_valid ('':'' @ c)" by (rule ascii_append) (simp_all add: byte_of_def assms(2))
  show ?thesis
    using next_plain [of "'':'' @ c" d sz m e b s] v assms strip_bom_other [of "'':'' @ c" d]
    by (simp add: plain_def take_field_def has_prefix_def numeral_eq_Suc)
qed

lemma next_event_name:
  assumes "plain n" "utf8_valid n" "calm_decoder d" "sz + length n + 8 \<le> m"
  shows "next_frame m e b d sz (''event: '' @ n @ LF # s) =
    next_frame m e (b\<lparr>bk_event := n\<rparr>) (d\<lparr>dc_first := False\<rparr>) (sz + length n + 8) s"
proof -
  have v: "utf8_valid (''event: '' @ n)" by (rule ascii_append) (simp_all add: byte_of_def assms(2))
  show ?thesis
    using next_plain [of "''event: '' @ n" d sz m e b s] v assms strip_bom_other [of "''event: '' @ n" d]
    by (simp add: plain_def take_field_def has_prefix_def trim_prefix_def numeral_eq_Suc)
qed

lemma ascii_literal: "utf8_valid '' keep-alive''" "utf8_valid ''error''"
  by (rule utf8_valid_ascii, simp add: byte_of_def)+

lemma next_keep_alive:
  assumes "calm_decoder d" and "length keep_alive \<le> m"
  shows "sse_next m e d (keep_alive @ s) = (Inr \<lparr>fr_kind = FrameHeartbeat, fr_id = [], fr_data = []\<rparr>, d\<lparr>dc_first := False\<rparr>, s)"
proof -
  have m: "14 \<le> m" using assms(2) by (simp add: keep_alive_def)
  have "sse_next m e d (keep_alive @ s) = next_frame m e new_block d 0 (CHR '':'' # '' keep-alive'' @ LF # LF # s)"
    by (simp add: sse_next_def keep_alive_def)
  also have "\<dots> = next_frame m e (new_block\<lparr>bk_hasComment := True\<rparr>) (d\<lparr>dc_first := False\<rparr>) 13 (LF # s)"
    using next_comment [of "'' keep-alive''" d 0 m e new_block "LF # s"] ascii_literal(1) assms(1) m by (simp add: plain_def numeral_eq_Suc)
  also have "\<dots> = (Inr \<lparr>fr_kind = FrameHeartbeat, fr_id = [], fr_data = []\<rparr>, d\<lparr>dc_first := False\<rparr>, s)"
    using next_end [of "d\<lparr>dc_first := False\<rparr>" 13 m e _ s] assms(1) m by (simp add: dispatch_def new_block_def)
  finally show ?thesis .
qed

lemma next_error_frame:
  assumes "plain (error_payload x)" and "utf8_valid (error_payload x)" and "calm_decoder d" and "length (error_frame x) \<le> m"
  shows "sse_next m e d (error_frame x @ s) =
    (Inr \<lparr>fr_kind = FrameError, fr_id = dc_id d, fr_data = error_payload x\<rparr>, d\<lparr>dc_first := False\<rparr>, s)"
proof -
  let ?js = "error_payload x" and ?d = "d\<lparr>dc_first := False\<rparr>"
  have m: "length ?js + 21 \<le> m" using assms(4) by (simp add: error_frame_def)
  have "sse_next m e d (error_frame x @ s) = next_frame m e new_block d 0 (''event: '' @ ''error'' @ LF # (''data: '' @ ?js @ LF # LF # s))"
    by (simp add: sse_next_def error_frame_def)
  also have "\<dots> = next_frame m e (new_block\<lparr>bk_event := ''error''\<rparr>) ?d 13 (''data: '' @ ?js @ LF # LF # s)"
    using next_event_name [of "''error''" d 0 m e new_block "''data: '' @ ?js @ LF # LF # s"] ascii_literal(2) assms(3) m by (simp add: plain_def numeral_eq_Suc)
  also have "\<dots> = next_frame m e (new_block\<lparr>bk_event := ''error'', bk_hasData := True, bk_data := ?js @ [LF]\<rparr>) ?d (13 + length ?js + 7) (LF # s)"
    using next_data [OF assms(1,2), of ?d 13 m e "new_block\<lparr>bk_event := ''error''\<rparr>" "LF # s"] assms(3) m by (simp add: new_block_def)
  also have "\<dots> = (Inr \<lparr>fr_kind = FrameError, fr_id = dc_id d, fr_data = ?js\<rparr>, ?d, s)"
    using next_end [of ?d "13 + length ?js + 7" m e _ s] assms(3) m by (simp add: dispatch_def trim_suffix_LF_def)
  finally show ?thesis .
qed


lemma plain_append [simp]: "plain (a @ b) \<longleftrightarrow> plain a \<and> plain b"
  by (auto simp: plain_def)

lemma plain_concat: "(\<forall>s\<in>set ss. plain s) \<Longrightarrow> plain (concat ss)"
  by (induction ss) (auto simp: plain_def)

lemma plain_bytes: "list_all (\<lambda>c. 32 \<le> byte_of c) s \<Longrightarrow> plain s"
proof -
  assume a: "list_all (\<lambda>c. 32 \<le> byte_of c) s"
  have "\<not> 32 \<le> byte_of CR" "\<not> 32 \<le> byte_of LF" by (simp_all add: byte_of_def)
  with a show ?thesis unfolding plain_def list_all_iff by metis
qed

lemma escape_bytes: "list_all (\<lambda>c. 32 \<le> byte_of c) (u_escape r)"
proof -
  have "32 \<le> byte_of (hex_digit n)" if "n < 16" for n
    using that by (simp add: hex_digit_def)
  then show ?thesis by (simp add: u_escape_def byte_of_def [of "CHR 0x5C"] byte_of_def [of "CHR ''u''"])
qed

lemma quote_rune_plain: "good_rune r bs \<Longrightarrow> plain (quote_rune (Some r, bs))"
proof -
  assume g: "good_rune r bs"
  have "list_all (\<lambda>c. 32 \<le> byte_of c) (quote_rune (Some r, bs))"
  proof (cases "r < 128")
    case True
    then have "r < 32 \<or> 32 \<le> byte_of (byte r)" by auto
    then show ?thesis using True escape_bytes [of r]
      by (auto simp: quote_ascii_def byte_of_def [of "CHR 0x5C"] byte_of_def [of "CHR ''b''"] byte_of_def [of "CHR ''f''"]
          byte_of_def [of "CHR ''n''"] byte_of_def [of "CHR ''r''"] byte_of_def [of "CHR ''t''"])
  next
    case False
    then have "list_all (\<lambda>c. 32 \<le> byte_of c) bs" using g by (auto simp: good_rune_def list_all_iff)
    then show ?thesis using False escape_bytes [of r] by simp
  qed
  then show ?thesis by (rule plain_bytes)
qed

lemma json_quote_plain: "utf8_valid s \<Longrightarrow> plain (json_quote s)"
proof -
  assume v: "utf8_valid s"
  have "plain (quote_rune x)" if "x \<in> set (runes s)" for x
    using v that quote_rune_plain by (metis prod.collapse valid_good)
  then have "plain (concat (map quote_rune (runes s)))" by (intro plain_concat) auto
  then show ?thesis unfolding json_quote_def plain_def by simp
qed

lemma error_payload_text:
  assumes "utf8_valid (ecode (from_err x))"
  shows "plain (error_payload x)" and "utf8_valid (error_payload x)"
proof -
  have e: "error_payload x = ''{'' @ json_quote ''code'' @ '':'' @ json_quote (ecode (from_err x)) @ ''}''"
    by (simp add: error_payload_def)
  have k: "utf8_valid ''code''" "utf8_valid ''{''" "utf8_valid '':''" "utf8_valid ''}''"
    by (rule utf8_valid_ascii, simp add: byte_of_def)+
  show "plain (error_payload x)" using json_quote_plain [OF assms] json_quote_plain [OF k(1)] unfolding e by (simp add: plain_def)
  show "utf8_valid (error_payload x)" using json_quote_valid [OF assms] json_quote_valid [OF k(1)] k unfolding e
    by (intro utf8_valid_append)
qed

subsection \<open>From the handler to the caller\<close>

text \<open>
  What \<open>encoding/json\<close> promises for the event type and for the error payload: the text of a value is UTF-8 without raw
  line breaks and decodes to the value.
\<close>

definition json_faithful :: "('a \<Rightarrow> (gerr, string) result) \<Rightarrow> 'a client_env \<Rightarrow> bool" where
  "json_faithful enc en \<longleftrightarrow> (\<forall>v js. enc v = Inr js \<longrightarrow> plain js \<and> utf8_valid js \<and> ce_dec en js = Some v) \<and>
     (\<forall>x. utf8_valid (ecode (from_err x)) \<longrightarrow> ce_code en (error_payload x) = Some (ecode (from_err x)))"

definition undisturbed :: "'a client_env \<Rightarrow> bool" where
  "undisturbed en \<longleftrightarrow> ce_ctx en = (\<lambda>n. None) \<and> ce_send en = (\<lambda>n. None)"

definition sendable :: "('a \<Rightarrow> (gerr, string) result) \<Rightarrow> nat \<Rightarrow> 'a serve_input \<Rightarrow> bool" where
  "sendable enc m i = (case i of
     Tick \<Rightarrow> length keep_alive \<le> m
   | Event ev \<Rightarrow> utf8_valid (fst ev) \<and> (case marshalSSEEvent enc ev of Inr frame \<Rightarrow> length frame \<le> m | Inl e \<Rightarrow> False)
   | _ \<Rightarrow> False)"

definition events_of :: "'a serve_input list \<Rightarrow> 'a sse_event list" where
  "events_of is = List.map_filter (\<lambda>i. case i of Event ev \<Rightarrow> Some ev | _ \<Rightarrow> None) is"

fun with_cursors :: "string \<Rightarrow> 'a sse_event list \<Rightarrow> 'a sse_event list" where
  "with_cursors c [] = []"
| "with_cursors c ((i, v) # evs) = (inherited c i, v) # with_cursors (inherited c i) evs"

definition frame_of :: "('a \<Rightarrow> (gerr, string) result) \<Rightarrow> 'a serve_input \<Rightarrow> string" where
  "frame_of enc i = (case i of
     Tick \<Rightarrow> keep_alive
   | Event ev \<Rightarrow> (case marshalSSEEvent enc ev of Inr frame \<Rightarrow> frame | Inl e \<Rightarrow> [])
   | _ \<Rightarrow> [])"

lemma events_of_simps [simp]:
  "events_of [] = []" "events_of (Tick # is) = events_of is" "events_of (Event ev # is) = ev # events_of is"
  by (simp_all add: events_of_def map_filter_simps)

lemma sendable_cases:
  assumes "sendable enc m i"
  obtains "i = Tick" "length keep_alive \<le> m"
    | c v frame js where "i = Event (c, v)" "utf8_valid c" "marshalSSEEvent enc (c, v) = Inr frame" "length frame \<le> m" "enc v = Inr js"
proof (cases i)
  case Tick then show thesis using assms that(1) by (simp add: sendable_def)
next
  case (Event ev)
  obtain c v where ev: "ev = (c, v)" by force
  show thesis
  proof (cases "marshalSSEEvent enc (c, v)")
    case (Inl e) then show thesis using assms Event ev by (simp add: sendable_def)
  next
    case (Inr frame)
    then obtain js where "enc v = Inr js" by (auto simp: marshalSSEEvent_def split: if_splits sum.splits)
    then show thesis using that(2) assms Event ev Inr by (simp add: sendable_def)
  qed
qed (use assms in \<open>simp_all add: sendable_def\<close>)

lemma serve_sendable:
  assumes "list_all (sendable enc m) is" and "rs_open r"
  shows "foldl (\<lambda>r i. if rs_open r then serve_turn enc i r else r) r (map (\<lambda>i. (i, WriteOk)) is) =
    r\<lparr>rs_committed := rs_committed r \<or> is \<noteq> [], rs_wire := rs_wire r @ concat (map (frame_of enc) is)\<rparr>"
  using assms
proof (induction "is" arbitrary: r)
  case Nil then show ?case by simp
next
  case (Cons i "is")
  have ok: "sendable enc m i" "list_all (sendable enc m) is" using Cons(2) by simp_all
  have t: "serve_turn enc (i, WriteOk) r = r\<lparr>rs_committed := True, rs_wire := rs_wire r @ frame_of enc i\<rparr>"
    using ok(1) by (rule sendable_cases) (simp_all add: writeSSEFrame_def frame_of_def)
  show ?case using Cons.IH [OF ok(2), of "serve_turn enc (i, WriteOk) r"] Cons(3) by (simp add: t)
qed

lemma read_quiet:
  assumes "undisturbed en" and "sse_next m e d s = (Inr fr, d', s')"
  shows "fr_kind fr = FrameHeartbeat \<Longrightarrow> read_events en m e n d s = read_events en m e (n + 1) d' s'"
    and "fr_kind fr = FrameData \<Longrightarrow> ce_dec en (fr_data fr) = Some v \<Longrightarrow>
      read_events en m e n d s = (case read_events en m e (n + 1) d' s' of (evs, res) \<Rightarrow> ((fr_id fr, v) # evs, res))"
  using assms by (simp_all add: read_events.simps [of en m e n d s] undisturbed_def)

lemma read_sendable:
  assumes "undisturbed en" and "json_faithful enc en" and "list_all (sendable enc m) is" and "calm_decoder d"
  shows "\<exists>d' n'. calm_decoder d' \<and> read_events en m e n d (concat (map (frame_of enc) is) @ s) =
    (case read_events en m e n' d' s of (evs, res) \<Rightarrow> (with_cursors (dc_id d) (events_of is) @ evs, res))"
  using assms(3,4)
proof (induction "is" arbitrary: d n)
  case Nil then show ?case by (intro exI [of _ d] exI [of _ n]) simp
next
  case (Cons i "is")
  have ok: "sendable enc m i" "list_all (sendable enc m) is" using Cons(2) by simp_all
  let ?s = "concat (map (frame_of enc) is) @ s"
  from ok(1) show ?case
  proof (cases rule: sendable_cases)
    case 1
    note step = read_quiet(1) [OF assms(1) next_keep_alive [OF Cons(3) 1(2), of e ?s], of n]
    have f: "concat (map (frame_of enc) (i # is)) = keep_alive @ concat (map (frame_of enc) is)" using 1(1) by (simp add: frame_of_def)
    from Cons.IH [OF ok(2), of "d\<lparr>dc_first := False\<rparr>" "n + 1"] Cons(3)
    show ?thesis unfolding f using step 1(1) by simp
  next
    case (2 c v frame js)
    have js: "plain js" "utf8_valid js" "ce_dec en js = Some v" using assms(2) 2(5) by (auto simp: json_faithful_def)
    let ?d = "d\<lparr>dc_first := False, dc_id := inherited (dc_id d) c\<rparr>"
    note step = read_quiet(2) [OF assms(1) next_event_frame [OF 2(3,5) js(1,2) 2(2) Cons(3) 2(4), of e ?s], of v n]
    from Cons.IH [OF ok(2), of ?d "n + 1"] Cons(3) obtain d' n' where r: "calm_decoder d'"
      "read_events en m e (n + 1) ?d ?s = (case read_events en m e n' d' s of (evs, res) \<Rightarrow> (with_cursors (inherited (dc_id d) c) (events_of is) @ evs, res))"
      by auto
    have "read_events en m e n d (concat (map (frame_of enc) (i # is)) @ s) =
        (case read_events en m e n' d' s of (evs, res) \<Rightarrow> (with_cursors (dc_id d) (events_of (i # is)) @ evs, res))"
      using step js(3) r(2) 2(1,3) by (simp add: frame_of_def split: prod.split)
    then show ?thesis using r(1) by blast
  qed
qed

lemma read_end: "undisturbed en \<Longrightarrow> read_events en m ErrEOF n d [] = ([], None)"
proof -
  assume q: "undisturbed en"
  have e: "is_eof ErrEOF" by (simp add: is_eof_def ErrEOF_def)
  have "sse_next m ErrEOF d [] = (Inl ErrEOF, d, [])" by (simp add: sse_next_def next_frame.simps [of m] new_block_def)
  then show ?thesis using q e by (simp add: read_events.simps [of en m ErrEOF n d] undisturbed_def)
qed

lemma read_error:
  assumes "undisturbed en" and "json_faithful enc en" and "utf8_valid (ecode (from_err x))" and "calm_decoder d" and "length (error_frame x) \<le> m"
  shows "read_events en m e n d (error_frame x) = ([], Some (remoteWireError (ecode (from_err x))))"
  using next_error_frame [OF error_payload_text [OF assms(3)] assms(4,5), of e "[]"] assms(1-3)
  by (simp add: read_events.simps [of en m e n d] undisturbed_def json_faithful_def)

text \<open>
  Property C34. Server and client together. When the handler's events can be encoded and fit the client's limit, and
  nothing is cut off, the caller receives exactly the events the handler sent, in order, through any keep-alive
  comments, each with its own cursor or the last one given; then the stream ends cleanly if the handler did, and
  otherwise with the code of the handler's error and nothing else of it. Before anything was written a failure is a
  problem response instead.
\<close>

theorem sse_end_to_end:
  assumes "undisturbed en" and "json_faithful enc en" and "list_all (sendable enc (nat (cc_MaxEventBytes cfg))) is"
    and "utf8_valid (ecode (from_err err))" and "length (error_frame err) \<le> nat (cc_MaxEventBytes cfg)"
    and "resp = serve_loop enc (map (\<lambda>i. (i, WriteOk)) is @ [(Ended err, WriteOk)])"
  shows "if is = [] \<and> \<not> is_eof err then rs_problem resp = Some err \<and> \<not> rs_committed resp \<and> rs_wire resp = []
    else rs_problem resp = None \<and> rs_committed resp \<and>
      readSSEClientEvents en cfg ErrEOF (rs_wire resp) =
        (with_cursors (cc_LastEventID cfg) (events_of is), if is_eof err then None else Some (remoteWireError (ecode (from_err err))))"
proof -
  let ?m = "nat (cc_MaxEventBytes cfg)" and ?w = "concat (map (frame_of enc) is)"
  let ?d = "newSSEDecoder (cc_LastEventID cfg)"
  have resp: "resp = serve_turn enc (Ended err, WriteOk) \<lparr>rs_committed = (is \<noteq> []), rs_wire = ?w, rs_problem = None, rs_open = True\<rparr>"
    using serve_sendable [OF assms(3), of "\<lparr>rs_committed = False, rs_wire = [], rs_problem = None, rs_open = True\<rparr>"]
    by (simp add: assms(6) serve_loop_def)
  have calm: "calm_decoder ?d" by (simp add: calm_decoder_def newSSEDecoder_def)
  show ?thesis
  proof (cases "is = [] \<and> \<not> is_eof err")
    case True
    then show ?thesis by (simp add: resp closed_def writeSSEProblem_def)
  next
    case False
    let ?s = "if is_eof err then [] else error_frame err"
    have w: "rs_problem resp = None \<and> rs_committed resp \<and> rs_wire resp = ?w @ ?s"
      using False by (auto simp: resp closed_def writeEmptySSE_def writeSSEError_def writeSSEFrame_def)
    obtain d' n' where d': "calm_decoder d'" and r: "read_events en ?m ErrEOF 0 ?d (?w @ ?s) =
        (case read_events en ?m ErrEOF n' d' ?s of (evs, res) \<Rightarrow> (with_cursors (dc_id ?d) (events_of is) @ evs, res))"
      using read_sendable [OF assms(1-3) calm] by blast
    have "read_events en ?m ErrEOF n' d' ?s = ([], if is_eof err then None else Some (remoteWireError (ecode (from_err err))))"
      using read_end [OF assms(1)] read_error [OF assms(1,2,4) d' assms(5)] by simp
    then show ?thesis using w r False by (auto simp: readSSEClientEvents_def newSSEDecoder_def)
  qed
qed

subsection \<open>A sample stream\<close>

definition bool_json :: "bool \<Rightarrow> (gerr, string) result" where
  "bool_json v = Inr (if v then ''true'' else ''false'')"

definition sample_client :: "bool client_env" where
  "sample_client = \<lparr>ce_ctx = (\<lambda>n. None), ce_send = (\<lambda>n. None), ce_after = (\<lambda>n. None),
     ce_dec = (\<lambda>s. if s = ''true'' then Some True else if s = ''false'' then Some False else None),
     ce_code = (\<lambda>s. json_unquote (butlast (butlast (drop 9 s))))\<rparr>"

definition sample_client_config :: SSEClientConfig where
  "sample_client_config = \<lparr>cc_System = ''orders'', cc_Method = ''watch'',
     cc_Stream = \<lparr>MaxDuration = 60, IdleTimeout = 0, CloseTimeout = 1, QueueSize = 1\<rparr>,
     cc_MaxRequestBodyBytes = 64, cc_MaxEventBytes = 64, cc_LastEventID = []\<rparr>"

lemma sample_faithful: "json_faithful bool_json sample_client"
proof -
  have pl: "plain ''true'' \<and> plain ''false''" by (simp add: plain_def)
  have valid: "utf8_valid ''true''" "utf8_valid ''false''" by (rule utf8_valid_ascii, simp add: byte_of_def)+
  have "ce_code sample_client (error_payload x) = Some (ecode (from_err x))" if v: "utf8_valid (ecode (from_err x))" for x
  proof -
    have "json_quote ''code'' = CHR 0x22 # ''code'' @ [CHR 0x22]" by code_simp
    then have "error_payload x = ([CHR ''{'', CHR 0x22] @ ''code'' @ [CHR 0x22, CHR '':'', CHR 0x22]) @
        concat (map quote_rune (runes (ecode (from_err x)))) @ [CHR 0x22, CHR ''}'']"
      by (simp add: error_payload_def json_quote_def)
    then show ?thesis using unquote_quote [OF v] by (simp add: sample_client_def butlast_append)
  qed
  then show ?thesis using pl valid by (auto simp: json_faithful_def bool_json_def sample_client_def)
qed

definition sample_inputs :: "bool serve_input list" where
  "sample_inputs = [Event (''7'', True), Tick, Event ([], False)]"

theorem sse_end_to_end_witness:
  "readSSEClientEvents sample_client sample_client_config ErrEOF
     (rs_wire (serve_loop bool_json (map (\<lambda>i. (i, WriteOk)) sample_inputs @ [(Ended (NotFound ''order''), WriteOk)]))) =
   ([(''7'', True), (''7'', False)], Some (New ''NOT_FOUND'' 500 ''remote stream failed''))"
proof -
  have q: "undisturbed sample_client" by (simp add: undisturbed_def sample_client_def)
  have s: "list_all (sendable bool_json (nat (cc_MaxEventBytes sample_client_config))) sample_inputs" by code_simp
  have t: "utf8_valid (ecode (from_err (NotFound ''order'')))" by code_simp
  have l: "length (error_frame (NotFound ''order'')) \<le> nat (cc_MaxEventBytes sample_client_config)" by code_simp
  have e: "\<not> is_eof (NotFound ''order'')" "sample_inputs \<noteq> []" by code_simp+
  have r: "with_cursors (cc_LastEventID sample_client_config) (events_of sample_inputs) = [(''7'', True), (''7'', False)]" by code_simp
  have c: "remoteWireError CodeNotFound = New ''NOT_FOUND'' 500 ''remote stream failed''" by code_simp
  show ?thesis using sse_end_to_end [OF q sample_faithful s t l refl] e by (simp add: r c)
qed

theorem sse_delimiters_equal_witness:
  "readSSEClientEvents sample_client sample_client_config ErrEOF (''data: true'' @ [CR, LF, CR]) =
   readSSEClientEvents sample_client sample_client_config ErrEOF (''data: true'' @ [LF, LF])"
proof -
  have u: "unix_lines False (''data: true'' @ [CR, LF, CR]) = ''data: true'' @ [LF, LF]" by code_simp
  have "int (length (''data: true'' @ [CR, LF, CR])) \<le> cc_MaxEventBytes sample_client_config" by code_simp
  from sse_delimiters_equal [OF this, of sample_client ErrEOF] show ?thesis unfolding u by (rule sym)
qed

theorem sse_bounded_witness:
  "\<exists>r d' s'. sse_next 4 ErrEOF (newSSEDecoder []) ''data: true'' = (r, d', s') \<and> 10 \<le> length s' + 4 + 2"
proof -
  obtain r d' s' where n: "sse_next 4 ErrEOF (newSSEDecoder []) ''data: true'' = (r, d', s')" by (metis prod_cases3)
  from sse_bounded [OF n] show ?thesis using n by auto
qed

end
