(* ===== verification/Pgmigrate.thy ===== *)
theory Pgmigrate
  imports Pgtx Leases
begin

text \<open>
  The migration runner (pgmigrate/pgmigrate.go): the history table of every schema, the transaction under the schema's
  advisory lock, one migration file, and the runner over its sets; then several replicas that start together. The
  checksum \<open>h\<close> is a parameter (SHA-256). A migration body is opaque: running it appends it to the log of what took
  effect, unless the database refuses it.
\<close>

subsection \<open>The database\<close>

text \<open>
  \<open>hist\<close>: for a schema its history table, which maps a version to the recorded checksum (NULL in rows written before
  checksums existed); \<open>applied\<close>: the bodies that were committed, with their schema and version.
\<close>

record mig_db =
  hist :: "string \<Rightarrow> (string \<Rightarrow> string option option) option"
  applied :: "(string \<times> string \<times> string) list"

text \<open>
  What the database does in one transaction: \<open>pool.Begin\<close> and the lock may fail, the n-th statement may fail, and the
  commit may fail, or take effect although its reply is lost.
\<close>

datatype commit_reply = CommitOk | CommitFails gerr | CommitLost gerr

record tx_env =
  te_begin :: "gerr option"
  te_lock :: "gerr option"
  te_stmts :: "gerr option list"
  te_commit :: commit_reply

definition fault_free :: tx_env where
  "fault_free = \<lparr>te_begin = None, te_lock = None, te_stmts = [], te_commit = CommitOk\<rparr>"

type_synonym tx_state = "gerr option list \<times> mig_db"

text \<open>One statement: the next entry of the script, then its effect; \<open>msg\<close> wraps its error.\<close>

definition mig_exec :: "string \<Rightarrow> (mig_db \<Rightarrow> mig_db) \<Rightarrow> tx_state \<Rightarrow> (gerr, tx_state) result" where
  "mig_exec msg f x = (case fst x of
     [] \<Rightarrow> Inr ([], f (snd x))
   | None # es \<Rightarrow> Inr (es, f (snd x))
   | Some e # es \<Rightarrow> Inl (Wrap msg e))"

definition inLockedTx :: "tx_env \<Rightarrow> (tx_state \<Rightarrow> (gerr, tx_state) result) \<Rightarrow> mig_db \<Rightarrow> gerr option \<times> mig_db" where
  "inLockedTx te fn db = (case te_begin te of
     Some e \<Rightarrow> (Some (Wrap ''begin'' e), db)
   | None \<Rightarrow> (case te_lock te of
       Some e \<Rightarrow> (Some (Wrap ''advisory lock'' e), db)
     | None \<Rightarrow> (case fn (te_stmts te, db) of
         Inl e \<Rightarrow> (Some e, db)
       | Inr (es, db') \<Rightarrow> (case te_commit te of
           CommitOk \<Rightarrow> (None, db')
         | CommitFails e \<Rightarrow> (Some (Wrap ''commit'' e), db)
         | CommitLost e \<Rightarrow> (Some (Wrap ''commit'' e), db')))))"

definition create_history :: "string \<Rightarrow> mig_db \<Rightarrow> mig_db" where
  "create_history schema db = (if hist db schema = None then db\<lparr>hist := (hist db)(schema \<mapsto> (\<lambda>v. None))\<rparr> else db)"

definition ensureSchema :: "tx_env \<Rightarrow> string \<Rightarrow> mig_db \<Rightarrow> gerr option \<times> mig_db" where
  "ensureSchema te schema = inLockedTx te (\<lambda>x.
     bind_res (mig_exec ''create schema'' (\<lambda>db. db) x) (\<lambda>x.
     bind_res (mig_exec ''create history table'' (create_history schema) x) (\<lambda>x.
     bind_res (mig_exec ''add checksum column'' (\<lambda>db. db) x) (\<lambda>x.
     mig_exec ''comment on history table'' (\<lambda>db. db) x))))"

definition record_version :: "string \<Rightarrow> string \<Rightarrow> string \<Rightarrow> mig_db \<Rightarrow> mig_db" where
  "record_version schema name digest db = (case hist db schema of
     None \<Rightarrow> db
   | Some t \<Rightarrow> db\<lparr>hist := (hist db)(schema \<mapsto> t(name \<mapsto> Some digest))\<rparr>)"

definition drift_error :: "string \<Rightarrow> string \<Rightarrow> string \<Rightarrow> gerr" where
  "drift_error name prev digest =
     with_detail ''file_checksum'' (DStr digest) (with_detail ''applied_checksum'' (DStr prev) (with_detail ''version'' (DStr name)
       (New CodeMigrationDrift 500 (''applied migration '' @ name @ '' was changed''))))"

definition verifyChecksum :: "string \<Rightarrow> string \<Rightarrow> string \<Rightarrow> string option \<Rightarrow> tx_state \<Rightarrow> (gerr, tx_state) result" where
  "verifyChecksum schema name digest prev x = (case prev of
     None \<Rightarrow> mig_exec ''backfill checksum'' (record_version schema name digest) x
   | Some p \<Rightarrow> if p = digest then Inr x else Inl (drift_error name p digest))"

definition run_body :: "string \<Rightarrow> string \<Rightarrow> string \<Rightarrow> mig_db \<Rightarrow> mig_db" where
  "run_body schema name body db = db\<lparr>applied := applied db @ [(schema, name, body)]\<rparr>"

definition apply_body :: "(string \<Rightarrow> string) \<Rightarrow> string \<Rightarrow> string \<Rightarrow> string \<Rightarrow> tx_state \<Rightarrow> (gerr, tx_state) result" where
  "apply_body h schema name body x =
     bind_res (mig_exec ''query applied versions'' (\<lambda>db. db) x) (\<lambda>x. case hist (snd x) schema of
       None \<Rightarrow> Inl (Wrap ''query applied versions'' (Leaf ''relation does not exist''))
     | Some t \<Rightarrow> (case t name of
         Some prev \<Rightarrow> verifyChecksum schema name (h body) prev x
       | None \<Rightarrow>
           bind_res (mig_exec ''set search_path'' (\<lambda>db. db) x) (\<lambda>x.
           bind_res (mig_exec ''execute'' (run_body schema name body) x) (\<lambda>x.
           mig_exec ''record version'' (record_version schema name (h body)) x))))"

text \<open>A file of the set: what \<open>fs.ReadFile\<close> answers for it.\<close>

type_synonym mig_file = "(gerr, string) result"

definition applyFile :: "(string \<Rightarrow> string) \<Rightarrow> tx_env \<Rightarrow> string \<Rightarrow> string \<Rightarrow> mig_file \<Rightarrow> mig_db \<Rightarrow> gerr option \<times> mig_db" where
  "applyFile h te schema name f db = (case f of
     Inl e \<Rightarrow> (Some (Wrap ''read'' e), db)
   | Inr body \<Rightarrow> inLockedTx te (apply_body h schema name body) db)"

subsection \<open>The runner\<close>

text \<open>\<open>ms_glob\<close>: the answer of \<open>fs.Glob\<close>, the names with what reading each of them gives.\<close>

record mig_set =
  ms_module :: string
  ms_schema :: string
  ms_glob :: "(gerr, (string \<times> mig_file) list) result"

text \<open>The n-th transaction of a run meets \<open>ev n\<close>; the results carry the number of transactions so far.\<close>

fun apply_files :: "(string \<Rightarrow> string) \<Rightarrow> (nat \<Rightarrow> tx_env) \<Rightarrow> nat \<Rightarrow> string \<Rightarrow> (string \<times> mig_file) list \<Rightarrow> mig_db \<Rightarrow> gerr option \<times> nat \<times> mig_db" where
  "apply_files h ev n schema [] db = (None, n, db)"
| "apply_files h ev n schema ((name, f) # fs) db = (case applyFile h (ev n) schema name f db of
     (Some e, db) \<Rightarrow> (Some (Wrap (''migration '' @ name) e), n + 1, db)
   | (None, db) \<Rightarrow> apply_files h ev (n + 1) schema fs db)"

definition applySet :: "(string \<Rightarrow> string) \<Rightarrow> (nat \<Rightarrow> tx_env) \<Rightarrow> nat \<Rightarrow> mig_set \<Rightarrow> mig_db \<Rightarrow> gerr option \<times> nat \<times> mig_db" where
  "applySet h ev n s db =
     (if \<not> schema_ok (ms_schema s) then (Some (InvalidArgument ''invalid schema name''), n, db)
      else (case ensureSchema (ev n) (ms_schema s) db of
        (Some e, db) \<Rightarrow> (Some e, n + 1, db)
      | (None, db) \<Rightarrow> (case ms_glob s of
          Inl e \<Rightarrow> (Some (Wrap ''list migration files'' e), n + 1, db)
        | Inr fs \<Rightarrow> apply_files h ev (n + 1) (ms_schema s) (sort_key fst fs) db)))"

fun Runner :: "(string \<Rightarrow> string) \<Rightarrow> (nat \<Rightarrow> tx_env) \<Rightarrow> nat \<Rightarrow> mig_set list \<Rightarrow> mig_db \<Rightarrow> gerr option \<times> nat \<times> mig_db" where
  "Runner h ev n [] db = (None, n, db)"
| "Runner h ev n (s # ss) db = (case applySet h ev n s db of
     (Some e, n, db) \<Rightarrow> (Some (Wrap (''module '' @ ms_module s @ '' schema '' @ ms_schema s) e), n, db)
   | (None, n, db) \<Rightarrow> Runner h ev n ss db)"

subsection \<open>One transaction\<close>

text \<open>A version is known to the history, and it is recorded with a checksum.\<close>

definition known :: "mig_db \<Rightarrow> string \<Rightarrow> string \<Rightarrow> bool" where
  "known db s v \<longleftrightarrow> (\<exists>t x. hist db s = Some t \<and> t v = Some x)"

definition recorded :: "mig_db \<Rightarrow> string \<Rightarrow> string \<Rightarrow> string \<Rightarrow> bool" where
  "recorded db s v c \<longleftrightarrow> (\<exists>t. hist db s = Some t \<and> t v = Some (Some c))"

definition grows_by :: "(string \<times> string \<times> string) list \<Rightarrow> mig_db \<Rightarrow> mig_db \<Rightarrow> bool" where
  "grows_by ws db db' \<longleftrightarrow> applied db' = applied db @ ws \<and> (\<forall>s v. known db s v \<longrightarrow> known db' s v) \<and>
     (\<forall>s v c. recorded db s v c \<longrightarrow> recorded db' s v c) \<and> (\<forall>s. hist db s \<noteq> None \<longrightarrow> hist db' s \<noteq> None)"

lemma recorded_known: "recorded db s v c \<Longrightarrow> known db s v"
  by (auto simp: recorded_def known_def)

lemma recorded_unique: "recorded db s v c \<Longrightarrow> recorded db s v c' \<Longrightarrow> c = c'"
  by (auto simp: recorded_def)

lemma log_grows_refl [simp]: "grows_by [] db db"
  by (simp add: grows_by_def)

lemma log_grows_trans: "grows_by ws db db' \<Longrightarrow> grows_by ws' db' db'' \<Longrightarrow> grows_by (ws @ ws') db db''"
  by (simp add: grows_by_def)

lemma mig_exec_Inr: "mig_exec msg f x = Inr y \<Longrightarrow> snd y = f (snd x)"
  by (auto simp: mig_exec_def split: list.splits option.splits)

lemma inLockedTx_cases:
  assumes "inLockedTx te fn db = (r, db')"
  obtains "db' = db" "r \<noteq> None" | x where "fn (te_stmts te, db) = Inr x" "db' = snd x"
  using assms by (auto simp: inLockedTx_def split: option.splits sum.splits commit_reply.splits)

lemma create_history_grows: "grows_by [] db (create_history s db)" "hist (create_history s db) s \<noteq> None"
  by (auto simp: grows_by_def create_history_def known_def recorded_def)

lemma ensure_grows:
  assumes "ensureSchema te s db = (r, db')"
  shows "grows_by [] db db' \<and> (r = None \<longrightarrow> hist db' s \<noteq> None)"
  using assms unfolding ensureSchema_def
proof (cases rule: inLockedTx_cases)
  case (2 x)
  then have "db' = create_history s db" by (auto simp: bind_res_Inr_iff dest!: mig_exec_Inr)
  then show ?thesis using create_history_grows by simp
qed auto

text \<open>What a committed file transaction has done.\<close>

definition applied_once :: "(string \<Rightarrow> string) \<Rightarrow> string \<Rightarrow> string \<Rightarrow> string \<Rightarrow> mig_db \<Rightarrow> mig_db \<Rightarrow> bool" where
  "applied_once h s v b db db' \<longleftrightarrow> recorded db' s v (h b) \<and> hist db s \<noteq> None \<and>
     (\<forall>c. recorded db s v c \<longrightarrow> c = h b) \<and> grows_by (if known db s v then [] else [(s, v, b)]) db db' \<and>
     (\<forall>s' v'. known db' s' v' \<longrightarrow> known db s' v' \<or> (s' = s \<and> v' = v))"

lemma record_version_applied:
  assumes "hist db s = Some t" and "\<forall>c. t v = Some (Some c) \<longrightarrow> c = h b"
  shows "applied_once h s v b db (record_version s v (h b) (if known db s v then db else run_body s v b db))"
  using assms by (auto simp: applied_once_def record_version_def run_body_def recorded_def known_def grows_by_def)

lemma apply_body_applied:
  assumes "apply_body h s v b (es, db) = Inr x"
  shows "applied_once h s v b db (snd x)"
proof -
  obtain y where y1: "mig_exec ''query applied versions'' (\<lambda>db. db) (es, db) = Inr y"
    using assms by (cases "mig_exec ''query applied versions'' (\<lambda>db. db) (es, db)") (simp_all add: apply_body_def)
  note y = y1 mig_exec_Inr [OF y1, unfolded snd_conv]
  obtain t where t: "hist db s = Some t" using assms y by (auto simp: apply_body_def split: option.splits)
  show ?thesis
  proof (cases "t v")
    case None
    then have k: "\<not> known db s v" using t by (simp add: known_def)
    have "snd x = record_version s v (h b) (run_body s v b db)"
      using assms y t None by (auto simp: apply_body_def bind_res_Inr_iff dest!: mig_exec_Inr)
    then show ?thesis using record_version_applied [of db s t v h b] t None k by simp
  next
    case (Some prev)
    then have k: "known db s v" using t by (simp add: known_def)
    show ?thesis
    proof (cases prev)
      case None
      then have "snd x = record_version s v (h b) db"
        using assms y t Some by (auto simp: apply_body_def verifyChecksum_def dest!: mig_exec_Inr)
      then show ?thesis using record_version_applied [of db s t v h b] t Some None k by simp
    next
      case (Some c)
      then have "c = h b \<and> snd x = db"
        using assms y t \<open>t v = Some prev\<close> by (auto simp: apply_body_def verifyChecksum_def split: if_splits)
      then show ?thesis using t \<open>t v = Some prev\<close> Some k by (auto simp: applied_once_def recorded_def)
    qed
  qed
qed

lemma applyFile_cases:
  assumes "applyFile h te s v f db = (r, db')"
  obtains "db' = db" "r \<noteq> None" | b where "f = Inr b" "applied_once h s v b db db'"
proof (cases f)
  case (Inl e) then show thesis using assms that(1) by (auto simp: applyFile_def)
next
  case (Inr b)
  then have "inLockedTx te (apply_body h s v b) db = (r, db')" using assms by (simp add: applyFile_def)
  then show thesis
    by (cases rule: inLockedTx_cases) (use that(1) that(2) [OF Inr] apply_body_applied in \<open>auto\<close>)
qed

subsection \<open>Replicas\<close>

text \<open>
  What the runner does, as a list of transactions; \<open>Refuse\<close> stands for the set that is given up without one. Replicas
  that start together take turns between transactions, since the advisory lock serialises those of one schema; a
  replica stops at its first error and may crash at any time, which rolls back the transaction it is in.
\<close>

datatype mig_task = Ensure string | Apply string string mig_file | Refuse gerr

definition tasks_of :: "mig_set \<Rightarrow> mig_task list" where
  "tasks_of s = (if \<not> schema_ok (ms_schema s) then [Refuse (InvalidArgument ''invalid schema name'')]
     else Ensure (ms_schema s) # (case ms_glob s of
         Inl e \<Rightarrow> [Refuse (Wrap ''list migration files'' e)]
       | Inr fs \<Rightarrow> map (\<lambda>(v, f). Apply (ms_schema s) v f) (sort_key fst fs)))"

fun run_task :: "(string \<Rightarrow> string) \<Rightarrow> tx_env \<Rightarrow> mig_task \<Rightarrow> mig_db \<Rightarrow> gerr option \<times> mig_db" where
  "run_task h te (Ensure s) db = ensureSchema te s db"
| "run_task h te (Apply s v f) db = applyFile h te s v f db"
| "run_task h te (Refuse e) db = (Some e, db)"

record replica =
  rp_todo :: "mig_task list"
  rp_done :: "mig_task list"
  rp_stopped :: bool

definition replica_for :: "mig_set list \<Rightarrow> replica" where
  "replica_for ss = \<lparr>rp_todo = concat (map tasks_of ss), rp_done = [], rp_stopped = False\<rparr>"

inductive mig_step :: "(string \<Rightarrow> string) \<Rightarrow> mig_db \<times> replica list \<Rightarrow> mig_db \<times> replica list \<Rightarrow> bool" for h where
  mig_done: "i < length rs \<Longrightarrow> \<not> rp_stopped (rs ! i) \<Longrightarrow> rp_todo (rs ! i) = t # ts \<Longrightarrow> run_task h te t db = (None, db') \<Longrightarrow>
    mig_step h (db, rs) (db', rs[i := (rs ! i)\<lparr>rp_todo := ts, rp_done := rp_done (rs ! i) @ [t]\<rparr>])"
| mig_failed: "i < length rs \<Longrightarrow> \<not> rp_stopped (rs ! i) \<Longrightarrow> rp_todo (rs ! i) = t # ts \<Longrightarrow> run_task h te t db = (Some e, db') \<Longrightarrow>
    mig_step h (db, rs) (db', rs[i := (rs ! i)\<lparr>rp_stopped := True\<rparr>])"
| mig_crash: "i < length rs \<Longrightarrow> mig_step h (db, rs) (db, rs[i := (rs ! i)\<lparr>rp_stopped := True\<rparr>])"

lemmas mig_step_induct = mig_step.induct [split_format (complete)]
inductive_cases mig_stepE: "mig_step h (db, rs) (db', rs')"

text \<open>One task.\<close>

definition task_done :: "(string \<Rightarrow> string) \<Rightarrow> mig_task \<Rightarrow> mig_db \<Rightarrow> bool" where
  "task_done h t db \<longleftrightarrow> (case t of
     Ensure s \<Rightarrow> hist db s \<noteq> None
   | Apply s v f \<Rightarrow> (\<exists>b. f = Inr b \<and> recorded db s v (h b))
   | Refuse e \<Rightarrow> False)"

text \<open>A transaction adds at most one body, for a version it finds unknown and leaves recorded.\<close>

definition adds_fresh :: "(string \<Rightarrow> string) \<Rightarrow> mig_db \<Rightarrow> mig_db \<Rightarrow> bool" where
  "adds_fresh h db db' \<longleftrightarrow> (\<exists>ws. grows_by ws db db' \<and> (ws = [] \<or> (\<exists>s v b. ws = [(s, v, b)] \<and> \<not> known db s v \<and> recorded db' s v (h b))))"

lemma run_task_effect:
  assumes "run_task h te t db = (r, db')"
  shows "adds_fresh h db db' \<and> (r = None \<longrightarrow> task_done h t db')"
proof (cases t)
  case (Ensure s)
  then have "grows_by [] db db' \<and> (r = None \<longrightarrow> hist db' s \<noteq> None)" using ensure_grows assms by simp
  then show ?thesis using Ensure by (auto simp: adds_fresh_def task_done_def)
next
  case (Apply s v f)
  then have "applyFile h te s v f db = (r, db')" using assms by simp
  then show ?thesis
  proof (cases rule: applyFile_cases)
    case 1 then show ?thesis by (auto simp: adds_fresh_def intro: exI [of _ "[]"])
  next
    case (2 b)
    then have "adds_fresh h db db'"
      by (cases "known db s v") (auto simp: adds_fresh_def applied_once_def)
    then show ?thesis using 2 Apply by (simp add: task_done_def applied_once_def)
  qed
next
  case (Refuse e) then show ?thesis using assms by (auto simp: adds_fresh_def intro: exI [of _ "[]"])
qed

lemma mig_step_adds: "mig_step h (db, rs) (db', rs') \<Longrightarrow> adds_fresh h db db'"
  by (erule mig_stepE) (auto dest: run_task_effect, auto simp: adds_fresh_def intro: exI [of _ "[]"])

text \<open>Facts about the database that no transaction undoes.\<close>

definition mig_fact :: "(string \<Rightarrow> string) \<Rightarrow> mig_task \<Rightarrow> mig_db \<times> replica list \<Rightarrow> bool" where
  "mig_fact h t x = task_done h t (fst x)"

lemma task_done_grows: "grows_by ws db db' \<Longrightarrow> task_done h t db \<Longrightarrow> task_done h t db'"
  by (auto simp: grows_by_def task_done_def split: mig_task.splits)

lemma mig_fact_step: "mig_step h x x' \<Longrightarrow> mig_fact h t x \<Longrightarrow> mig_fact h t x'"
  by (cases x; cases x') (auto simp: mig_fact_def adds_fresh_def dest!: mig_step_adds intro: task_done_grows)

interpretation migrated: stable_fact "mig_step h" "mig_fact h" for h
  by unfold_locales (rule mig_fact_step)

text \<open>Every replica has carried out a prefix of its tasks, and they hold.\<close>

definition replica_ok :: "(string \<Rightarrow> string) \<Rightarrow> mig_task list \<Rightarrow> replica \<Rightarrow> mig_db \<Rightarrow> bool" where
  "replica_ok h ts r db \<longleftrightarrow> rp_done r @ rp_todo r = ts \<and> (\<forall>t\<in>set (rp_done r). task_done h t db)"

lemma replica_ok_step:
  assumes "mig_step h (db, rs) (db', rs')" and "list_all2 (\<lambda>ts r. replica_ok h ts r db) tss rs"
  shows "list_all2 (\<lambda>ts r. replica_ok h ts r db') tss rs'"
proof -
  obtain ws where g: "grows_by ws db db'" using mig_step_adds [OF assms(1)] by (auto simp: adds_fresh_def)
  have up: "replica_ok h ts r db \<Longrightarrow> replica_ok h ts r db'" for ts r
    using task_done_grows [OF g] by (auto simp: replica_ok_def)
  have all: "list_all2 (\<lambda>ts r. replica_ok h ts r db') tss rs" using assms(2) by (rule list_all2_mono) (rule up)
  have upd: "list_all2 (\<lambda>ts r. replica_ok h ts r db') tss (rs[i := r])"
    if "i < length rs" "\<And>ts. replica_ok h ts (rs ! i) db' \<Longrightarrow> replica_ok h ts r db'" for i r
    using all that by (auto simp: list_all2_conv_all_nth nth_list_update)
  show ?thesis
  proof (rule mig_stepE [OF assms(1)])
    fix i t ts te
    assume i: "rs' = rs[i := (rs ! i)\<lparr>rp_todo := ts, rp_done := rp_done (rs ! i) @ [t]\<rparr>]" "i < length rs"
      and t: "rp_todo (rs ! i) = t # ts" "run_task h te t db = (None, db')"
    have "task_done h t db'" using run_task_effect [OF t(2)] by simp
    then show ?thesis unfolding i(1) using t(1) by (intro upd i(2)) (auto simp: replica_ok_def)
  next
    fix i assume i: "rs' = rs[i := (rs ! i)\<lparr>rp_stopped := True\<rparr>]" "i < length rs"
    then show ?thesis unfolding i(1) by (intro upd i(2)) (auto simp: replica_ok_def)
  next
    fix i assume i: "rs' = rs[i := (rs ! i)\<lparr>rp_stopped := True\<rparr>]" "i < length rs"
    then show ?thesis unfolding i(1) by (intro upd i(2)) (auto simp: replica_ok_def)
  qed
qed

lemma mig_steps_grow: "(mig_step h)\<^sup>*\<^sup>* x y \<Longrightarrow> \<exists>ws. grows_by ws (fst x) (fst y)"
proof (induction rule: rtranclp_induct)
  case base then show ?case using log_grows_refl by blast
next
  case (step y z)
  then show ?case using mig_step_adds [of h "fst y" "snd y" "fst z" "snd z"] log_grows_trans
    by (auto simp: adds_fresh_def) blast+
qed

definition version_of :: "string \<times> string \<times> string \<Rightarrow> string \<times> string" where
  "version_of w = (fst w, fst (snd w))"

text \<open>
  Property C37. However many replicas start together, with whatever migration sets, faults and crashes, a version takes
  effect at most once per schema, and only if the history did not know it before; what took effect is recorded with
  the checksum of exactly that body, and no recorded checksum is ever changed.
\<close>

theorem migrate_once:
  assumes "(mig_step h)\<^sup>*\<^sup>* (db0, rs0) (db, rs)"
  shows "\<exists>ws. applied db = applied db0 @ ws \<and> distinct (map version_of ws) \<and>
    (\<forall>(s, v, b)\<in>set ws. \<not> known db0 s v \<and> recorded db s v (h b)) \<and>
    (\<forall>s v c. recorded db0 s v c \<longrightarrow> recorded db s v c)"
proof -
  have "\<exists>ws. grows_by ws db0 (fst x) \<and> distinct (map version_of ws) \<and>
      (\<forall>(s, v, b)\<in>set ws. \<not> known db0 s v \<and> recorded (fst x) s v (h b))"
    if "(mig_step h)\<^sup>*\<^sup>* (db0, rs0) x" for x
    using that
  proof (induction rule: rtranclp_induct)
    case base then show ?case by (intro exI [of _ "[]"]) simp
  next
    case (step y z)
    then obtain ws where ws: "grows_by ws db0 (fst y)" "distinct (map version_of ws)"
      "\<forall>(s, v, b)\<in>set ws. \<not> known db0 s v \<and> recorded (fst y) s v (h b)" by blast
    obtain us where us: "grows_by us (fst y) (fst z)"
      "us = [] \<or> (\<exists>s v b. us = [(s, v, b)] \<and> \<not> known (fst y) s v \<and> recorded (fst z) s v (h b))"
      using step(2) mig_step_adds [of h "fst y" "snd y" "fst z" "snd z"] by (auto simp: adds_fresh_def)
    have old: "\<forall>(s, v, b)\<in>set ws. \<not> known db0 s v \<and> recorded (fst z) s v (h b)"
      using ws(3) us(1) by (auto simp: grows_by_def)
    have g: "grows_by (ws @ us) db0 (fst z)" by (rule log_grows_trans [OF ws(1) us(1)])
    show ?case using us(2)
    proof (elim disjE exE conjE)
      assume "us = []" then show ?thesis using g ws(2) old by (intro exI [of _ ws]) simp
    next
      fix s v b assume u: "us = [(s, v, b)]" "\<not> known (fst y) s v" "recorded (fst z) s v (h b)"
      have "version_of w \<noteq> (s, v)" if "w \<in> set ws" for w
        using ws(3) that u(2) recorded_known [of "fst y"] by (cases w) (auto simp: version_of_def)
      then have "distinct (map version_of (ws @ us))" using ws(2) u(1) by (auto simp: version_of_def)
      moreover have "\<not> known db0 s v" using ws(1) u(2) by (auto simp: grows_by_def)
      ultimately show ?thesis using g old u by (intro exI [of _ "ws @ us"]) auto
    qed
  qed
  from this [OF assms] show ?thesis by (auto simp: grows_by_def)
qed

text \<open>
  Property C38. A replica that has finished its migrations may serve: in every interleaving with the others, its sets are
  well-formed, all their files were readable, and every one of them is recorded with the checksum of its own contents.
  So a file that differs from what was applied before stops the replica.
\<close>

theorem migrate_ready:
  assumes "(mig_step h)\<^sup>*\<^sup>* (db0, map replica_for sss) (db, rs)" and "i < length rs" and "rp_todo (rs ! i) = []"
    and "s \<in> set (sss ! i)"
  shows "schema_ok (ms_schema s) \<and> (\<exists>fs. ms_glob s = Inr fs \<and>
    (\<forall>(v, f)\<in>set fs. \<exists>b. f = Inr b \<and> recorded db (ms_schema s) v (h b) \<and> (\<forall>c. recorded db0 (ms_schema s) v c \<longrightarrow> c = h b)))"
proof -
  have ok: "list_all2 (\<lambda>ts r. replica_ok h ts r (fst x)) (map (\<lambda>ss. concat (map tasks_of ss)) sss) (snd x)"
    if "(mig_step h)\<^sup>*\<^sup>* (db0, map replica_for sss) x" for x
    using that
  proof (induction rule: rtranclp_induct)
    case base then show ?case by (simp add: list_all2_conv_all_nth replica_ok_def replica_for_def)
  next
    case (step y z) then show ?case using replica_ok_step [of h "fst y" "snd y" "fst z" "snd z"] by simp
  qed
  have "replica_ok h (concat (map tasks_of (sss ! i))) (rs ! i) db"
    using list_all2_nthD2 [OF ok [OF assms(1)], of i] assms(2) list_all2_lengthD [OF ok [OF assms(1)]] by simp
  then have all: "\<forall>t\<in>set (tasks_of s). task_done h t db"
    using assms(3,4) by (auto simp: replica_ok_def)
  have keep: "recorded db (ms_schema s) v c" if "recorded db0 (ms_schema s) v c" for v c
    using mig_steps_grow [OF assms(1)] that by (auto simp: grows_by_def)
  have valid: "schema_ok (ms_schema s)" using all by (auto simp: tasks_of_def task_done_def split: if_splits)
  obtain fs where fs: "ms_glob s = Inr fs" using all valid by (cases "ms_glob s") (auto simp: tasks_of_def task_done_def)
  have each: "\<exists>b. f = Inr b \<and> recorded db (ms_schema s) v (h b) \<and> (\<forall>c. recorded db0 (ms_schema s) v c \<longrightarrow> c = h b)"
    if "(v, f) \<in> set fs" for v f
  proof -
    have "Apply (ms_schema s) v f \<in> set (tasks_of s)" using that valid fs by (force simp: tasks_of_def)
    then obtain b where "f = Inr b" "recorded db (ms_schema s) v (h b)" using all by (fastforce simp: task_done_def)
    then show ?thesis using keep recorded_unique by blast
  qed
  show ?thesis using valid fs each by auto
qed


subsection \<open>The runner as a replica\<close>

definition working :: "mig_task list \<Rightarrow> mig_task list \<Rightarrow> replica list" where
  "working ts dn = [\<lparr>rp_todo = ts, rp_done = dn, rp_stopped = False\<rparr>]"

text \<open>The outcome of a run that began with \<open>ts @ rest\<close> to do.\<close>

definition runs_to :: "(string \<Rightarrow> string) \<Rightarrow> mig_task list \<Rightarrow> mig_db \<Rightarrow> gerr option \<Rightarrow> mig_db \<Rightarrow> bool" where
  "runs_to h ts db r db' \<longleftrightarrow> (\<forall>rest dn. if r = None then (mig_step h)\<^sup>*\<^sup>* (db, working (ts @ rest) dn) (db', working rest (dn @ ts))
     else (\<exists>rp. rp_stopped rp \<and> (mig_step h)\<^sup>*\<^sup>* (db, working (ts @ rest) dn) (db', [rp])))"

lemma runs_nothing [simp]: "runs_to h [] db None db"
  by (simp add: runs_to_def)

lemma runs_task:
  assumes "run_task h te t db = (r, db')"
  shows "runs_to h [t] db r db'"
proof (cases r)
  case None
  have "mig_step h (db, working (t # rest) dn) (db', working rest (dn @ [t]))" for rest dn
    using mig_done [of 0 "working (t # rest) dn" t rest h te db db'] assms None by (simp add: working_def)
  then show ?thesis using None by (auto simp: runs_to_def)
next
  case (Some e)
  have "mig_step h (db, working (t # rest) dn) (db', [\<lparr>rp_todo = t # rest, rp_done = dn, rp_stopped = True\<rparr>])" for rest dn
    using mig_failed [of 0 "working (t # rest) dn" t rest h te db e db'] assms Some by (simp add: working_def)
  then show ?thesis using Some by (force simp: runs_to_def)
qed

lemma runs_fails: "runs_to h ts db (Some e) db' \<Longrightarrow> runs_to h (ts @ us) db (Some e') db'"
  by (simp add: runs_to_def)

lemma runs_append:
  assumes "runs_to h ts db None db1" and "runs_to h us db1 r db'"
  shows "runs_to h (ts @ us) db r db'"
proof (cases "r = None")
  case True
  have "(mig_step h)\<^sup>*\<^sup>* (db, working (ts @ us @ rest) dn) (db', working rest (dn @ ts @ us))" for rest dn
    using assms True unfolding runs_to_def if_P [OF refl] if_P [OF True] by (metis append.assoc rtranclp_trans)
  then show ?thesis using True by (simp add: runs_to_def)
next
  case False
  have "\<exists>rp. rp_stopped rp \<and> (mig_step h)\<^sup>*\<^sup>* (db, working (ts @ us @ rest) dn) (db', [rp])" for rest dn
  proof -
    obtain rp where "rp_stopped rp" "(mig_step h)\<^sup>*\<^sup>* (db1, working (us @ rest) (dn @ ts)) (db', [rp])"
      using assms(2) False by (auto simp: runs_to_def)
    moreover have "(mig_step h)\<^sup>*\<^sup>* (db, working (ts @ us @ rest) dn) (db1, working (us @ rest) (dn @ ts))"
      using assms(1) by (simp add: runs_to_def)
    ultimately show ?thesis using rtranclp_trans by metis
  qed
  then show ?thesis using False by (auto simp: runs_to_def)
qed

lemma runs_files: "apply_files h ev n s fs db = (r, n', db') \<Longrightarrow> runs_to h (map (\<lambda>(v, f). Apply s v f) fs) db r db'"
proof (induction h ev n s fs db rule: apply_files.induct)
  case (2 h ev n s v f fs db)
  obtain r1 db1 where a: "applyFile h (ev n) s v f db = (r1, db1)" by force
  have one: "runs_to h [Apply s v f] db r1 db1" by (rule runs_task [of _ "ev n"]) (simp add: a)
  show ?case
  proof (cases r1)
    case None
    then have "runs_to h (map (\<lambda>(v, f). Apply s v f) fs) db1 r db'" using 2 a by simp
    from runs_append [OF one [unfolded None] this] show ?thesis by simp
  next
    case (Some e)
    then have "r = Some (Wrap (''migration '' @ v) e)" "db' = db1" using 2(2) a by auto
    then show ?thesis using runs_fails [OF one [unfolded Some]] by (metis append_Cons append_Nil list.simps(9) split_conv)
  qed
qed simp

lemma runs_set: "applySet h ev n s db = (r, n', db') \<Longrightarrow> runs_to h (tasks_of s) db r db'"
proof -
  assume a: "applySet h ev n s db = (r, n', db')"
  show ?thesis
  proof (cases "schema_ok (ms_schema s)")
    case False
    have "runs_to h [Refuse (InvalidArgument ''invalid schema name'')] db (Some (InvalidArgument ''invalid schema name'')) db"
      by (rule runs_task) simp
    then show ?thesis using a False by (auto simp: applySet_def tasks_of_def)
  next
    case valid: True
    obtain r1 db1 where e: "ensureSchema (ev n) (ms_schema s) db = (r1, db1)" by force
    have one: "runs_to h [Ensure (ms_schema s)] db r1 db1" by (rule runs_task [of _ "ev n"]) (simp add: e)
    show ?thesis
    proof (cases r1)
      case (Some x)
      then have "r = Some x" "db' = db1" using a valid e by (auto simp: applySet_def)
      then show ?thesis using runs_fails [OF one [unfolded Some]] valid by (simp add: tasks_of_def)
    next
      case None
      have "runs_to h (case ms_glob s of Inl e \<Rightarrow> [Refuse (Wrap ''list migration files'' e)]
          | Inr fs \<Rightarrow> map (\<lambda>(v, f). Apply (ms_schema s) v f) (sort_key fst fs)) db1 r db'"
      proof (cases "ms_glob s")
        case (Inl x)
        have "runs_to h [Refuse (Wrap ''list migration files'' x)] db1 (Some (Wrap ''list migration files'' x)) db1"
          by (rule runs_task) simp
        then show ?thesis using a valid e None Inl by (auto simp: applySet_def)
      next
        case (Inr fs)
        then show ?thesis using a valid e None runs_files by (auto simp: applySet_def)
      qed
      from runs_append [OF one [unfolded None] this] show ?thesis using valid by (simp add: tasks_of_def)
    qed
  qed
qed

lemma runs_sets: "Runner h ev n ss db = (r, n', db') \<Longrightarrow> runs_to h (concat (map tasks_of ss)) db r db'"
proof (induction h ev n ss db rule: Runner.induct)
  case (2 h ev n s ss db)
  obtain r1 n1 db1 where a: "applySet h ev n s db = (r1, n1, db1)" by (metis prod_cases3)
  note one = runs_set [OF a]
  show ?case
  proof (cases r1)
    case None
    then have "runs_to h (concat (map tasks_of ss)) db1 r db'" using 2 a by simp
    from runs_append [OF one [unfolded None] this] show ?thesis by simp
  next
    case (Some e)
    then have "r = Some (Wrap (''module '' @ ms_module s @ '' schema '' @ ms_schema s) e)" "db' = db1" using 2(2) a by auto
    then show ?thesis using runs_fails [OF one [unfolded Some]] by simp
  qed
qed simp

text \<open>
  Property C39. The runner refines a replica: whatever the database answers, one run is a sequence of the replica's steps
  from the same database to the same database; it returns no error exactly when the replica has nothing left to do,
  and it stops where the replica stops.
\<close>

theorem migrate_refines:
  assumes "Runner h ev n ss db = (r, n', db')"
  shows "\<exists>rp. (mig_step h)\<^sup>*\<^sup>* (db, [replica_for ss]) (db', [rp]) \<and> (if r = None then rp_todo rp = [] \<and> \<not> rp_stopped rp else rp_stopped rp)"
proof -
  have start: "[replica_for ss] = working (concat (map tasks_of ss) @ []) []" by (simp add: replica_for_def working_def)
  note run = runs_sets [OF assms, unfolded runs_to_def, rule_format, of "[]" "[]", folded start]
  show ?thesis
  proof (cases "r = None")
    case True then show ?thesis using run by (intro exI [of _ "hd (working [] (concat (map tasks_of ss)))"]) (simp add: working_def)
  next
    case False
    then obtain rp where "rp_stopped rp" "(mig_step h)\<^sup>*\<^sup>* (db, [replica_for ss]) (db', [rp])" using run by auto
    then show ?thesis using False by auto
  qed
qed

subsection \<open>The order of one run, and a second run\<close>

text \<open>The bodies of a set that a history does not know, in the order of their names.\<close>

definition fresh_of :: "mig_db \<Rightarrow> string \<Rightarrow> (string \<times> mig_file) list \<Rightarrow> (string \<times> string \<times> string) list" where
  "fresh_of db s fs = List.map_filter (\<lambda>(v, f). case f of Inr b \<Rightarrow> if known db s v then None else Some (s, v, b) | Inl e \<Rightarrow> None) fs"

definition fresh_bodies :: "mig_db \<Rightarrow> mig_set \<Rightarrow> (string \<times> string \<times> string) list" where
  "fresh_bodies db s = (case ms_glob s of Inl e \<Rightarrow> [] | Inr fs \<Rightarrow> fresh_of db (ms_schema s) (sort_key fst fs))"

lemma fresh_of_simps [simp]:
  "fresh_of db s [] = []"
  "fresh_of db s ((v, Inr b) # fs) = (if known db s v then [] else [(s, v, b)]) @ fresh_of db s fs"
  by (simp_all add: fresh_of_def map_filter_simps)

lemma fresh_of_cong: "\<forall>v\<in>fst ` set fs. known db s v = known db' s v \<Longrightarrow> fresh_of db s fs = fresh_of db' s fs"
  by (induction fs) (auto simp: fresh_of_def map_filter_simps split: sum.splits)

lemma applyFile_success:
  assumes "applyFile h te s v f db = (None, db')"
  obtains b where "f = Inr b" "applied_once h s v b db db'"
  using assms by (cases rule: applyFile_cases) auto

lemma applied_once_known: "applied_once h s v b db db' \<Longrightarrow> known db' s' v' \<longleftrightarrow> known db s' v' \<or> s' = s \<and> v' = v"
  by (auto simp: applied_once_def grows_by_def dest: recorded_known split: if_splits)

lemma ensure_known: "ensureSchema te s db = (r, db') \<Longrightarrow> known db' s' v = known db s' v"
  unfolding ensureSchema_def
proof (erule inLockedTx_cases)
  fix x assume "db' = snd x" and "bind_res (mig_exec ''create schema'' (\<lambda>db. db) (te_stmts te, db)) (\<lambda>x.
     bind_res (mig_exec ''create history table'' (create_history s) x) (\<lambda>x.
     bind_res (mig_exec ''add checksum column'' (\<lambda>db. db) x) (\<lambda>x.
     mig_exec ''comment on history table'' (\<lambda>db. db) x))) = Inr x"
  then have "db' = create_history s db" by (auto simp: bind_res_Inr_iff dest!: mig_exec_Inr)
  then show ?thesis by (auto simp: create_history_def known_def)
qed simp

lemma apply_files_exact:
  assumes "apply_files h ev n s fs db = (None, n', db')" and "distinct (map fst fs)"
  shows "applied db' = applied db @ fresh_of db s fs \<and>
    (\<forall>s' v. known db' s' v \<longleftrightarrow> known db s' v \<or> s' = s \<and> v \<in> fst ` set fs)"
  using assms
proof (induction h ev n s fs db rule: apply_files.induct)
  case (2 h ev n s v f fs db)
  obtain r1 db1 where a: "applyFile h (ev n) s v f db = (r1, db1)" by force
  then have r1: "r1 = None" using 2(2) by (auto split: option.splits)
  obtain b where b: "f = Inr b" "applied_once h s v b db db1" using a r1 applyFile_success by metis
  note k = applied_once_known [OF b(2)]
  have IH: "applied db' = applied db1 @ fresh_of db1 s fs" "\<forall>s' v. known db' s' v \<longleftrightarrow> known db1 s' v \<or> s' = s \<and> v \<in> fst ` set fs"
    using 2 a r1 by auto
  have "fresh_of db1 s fs = fresh_of db s fs" using 2(3) k by (intro fresh_of_cong) auto
  moreover have "applied db1 = applied db @ (if known db s v then [] else [(s, v, b)])"
    using b(2) by (simp add: applied_once_def grows_by_def)
  ultimately show ?case using IH b(1) k by auto
qed simp

lemma applySet_exact:
  assumes "applySet h ev n s db = (None, n', db')" and "\<And>fs. ms_glob s = Inr fs \<Longrightarrow> distinct (map fst fs)"
  shows "applied db' = applied db @ fresh_bodies db s \<and> (\<forall>s' v. s' \<noteq> ms_schema s \<longrightarrow> known db' s' v = known db s' v)"
proof -
  obtain db1 fs where e: "ensureSchema (ev n) (ms_schema s) db = (None, db1)" and g: "ms_glob s = Inr fs"
    and a: "apply_files h ev (n + 1) (ms_schema s) (sort_key fst fs) db1 = (None, n', db')"
    using assms(1) by (auto simp: applySet_def split: if_splits prod.splits option.splits sum.splits)
  have d: "distinct (map fst (sort_key fst fs))"
    using assms(2) [OF g] by (simp add: distinct_map)
  note ex = apply_files_exact [OF a d]
  have "applied db1 = applied db" using ensure_grows [OF e] by (simp add: grows_by_def)
  moreover have "fresh_of db1 (ms_schema s) (sort_key fst fs) = fresh_of db (ms_schema s) (sort_key fst fs)"
    using ensure_known [OF e] by (intro fresh_of_cong) simp
  ultimately show ?thesis using ex ensure_known [OF e] g by (simp add: fresh_bodies_def)
qed

lemma Runner_exact:
  assumes "Runner h ev n ss db = (None, n', db')" and "distinct (map ms_schema ss)"
    and "\<forall>s\<in>set ss. \<forall>fs. ms_glob s = Inr fs \<longrightarrow> distinct (map fst fs)"
  shows "applied db' = applied db @ concat (map (fresh_bodies db) ss)"
  using assms
proof (induction h ev n ss db rule: Runner.induct)
  case (2 h ev n s ss db)
  obtain r1 n1 db1 where a: "applySet h ev n s db = (r1, n1, db1)" by (metis prod_cases3)
  then have r1: "r1 = None" using 2(2) by (auto split: option.splits)
  have ex: "applied db1 = applied db @ fresh_bodies db s" "\<forall>s' v. s' \<noteq> ms_schema s \<longrightarrow> known db1 s' v = known db s' v"
    using applySet_exact [OF a [unfolded r1]] 2(4) by auto
  have "fresh_bodies db1 x = fresh_bodies db x" if "x \<in> set ss" for x
  proof -
    have "ms_schema s \<notin> ms_schema ` set ss" "ms_schema x \<in> ms_schema ` set ss" using that 2(3) by simp_all
    then have "ms_schema x \<noteq> ms_schema s" by metis
    then show ?thesis using ex(2) by (auto simp: fresh_bodies_def split: sum.split intro!: fresh_of_cong)
  qed
  then have "concat (map (fresh_bodies db1) ss) = concat (map (fresh_bodies db) ss)" by (metis map_cong)
  moreover have "applied db' = applied db1 @ concat (map (fresh_bodies db1) ss)" using 2 a r1 by simp
  ultimately show ?case using ex(1) by simp
qed simp

lemma fault_free_run: "fn ([], db) = Inr ([], db) \<Longrightarrow> inLockedTx fault_free fn db = (None, db)"
  by (simp add: inLockedTx_def fault_free_def)

lemma ensure_again: "hist db s \<noteq> None \<Longrightarrow> ensureSchema fault_free s db = (None, db)"
  unfolding ensureSchema_def by (rule fault_free_run) (auto simp: mig_exec_def create_history_def)

lemma apply_again: "recorded db s v (h b) \<Longrightarrow> applyFile h fault_free s v (Inr b) db = (None, db)"
proof -
  assume r: "recorded db s v (h b)"
  have "inLockedTx fault_free (apply_body h s v b) db = (None, db)"
    by (rule fault_free_run) (use r in \<open>auto simp: apply_body_def mig_exec_def verifyChecksum_def recorded_def\<close>)
  then show ?thesis by (simp add: applyFile_def)
qed

lemma files_again:
  "(\<And>v f. (v, f) \<in> set fs \<Longrightarrow> \<exists>b. f = Inr b \<and> recorded db s v (h b)) \<Longrightarrow> \<exists>n'. apply_files h (\<lambda>i. fault_free) n s fs db = (None, n', db)"
proof (induction fs arbitrary: n)
  case (Cons x fs)
  obtain v f where x: "x = (v, f)" by force
  obtain b where b: "f = Inr b" "recorded db s v (h b)" using Cons(2) [of v f] x by auto
  have "\<exists>n'. apply_files h (\<lambda>i. fault_free) (n + 1) s fs db = (None, n', db)" by (rule Cons(1)) (use Cons(2) in auto)
  then show ?case using x b apply_again [where h = h, OF b(2)] by auto
qed simp

lemma Runner_again:
  "(\<And>t. t \<in> set (concat (map tasks_of ss)) \<Longrightarrow> task_done h t db) \<Longrightarrow> \<exists>n'. Runner h (\<lambda>i. fault_free) n ss db = (None, n', db)"
proof (induction ss arbitrary: n)
  case (Cons s ss)
  have t: "\<forall>t\<in>set (tasks_of s). task_done h t db" using Cons(2) by auto
  have valid: "schema_ok (ms_schema s)" using t by (auto simp: tasks_of_def task_done_def split: if_splits)
  have e: "ensureSchema fault_free (ms_schema s) db = (None, db)"
    using t valid by (intro ensure_again) (simp add: tasks_of_def task_done_def)
  obtain fs where fs: "ms_glob s = Inr fs" using t valid by (cases "ms_glob s") (auto simp: tasks_of_def task_done_def)
  have "\<exists>b. f = Inr b \<and> recorded db (ms_schema s) v (h b)" if "(v, f) \<in> set (sort_key fst fs)" for v f
    using t that valid fs by (fastforce simp: tasks_of_def task_done_def)
  then obtain n1 where "apply_files h (\<lambda>i. fault_free) (n + 1) (ms_schema s) (sort_key fst fs) db = (None, n1, db)"
    using files_again by metis
  then have "applySet h (\<lambda>i. fault_free) n s db = (None, n1, db)" using valid e fs by (simp add: applySet_def)
  moreover have "\<exists>n'. Runner h (\<lambda>i. fault_free) n1 ss db = (None, n', db)" by (rule Cons(1)) (use Cons(2) in auto)
  ultimately show ?case by auto
qed simp

text \<open>
  Property C40. A run that succeeds has applied, set by set and in the order of the file names, exactly the files the
  history did not know; and running it again over a database that answers changes nothing.
\<close>

theorem migrate_exact:
  assumes "Runner h ev n ss db = (None, n', db')" and "distinct (map ms_schema ss)"
    and "\<forall>s\<in>set ss. \<forall>fs. ms_glob s = Inr fs \<longrightarrow> distinct (map fst fs)"
  shows "applied db' = applied db @ concat (map (fresh_bodies db) ss) \<and>
    (\<exists>n''. Runner h (\<lambda>i. fault_free) k ss db' = (None, n'', db'))"
proof (intro conjI Runner_exact [OF assms] Runner_again)
  fix t assume t: "t \<in> set (concat (map tasks_of ss))"
  have run: "(mig_step h)\<^sup>*\<^sup>* (db, working (concat (map tasks_of ss)) []) (db', working [] (concat (map tasks_of ss)))"
    using runs_sets [OF assms(1), unfolded runs_to_def, rule_format, of "[]" "[]"] by simp
  have "list_all2 (\<lambda>ts r. replica_ok h ts r (fst x)) [concat (map tasks_of ss)] (snd x)"
    if "(mig_step h)\<^sup>*\<^sup>* (db, working (concat (map tasks_of ss)) []) x" for x
    using that
  proof (induction rule: rtranclp_induct)
    case base then show ?case by (simp add: working_def replica_ok_def)
  next
    case (step y z) then show ?case using replica_ok_step [of h "fst y" "snd y" "fst z" "snd z"] by simp
  qed
  from this [OF run] have "\<forall>t\<in>set (concat (map tasks_of ss)). task_done h t db'"
    by (simp add: working_def replica_ok_def)
  then show "task_done h t db'" using t by (rule bspec)
qed


subsection \<open>A sample run\<close>

lemma known_code [code]: "known db s v = (case hist db s of None \<Rightarrow> False | Some t \<Rightarrow> t v \<noteq> None)"
  by (auto simp: known_def split: option.split)

definition shop_set :: mig_set where
  "shop_set = \<lparr>ms_module = ''shop'', ms_schema = ''shop'', ms_glob = Inr [(''2.sql'', Inr ''b''), (''1.sql'', Inr ''a'')]\<rparr>"

definition empty_db :: mig_db where "empty_db = \<lparr>hist = (\<lambda>s. None), applied = []\<rparr>"

definition shop_run :: "gerr option \<times> nat \<times> mig_db" where
  "shop_run = Runner rev (\<lambda>i. fault_free) 0 [shop_set] empty_db"

lemma shop_run: "Runner rev (\<lambda>i. fault_free) 0 [shop_set] empty_db = (None, snd shop_run)"
proof -
  have "fst shop_run = None" by code_simp
  then show ?thesis unfolding shop_run_def by (metis prod.collapse)
qed

lemma shop_steps: "(mig_step rev)\<^sup>*\<^sup>* (empty_db, map replica_for [[shop_set]]) (snd (snd shop_run), working [] (tasks_of shop_set))"
  using runs_sets [of rev "\<lambda>i. fault_free" 0 "[shop_set]" empty_db None "fst (snd shop_run)" "snd (snd shop_run)"] shop_run
  by (simp add: runs_to_def working_def replica_for_def) (metis append_Nil append_Nil2)

theorem migrate_exact_witness: "applied (snd (snd shop_run)) = [(''shop'', ''1.sql'', ''a''), (''shop'', ''2.sql'', ''b'')]"
proof -
  have s: "distinct (map ms_schema [shop_set])" "\<forall>s\<in>set [shop_set]. \<forall>fs. ms_glob s = Inr fs \<longrightarrow> distinct (map fst fs)"
    by (simp_all add: shop_set_def)
  have f: "fresh_bodies empty_db shop_set = [(''shop'', ''1.sql'', ''a''), (''shop'', ''2.sql'', ''b'')]" by code_simp
  from migrate_exact [of rev "\<lambda>i. fault_free" 0 "[shop_set]" empty_db "fst (snd shop_run)" "snd (snd shop_run)", OF _ s] shop_run
  show ?thesis by (simp add: f) (simp add: empty_db_def)
qed

theorem migrate_refines_witness: "\<exists>rp. (mig_step rev)\<^sup>*\<^sup>* (empty_db, [replica_for [shop_set]]) (snd (snd shop_run), [rp]) \<and> rp_todo rp = []"
  using migrate_refines [of rev "\<lambda>i. fault_free" 0 "[shop_set]" empty_db None "fst (snd shop_run)" "snd (snd shop_run)"] shop_run by auto

theorem migrate_once_witness: "distinct (map version_of (applied (snd (snd shop_run))))"
  using migrate_once [OF shop_steps] by (auto simp: empty_db_def)

theorem migrate_ready_witness: "recorded (snd (snd shop_run)) ''shop'' ''1.sql'' (rev ''a'')"
  using migrate_ready [OF shop_steps, of 0 shop_set] by (auto simp: working_def shop_set_def)

end
