(* ===== verification/Workspace_Plan.thy ===== *)
theory Workspace_Plan
  imports Prelude Json_String "HOL-Library.Word"
begin

text \<open>
  Plans over workspace files (internal/workspace/plan.go, snapshot.go, directory.go): paths, captured file states and
  their digests, the canonical form of a plan, directory guards, and the validation of a plan. An error is the list of
  the sentinels that \<open>errors.Is\<close> finds in its chain. SHA-256 with its prefix and hexadecimal form is the argument
  \<open>h\<close> of what computes a digest.
\<close>

unbundle bit_operations_syntax

datatype werror = ErrInvalidChange | ErrInvalidPlan | ErrRollback | ErrInvalidPath | ErrSymlink | ErrChanged
  | ErrFileTooLarge | ErrLockUnsupported | ErrCommitAdmission | ErrRecovery | ErrRecoveryRestart
  | ErrInvalidPlanDocument | ErrNonCanonicalPlan | NotExist | Exist | Failure

type_synonym werrs = "werror list"
type_synonym digester = "string \<Rightarrow> string"
type_synonym fmode = "32 word"

subsection \<open>Paths\<close>

definition path_bytes_ok :: "string \<Rightarrow> bool" where
  "path_bytes_ok s \<longleftrightarrow> utf8_valid s \<and> CHR 0x00 \<notin> set s \<and> CHR 0x5C \<notin> set s
     \<and> list_all (\<lambda>(r, _). case r of Some c \<Rightarrow> \<not> is_control c | None \<Rightarrow> True) (runes s)"

text \<open>The elements of a path, and \<open>fs.ValidPath\<close>, which implies \<open>filepath.IsLocal\<close> where the separator is a slash.\<close>

definition comps :: "string \<Rightarrow> string list" where
  "comps s = split_on CHR ''/'' s"

definition validRelativePath :: "string \<Rightarrow> bool" where
  "validRelativePath s \<longleftrightarrow> s \<noteq> ''.'' \<and> path_bytes_ok s \<and> list_all (\<lambda>e. e \<noteq> [] \<and> e \<noteq> ''.'' \<and> e \<noteq> ''..'') (comps s)"

definition reservedWorkspacePath :: "string \<Rightarrow> bool" where
  "reservedWorkspacePath s \<longleftrightarrow> has_prefix (fst (cut_on CHR ''/'' s)) ''.appkit-workspace-''"

definition pathHasPrefix :: "string \<Rightarrow> string \<Rightarrow> bool" where
  "pathHasPrefix name parent \<longleftrightarrow>
     length parent < length name \<and> take (length parent) name = parent \<and> name ! length parent = CHR ''/''"

text \<open>\<open>path[:offset]\<close> for every slash of the path.\<close>

definition parent_paths :: "string \<Rightarrow> string list" where
  "parent_paths s = map (\<lambda>i. take i s) (filter (\<lambda>i. s ! i = CHR ''/'') [0..<length s])"

subsection \<open>File states and their digests\<close>

record file_state =
  f_path :: string
  f_exists :: bool
  f_mode :: fmode
  f_digest :: string

definition missing_file :: "string \<Rightarrow> file_state" where
  "missing_file s = \<lparr>f_path = s, f_exists = False, f_mode = 0, f_digest = []\<rparr>"

text \<open>The permission bits with setuid, setgid and sticky, as \<open>io/fs\<close> numbers them.\<close>

definition snapshotModeMask :: fmode where
  "snapshotModeMask = 0x00D001FF"

definition snapshotMode :: "fmode \<Rightarrow> fmode" where
  "snapshotMode m = m AND snapshotModeMask"

definition validTargetMode :: "fmode \<Rightarrow> bool" where
  "validTargetMode m \<longleftrightarrow> m = m AND 0x1FF \<and> m AND 0x100 \<noteq> 0"

definition lower_hex :: "char \<Rightarrow> bool" where
  "lower_hex c \<longleftrightarrow> is_digit c \<or> CHR ''a'' \<le> c \<and> c \<le> CHR ''f''"

definition validDigest :: "string \<Rightarrow> bool" where
  "validDigest s \<longleftrightarrow> length s = 71 \<and> has_prefix s ''sha256:'' \<and> list_all lower_hex (drop 7 s)"

definition big_endian :: "nat \<Rightarrow> nat \<Rightarrow> string" where
  "big_endian k n = map (\<lambda>i. byte (n div 256 ^ i mod 256)) (rev [0..<k])"

definition sized :: "string \<Rightarrow> string" where
  "sized s = big_endian 8 (length s) @ s"

definition flag :: "bool \<Rightarrow> string" where
  "flag b = [byte (if b then 1 else 0)]"

definition snapshotFormat :: string where
  "snapshotFormat = ''appkit.workspace.snapshot.v1'' @ [CHR 0x00]"

definition file_bytes :: "file_state \<Rightarrow> string" where
  "file_bytes f = sized (f_path f) @ flag (f_exists f) @ big_endian 4 (unat (snapshotMode (f_mode f))) @ sized (f_digest f)"

definition digestFiles :: "digester \<Rightarrow> file_state list \<Rightarrow> string" where
  "digestFiles h fs = h (snapshotFormat @ concat (map file_bytes fs))"

definition digestBytes :: "digester \<Rightarrow> string \<Rightarrow> string" where
  "digestBytes h c = h c"

definition valid_file :: "file_state \<Rightarrow> bool" where
  "valid_file f \<longleftrightarrow> validRelativePath (f_path f) \<and> f_mode f = snapshotMode (f_mode f)
     \<and> (if f_exists f then validDigest (f_digest f) else f_mode f = 0 \<and> f_digest f = [])"

definition validSnapshotFiles :: "file_state list \<Rightarrow> bool" where
  "validSnapshotFiles fs \<longleftrightarrow> list_all valid_file fs \<and> sorted_wrt (<) (map f_path fs)"

subsection \<open>Changes and plans\<close>

definition OperationCreate :: string where "OperationCreate = ''create''"
definition OperationUpdate :: string where "OperationUpdate = ''update''"
definition OperationDelete :: string where "OperationDelete = ''delete''"
definition OperationAssert :: string where "OperationAssert = ''assert''"

text \<open>A nil \<open>[]byte\<close> is \<open>None\<close>.\<close>

record file_change =
  c_path :: string
  c_operation :: string
  c_content :: "string option"
  c_mode :: fmode

record planned_change =
  p_path :: string
  p_operation :: string
  p_digest :: string
  p_mode :: fmode

record prepared_change =
  public :: planned_change
  p_content :: "string option"

definition payload :: "string option \<Rightarrow> string" where
  "payload c = (case c of None \<Rightarrow> [] | Some s \<Rightarrow> s)"

definition DirectoryFile :: string where "DirectoryFile = ''file''"
definition DirectoryDir :: string where "DirectoryDir = ''directory''"

record directory_snapshot =
  d_path :: string
  d_exists :: bool
  d_entries :: "(string \<times> string) list"

record directory_guard =
  g_before :: directory_snapshot
  g_after :: directory_snapshot

record plan =
  before_files :: "file_state list"
  before_digest :: string
  final_files :: "file_state list"
  changes :: "prepared_change list"
  plan_digest :: string
  final_digest :: string
  guards :: "directory_guard list"

definition MaxPlanChanges :: nat where "MaxPlanChanges = 4096"
definition MaxPlanContentBytes :: nat where "MaxPlanContentBytes = 8388608"
definition MaxPlanPathBytes :: nat where "MaxPlanPathBytes = 1048576"
definition maxPlanPathBytes :: nat where "maxPlanPathBytes = 1024"

definition write_op :: "string \<Rightarrow> bool" where
  "write_op s \<longleftrightarrow> s = OperationCreate \<or> s = OperationUpdate"

definition plain_op :: "string \<Rightarrow> bool" where
  "plain_op s \<longleftrightarrow> s = OperationDelete \<or> s = OperationAssert"

text \<open>The first loop of \<open>prepareChanges\<close>, with the bytes of content and paths seen so far.\<close>

fun prepare_each :: "digester \<Rightarrow> nat \<Rightarrow> nat \<Rightarrow> file_change list \<Rightarrow> (werrs, prepared_change list) result" where
  "prepare_each h contentBytes pathBytes [] = Inr []"
| "prepare_each h contentBytes pathBytes (c # cs) =
     (let planned = \<lparr>p_path = c_path c, p_operation = c_operation c, p_digest = [], p_mode = c_mode c\<rparr> in
      if length (c_path c) > maxPlanPathBytes \<or> \<not> validRelativePath (c_path c) then Inl [ErrInvalidChange, ErrInvalidPath]
      else if reservedWorkspacePath (c_path c) then Inl [ErrInvalidChange]
      else if length (c_path c) > MaxPlanPathBytes - pathBytes then Inl [ErrInvalidChange]
      else if write_op (c_operation c) then
        (if \<not> validTargetMode (c_mode c) then Inl [ErrInvalidChange]
         else if length (payload (c_content c)) > MaxPlanContentBytes - contentBytes then Inl [ErrInvalidChange]
         else bind_res (prepare_each h (contentBytes + length (payload (c_content c))) (pathBytes + length (c_path c)) cs)
           (\<lambda>rs. Inr (\<lparr>public = planned\<lparr>p_digest := digestBytes h (payload (c_content c))\<rparr>, p_content = c_content c\<rparr> # rs)))
      else if plain_op (c_operation c) then
        (if c_content c \<noteq> None \<or> c_mode c \<noteq> 0 then Inl [ErrInvalidChange]
         else bind_res (prepare_each h contentBytes (pathBytes + length (c_path c)) cs)
           (\<lambda>rs. Inr (\<lparr>public = planned, p_content = None\<rparr> # rs)))
      else Inl [ErrInvalidChange])"

text \<open>The second loop: no target twice, none below another one.\<close>

fun targets_apart :: "string list \<Rightarrow> string list \<Rightarrow> bool" where
  "targets_apart seen [] \<longleftrightarrow> True"
| "targets_apart seen (s # ss) \<longleftrightarrow>
     s \<notin> set seen \<and> list_all (\<lambda>q. q \<notin> set seen) (parent_paths s) \<and> targets_apart (s # seen) ss"

definition change_path :: "prepared_change \<Rightarrow> string" where
  "change_path c = p_path (public c)"

definition prepareChanges :: "digester \<Rightarrow> file_change list \<Rightarrow> (werrs, prepared_change list) result" where
  "prepareChanges h input =
     (if input = [] \<or> length input > MaxPlanChanges then Inl [ErrInvalidChange]
      else bind_res (prepare_each h 0 0 input) (\<lambda>cs.
        let sorted = sort_key change_path cs in
        if targets_apart [] (map change_path sorted) then Inr sorted else Inl [ErrInvalidChange]))"

definition desired_file :: "file_state \<Rightarrow> planned_change \<Rightarrow> (werrs, file_state) result" where
  "desired_file current c =
     (if f_path current \<noteq> p_path c then Inl [ErrInvalidPlan]
      else if p_operation c = OperationCreate then
        (if f_exists current then Inl [ErrInvalidChange]
         else Inr \<lparr>f_path = f_path current, f_exists = True, f_mode = p_mode c, f_digest = p_digest c\<rparr>)
      else if p_operation c = OperationUpdate then
        (if \<not> f_exists current then Inl [ErrInvalidChange]
         else Inr \<lparr>f_path = f_path current, f_exists = True, f_mode = p_mode c, f_digest = p_digest c\<rparr>)
      else if p_operation c = OperationDelete then
        (if \<not> f_exists current then Inl [ErrInvalidChange] else Inr (missing_file (f_path current)))
      else if p_operation c = OperationAssert then Inr current
      else Inl [ErrInvalidPlan])"

fun desired_each :: "file_state list \<Rightarrow> prepared_change list \<Rightarrow> (werrs, file_state list) result" where
  "desired_each (f # fs) (c # cs) =
     bind_res (desired_file f (public c)) (\<lambda>g. bind_res (desired_each fs cs) (\<lambda>gs. Inr (g # gs)))"
| "desired_each _ _ = Inr []"

definition desiredFiles :: "file_state list \<Rightarrow> prepared_change list \<Rightarrow> (werrs, file_state list) result" where
  "desiredFiles old cs = (if length old \<noteq> length cs then Inl [ErrInvalidPlan] else desired_each old cs)"

subsection \<open>Directory guards\<close>

definition MaxDirectoryGuards :: nat where "MaxDirectoryGuards = 32"
definition MaxDirectoryEntries :: nat where "MaxDirectoryEntries = 8192"
definition MaxDirectoryPathBytes :: nat where "MaxDirectoryPathBytes = 1048576"

definition validDirectoryPath :: "string \<Rightarrow> bool" where
  "validDirectoryPath s \<longleftrightarrow> (s = ''.'' \<or> validRelativePath s) \<and> length s \<le> maxPlanPathBytes \<and> \<not> reservedWorkspacePath s"

text \<open>\<open>path.Dir\<close> of a valid path.\<close>

definition path_dir :: "string \<Rightarrow> string" where
  "path_dir s = (case parent_paths s of [] \<Rightarrow> ''.'' | ps \<Rightarrow> last ps)"

fun directory_entries_ok :: "string \<Rightarrow> nat \<Rightarrow> (string \<times> string) list \<Rightarrow> (string \<times> string) list \<Rightarrow> bool" where
  "directory_entries_ok dir pathBytes seen [] \<longleftrightarrow> True"
| "directory_entries_ok dir pathBytes seen ((s, kind) # es) \<longleftrightarrow>
     validRelativePath s \<and> length s \<le> maxPlanPathBytes \<and> (kind = DirectoryDir \<or> kind = DirectoryFile)
     \<and> (seen \<noteq> [] \<longrightarrow> fst (hd seen) < s) \<and> \<not> (dir = ''.'' \<and> reservedWorkspacePath s)
     \<and> pathBytes + length s \<le> MaxDirectoryPathBytes
     \<and> (path_dir s = ''.'' \<or> map_of seen (path_dir s) = Some DirectoryDir)
     \<and> directory_entries_ok dir (pathBytes + length s) ((s, kind) # seen) es"

definition validateDirectory :: "directory_snapshot \<Rightarrow> bool" where
  "validateDirectory s \<longleftrightarrow> validDirectoryPath (d_path s) \<and> length (d_entries s) \<le> MaxDirectoryEntries
     \<and> (d_exists s \<or> d_entries s = []) \<and> (d_path s = ''.'' \<longrightarrow> d_exists s)
     \<and> directory_entries_ok (d_path s) (length (d_path s)) [] (d_entries s)"

definition directoryRelative :: "string \<Rightarrow> string \<Rightarrow> string option" where
  "directoryRelative dir target =
     (if dir = ''.'' then Some target
      else if has_prefix target (dir @ ''/'') then Some (drop (length dir + 1) target) else None)"

text \<open>The parents of a created member become directories; one that is a file is an error.\<close>

fun add_parents :: "string list \<Rightarrow> (string \<times> string) list \<Rightarrow> (string \<times> string) list option" where
  "add_parents [] es = Some es"
| "add_parents (q # qs) es =
     (if map_of es q \<noteq> None \<and> map_of es q \<noteq> Some DirectoryDir then None
      else add_parents qs (AList.update q DirectoryDir es))"

fun derive_each :: "string \<Rightarrow> (prepared_change \<times> file_state \<times> file_state) list \<Rightarrow> bool \<times> (string \<times> string) list
    \<Rightarrow> (bool \<times> (string \<times> string) list) option" where
  "derive_each dir [] acc = Some acc"
| "derive_each dir ((c, current, final) # xs) (ex, es) =
     (let target = change_path c in
      if target = dir \<or> pathHasPrefix dir target then None
      else case directoryRelative dir target of
        None \<Rightarrow> derive_each dir xs (ex, es)
      | Some rel \<Rightarrow>
          if f_exists current \<and> map_of es rel \<noteq> Some DirectoryFile \<or> \<not> f_exists current \<and> map_of es rel \<noteq> None then None
          else if \<not> f_exists final then derive_each dir xs (ex, AList.delete rel es)
          else case add_parents (rev (parent_paths rel)) (AList.update rel DirectoryFile es) of
              None \<Rightarrow> None
            | Some es' \<Rightarrow> derive_each dir xs (True, es'))"

definition deriveDirectoryAfter :: "directory_snapshot \<Rightarrow> plan \<Rightarrow> directory_snapshot option" where
  "deriveDirectoryAfter old p =
     (case derive_each (d_path old) (zip (changes p) (zip (before_files p) (final_files p))) (d_exists old, d_entries old) of
        None \<Rightarrow> None
      | Some (ex, es) \<Rightarrow>
          (let after = \<lparr>d_path = d_path old, d_exists = ex, d_entries = sort_key fst es\<rparr> in
           if validateDirectory after then Some after else None))"

definition entry_bytes :: "directory_snapshot \<Rightarrow> nat" where
  "entry_bytes s = length (d_path s) + sum_list (map (\<lambda>e. length (fst e)) (d_entries s))"

fun guards_ok :: "plan \<Rightarrow> string list \<Rightarrow> nat \<Rightarrow> nat \<Rightarrow> directory_guard list \<Rightarrow> bool" where
  "guards_ok p prior entries pathBytes [] \<longleftrightarrow> True"
| "guards_ok p prior entries pathBytes (g # gs) \<longleftrightarrow>
     (let entries' = entries + length (d_entries (g_before g)) + length (d_entries (g_after g));
          pathBytes' = pathBytes + entry_bytes (g_before g) + entry_bytes (g_after g) in
      validateDirectory (g_before g) \<and> validateDirectory (g_after g)
      \<and> list_all (\<lambda>prev. prev < d_path (g_before g) \<and> prev \<noteq> ''.'' \<and> \<not> pathHasPrefix (d_path (g_before g)) prev) prior
      \<and> entries' \<le> 2 * MaxDirectoryEntries \<and> pathBytes' \<le> MaxDirectoryPathBytes
      \<and> deriveDirectoryAfter (g_before g) p = Some (g_after g)
      \<and> guards_ok p (prior @ [d_path (g_before g)]) entries' pathBytes' gs)"

definition validateDirectoryGuards :: "plan \<Rightarrow> werrs option" where
  "validateDirectoryGuards p =
     (if length (guards p) \<le> MaxDirectoryGuards \<and> guards_ok p [] 0 0 (guards p) then None else Some [ErrInvalidPlan])"

subsection \<open>The digest and the validation of a plan\<close>

definition planFormat :: string where
  "planFormat = ''appkit.workspace.plan.v1'' @ [CHR 0x00]"

definition guarded_planFormat :: string where
  "guarded_planFormat = ''appkit.workspace.plan.v2'' @ [CHR 0x00]"

definition change_bytes :: "planned_change \<Rightarrow> string" where
  "change_bytes c = sized (p_path c) @ sized (p_operation c) @ sized (p_digest c) @ big_endian 8 (unat (p_mode c))"

definition directory_bytes :: "directory_snapshot \<Rightarrow> string" where
  "directory_bytes s = sized (d_path s) @ flag (d_exists s) @ big_endian 8 (length (d_entries s))
     @ concat (map (\<lambda>(q, kind). sized q @ sized kind) (d_entries s))"

definition guard_bytes :: "directory_guard \<Rightarrow> string" where
  "guard_bytes g = directory_bytes (g_before g) @ directory_bytes (g_after g)"

definition digestPlan :: "digester \<Rightarrow> plan \<Rightarrow> string" where
  "digestPlan h p = h ((if guards p = [] then planFormat else guarded_planFormat)
     @ sized (before_digest p) @ sized (final_digest p)
     @ big_endian 8 (length (changes p)) @ concat (map (\<lambda>c. change_bytes (public c)) (changes p))
     @ (if guards p = [] then [] else big_endian 8 (length (guards p)) @ concat (map guard_bytes (guards p))))"

text \<open>The loop of \<open>Plan.Validate\<close>: \<open>seen\<close> holds the targets so far, the last one first.\<close>

fun validate_each :: "digester \<Rightarrow> string list \<Rightarrow> nat \<Rightarrow> nat \<Rightarrow> (prepared_change \<times> file_state \<times> file_state) list \<Rightarrow> bool" where
  "validate_each h seen contentBytes pathBytes [] \<longleftrightarrow> True"
| "validate_each h seen contentBytes pathBytes ((c, old, final) # xs) \<longleftrightarrow>
     (let q = change_path c in
      length q \<le> maxPlanPathBytes \<and> validRelativePath q \<and> \<not> reservedWorkspacePath q
      \<and> q = f_path old \<and> q = f_path final
      \<and> length q \<le> MaxPlanPathBytes - pathBytes
      \<and> (seen \<noteq> [] \<longrightarrow> hd seen < q)
      \<and> list_all (\<lambda>r. r \<notin> set seen) (parent_paths q)
      \<and> (if write_op (p_operation (public c)) then
           validTargetMode (p_mode (public c)) \<and> validDigest (p_digest (public c))
           \<and> p_digest (public c) = digestBytes h (payload (p_content c))
           \<and> length (payload (p_content c)) \<le> MaxPlanContentBytes - contentBytes
         else plain_op (p_operation (public c)) \<and> p_mode (public c) = 0 \<and> p_digest (public c) = [] \<and> p_content c = None)
      \<and> validate_each h (q # seen) (contentBytes + (if write_op (p_operation (public c)) then length (payload (p_content c)) else 0))
          (pathBytes + length q) xs)"

definition Plan_Validate :: "digester \<Rightarrow> plan \<Rightarrow> werrs option" where
  "Plan_Validate h p =
     (if \<not> validSnapshotFiles (before_files p) \<or> \<not> validDigest (before_digest p)
         \<or> digestFiles h (before_files p) \<noteq> before_digest p
         \<or> changes p = [] \<or> length (changes p) > MaxPlanChanges \<or> length (final_files p) \<noteq> length (changes p)
         \<or> \<not> validSnapshotFiles (final_files p) \<or> \<not> validDigest (final_digest p)
         \<or> digestFiles h (final_files p) \<noteq> final_digest p \<or> \<not> validDigest (plan_digest p)
      then Some [ErrInvalidPlan]
      else if \<not> validate_each h [] 0 0 (zip (changes p) (zip (before_files p) (final_files p))) then Some [ErrInvalidPlan]
      else if desiredFiles (before_files p) (changes p) \<noteq> Inr (final_files p) \<or> digestPlan h p \<noteq> plan_digest p
        then Some [ErrInvalidPlan]
      else validateDirectoryGuards p)"

text \<open>The plan that \<open>BuildPlan\<close> makes of changes and a captured state.\<close>

definition plan_of :: "digester \<Rightarrow> prepared_change list \<Rightarrow> file_state list \<Rightarrow> (werrs, plan) result" where
  "plan_of h cs old =
     bind_res (desiredFiles old cs) (\<lambda>final.
       let p = \<lparr>before_files = old, before_digest = digestFiles h old, final_files = final, changes = cs,
                plan_digest = [], final_digest = digestFiles h final, guards = []\<rparr> in
       Inr (p\<lparr>plan_digest := digestPlan h p\<rparr>))"

end
