(* ===== verification/Workspace_Fs.thy ===== *)
theory Workspace_Fs
  imports Workspace_Plan "HOL-Library.Sublist"
begin

text \<open>
  The file system under a workspace root and the reads of the package (internal/workspace/snapshot.go, directory.go).
  A path is the list of its elements; the tree is an association list of paths. Every call to the operating system (and
  every look at the context) consumes one entry of a script: it proceeds, fails, or the process is killed there, so a
  theorem about every script covers every fault and every crash point. A call cut short may leave a part of its effect.
  Writers outside the locking protocol are not modelled, so the comparisons of file identities between two looks at
  the same path succeed. \<open>Sync\<close> changes nothing here: the crashes are those of the process, not of the machine.
\<close>

subsection \<open>Worlds and effects\<close>

datatype node = Reg fmode string | Dir | Link | Special

type_synonym fpath = "string list"
type_synonym tree = "(fpath \<times> node) list"

text \<open>A cut-short call: how many bytes of a write and which entries of a removal remain.\<close>

datatype fault = Proceed | Fails nat "fpath list" | Killed nat "fpath list"

record world =
  nodes :: tree
  script :: "fault list"

datatype 'a io = Ret 'a | Dead

type_synonym 'a ws = "world \<Rightarrow> 'a io \<times> world"
type_synonym 'a tries = "(werrs, 'a) result ws"

definition ret :: "'a \<Rightarrow> 'a ws" where
  "ret x w = (Ret x, w)"

definition andthen :: "'a ws \<Rightarrow> ('a \<Rightarrow> 'b ws) \<Rightarrow> 'b ws" where
  "andthen m k w = (case m w of (Ret x, w') \<Rightarrow> k x w' | (Dead, w') \<Rightarrow> (Dead, w'))"

text \<open>\<open>x, err := m(); if err != nil { return err }\<close>, and wrapping the error.\<close>

definition attempt :: "'a tries \<Rightarrow> ('a \<Rightarrow> 'b tries) \<Rightarrow> 'b tries" where
  "attempt m k = andthen m (\<lambda>r. case r of Inl e \<Rightarrow> ret (Inl e) | Inr x \<Rightarrow> k x)"

definition wrapping :: "werrs \<Rightarrow> 'a tries \<Rightarrow> 'a tries" where
  "wrapping es m = andthen m (\<lambda>r. ret (map_sum ((@) es) (\<lambda>x. x) r))"

definition sys :: "(tree \<Rightarrow> (werrs, 'a \<times> tree) result) \<Rightarrow> (nat \<Rightarrow> fpath list \<Rightarrow> tree \<Rightarrow> tree) \<Rightarrow> 'a tries" where
  "sys eff part w = (case script w of
       Fails i ks # s \<Rightarrow> (Ret (Inl [Failure]), \<lparr>nodes = part i ks (nodes w), script = s\<rparr>)
     | Killed i ks # s \<Rightarrow> (Dead, \<lparr>nodes = part i ks (nodes w), script = s\<rparr>)
     | s \<Rightarrow> (case eff (nodes w) of
           Inl e \<Rightarrow> (Ret (Inl e), \<lparr>nodes = nodes w, script = tl s\<rparr>)
         | Inr (x, n) \<Rightarrow> (Ret (Inr x), \<lparr>nodes = n, script = tl s\<rparr>)))"

definition untouched :: "nat \<Rightarrow> fpath list \<Rightarrow> tree \<Rightarrow> tree" where
  "untouched i ks n = n"

definition look :: "(tree \<Rightarrow> (werrs, 'a) result) \<Rightarrow> 'a tries" where
  "look f = sys (\<lambda>n. map_sum (\<lambda>e. e) (\<lambda>x. (x, n)) (f n)) untouched"

definition probe :: "unit tries" where
  "probe = look (\<lambda>_. Inr ())"

fun probes :: "nat \<Rightarrow> unit tries" where
  "probes 0 = ret (Inr ())"
| "probes (Suc n) = attempt probe (\<lambda>_. probes n)"

subsection \<open>System calls\<close>

definition parent_ok :: "tree \<Rightarrow> fpath \<Rightarrow> bool" where
  "parent_ok n p \<longleftrightarrow> butlast p = [] \<or> map_of n (butlast p) = Some Dir"

definition has_members :: "tree \<Rightarrow> fpath \<Rightarrow> bool" where
  "has_members n p \<longleftrightarrow> list_ex (\<lambda>(k, _). strict_prefix p k) n"

definition lstat :: "string \<Rightarrow> node tries" where
  "lstat s = look (\<lambda>n. case map_of n (comps s) of None \<Rightarrow> Inl [NotExist] | Some x \<Rightarrow> Inr x)"

definition open_regular :: "string \<Rightarrow> (fmode \<times> string) tries" where
  "open_regular s = look (\<lambda>n. case map_of n (comps s) of
       Some (Reg m c) \<Rightarrow> Inr (m, c) | None \<Rightarrow> Inl [NotExist] | Some _ \<Rightarrow> Inl [Failure])"

definition mkdir :: "string \<Rightarrow> unit tries" where
  "mkdir s = sys (\<lambda>n. if map_of n (comps s) \<noteq> None then Inl [Exist]
     else if \<not> parent_ok n (comps s) then Inl [NotExist]
     else Inr ((), AList.update (comps s) Dir n)) untouched"

text \<open>\<open>os.O_CREATE | os.O_EXCL\<close> with mode 0600.\<close>

definition create_file :: "string \<Rightarrow> unit tries" where
  "create_file s = sys (\<lambda>n. if map_of n (comps s) \<noteq> None then Inl [Exist]
     else if \<not> parent_ok n (comps s) then Inl [NotExist]
     else Inr ((), AList.update (comps s) (Reg 0x180 []) n)) untouched"

definition append_bytes :: "fpath \<Rightarrow> string \<Rightarrow> tree \<Rightarrow> tree" where
  "append_bytes p c n = (case map_of n p of Some (Reg m b) \<Rightarrow> AList.update p (Reg m (b @ c)) n | _ \<Rightarrow> n)"

definition write_chunk :: "string \<Rightarrow> string \<Rightarrow> unit tries" where
  "write_chunk s c = sys (\<lambda>n. Inr ((), append_bytes (comps s) c n)) (\<lambda>i _. append_bytes (comps s) (take i c))"

definition chmod :: "string \<Rightarrow> fmode \<Rightarrow> unit tries" where
  "chmod s m = sys (\<lambda>n. case map_of n (comps s) of
       Some (Reg _ c) \<Rightarrow> Inr ((), AList.update (comps s) (Reg m c) n) | _ \<Rightarrow> Inl [NotExist]) untouched"

definition move_tree :: "fpath \<Rightarrow> fpath \<Rightarrow> tree \<Rightarrow> tree" where
  "move_tree a b n = map (\<lambda>(k, x). (if prefix a k then b @ drop (length a) k else k, x)) (AList.delete b n)"

definition rename_nodes :: "fpath \<Rightarrow> fpath \<Rightarrow> tree \<Rightarrow> (werrs, unit \<times> tree) result" where
  "rename_nodes a b n = (case map_of n a of
       None \<Rightarrow> Inl [NotExist]
     | Some x \<Rightarrow>
         if \<not> parent_ok n b then Inl [NotExist]
         else if x = Dir then
           (if prefix a b \<or> has_members n b \<or> map_of n b \<noteq> None \<and> map_of n b \<noteq> Some Dir then Inl [Failure]
            else Inr ((), move_tree a b n))
         else if map_of n b = Some Dir then Inl [Failure]
         else Inr ((), AList.update b x (AList.delete a n)))"

definition rename :: "string \<Rightarrow> string \<Rightarrow> unit tries" where
  "rename a b = sys (rename_nodes (comps a) (comps b)) untouched"

definition remove :: "string \<Rightarrow> unit tries" where
  "remove s = sys (\<lambda>n. case map_of n (comps s) of
       None \<Rightarrow> Inl [NotExist]
     | Some x \<Rightarrow> if x = Dir \<and> has_members n (comps s) then Inl [Failure] else Inr ((), AList.delete (comps s) n)) untouched"

text \<open>\<open>RemoveAll\<close> cut short leaves the directory and any of its members, with the directories above them.\<close>

definition keep_below :: "fpath \<Rightarrow> fpath list \<Rightarrow> tree \<Rightarrow> tree" where
  "keep_below t ks n = filter (\<lambda>(k, _). prefix t k \<longrightarrow> list_ex (\<lambda>q. prefix k q) (t # ks)) n"

definition remove_all :: "string \<Rightarrow> unit tries" where
  "remove_all s = sys (\<lambda>n. Inr ((), filter (\<lambda>(k, _). \<not> prefix (comps s) k) n)) (\<lambda>_. keep_below (comps s))"

text \<open>Opening a directory, stat, sync and close (recovery.go).\<close>

definition syncDirectory :: "string \<Rightarrow> unit tries" where
  "syncDirectory s = attempt (look (\<lambda>n. if s = ''.'' \<or> map_of n (comps s) = Some Dir then Inr () else Inl [NotExist]))
     (\<lambda>_. probes 3)"

definition syncRename :: "string \<Rightarrow> string \<Rightarrow> unit tries" where
  "syncRename a b = attempt (syncDirectory (path_dir a)) (\<lambda>_.
     if path_dir b \<noteq> path_dir a then syncDirectory (path_dir b) else ret (Inr ()))"

definition verifyOpenedRootPath :: "unit tries" where
  "verifyOpenedRootPath = wrapping [ErrChanged] (probes 2)"

text \<open>The context may end at any look at it.\<close>

definition ctx_alive :: "unit tries" where
  "ctx_alive = probe"

subsection \<open>Capturing files\<close>

definition regular :: "node \<Rightarrow> bool" where
  "regular x = (case x of Reg _ _ \<Rightarrow> True | _ \<Rightarrow> False)"

text \<open>What \<open>Lstat\<close> of one component means for the walk: an error, the end of it, or going on.\<close>

definition component_error :: "bool \<Rightarrow> node \<Rightarrow> werrs option" where
  "component_error leaf x =
     (if x = Link then Some [ErrSymlink]
      else if \<not> leaf \<and> x \<noteq> Dir then Some [ErrInvalidPath]
      else if leaf \<and> \<not> regular x then Some [ErrInvalidPath]
      else None)"

definition lstat_at :: "fpath \<Rightarrow> node tries" where
  "lstat_at p = look (\<lambda>n. case map_of n p of None \<Rightarrow> Inl [NotExist] | Some x \<Rightarrow> Inr x)"

text \<open>\<open>Inr True\<close> is a missing path.\<close>

fun inspect_from :: "fpath \<Rightarrow> fpath \<Rightarrow> bool tries" where
  "inspect_from pre [] = ret (Inr False)"
| "inspect_from pre (c # cs) = andthen (lstat_at (pre @ [c])) (\<lambda>r. case r of
       Inl e \<Rightarrow> if NotExist \<in> set e then ret (Inr True) else ret (Inl e)
     | Inr x \<Rightarrow> (case component_error (cs = []) x of Some e \<Rightarrow> ret (Inl e) | None \<Rightarrow> inspect_from (pre @ [c]) cs))"

definition inspectPath :: "string \<Rightarrow> bool tries" where
  "inspectPath s = inspect_from [] (comps s)"

text \<open>
  After the first inspection: open, stat, read, stat, seek, read, stat, close and inspect again. The two reads see the
  same bytes, as nobody writes meanwhile.
\<close>

definition captureFile :: "digester \<Rightarrow> string \<Rightarrow> file_state tries" where
  "captureFile h s = attempt (inspectPath s) (\<lambda>missing.
     if missing then ret (Inr (missing_file s))
     else attempt (open_regular s) (\<lambda>(m, c).
       attempt (probes 7) (\<lambda>_.
       attempt (inspectPath s) (\<lambda>gone.
         if gone then ret (Inl [ErrChanged])
         else ret (Inr \<lparr>f_path = s, f_exists = True, f_mode = snapshotMode m, f_digest = digestBytes h c\<rparr>)))))"

definition readBoundedFile :: "digester \<Rightarrow> string \<Rightarrow> nat \<Rightarrow> (string option \<times> file_state) tries" where
  "readBoundedFile h s maxBytes = attempt (inspectPath s) (\<lambda>missing.
     if missing then ret (Inr (None, missing_file s))
     else attempt (open_regular s) (\<lambda>(m, c).
       attempt probe (\<lambda>_.
       if length c > maxBytes then andthen probe (\<lambda>_. ret (Inl [ErrFileTooLarge]))
       else attempt (probes 6) (\<lambda>_.
       attempt (inspectPath s) (\<lambda>gone.
         if gone then ret (Inl [ErrChanged])
         else ret (Inr (Some c, \<lparr>f_path = s, f_exists = True, f_mode = snapshotMode m, f_digest = digestBytes h c\<rparr>)))))))"

fun capture_each :: "digester \<Rightarrow> string list \<Rightarrow> file_state list tries" where
  "capture_each h [] = ret (Inr [])"
| "capture_each h (s # ss) =
     attempt (captureFile h s) (\<lambda>f. attempt (capture_each h ss) (\<lambda>fs. ret (Inr (f # fs))))"

definition normalizePaths :: "string list \<Rightarrow> (werrs, string list) result" where
  "normalizePaths ss =
     (if list_all validRelativePath ss \<and> distinct ss then Inr (sort ss) else Inl [ErrInvalidPath])"

text \<open>Opening the root takes nine looks at it (the resolution of its links included).\<close>

definition openWorkspaceRoot :: "unit tries" where
  "openWorkspaceRoot = probes 9"

definition Capture :: "digester \<Rightarrow> string list \<Rightarrow> (file_state list \<times> string) tries" where
  "Capture h paths = (case normalizePaths paths of
       Inl e \<Rightarrow> ret (Inl e)
     | Inr names \<Rightarrow> attempt openWorkspaceRoot (\<lambda>_. andthen (capture_each h names) (\<lambda>r.
         case r of Inl e \<Rightarrow> andthen probe (\<lambda>_. ret (Inl e))
         | Inr fs \<Rightarrow> attempt probe (\<lambda>_. ret (Inr (fs, digestFiles h fs))))))"

definition Verify :: "digester \<Rightarrow> file_state list \<Rightarrow> string \<Rightarrow> unit tries" where
  "Verify h fs digest =
     (if \<not> validSnapshotFiles fs \<or> \<not> validDigest digest \<or> digestFiles h fs \<noteq> digest then ret (Inl [ErrChanged])
      else attempt (wrapping [ErrChanged] (Capture h (map f_path fs))) (\<lambda>(_, current).
        if current \<noteq> digest then ret (Inl [ErrChanged]) else ret (Inr ())))"

definition BuildPlan :: "digester \<Rightarrow> file_change list \<Rightarrow> plan tries" where
  "BuildPlan h input = (case prepareChanges h input of
       Inl e \<Rightarrow> ret (Inl e)
     | Inr cs \<Rightarrow> attempt (Capture h (map change_path cs)) (\<lambda>(old, _). ret (plan_of h cs old)))"

subsection \<open>Capturing directories\<close>

fun inspect_dir_from :: "fpath \<Rightarrow> fpath \<Rightarrow> bool tries" where
  "inspect_dir_from pre [] = ret (Inr False)"
| "inspect_dir_from pre (c # cs) = andthen (lstat_at (pre @ [c])) (\<lambda>r. case r of
       Inl e \<Rightarrow> if NotExist \<in> set e then ret (Inr True) else ret (Inl e)
     | Inr x \<Rightarrow> if x = Link then ret (Inl [ErrSymlink]) else if x \<noteq> Dir then ret (Inl [ErrInvalidPath])
         else inspect_dir_from (pre @ [c]) cs)"

definition inspectDirectory :: "string \<Rightarrow> bool tries" where
  "inspectDirectory s =
     (if \<not> validDirectoryPath s then ret (Inl [ErrInvalidPath])
      else if s = ''.'' then attempt probe (\<lambda>_. ret (Inr False)) else inspect_dir_from [] (comps s))"

text \<open>
  The members of a directory: every path below it, relative to it. At the root the walk does not enter the directories
  of the package itself.
\<close>

definition members_below :: "string \<Rightarrow> tree \<Rightarrow> (string \<times> node) list" where
  "members_below dir n =
     (if dir = ''.'' then map (\<lambda>(k, x). (join_with ''/'' k, x)) (filter (\<lambda>(k, _). length k = 1 \<or> \<not> reservedWorkspacePath (hd k)) n)
      else map (\<lambda>(k, x). (join_with ''/'' (drop (length (comps dir)) k), x)) (filter (\<lambda>(k, _). strict_prefix (comps dir) k) n))"

text \<open>
  The checks on each member; \<open>visited\<close> and \<open>pathBytes\<close> bound the walk. The order of the visits is the system's, the
  result is sorted.
\<close>

fun walk_each :: "string \<Rightarrow> nat \<Rightarrow> nat \<Rightarrow> (string \<times> string) list \<Rightarrow> (string \<times> node) list \<Rightarrow> (werrs, (string \<times> string) list) result" where
  "walk_each dir visited pathBytes acc [] = Inr acc"
| "walk_each dir visited pathBytes acc ((child, x) # ms) =
     (if visited + 1 > 2 * MaxDirectoryEntries then Inl [ErrInvalidPath]
      else if dir = ''.'' \<and> reservedWorkspacePath child then walk_each dir (visited + 1) pathBytes acc ms
      else if \<not> validRelativePath child \<or> length child > maxPlanPathBytes \<or> length acc \<ge> MaxDirectoryEntries then Inl [ErrInvalidPath]
      else if pathBytes + length child > MaxDirectoryPathBytes then Inl [ErrInvalidPath]
      else if x = Link then Inl [ErrSymlink]
      else if x \<noteq> Dir \<and> \<not> regular x then Inl [ErrInvalidPath]
      else walk_each dir (visited + 1) (pathBytes + length child) (acc @ [(child, if x = Dir then DirectoryDir else DirectoryFile)]) ms)"

definition walkDirectory :: "string \<Rightarrow> directory_snapshot tries" where
  "walkDirectory dir = attempt (inspectDirectory dir) (\<lambda>missing.
     if missing then ret (Inr \<lparr>d_path = dir, d_exists = False, d_entries = []\<rparr>)
     else attempt (look (\<lambda>n. walk_each dir 0 (length dir) [] (members_below dir n))) (\<lambda>es.
       ret (Inr \<lparr>d_path = dir, d_exists = True, d_entries = sort_key fst es\<rparr>)))"

definition captureDirectory :: "string \<Rightarrow> directory_snapshot tries" where
  "captureDirectory dir = attempt (walkDirectory dir) (\<lambda>first. attempt (walkDirectory dir) (\<lambda>second.
     if first \<noteq> second then ret (Inl [ErrChanged]) else attempt verifyOpenedRootPath (\<lambda>_. ret (Inr first))))"

fun verify_guards :: "bool \<Rightarrow> directory_guard list \<Rightarrow> unit tries" where
  "verify_guards final [] = ret (Inr ())"
| "verify_guards final (g # gs) =
     (let want = (if final then g_after g else g_before g) in
      attempt (wrapping [ErrChanged] (captureDirectory (d_path want))) (\<lambda>got.
        if got \<noteq> want then ret (Inl [ErrChanged]) else verify_guards final gs))"

definition verifyDirectoryGuards :: "plan \<Rightarrow> bool \<Rightarrow> unit tries" where
  "verifyDirectoryGuards p final = verify_guards final (guards p)"

subsection \<open>The exported readers and the guarded plan\<close>

text \<open>The root is closed on every path; an error of closing it is joined.\<close>

definition closing_root :: "'a tries \<Rightarrow> 'a tries" where
  "closing_root m = andthen m (\<lambda>r. andthen probe (\<lambda>c. ret (case (r, c) of
       (Inl e, Inl e') \<Rightarrow> Inl (e @ e') | (Inl e, Inr _) \<Rightarrow> Inl e | (Inr x, Inl e') \<Rightarrow> Inl e' | (Inr x, Inr _) \<Rightarrow> Inr x)))"

text \<open>A negative limit is refused; Go's \<open>int64\<close> is an \<open>int\<close> here.\<close>

definition ReadFile :: "digester \<Rightarrow> string \<Rightarrow> int \<Rightarrow> (string option \<times> file_state) tries" where
  "ReadFile h s maxBytes =
     (if \<not> validRelativePath s \<or> maxBytes < 0 then ret (Inl [ErrInvalidPath])
      else attempt openWorkspaceRoot (\<lambda>_. closing_root (readBoundedFile h s (nat maxBytes))))"

definition CaptureDirectory :: "string \<Rightarrow> directory_snapshot tries" where
  "CaptureDirectory dir =
     (if \<not> validDirectoryPath dir then ret (Inl [ErrInvalidPath])
      else attempt openWorkspaceRoot (\<lambda>_. closing_root (captureDirectory dir)))"

fun derive_guards :: "plan \<Rightarrow> directory_snapshot list \<Rightarrow> directory_guard list option" where
  "derive_guards p [] = Some []"
| "derive_guards p (b # bs) = (case deriveDirectoryAfter b p of None \<Rightarrow> None
     | Some a \<Rightarrow> map_option (\<lambda>gs. \<lparr>g_before = b, g_after = a\<rparr> # gs) (derive_guards p bs))"

definition BuildPlanWithGuards :: "digester \<Rightarrow> file_change list \<Rightarrow> directory_snapshot list \<Rightarrow> plan tries" where
  "BuildPlanWithGuards h input old =
     (if old = [] then BuildPlan h input
      else if length old > MaxDirectoryGuards \<or> \<not> list_all validateDirectory old then ret (Inl [ErrInvalidPlan])
      else let sorted = sort_key d_path old;
               unfilled = map (\<lambda>b. \<lparr>g_before = b, g_after = b\<rparr>) sorted in
        attempt openWorkspaceRoot (\<lambda>_. closing_root (
          attempt (verify_guards False unfilled) (\<lambda>_. attempt (BuildPlan h input) (\<lambda>p.
            case derive_guards p sorted of None \<Rightarrow> ret (Inl [ErrInvalidPlan])
            | Some gs \<Rightarrow>
                let p1 = p\<lparr>guards := gs\<rparr>; p2 = p1\<lparr>plan_digest := digestPlan h p1\<rparr> in
                (case Plan_Validate h p2 of Some e \<Rightarrow> ret (Inl e)
                 | None \<Rightarrow> attempt (verifyDirectoryGuards p2 False) (\<lambda>_. ret (Inr p2))))))))"

end
