(* ===== verification/Workspace_Apply.thy ===== *)
theory Workspace_Apply
  imports Workspace_Fs
begin

text \<open>
  Applying a plan and recovering an interrupted one (internal/workspace/apply.go, recovery.go, read.go). The locks make
  one call of \<open>Apply\<close> exclusive, so a call is one function of the world; a killed process releases them. What the
  platform provides is a record of arguments: SHA-256, the JSON codec of the recovery record, and the random names.
\<close>

subsection \<open>Records of recovery\<close>

definition transactionPrefix :: string where "transactionPrefix = ''.appkit-workspace-txn-''"
definition completedPrefix :: string where "completedPrefix = ''.appkit-workspace-done-''"
definition transactionRecordName :: string where "transactionRecordName = ''prepared.json''"
definition transactionFormat :: string where "transactionFormat = ''appkit.workspace.transaction.v1''"
definition maxTransactionRecord :: nat where "maxTransactionRecord = 4096"

record transactionRecord =
  r_format :: string
  r_plan :: string
  r_before :: string
  r_final :: string
  r_count :: nat
  r_domain :: string
  r_subject :: string
  r_receipt :: string

record transactionAdmission =
  a_domain :: string
  a_subject :: string
  a_receipt :: string

record transactionRecovery =
  prepared :: bool
  recovered_receipt :: string

record platform =
  sha :: digester
  enc_record :: "transactionRecord \<Rightarrow> string"
  dec_record :: "string \<Rightarrow> transactionRecord option"
  entropies :: "string list"

text \<open>
  A commit gate: its domain, its subject and the answers of its three callbacks. A nil \<open>Inspect\<close> is one that accepts;
  \<open>Admit\<close> and \<open>Recheck\<close> are \<open>None\<close> when nil.
\<close>

record gate =
  gt_domain :: string
  gt_subject :: string
  gt_inspect :: "werrs option"
  gt_admit :: "(werrs, string) result option"
  gt_recheck :: "(string \<Rightarrow> werrs option) option"

definition no_admission :: transactionAdmission where
  "no_admission = \<lparr>a_domain = [], a_subject = [], a_receipt = []\<rparr>"

definition no_recovery :: transactionRecovery where
  "no_recovery = \<lparr>prepared = False, recovered_receipt = []\<rparr>"

definition transactionDirectoryName :: "string \<Rightarrow> string \<Rightarrow> string" where
  "transactionDirectoryName digest entropy = transactionPrefix @ trim_prefix digest ''sha256:'' @ ''-'' @ entropy"

definition hex_char :: "char \<Rightarrow> bool" where
  "hex_char c \<longleftrightarrow> hex_value c \<noteq> None"

definition lower_char :: "char \<Rightarrow> char" where
  "lower_char c = (if is_upper c then byte (byte_of c + 32) else c)"

definition parseTransactionDirectoryName :: "string \<Rightarrow> string \<Rightarrow> string \<times> bool" where
  "parseTransactionDirectoryName name pre =
     (if \<not> has_prefix name pre then ([], False)
      else let tl = trim_prefix name pre in
        if length tl \<noteq> 97 \<or> tl ! 64 \<noteq> CHR ''-'' then ([], False)
        else let digestHex = take 64 tl; entropyHex = drop 65 tl in
          if \<not> list_all hex_char digestHex \<or> \<not> list_all hex_char entropyHex then ([], False)
          else (''sha256:'' @ map lower_char digestHex,
                digestHex = map lower_char digestHex \<and> entropyHex = map lower_char entropyHex))"

text \<open>\<open>%06d\<close> of an index.\<close>

definition six_digits :: "nat \<Rightarrow> string" where
  "six_digits i = map (\<lambda>k. byte (48 + i div 10 ^ k mod 10)) (rev [0..<6])"

definition backup_name :: "string \<Rightarrow> nat \<Rightarrow> string" where
  "backup_name txn i = txn @ ''/'' @ six_digits i @ ''.backup''"

definition content_name :: "string \<Rightarrow> nat \<Rightarrow> string" where
  "content_name txn i = txn @ ''/'' @ six_digits i @ ''.content''"

definition record_name :: "string \<Rightarrow> string" where
  "record_name txn = txn @ ''/'' @ transactionRecordName"

definition record_of :: "plan \<Rightarrow> transactionAdmission \<Rightarrow> transactionRecord" where
  "record_of p a = \<lparr>r_format = transactionFormat, r_plan = plan_digest p, r_before = before_digest p,
     r_final = final_digest p, r_count = length (changes p),
     r_domain = a_domain a, r_subject = a_subject a, r_receipt = a_receipt a\<rparr>"

definition matches :: "transactionRecord \<Rightarrow> plan \<Rightarrow> gate option \<Rightarrow> bool" where
  "matches r p g \<longleftrightarrow> r_format r = transactionFormat \<and> r_plan r = plan_digest p \<and> r_before r = before_digest p
     \<and> r_final r = final_digest p \<and> r_count r = length (changes p)
     \<and> (case g of None \<Rightarrow> r_domain r = [] \<and> r_subject r = [] \<and> r_receipt r = []
        | Some g \<Rightarrow> r_domain r = gt_domain g \<and> r_subject r = gt_subject g \<and> validDigest (r_receipt r))"

definition prepareTransaction :: "platform \<Rightarrow> string \<Rightarrow> plan \<Rightarrow> transactionAdmission \<Rightarrow> unit tries" where
  "prepareTransaction pf txn p a =
     attempt (create_file (record_name txn)) (\<lambda>_.
     attempt (write_chunk (record_name txn) (enc_record pf (record_of p a))) (\<lambda>_.
     attempt (probes 2) (\<lambda>_.
     attempt (syncDirectory txn) (\<lambda>_. syncDirectory ''.''))))"

definition load_bytes :: "platform \<Rightarrow> node \<Rightarrow> (werrs, transactionRecord \<times> bool) result" where
  "load_bytes pf x = (case x of
       Reg _ c \<Rightarrow>
         if c = [] \<or> length c > maxTransactionRecord then Inl [Failure]
         else (case dec_record pf c of None \<Rightarrow> Inl [Failure]
               | Some r \<Rightarrow> if enc_record pf r = c then Inr (r, True) else Inl [Failure])
     | _ \<Rightarrow> Inl [Failure])"

text \<open>A transaction without a record is \<open>(_, False)\<close>.\<close>

definition blank_record :: transactionRecord where
  "blank_record = \<lparr>r_format = [], r_plan = [], r_before = [], r_final = [], r_count = 0, r_domain = [], r_subject = [], r_receipt = []\<rparr>"

definition loadTransactionRecord :: "platform \<Rightarrow> string \<Rightarrow> (transactionRecord \<times> bool) tries" where
  "loadTransactionRecord pf txn = andthen (lstat (record_name txn)) (\<lambda>r. case r of
       Inl e \<Rightarrow> if NotExist \<in> set e then ret (Inr (blank_record, False)) else ret (Inl e)
     | Inr x \<Rightarrow> attempt (probes 3) (\<lambda>_. ret (load_bytes pf x)))"

definition cleanupTransaction :: "string \<Rightarrow> unit tries" where
  "cleanupTransaction txn = attempt (remove_all txn) (\<lambda>_. syncDirectory ''.'')"

definition finalizeTransaction :: "string \<Rightarrow> unit tries" where
  "finalizeTransaction txn =
     (if \<not> has_prefix txn transactionPrefix then ret (Inl [ErrRecovery])
      else let fin = completedPrefix @ trim_prefix txn transactionPrefix in
        attempt (rename txn fin) (\<lambda>_. attempt (syncDirectory ''.'') (\<lambda>_. cleanupTransaction fin)))"

subsection \<open>The state of the targets\<close>

datatype planState = stateBefore | stateFinal

definition capturePlanFiles :: "digester \<Rightarrow> plan \<Rightarrow> file_state list tries" where
  "capturePlanFiles h p = capture_each h (map change_path (changes p))"

definition classifyState :: "digester \<Rightarrow> plan \<Rightarrow> planState tries" where
  "classifyState h p = attempt (wrapping [ErrChanged] (capturePlanFiles h p)) (\<lambda>fs.
     let digest = digestFiles h fs;
         old = (if digest = before_digest p then attempt (verifyDirectoryGuards p False) (\<lambda>_. ret (Inr stateBefore))
                   else ret (Inl [ErrChanged])) in
     if digest = final_digest p then
       andthen (verifyDirectoryGuards p True) (\<lambda>r. case r of
           Inr _ \<Rightarrow> ret (Inr stateFinal)
         | Inl e \<Rightarrow> if digest \<noteq> before_digest p then ret (Inl e) else old)
     else old)"

definition verifyOneTarget :: "digester \<Rightarrow> file_state \<Rightarrow> unit tries" where
  "verifyOneTarget h expected = attempt (wrapping [ErrChanged] (captureFile h (f_path expected))) (\<lambda>current.
     if current \<noteq> expected then ret (Inl [ErrChanged]) else ret (Inr ()))"

definition verifyEquivalentFile :: "digester \<Rightarrow> string \<Rightarrow> file_state \<Rightarrow> unit tries" where
  "verifyEquivalentFile h actual expected = attempt (wrapping [ErrChanged] (captureFile h actual)) (\<lambda>current.
     if \<not> f_exists current \<or> f_mode current \<noteq> f_mode expected \<or> f_digest current \<noteq> f_digest expected
     then ret (Inl [ErrChanged]) else ret (Inr ()))"

subsection \<open>Recovery\<close>

text \<open>What \<open>verifyRecoverableDirectories\<close> demands of one guard, given the recaptured directory and files.\<close>

definition recoverable_directory :: "directory_guard \<Rightarrow> directory_snapshot \<Rightarrow> file_state list \<Rightarrow> bool" where
  "recoverable_directory g got current =
     (let inside = List.map_filter (\<lambda>f. map_option (\<lambda>rel. (rel, f_exists f)) (directoryRelative (d_path (g_before g)) (f_path f))) current;
          wantFiles = filter (\<lambda>s. s \<notin> fst ` set inside) (map fst (filter (\<lambda>e. snd e = DirectoryFile) (d_entries (g_before g))))
            @ map fst (filter snd inside);
          wantDirs = map fst (filter (\<lambda>e. snd e \<noteq> DirectoryFile) (d_entries (g_before g)));
          allowedDirs = map fst (filter (\<lambda>e. snd e = DirectoryDir) (d_entries (g_after g)));
          gotFiles = map fst (filter (\<lambda>e. snd e = DirectoryFile) (d_entries got));
          gotDirs = map fst (filter (\<lambda>e. snd e \<noteq> DirectoryFile) (d_entries got)) in
      \<not> (d_exists (g_before g) \<and> \<not> d_exists got \<or> \<not> d_exists (g_after g) \<and> d_exists got)
      \<and> set gotFiles = set wantFiles \<and> set gotDirs \<subseteq> set allowedDirs \<and> set wantDirs \<subseteq> set gotDirs)"

fun verify_recoverable :: "directory_guard list \<Rightarrow> file_state list \<Rightarrow> unit tries" where
  "verify_recoverable [] current = ret (Inr ())"
| "verify_recoverable (g # gs) current = attempt (captureDirectory (d_path (g_before g))) (\<lambda>got.
     if recoverable_directory g got current then verify_recoverable gs current else ret (Inl [ErrChanged]))"

definition verifyRecoverableDirectories :: "plan \<Rightarrow> file_state list \<Rightarrow> unit tries" where
  "verifyRecoverableDirectories p current = verify_recoverable (guards p) current"

definition join_path :: "string \<Rightarrow> string \<Rightarrow> string" where
  "join_path dir s = (if dir = ''.'' then s else dir @ ''/'' @ s)"

definition created_directories :: "directory_guard \<Rightarrow> string list" where
  "created_directories g =
     (let old = map fst (filter (\<lambda>e. snd e = DirectoryDir) (d_entries (g_before g))) in
      map (\<lambda>e. join_path (d_path (g_before g)) (fst e))
        (filter (\<lambda>e. snd e = DirectoryDir \<and> fst e \<notin> set old) (d_entries (g_after g)))
      @ (if \<not> d_exists (g_before g) \<and> d_exists (g_after g) then [d_path (g_before g)] else []))"

fun remove_directories :: "string list \<Rightarrow> unit tries" where
  "remove_directories [] = ret (Inr ())"
| "remove_directories (s # ss) = attempt (inspectDirectory s) (\<lambda>missing.
     if missing then remove_directories ss
     else attempt (remove s) (\<lambda>_. attempt (syncDirectory (path_dir s)) (\<lambda>_. remove_directories ss)))"

definition removeRecoveredDirectories :: "plan \<Rightarrow> unit tries" where
  "removeRecoveredDirectories p = remove_directories (rev (sort (concat (map created_directories (guards p)))))"

text \<open>
  The first pass of \<open>rollbackPreparedTransaction\<close>: every target is in a state that the interrupted commit can have left,
  and its backup is there when it is needed. The list holds index, target, state before and state after.
\<close>

type_synonym plan_row = "nat \<times> prepared_change \<times> file_state \<times> file_state"

definition rows :: "plan \<Rightarrow> plan_row list" where
  "rows p = zip [0..<length (changes p)] (zip (changes p) (zip (before_files p) (final_files p)))"

fun check_rows :: "digester \<Rightarrow> string \<Rightarrow> plan_row list \<Rightarrow> file_state list tries" where
  "check_rows h txn [] = ret (Inr [])"
| "check_rows h txn ((i, c, old, final) # rs) =
     attempt ctx_alive (\<lambda>_. attempt (captureFile h (change_path c)) (\<lambda>f.
       let more = attempt (check_rows h txn rs) (\<lambda>fs. ret (Inr (f # fs))) in
       if f_exists old then
         (if f = old then more
          else if f \<noteq> final \<and> f_exists f then ret (Inl [Failure])
          else attempt (verifyEquivalentFile h (backup_name txn i) old) (\<lambda>_. more))
       else if f \<noteq> old \<and> f \<noteq> final then ret (Inl [Failure])
       else attempt (inspectPath (backup_name txn i)) (\<lambda>missing.
         if \<not> missing then ret (Inl [Failure]) else more)))"

text \<open>The second pass, last row first.\<close>

fun restore_rows :: "digester \<Rightarrow> string \<Rightarrow> plan_row list \<Rightarrow> unit tries" where
  "restore_rows h txn [] = ret (Inr ())"
| "restore_rows h txn ((i, c, old, final) # rs) =
     (let target = change_path c in
      attempt ctx_alive (\<lambda>_. attempt (captureFile h target) (\<lambda>f.
        if f = old then restore_rows h txn rs
        else attempt
          (if f_exists old then
             attempt (verifyEquivalentFile h (backup_name txn i) old) (\<lambda>_.
             attempt (if f_exists f then attempt (remove target) (\<lambda>_. syncDirectory (path_dir target)) else ret (Inr ())) (\<lambda>_.
             attempt (rename (backup_name txn i) target) (\<lambda>_. syncRename (backup_name txn i) target)))
           else if f_exists f then attempt (remove target) (\<lambda>_. syncDirectory (path_dir target))
           else ret (Inr ()))
          (\<lambda>_. attempt (verifyOneTarget h old) (\<lambda>_. restore_rows h txn rs)))))"

definition rollbackPreparedTransaction :: "digester \<Rightarrow> string \<Rightarrow> plan \<Rightarrow> unit tries" where
  "rollbackPreparedTransaction h txn p =
     attempt (check_rows h txn (rows p)) (\<lambda>current.
     attempt (verifyRecoverableDirectories p current) (\<lambda>_.
     attempt (restore_rows h txn (rev (rows p))) (\<lambda>_.
     attempt (capturePlanFiles h p) (\<lambda>fs.
       if digestFiles h fs \<noteq> before_digest p then ret (Inl [Failure])
       else attempt (removeRecoveredDirectories p) (\<lambda>_.
         attempt (verifyDirectoryGuards p False) (\<lambda>_. cleanupTransaction txn))))))"

definition recoverPreparedTransaction :: "digester \<Rightarrow> string \<Rightarrow> plan \<Rightarrow> unit tries" where
  "recoverPreparedTransaction h txn p = andthen (classifyState h p) (\<lambda>r. case r of
       Inr stateBefore \<Rightarrow> cleanupTransaction txn
     | Inr stateFinal \<Rightarrow> finalizeTransaction txn
     | Inl e \<Rightarrow> if ErrChanged \<notin> set e then ret (Inl (ErrRecovery # e))
         else wrapping [ErrRecovery] (rollbackPreparedTransaction h txn p))"

text \<open>The entries of the root, sorted by name, each with whether it is a directory.\<close>

definition root_entries :: "tree \<Rightarrow> (string \<times> bool) list" where
  "root_entries n = map (\<lambda>s. (s, map_of n [s] = Some Dir))
     (sort (remdups (map (hd \<circ> fst) (filter (\<lambda>(k, _). length k = 1) n))))"

definition readRootDirectory :: "(string \<times> bool) list tries" where
  "readRootDirectory = attempt (probes 2) (\<lambda>_. look (\<lambda>n. Inr (root_entries n)))"

text \<open>The loop of \<open>recoverTransactions\<close>: it removes what committed transactions left and collects the active ones.\<close>

fun scan_entries :: "(string \<times> bool) list \<Rightarrow> string list tries" where
  "scan_entries [] = ret (Inr [])"
| "scan_entries ((name, isDir) # es) = attempt ctx_alive (\<lambda>_.
     if has_prefix name completedPrefix then
       (if \<not> snd (parseTransactionDirectoryName name completedPrefix) \<or> \<not> isDir then ret (Inl [ErrRecovery])
        else attempt (wrapping [ErrRecovery] (cleanupTransaction name)) (\<lambda>_. scan_entries es))
     else if has_prefix name transactionPrefix then
       (if \<not> snd (parseTransactionDirectoryName name transactionPrefix) \<or> \<not> isDir then ret (Inl [ErrRecovery])
        else attempt (scan_entries es) (\<lambda>ts. ret (Inr (name # ts))))
     else scan_entries es)"

definition recoverTransactions :: "platform \<Rightarrow> plan \<Rightarrow> gate option \<Rightarrow> transactionRecovery tries" where
  "recoverTransactions pf p g =
     attempt (wrapping [ErrRecovery] readRootDirectory) (\<lambda>es.
     attempt (scan_entries es) (\<lambda>active.
       if active = [] then ret (Inr no_recovery)
       else if length active \<noteq> 1 then ret (Inl [ErrRecovery])
       else let txn = hd active in
         if fst (parseTransactionDirectoryName txn transactionPrefix) \<noteq> plan_digest p then ret (Inl [ErrRecovery])
         else attempt (wrapping [ErrRecovery] (loadTransactionRecord pf txn)) (\<lambda>(r, isPrepared).
           if \<not> isPrepared then
             andthen (classifyState (sha pf) p) (\<lambda>st.
               if st = Inr stateBefore then attempt (cleanupTransaction txn) (\<lambda>_. ret (Inr no_recovery))
               else ret (Inl [ErrRecovery]))
           else if \<not> matches r p g then ret (Inl [ErrRecovery])
           else attempt (recoverPreparedTransaction (sha pf) txn p) (\<lambda>_.
             ret (Inr \<lparr>prepared = True, recovered_receipt = r_receipt r\<rparr>)))))"

subsection \<open>The commit gate\<close>

definition domain_char :: "char \<Rightarrow> bool" where
  "domain_char c \<longleftrightarrow> is_lower c \<or> is_digit c \<or> c = CHR ''.'' \<or> c = CHR ''-'' \<or> c = CHR ''/''"

definition validateCommitGate :: "gate option \<Rightarrow> werrs option" where
  "validateCommitGate g = (case g of None \<Rightarrow> None
     | Some g \<Rightarrow>
         if gt_domain g = [] \<or> length (gt_domain g) > 128 \<or> trim_space (gt_domain g) \<noteq> gt_domain g
            \<or> CHR 0x00 \<in> set (gt_domain g) \<or> \<not> validDigest (gt_subject g)
            \<or> gt_admit g = None \<or> gt_recheck g = None \<or> \<not> list_all domain_char (gt_domain g)
         then Some [ErrCommitAdmission] else None)"

definition admitCommit :: "gate option \<Rightarrow> transactionAdmission tries" where
  "admitCommit g = (case g of None \<Rightarrow> ret (Inr no_admission)
     | Some g \<Rightarrow> attempt (wrapping [ErrCommitAdmission] (attempt probe (\<lambda>_. ret (the (gt_admit g))))) (\<lambda>receipt.
         if \<not> validDigest receipt then ret (Inl [ErrCommitAdmission])
         else ret (Inr \<lparr>a_domain = gt_domain g, a_subject = gt_subject g, a_receipt = receipt\<rparr>)))"

definition as_result :: "werrs option \<Rightarrow> (werrs, unit) result" where
  "as_result x = (case x of None \<Rightarrow> Inr () | Some e \<Rightarrow> Inl e)"

definition inspectCommit :: "gate option \<Rightarrow> unit tries" where
  "inspectCommit g = (case g of None \<Rightarrow> ret (Inr ())
     | Some g \<Rightarrow> wrapping [ErrCommitAdmission] (attempt probe (\<lambda>_. ret (as_result (gt_inspect g)))))"

definition recheckCommit :: "gate option \<Rightarrow> string \<Rightarrow> unit tries" where
  "recheckCommit g receipt = (case g of None \<Rightarrow> ret (Inr ())
     | Some g \<Rightarrow> wrapping [ErrCommitAdmission] (attempt probe (\<lambda>_. ret (as_result (the (gt_recheck g) receipt)))))"

subsection \<open>Staging\<close>

fun create_transaction :: "plan \<Rightarrow> string list \<Rightarrow> string tries" where
  "create_transaction p [] = ret (Inl [Failure])"
| "create_transaction p (e # es) = attempt probe (\<lambda>_.
     let name = transactionDirectoryName (plan_digest p) e in
     if list_ex (\<lambda>c. change_path c = name \<or> pathHasPrefix (change_path c) name) (changes p) then create_transaction p es
     else andthen (mkdir name) (\<lambda>r. case r of
         Inr _ \<Rightarrow> ret (Inr name)
       | Inl er \<Rightarrow> if Exist \<in> set er then create_transaction p es else ret (Inl er)))"

definition createTransactionDir :: "platform \<Rightarrow> plan \<Rightarrow> string tries" where
  "createTransactionDir pf p = create_transaction p (take 16 (entropies pf))"

text \<open>\<open>writeContent\<close>: nothing for an empty content, else a look at the context and one write.\<close>

definition writeContent :: "string \<Rightarrow> string \<Rightarrow> unit tries" where
  "writeContent name c = (if c = [] then ret (Inr ()) else attempt ctx_alive (\<lambda>_. write_chunk name c))"

text \<open>The file is closed on every path; the error of a failed write comes first.\<close>

definition write_staged :: "string \<Rightarrow> string \<Rightarrow> fmode \<Rightarrow> unit tries" where
  "write_staged name c m = andthen (attempt (writeContent name c) (\<lambda>_. attempt (chmod name m) (\<lambda>_. probe))) (\<lambda>r.
     andthen probe (\<lambda>closed. ret (case r of Inl e \<Rightarrow> Inl e | Inr _ \<Rightarrow> closed)))"

fun stage_rows :: "digester \<Rightarrow> string \<Rightarrow> plan_row list \<Rightarrow> unit tries" where
  "stage_rows h txn [] = ret (Inr ())"
| "stage_rows h txn ((i, c, old, final) # rs) =
     (if plain_op (p_operation (public c)) then stage_rows h txn rs
      else attempt ctx_alive (\<lambda>_. attempt (create_file (content_name txn i)) (\<lambda>_.
        attempt (write_staged (content_name txn i) (payload (p_content c)) (p_mode (public c))) (\<lambda>_.
        attempt (verifyEquivalentFile h (content_name txn i) final) (\<lambda>_. stage_rows h txn rs)))))"

definition stageWrites :: "digester \<Rightarrow> string \<Rightarrow> plan \<Rightarrow> unit tries" where
  "stageWrites h txn p = stage_rows h txn (rows p)"

subsection \<open>Committing and rolling back\<close>

text \<open>The directories that were created come back with the error, as the caller has to remove them.\<close>

fun ensure_parents :: "bool \<Rightarrow> string list \<Rightarrow> string list \<Rightarrow> (string list \<times> werrs option) ws" where
  "ensure_parents allowCreate created [] = ret (created, None)"
| "ensure_parents allowCreate created (s # ss) = andthen (lstat s) (\<lambda>r. case r of
       Inr x \<Rightarrow> if x = Link then ret (created, Some [ErrSymlink])
         else if x \<noteq> Dir then ret (created, Some [ErrInvalidPath])
         else ensure_parents allowCreate created ss
     | Inl e \<Rightarrow> if NotExist \<notin> set e then ret (created, Some e)
         else if \<not> allowCreate then ret (created, Some [ErrChanged])
         else andthen (mkdir s) (\<lambda>m. case m of Inl e \<Rightarrow> ret (created, Some e)
           | Inr _ \<Rightarrow> andthen (syncDirectory (path_dir s)) (\<lambda>y. case y of Inl e \<Rightarrow> ret (created, Some e)
             | Inr _ \<Rightarrow> ensure_parents allowCreate (created @ [s]) ss)))"

definition ensureTargetParents :: "string \<Rightarrow> bool \<Rightarrow> (string list \<times> werrs option) ws" where
  "ensureTargetParents target allowCreate = ensure_parents allowCreate [] (parent_paths target)"

record journalEntry =
  j_target :: string
  j_backup :: string
  originalMoved :: bool
  installed :: bool

type_synonym journal = "journalEntry list"

text \<open>Each failure is joined to those before it; the loop goes on.\<close>

definition and_failures :: "werrs \<Rightarrow> unit tries \<Rightarrow> werrs ws" where
  "and_failures es m = andthen m (\<lambda>r. ret (case r of Inl e \<Rightarrow> es @ e | Inr _ \<Rightarrow> es))"

definition undo_entry :: "journalEntry \<Rightarrow> werrs \<Rightarrow> werrs ws" where
  "undo_entry j es =
     andthen (if installed j then
         andthen (remove (j_target j)) (\<lambda>r. case r of
             Inl e \<Rightarrow> ret (if NotExist \<in> set e then es else es @ e)
           | Inr _ \<Rightarrow> and_failures es (syncDirectory (path_dir (j_target j))))
       else ret es) (\<lambda>es.
     if originalMoved j then and_failures es (attempt (rename (j_backup j) (j_target j)) (\<lambda>_. syncRename (j_backup j) (j_target j)))
     else ret es)"

fun undo_journal :: "journal \<Rightarrow> werrs \<Rightarrow> werrs ws" where
  "undo_journal [] es = ret es"
| "undo_journal (j # js) es = andthen (undo_entry j es) (undo_journal js)"

fun remove_created :: "string list \<Rightarrow> werrs \<Rightarrow> werrs ws" where
  "remove_created [] es = ret es"
| "remove_created (s # ss) es = andthen (remove s) (\<lambda>r. case r of
       Inl e \<Rightarrow> remove_created ss (if NotExist \<in> set e then es else es @ e)
     | Inr _ \<Rightarrow> andthen (and_failures es (syncDirectory (path_dir s))) (remove_created ss))"

text \<open>\<open>None\<close> when everything was restored and the transaction removed.\<close>

definition rollback :: "digester \<Rightarrow> string \<Rightarrow> plan \<Rightarrow> journal \<Rightarrow> string list \<Rightarrow> werrs option ws" where
  "rollback h txn p js created =
     andthen (undo_journal (rev js) []) (\<lambda>es.
     andthen (remove_created (rev created) es) (\<lambda>es.
     andthen (capturePlanFiles h p) (\<lambda>r.
       let es = es @ (case r of Inl e \<Rightarrow> e | Inr fs \<Rightarrow> if digestFiles h fs \<noteq> before_digest p then [ErrChanged] else []) in
     andthen (and_failures es (verifyDirectoryGuards p False)) (\<lambda>es.
       if es \<noteq> [] then ret (Some (ErrRollback # es))
       else andthen (cleanupTransaction txn) (\<lambda>r. case r of
           Inl e \<Rightarrow> ret (Some (ErrRollback # e)) | Inr _ \<Rightarrow> ret None)))))"

definition failCommit :: "digester \<Rightarrow> string \<Rightarrow> plan \<Rightarrow> journal \<Rightarrow> string list \<Rightarrow> werrs \<Rightarrow> werrs ws" where
  "failCommit h txn p js created primary =
     andthen (rollback h txn p js created) (\<lambda>r. ret (primary @ (case r of None \<Rightarrow> [] | Some e \<Rightarrow> e)))"

text \<open>
  One pass of the loop in \<open>apply\<close>: the journal and the created directories travel with the first error, if there is one.
  \<open>checked\<close> goes on with the value of a step or stops with its error.
\<close>

type_synonym progress = "journal \<times> string list \<times> bool"

definition checked :: "progress \<Rightarrow> 'a tries \<Rightarrow> ('a \<Rightarrow> (progress \<times> werrs option) ws) \<Rightarrow> (progress \<times> werrs option) ws" where
  "checked pr m k = andthen m (\<lambda>r. case r of Inl e \<Rightarrow> ret (pr, Some e) | Inr x \<Rightarrow> k x)"

definition install_row :: "digester \<Rightarrow> string \<Rightarrow> plan_row \<Rightarrow> journalEntry \<Rightarrow> progress \<Rightarrow> (progress \<times> werrs option) ws" where
  "install_row h txn row0 j pr = (case (row0, pr) of ((i, c, old, final), (js, created, rechecked)) \<Rightarrow>
     let target = change_path c;
         j' = j\<lparr>installed := True\<rparr>;
         now = (js @ [j], created, rechecked);
         later = (js @ [j'], created, rechecked) in
     if p_operation (public c) = OperationDelete then ret (now, None)
     else checked now (rename (content_name txn i) target) (\<lambda>_.
       checked later (syncRename (content_name txn i) target) (\<lambda>_.
       checked later (verifyOneTarget h final) (\<lambda>_. ret (later, None)))))"

definition backup_row :: "digester \<Rightarrow> string \<Rightarrow> plan_row \<Rightarrow> progress \<Rightarrow> (progress \<times> werrs option) ws" where
  "backup_row h txn row0 pr = (case (row0, pr) of ((i, c, old, final), (js, created, rechecked)) \<Rightarrow>
     let target = change_path c;
         j = \<lparr>j_target = target, j_backup = [], originalMoved = False, installed = False\<rparr>;
         j1 = j\<lparr>j_backup := backup_name txn i\<rparr>;
         j2 = j1\<lparr>originalMoved := True\<rparr> in
     if \<not> f_exists old then install_row h txn row0 j pr
     else checked (js @ [j1], created, rechecked) (rename target (backup_name txn i)) (\<lambda>_.
       checked (js @ [j2], created, rechecked) (syncRename target (backup_name txn i)) (\<lambda>_.
       checked (js @ [j2], created, rechecked) (verifyEquivalentFile h (backup_name txn i) old) (\<lambda>_.
         install_row h txn row0 j2 pr))))"

definition apply_row :: "digester \<Rightarrow> gate option \<Rightarrow> string \<Rightarrow> string \<Rightarrow> plan_row \<Rightarrow> progress \<Rightarrow> (progress \<times> werrs option) ws" where
  "apply_row h g receipt txn row0 pr = (case (row0, pr) of ((i, c, old, final), (js, created, rechecked)) \<Rightarrow>
     let target = change_path c in
     checked pr ctx_alive (\<lambda>_.
     checked pr verifyOpenedRootPath (\<lambda>_.
     if p_operation (public c) = OperationAssert then checked pr (verifyOneTarget h old) (\<lambda>_. ret (pr, None))
     else andthen (ensureTargetParents target (p_operation (public c) = OperationCreate)) (\<lambda>(new, parentErr).
       let pr1 = (js, created @ new, rechecked) in
       case parentErr of Some e \<Rightarrow> ret (pr1, Some e) | None \<Rightarrow>
       checked pr1 (verifyOneTarget h old) (\<lambda>_.
       checked pr1 (if rechecked then ret (Inr ()) else recheckCommit g receipt) (\<lambda>_.
         backup_row h txn row0 (js, created @ new, True)))))))"

fun apply_rows :: "digester \<Rightarrow> gate option \<Rightarrow> string \<Rightarrow> string \<Rightarrow> plan_row list \<Rightarrow> progress \<Rightarrow> (progress \<times> werrs option) ws" where
  "apply_rows h g receipt txn [] pr = ret (pr, None)"
| "apply_rows h g receipt txn (x # xs) pr = andthen (apply_row h g receipt txn x pr) (\<lambda>(pr, e).
     case e of Some e \<Rightarrow> ret (pr, Some e) | None \<Rightarrow> apply_rows h g receipt txn xs pr)"

subsection \<open>Apply\<close>

datatype disposition = Undecided | ApplyCommitted | ApplyReplayed

record applyResult =
  ar_plan :: string
  ar_disposition :: disposition
  ar_receipt :: string

type_synonym applied = "applyResult \<times> werrs option"

definition refused :: "plan \<Rightarrow> werrs \<Rightarrow> applied" where
  "refused p e = (\<lparr>ar_plan = plan_digest p, ar_disposition = Undecided, ar_receipt = []\<rparr>, Some e)"

definition accepted :: "plan \<Rightarrow> disposition \<Rightarrow> string \<Rightarrow> applied" where
  "accepted p d receipt = (\<lparr>ar_plan = plan_digest p, ar_disposition = d, ar_receipt = receipt\<rparr>, None)"

text \<open>\<open>if err != nil { return result, err }\<close>, and the same with the transaction removed first.\<close>

definition or_refuse :: "plan \<Rightarrow> 'a tries \<Rightarrow> ('a \<Rightarrow> applied ws) \<Rightarrow> applied ws" where
  "or_refuse p m k = andthen m (\<lambda>r. case r of Inl e \<Rightarrow> ret (refused p e) | Inr x \<Rightarrow> k x)"

definition refuse_clean :: "plan \<Rightarrow> string \<Rightarrow> werrs \<Rightarrow> applied ws" where
  "refuse_clean p txn e = andthen (and_failures e (cleanupTransaction txn)) (\<lambda>es. ret (refused p es))"

definition or_clean :: "plan \<Rightarrow> string \<Rightarrow> 'a tries \<Rightarrow> ('a \<Rightarrow> applied ws) \<Rightarrow> applied ws" where
  "or_clean p txn m k = andthen m (\<lambda>r. case r of Inl e \<Rightarrow> refuse_clean p txn e | Inr x \<Rightarrow> k x)"

text \<open>The end of the commit: the final check of all targets and the durable decision.\<close>

definition conclude :: "platform \<Rightarrow> plan \<Rightarrow> string \<Rightarrow> string \<Rightarrow> journal \<Rightarrow> string list \<Rightarrow> applied ws" where
  "conclude pf p txn receipt js created =
     (let h = sha pf; fail = (\<lambda>e. andthen (failCommit h txn p js created e) (\<lambda>es. ret (refused p es))) in
      andthen (capturePlanFiles h p) (\<lambda>r. case r of Inl e \<Rightarrow> fail e | Inr fs \<Rightarrow>
        if digestFiles h fs \<noteq> final_digest p then fail [ErrChanged]
        else andthen (verifyDirectoryGuards p True) (\<lambda>r. case r of Inl e \<Rightarrow> fail e | Inr _ \<Rightarrow>
          andthen verifyOpenedRootPath (\<lambda>r. case r of Inl e \<Rightarrow> fail e | Inr _ \<Rightarrow>
            andthen (finalizeTransaction txn) (\<lambda>r.
              ret (fst (accepted p ApplyCommitted receipt), case r of Inl e \<Rightarrow> Some e | Inr _ \<Rightarrow> None))))))"

text \<open>From the durable record on.\<close>

definition commit :: "platform \<Rightarrow> plan \<Rightarrow> gate option \<Rightarrow> string \<Rightarrow> transactionAdmission \<Rightarrow> applied ws" where
  "commit pf p g txn a =
     (let h = sha pf;
          go = (\<lambda>rechecked. andthen (apply_rows h g (a_receipt a) txn (rows p) ([], [], rechecked)) (\<lambda>((js, created, _), e).
            case e of Some e \<Rightarrow> andthen (failCommit h txn p js created e) (\<lambda>es. ret (refused p es))
            | None \<Rightarrow> conclude pf p txn (a_receipt a) js created)) in
      if guards p = [] then go (g = None)
      else or_clean p txn (recheckCommit g (a_receipt a)) (\<lambda>_.
        or_clean p txn (verifyDirectoryGuards p False) (\<lambda>_. go True)))"

text \<open>From the recovered workspace to the durable record.\<close>

definition stage_and_commit :: "platform \<Rightarrow> plan \<Rightarrow> gate option \<Rightarrow> string \<Rightarrow> applied ws" where
  "stage_and_commit pf p g recovered =
     (let h = sha pf in
      or_refuse p (inspectCommit g) (\<lambda>_.
      or_refuse p (classifyState h p) (\<lambda>st.
        if st = stateFinal then ret (accepted p ApplyReplayed recovered)
        else or_refuse p (createTransactionDir pf p) (\<lambda>txn.
          or_clean p txn (stageWrites h txn p) (\<lambda>_.
          or_clean p txn (classifyState h p) (\<lambda>st.
            if st = stateFinal then
              andthen (cleanupTransaction txn) (\<lambda>r.
                ret (fst (accepted p ApplyReplayed []), case r of Inl e \<Rightarrow> Some e | Inr _ \<Rightarrow> None))
            else or_clean p txn verifyOpenedRootPath (\<lambda>_.
              or_clean p txn (admitCommit g) (\<lambda>a.
              or_clean p txn (prepareTransaction pf txn p a) (\<lambda>_. commit pf p g txn a)))))))))"

text \<open>Under the locks.\<close>

definition locked_apply :: "platform \<Rightarrow> plan \<Rightarrow> gate option \<Rightarrow> applied ws" where
  "locked_apply pf p g =
     or_refuse p (recoverTransactions pf p g) (\<lambda>rc.
       if g \<noteq> None \<and> prepared rc then
         or_refuse p (classifyState (sha pf) p) (\<lambda>st.
           if st = stateFinal then ret (accepted p ApplyReplayed (recovered_receipt rc))
           else ret (refused p [ErrRecoveryRestart]))
       else stage_and_commit pf p g (recovered_receipt rc))"

text \<open>Releasing the locks and closing the root happen on every path and may add an error.\<close>

definition closing :: "applied \<Rightarrow> applied ws" where
  "closing x = andthen (and_failures [] probe) (\<lambda>es.
     ret (fst x, if es = [] then snd x else Some ((case snd x of None \<Rightarrow> [] | Some e \<Rightarrow> e) @ es)))"

text \<open>\<open>Apply\<close> and \<open>ApplyWithCommitGate\<close>; taking the locks takes two looks at the context and one system call.\<close>

definition Apply :: "platform \<Rightarrow> plan \<Rightarrow> gate option \<Rightarrow> applied ws" where
  "Apply pf p g = (case Plan_Validate (sha pf) p of Some e \<Rightarrow> ret (refused p e)
     | None \<Rightarrow> (case validateCommitGate g of Some e \<Rightarrow> ret (refused p e)
       | None \<Rightarrow> or_refuse p ctx_alive (\<lambda>_. or_refuse p openWorkspaceRoot (\<lambda>_.
           andthen (or_refuse p (probes 3) (\<lambda>_. andthen (locked_apply pf p g) closing)) closing))))"

subsection \<open>Reading under the lock\<close>

fun reject_entries :: "(string \<times> bool) list \<Rightarrow> unit tries" where
  "reject_entries [] = ret (Inr ())"
| "reject_entries ((name, isDir) # es) = attempt ctx_alive (\<lambda>_.
     if has_prefix name transactionPrefix then ret (Inl [ErrRecovery]) else reject_entries es)"

definition rejectActiveTransactions :: "unit tries" where
  "rejectActiveTransactions = attempt (wrapping [ErrRecovery] readRootDirectory) reject_entries"

text \<open>The callback is a function of the tree it reads.\<close>

definition WithReadLock :: "(tree \<Rightarrow> (werrs, 'a) result) \<Rightarrow> 'a tries" where
  "WithReadLock inspect =
     attempt ctx_alive (\<lambda>_. attempt openWorkspaceRoot (\<lambda>_.
       andthen (attempt (probes 3) (\<lambda>_. attempt verifyOpenedRootPath (\<lambda>_. attempt rejectActiveTransactions (\<lambda>_.
           attempt (look inspect) (\<lambda>x. attempt verifyOpenedRootPath (\<lambda>_. ret (Inr x)))))))
         (\<lambda>r. andthen (and_failures [] (probes 2)) (\<lambda>es. ret (if es = [] then r else Inl ((case r of Inl e \<Rightarrow> e | Inr _ \<Rightarrow> []) @ es))))))"

end
