(* ===== verification/Workspace_Logic.thy ===== *)
theory Workspace_Logic
  imports Workspace_Apply
begin

text \<open>
  Reasoning about the operations of the workspace. A triple speaks of every script, or only of the empty one when its
  first argument holds, which then excludes faults and death; its second argument is what holds of the tree wherever
  the process may die.
\<close>

named_theorems obs \<open>operations that only observe the tree\<close>

definition faulty :: "(werrs, 'a) result \<Rightarrow> bool" where
  "faulty x \<longleftrightarrow> (\<exists>e. x = Inl e \<and> Failure \<in> set e)"

lemma faulty_simps [simp]: "\<not> faulty (Inr x)" "faulty (Inl e) \<longleftrightarrow> Failure \<in> set e"
  by (auto simp: faulty_def)

subsection \<open>Observers\<close>

definition observes :: "'a tries \<Rightarrow> (tree \<Rightarrow> (werrs, 'a) result) \<Rightarrow> bool" where
  "observes m f \<longleftrightarrow> (\<forall>w. nodes (snd (m w)) = nodes w
     \<and> (script w = [] \<longrightarrow> m w = (Ret (f (nodes w)), w))
     \<and> (\<forall>x. fst (m w) = Ret x \<longrightarrow> x = f (nodes w) \<or> faulty x))"

lemma obs_ret [obs]: "observes (ret x) (\<lambda>_. x)"
  by (simp add: observes_def ret_def)

lemma obs_look [obs]: "observes (look f) f"
  unfolding observes_def look_def sys_def untouched_def
  by (auto split: list.splits fault.splits sum.splits simp: map_sum_def)

lemma obs_andthen:
  assumes m: "observes m f" and k: "\<And>x. observes (k x) (g x)" and e: "\<And>e n. Failure \<in> set e \<Longrightarrow> faulty (g (Inl e) n)"
  shows "observes (andthen m k) (\<lambda>n. g (f n) n)"
  unfolding observes_def
proof (intro allI conjI impI)
  fix w
  obtain r w' where mw: "m w = (r, w')" by (cases "m w")
  have n: "nodes w' = nodes w" using m mw by (auto simp: observes_def dest: spec [of _ w])
  note k' = k [unfolded observes_def, rule_format]
  show "nodes (snd (andthen m k w)) = nodes w"
    using k' n by (auto simp: andthen_def mw split: io.splits)
  show "andthen m k w = (Ret (g (f (nodes w)) (nodes w)), w)" if "script w = []"
    using that m [unfolded observes_def, rule_format, of w] k' by (simp add: andthen_def)
  fix y
  assume "fst (andthen m k w) = Ret y"
  then obtain x where r: "r = Ret x" "fst (k x w') = Ret y" by (auto simp: andthen_def mw split: io.splits)
  have "x = f (nodes w) \<or> faulty x" using m [unfolded observes_def, rule_format, of w] r(1) by (auto simp: mw)
  moreover have "y = g x (nodes w) \<or> faulty y" using k' [of x w'] r(2) n by auto
  ultimately show "y = g (f (nodes w)) (nodes w) \<or> faulty y" using e by (auto simp: faulty_def)
qed

lemma obs_attempt [obs]:
  assumes "observes m f" and "\<And>x. observes (k x) (g x)"
  shows "observes (attempt m k) (\<lambda>n. bind_res (f n) (\<lambda>x. g x n))"
proof -
  have "observes (andthen m (\<lambda>r. case r of Inl e \<Rightarrow> ret (Inl e) | Inr x \<Rightarrow> k x))
      (\<lambda>n. (\<lambda>r n. bind_res r (\<lambda>x. g x n)) (f n) n)"
  proof (rule obs_andthen [OF assms(1)])
    show "observes (case r of Inl e \<Rightarrow> ret (Inl e) | Inr x \<Rightarrow> k x) (\<lambda>n. bind_res r (\<lambda>x. g x n))" for r
      using assms(2) by (cases r) (auto simp: obs_ret)
  qed auto
  then show ?thesis by (simp add: attempt_def)
qed

lemma obs_wrapping [obs]:
  assumes "observes m f"
  shows "observes (wrapping es m) (\<lambda>n. map_sum ((@) es) (\<lambda>x. x) (f n))"
proof -
  have "observes (andthen m (\<lambda>r. ret (map_sum ((@) es) (\<lambda>x. x) r))) (\<lambda>n. (\<lambda>r n. map_sum ((@) es) (\<lambda>x. x) r) (f n) n)"
    by (rule obs_andthen [OF assms obs_ret]) auto
  then show ?thesis by (simp add: wrapping_def)
qed

lemma obs_if [obs]: "observes a f \<Longrightarrow> observes b g \<Longrightarrow> observes (if c then a else b) (\<lambda>n. if c then f n else g n)"
  by simp

lemma obs_eq: "observes m f \<Longrightarrow> (\<And>n. f n = g n) \<Longrightarrow> observes m g"
  by (simp add: observes_def)

lemma obs_probe [obs]: "observes probe (\<lambda>_. Inr ())"
  unfolding probe_def by (rule obs_look)

lemma obs_probes [obs]: "observes (probes i) (\<lambda>_. Inr ())"
proof (induction i)
  case 0 then show ?case by (simp add: obs_ret)
next
  case (Suc i)
  show ?case by (simp, rule obs_eq, rule obs_attempt [OF obs_probe Suc]) simp
qed

lemma obs_ctx [obs]: "observes ctx_alive (\<lambda>_. Inr ())"
  by (simp add: ctx_alive_def obs_probe)

lemma obs_verifyOpenedRootPath [obs]: "observes verifyOpenedRootPath (\<lambda>_. Inr ())"
  unfolding verifyOpenedRootPath_def by (rule obs_eq, rule obs_wrapping [OF obs_probes]) simp

lemma obs_openWorkspaceRoot [obs]: "observes openWorkspaceRoot (\<lambda>_. Inr ())"
  unfolding openWorkspaceRoot_def by (rule obs_probes)

definition dir_there :: "string \<Rightarrow> tree \<Rightarrow> bool" where
  "dir_there s n \<longleftrightarrow> s = ''.'' \<or> map_of n (comps s) = Some Dir"

lemma obs_syncDirectory [obs]: "observes (syncDirectory s) (\<lambda>n. if dir_there s n then Inr () else Inl [NotExist])"
  unfolding syncDirectory_def
  by (rule obs_eq, rule obs_attempt [OF obs_look obs_probes]) (simp add: dir_there_def)

lemma obs_syncRename [obs]:
  "observes (syncRename a b) (\<lambda>n. if dir_there (path_dir a) n \<and> dir_there (path_dir b) n then Inr () else Inl [NotExist])"
  unfolding syncRename_def
  by (rule obs_eq, rule obs_attempt [OF obs_syncDirectory], rule obs_if [OF obs_syncDirectory obs_ret]) auto

subsection \<open>Captures\<close>

fun inspect_pure :: "tree \<Rightarrow> fpath \<Rightarrow> fpath \<Rightarrow> (werrs, bool) result" where
  "inspect_pure n pre [] = Inr False"
| "inspect_pure n pre (c # cs) = (case map_of n (pre @ [c]) of None \<Rightarrow> Inr True
     | Some x \<Rightarrow> (case component_error (cs = []) x of Some e \<Rightarrow> Inl e | None \<Rightarrow> inspect_pure n (pre @ [c]) cs))"

lemma obs_shift:
  assumes "observes m f" and "nodes w' = nodes w" and "script w = [] \<Longrightarrow> w' = w"
  shows "nodes (snd (m w')) = nodes w \<and> (script w = [] \<longrightarrow> m w' = (Ret (f (nodes w)), w))
    \<and> (\<forall>x. fst (m w') = Ret x \<longrightarrow> x = f (nodes w) \<or> faulty x)"
  using assms(1) [unfolded observes_def, rule_format, of w'] assms(2,3) by auto

text \<open>A look at one path whose caller treats a missing one apart.\<close>

lemma obs_lstat:
  assumes A: "observes A fa" and K: "\<And>x. observes (K x) (fk x)"
  shows "observes (andthen (lstat_at k) (\<lambda>r. case r of Inl e \<Rightarrow> if NotExist \<in> set e then A else ret (Inl e) | Inr x \<Rightarrow> K x))
    (\<lambda>n. case map_of n k of None \<Rightarrow> fa n | Some x \<Rightarrow> fk x n)" (is "observes (andthen _ ?k) ?g")
proof (unfold observes_def, intro allI)
  fix w
  let ?f = "\<lambda>n. case map_of n k of None \<Rightarrow> Inl [NotExist] | Some x \<Rightarrow> Inr x"
  let ?r = "fst (lstat_at k w)" and ?w = "snd (lstat_at k w)"
  have l: "nodes ?w = nodes w" "script w = [] \<Longrightarrow> ?r = Ret (?f (nodes w)) \<and> ?w = w"
      "?r = Dead \<or> ?r = Ret (?f (nodes w)) \<or> ?r = Ret (Inl [Failure])"
    by (auto simp: lstat_at_def look_def sys_def untouched_def split: list.splits fault.splits option.splits)
  have o: "observes (?k (?f n)) (\<lambda>n'. case map_of n k of None \<Rightarrow> fa n' | Some x \<Rightarrow> fk x n')" for n
    using A K by (auto split: option.splits)
  show "nodes (snd (andthen (lstat_at k) ?k w)) = nodes w
    \<and> (script w = [] \<longrightarrow> andthen (lstat_at k) ?k w = (Ret (?g (nodes w)), w))
    \<and> (\<forall>x. fst (andthen (lstat_at k) ?k w) = Ret x \<longrightarrow> x = ?g (nodes w) \<or> faulty x)"
    using l(3)
  proof (elim disjE)
    assume d: "?r = Ret (?f (nodes w))"
    have s: "andthen (lstat_at k) ?k w = ?k (?f (nodes w)) ?w"
      using d by (cases "lstat_at k w") (simp add: andthen_def)
    show ?thesis unfolding s by (rule obs_shift [OF o l(1)]) (use l(2) in simp)
  next
    assume d: "?r = Dead"
    then have "andthen (lstat_at k) ?k w = (Dead, ?w)" by (cases "lstat_at k w") (simp add: andthen_def)
    then show ?thesis using l d by auto
  next
    assume d: "?r = Ret (Inl [Failure])"
    then have "andthen (lstat_at k) ?k w = (Ret (Inl [Failure]), ?w)"
      by (cases "lstat_at k w") (simp add: andthen_def ret_def)
    moreover have "script w \<noteq> []" using l(2) d by (auto split: option.splits)
    ultimately show ?thesis using l(1) by simp
  qed
qed

lemma obs_inspect_from: "observes (inspect_from pre cs) (\<lambda>n. inspect_pure n pre cs)"
proof (induction cs arbitrary: pre)
  case Nil then show ?case by (simp add: obs_ret)
next
  case (Cons c cs)
  have "observes (case component_error (cs = []) x of Some e \<Rightarrow> ret (Inl e) | None \<Rightarrow> inspect_from (pre @ [c]) cs)
     (\<lambda>n. case component_error (cs = []) x of Some e \<Rightarrow> Inl e | None \<Rightarrow> inspect_pure n (pre @ [c]) cs)" for x
    by (auto simp: obs_ret Cons split: option.splits)
  from obs_lstat [OF obs_ret this] show ?case by simp
qed

lemma obs_inspectPath [obs]: "observes (inspectPath s) (\<lambda>n. inspect_pure n [] (comps s))"
  unfolding inspectPath_def by (rule obs_inspect_from)

text \<open>What a capture finds in a tree.\<close>

definition file_at :: "digester \<Rightarrow> string \<Rightarrow> node option \<Rightarrow> file_state" where
  "file_at h s x = (case x of
       Some (Reg m c) \<Rightarrow> \<lparr>f_path = s, f_exists = True, f_mode = snapshotMode m, f_digest = digestBytes h c\<rparr>
     | _ \<Rightarrow> missing_file s)"

definition fstate :: "digester \<Rightarrow> string \<Rightarrow> tree \<Rightarrow> (werrs, file_state) result" where
  "fstate h s n = bind_res (inspect_pure n [] (comps s)) (\<lambda>missing.
     Inr (if missing then missing_file s else file_at h s (map_of n (comps s))))"

lemma inspect_pure_False: "inspect_pure n pre (c # cs) = Inr False \<Longrightarrow> \<exists>m b. map_of n (pre @ c # cs) = Some (Reg m b)"
proof (induction cs arbitrary: pre c)
  case Nil
  then show ?case by (auto simp: component_error_def regular_def split: option.splits if_splits node.splits)
next
  case (Cons c' cs)
  have "inspect_pure n (pre @ [c]) (c' # cs) = Inr False"
    using Cons.prems by (simp only: inspect_pure.simps(2) [of n pre]) (auto split: option.splits)
  from Cons.IH [OF this] show ?case by simp
qed

lemma comps_Cons: "\<exists>c cs. comps s = c # cs"
  by (cases "comps s") (simp_all add: comps_def)

lemma obs_captureFile [obs]: "observes (captureFile h s) (fstate h s)"
proof -
  obtain c cs where cs: "comps s = c # cs" using comps_Cons by blast
  show ?thesis unfolding captureFile_def split_beta
    apply (rule obs_eq, (rule obs_attempt obs_if obs_inspectPath obs_ret obs_probes | simp only: open_regular_def; rule obs_look)+)
    subgoal for n
    proof (cases "inspect_pure n [] (c # cs) = Inr False")
      case True
      then show ?thesis using inspect_pure_False [of n "[]" c cs]
        by (auto simp: fstate_def file_at_def cs simp del: inspect_pure.simps)
    next
      case False
      then show ?thesis
        by (cases "inspect_pure n [] (c # cs)") (auto simp: fstate_def cs simp del: inspect_pure.simps)
    qed
    done
qed

subsection \<open>Triples\<close>

definition triple :: "bool \<Rightarrow> (tree \<Rightarrow> bool) \<Rightarrow> (tree \<Rightarrow> bool) \<Rightarrow> 'a ws \<Rightarrow> ('a \<Rightarrow> tree \<Rightarrow> bool) \<Rightarrow> bool" where
  "triple q I P m Q \<longleftrightarrow> (\<forall>w. P (nodes w) \<longrightarrow> (q \<longrightarrow> script w = []) \<longrightarrow>
     (case m w of (Ret x, w') \<Rightarrow> Q x (nodes w') \<and> (q \<longrightarrow> script w' = []) | (Dead, w') \<Rightarrow> \<not> q \<and> I (nodes w')))"

lemma tripleI:
  assumes "\<And>w x w'. P (nodes w) \<Longrightarrow> (q \<Longrightarrow> script w = []) \<Longrightarrow> m w = (Ret x, w') \<Longrightarrow> Q x (nodes w') \<and> (q \<longrightarrow> script w' = [])"
    and "\<And>w w'. P (nodes w) \<Longrightarrow> (q \<Longrightarrow> script w = []) \<Longrightarrow> m w = (Dead, w') \<Longrightarrow> \<not> q \<and> I (nodes w')"
  shows "triple q I P m Q"
  unfolding triple_def
proof (intro allI impI)
  fix w :: world assume w: "P (nodes w)" "q \<longrightarrow> script w = []"
  obtain r w' where m: "m w = (r, w')" by (cases "m w")
  show "case m w of (Ret x, w') \<Rightarrow> Q x (nodes w') \<and> (q \<longrightarrow> script w' = []) | (Dead, w') \<Rightarrow> \<not> q \<and> I (nodes w')"
    using assms [OF w(1) w(2) [rule_format]] m by (cases r) auto
qed

lemma triple_RetD:
  "triple q I P m Q \<Longrightarrow> P (nodes w) \<Longrightarrow> (q \<Longrightarrow> script w = []) \<Longrightarrow> m w = (Ret x, w') \<Longrightarrow> Q x (nodes w') \<and> (q \<longrightarrow> script w' = [])"
  by (drule triple_def [THEN iffD1, rule_format]) auto

lemma triple_DeadD:
  "triple q I P m Q \<Longrightarrow> P (nodes w) \<Longrightarrow> (q \<Longrightarrow> script w = []) \<Longrightarrow> m w = (Dead, w') \<Longrightarrow> \<not> q \<and> I (nodes w')"
  by (drule triple_def [THEN iffD1, rule_format]) auto

lemma t_ret: "(\<And>n. P n \<Longrightarrow> Q x n) \<Longrightarrow> triple q I P (ret x) Q"
  by (simp add: triple_def ret_def)

lemma t_weaken:
  assumes "triple q I P' m Q'" and "\<And>n. P n \<Longrightarrow> P' n" and "\<And>x n. Q' x n \<Longrightarrow> Q x n"
  shows "triple q I P m Q"
proof (rule tripleI)
  fix w :: world and w' x
  assume "P (nodes w)" "q \<Longrightarrow> script w = []" "m w = (Ret x, w')"
  then show "Q x (nodes w') \<and> (q \<longrightarrow> script w' = [])"
    using triple_RetD [OF assms(1) assms(2)] assms(3) by blast
next
  fix w :: world and w'
  assume "P (nodes w)" "q \<Longrightarrow> script w = []" "m w = (Dead, w')"
  then show "\<not> q \<and> I (nodes w')" using triple_DeadD [OF assms(1) assms(2)] by blast
qed

lemma t_pre: "triple q I P' m Q \<Longrightarrow> (\<And>n. P n \<Longrightarrow> P' n) \<Longrightarrow> triple q I P m Q"
  by (rule t_weaken)

lemma t_post: "triple q I P m Q' \<Longrightarrow> (\<And>x n. Q' x n \<Longrightarrow> Q x n) \<Longrightarrow> triple q I P m Q"
  by (rule t_weaken)

lemma t_dead:
  assumes "triple q I' P m Q" and "\<And>n. I' n \<Longrightarrow> I n"
  shows "triple q I P m Q"
proof (rule tripleI)
  fix w :: world and w' x
  assume "P (nodes w)" "q \<Longrightarrow> script w = []" "m w = (Ret x, w')"
  then show "Q x (nodes w') \<and> (q \<longrightarrow> script w' = [])" using triple_RetD [OF assms(1)] by blast
next
  fix w :: world and w'
  assume "P (nodes w)" "q \<Longrightarrow> script w = []" "m w = (Dead, w')"
  then show "\<not> q \<and> I (nodes w')" using triple_DeadD [OF assms(1)] assms(2) by blast
qed

lemma t_false: "triple q I (\<lambda>_. False) m Q"
  by (simp add: triple_def)

lemma t_given: "(A \<Longrightarrow> triple q I P m Q) \<Longrightarrow> triple q I (\<lambda>n. A \<and> P n) m Q"
  by (auto simp: triple_def)

lemma t_ex: "(\<And>y. triple q I (P y) m Q) \<Longrightarrow> triple q I (\<lambda>n. \<exists>y. P y n) m Q"
  unfolding triple_def by (intro allI impI, elim exE) simp

lemma t_or: "triple q I P m Q \<Longrightarrow> triple q I P' m Q \<Longrightarrow> triple q I (\<lambda>n. P n \<or> P' n) m Q"
  by (auto simp: triple_def)

text \<open>It is enough to start from each tree.\<close>

lemma t_point: "(\<And>n0. P n0 \<Longrightarrow> triple q I (\<lambda>n. n = n0) m Q) \<Longrightarrow> triple q I P m Q"
  by (auto simp: triple_def)

lemma t_andthen:
  assumes "triple q I P m R" and "\<And>x. triple q I (R x) (k x) Q"
  shows "triple q I P (andthen m k) Q"
  unfolding triple_def
proof (intro allI impI)
  fix w :: world assume w: "P (nodes w)" "q \<longrightarrow> script w = []"
  obtain r w' where m: "m w = (r, w')" by (cases "m w")
  show "case andthen m k w of (Ret x, w') \<Rightarrow> Q x (nodes w') \<and> (q \<longrightarrow> script w' = []) | (Dead, w') \<Rightarrow> \<not> q \<and> I (nodes w')"
    using assms(1) [unfolded triple_def, rule_format, OF w(1) w(2) [rule_format]] assms(2) [unfolded triple_def, rule_format, of _ w']
    by (cases r) (simp_all add: andthen_def m)
qed

lemma t_attempt:
  assumes "triple q I P m R" and "\<And>e n. R (Inl e) n \<Longrightarrow> Q (Inl e) n" and "\<And>x. triple q I (R (Inr x)) (k x) Q"
  shows "triple q I P (attempt m k) Q"
  unfolding attempt_def
  by (rule t_andthen [OF assms(1)]) (auto split: sum.splits intro: assms(3) t_ret assms(2))

lemma t_wrapping:
  assumes "triple q I P m R" and "\<And>e n. R (Inl e) n \<Longrightarrow> Q (Inl (es @ e)) n" and "\<And>x n. R (Inr x) n \<Longrightarrow> Q (Inr x) n"
  shows "triple q I P (wrapping es m) Q"
  unfolding wrapping_def
  by (rule t_andthen [OF assms(1)]) (auto intro!: t_ret simp: map_sum_def assms split: sum.splits)

lemma t_sys:
  assumes "\<And>n e. P n \<Longrightarrow> eff n = Inl e \<Longrightarrow> Q (Inl e) n"
    and "\<And>n x n'. P n \<Longrightarrow> eff n = Inr (x, n') \<Longrightarrow> Q (Inr x) n'"
    and "\<And>n i ks. P n \<Longrightarrow> \<not> q \<Longrightarrow> Q (Inl [Failure]) (part i ks n)"
    and "\<And>n i ks. P n \<Longrightarrow> \<not> q \<Longrightarrow> I (part i ks n)"
  shows "triple q I P (sys eff part) Q"
  unfolding triple_def sys_def
  using assms by (auto split: list.splits fault.splits sum.splits)

lemma t_obs:
  assumes "observes m f" and "\<And>n. P n \<Longrightarrow> I n" and "\<And>n. P n \<Longrightarrow> Q (f n) n"
    and "\<And>n e. P n \<Longrightarrow> \<not> q \<Longrightarrow> Failure \<in> set e \<Longrightarrow> Q (Inl e) n"
  shows "triple q I P m Q"
  unfolding triple_def
proof (intro allI impI)
  fix w :: world assume w: "P (nodes w)" "q \<longrightarrow> script w = []"
  obtain r w' where m: "m w = (r, w')" by (cases "m w")
  have o: "nodes w' = nodes w" "script w = [] \<Longrightarrow> r = Ret (f (nodes w)) \<and> w' = w"
      "\<And>x. r = Ret x \<Longrightarrow> x = f (nodes w) \<or> faulty x"
    using assms(1) [unfolded observes_def, rule_format, of w] by (auto simp: m)
  show "case m w of (Ret x, w') \<Rightarrow> Q x (nodes w') \<and> (q \<longrightarrow> script w' = []) | (Dead, w') \<Rightarrow> \<not> q \<and> I (nodes w')"
  proof (cases q)
    case True
    then show ?thesis using o w assms(3) by (simp add: m)
  next
    case False
    then show ?thesis using o(1,3) w assms(2-4) by (auto simp: m faulty_def split: io.splits)
  qed
qed

text \<open>The common case: an observer whose result the continuation needs.\<close>

lemma t_obs_attempt:
  assumes "observes m f" and "\<And>n. P n \<Longrightarrow> I n" and "\<And>n e. P n \<Longrightarrow> f n = Inl e \<or> \<not> q \<and> Failure \<in> set e \<Longrightarrow> Q (Inl e) n"
    and "\<And>x. triple q I (\<lambda>n. P n \<and> f n = Inr x) (k x) Q"
  shows "triple q I P (attempt m k) Q"
  by (rule t_attempt [OF t_obs [OF assms(1), where Q = "\<lambda>r n. P n \<and> (r = f n \<or> \<not> q \<and> faulty r)" and P = P and I = I and q = q]])
    (use assms in \<open>auto simp: eq_commute [of _ "f _"]\<close>)

lemma t_obs_andthen:
  assumes "observes m f" and "\<And>n. P n \<Longrightarrow> I n"
    and "\<And>e. triple q I (\<lambda>n. P n \<and> (f n = Inl e \<or> \<not> q \<and> Failure \<in> set e)) (k (Inl e)) Q"
    and "\<And>x. triple q I (\<lambda>n. P n \<and> f n = Inr x) (k (Inr x)) Q"
  shows "triple q I P (andthen m k) Q"
proof (rule t_andthen)
  show "triple q I P m (\<lambda>r n. P n \<and> (r = f n \<or> \<not> q \<and> faulty r))"
    by (rule t_obs [OF assms(1)]) (use assms(2) in auto)
  show "triple q I (\<lambda>n. P n \<and> (r = f n \<or> \<not> q \<and> faulty r)) (k r) Q" for r
    by (cases r) (auto intro: t_pre [OF assms(3)] t_pre [OF assms(4)])
qed

subsection \<open>Captures in a well-formed tree\<close>

text \<open>Nothing but directories above a path, and all of them when the path exists.\<close>

definition reach :: "tree \<Rightarrow> fpath \<Rightarrow> bool" where
  "reach n k \<longleftrightarrow> (\<forall>a. a \<noteq> [] \<longrightarrow> strict_prefix a k \<longrightarrow>
     map_of n a = Some Dir \<or> map_of n a = None \<and> map_of n k = None)"

lemma inspect_pure_reach:
  assumes "cs \<noteq> []"
    and "\<And>u v. cs = u @ v \<Longrightarrow> u \<noteq> [] \<Longrightarrow> v \<noteq> [] \<Longrightarrow> map_of n (pre @ u) = Some Dir \<or> map_of n (pre @ u) = None \<and> map_of n (pre @ cs) = None"
  shows "inspect_pure n pre cs = (case map_of n (pre @ cs) of None \<Rightarrow> Inr True
     | Some x \<Rightarrow> (case component_error True x of Some e \<Rightarrow> Inl e | None \<Rightarrow> Inr False))"
  using assms
proof (induction cs arbitrary: pre)
  case Nil then show ?case by simp
next
  case (Cons c cs)
  show ?case
  proof (cases "cs = []")
    case True
    then show ?thesis by (auto split: option.splits)
  next
    case False
    have c: "map_of n (pre @ [c]) = Some Dir \<or> map_of n (pre @ [c]) = None \<and> map_of n (pre @ c # cs) = None"
      using Cons.prems(2) [of "[c]" cs] False by simp
    have "inspect_pure n (pre @ [c]) cs = (case map_of n ((pre @ [c]) @ cs) of None \<Rightarrow> Inr True
        | Some x \<Rightarrow> (case component_error True x of Some e \<Rightarrow> Inl e | None \<Rightarrow> Inr False))"
    proof (rule Cons.IH [OF False])
      fix u v assume "cs = u @ v" "u \<noteq> []" "v \<noteq> []"
      then show "map_of n ((pre @ [c]) @ u) = Some Dir \<or> map_of n ((pre @ [c]) @ u) = None \<and> map_of n ((pre @ [c]) @ cs) = None"
        using Cons.prems(2) [of "c # u" v] by simp
    qed
    then show ?thesis using c False by (auto simp: component_error_def)
  qed
qed

lemma inspectPath_reach:
  assumes "reach n (comps s)"
  shows "inspect_pure n [] (comps s) = (case map_of n (comps s) of None \<Rightarrow> Inr True
     | Some x \<Rightarrow> (case component_error True x of Some e \<Rightarrow> Inl e | None \<Rightarrow> Inr False))"
proof -
  have "comps s \<noteq> []" by (simp add: comps_def)
  from inspect_pure_reach [OF this, of n "[]"] show ?thesis
  proof
    fix u v assume "comps s = u @ v" "u \<noteq> []" "v \<noteq> []"
    moreover from this have "strict_prefix u (comps s)" by (simp add: strict_prefix_def)
    ultimately show "map_of n ([] @ u) = Some Dir \<or> map_of n ([] @ u) = None \<and> map_of n ([] @ comps s) = None"
      using assms unfolding reach_def by auto
  qed simp
qed

text \<open>A target can be captured when it is missing or a regular file.\<close>

definition file_or_none :: "node option \<Rightarrow> bool" where
  "file_or_none x \<longleftrightarrow> (case x of None \<Rightarrow> True | Some y \<Rightarrow> regular y)"

lemma fstate_reach:
  assumes "reach n (comps s)"
  shows "fstate h s n = (case map_of n (comps s) of Some Link \<Rightarrow> Inl [ErrSymlink] | Some Dir \<Rightarrow> Inl [ErrInvalidPath]
     | Some Special \<Rightarrow> Inl [ErrInvalidPath] | x \<Rightarrow> Inr (file_at h s x))"
  unfolding fstate_def inspectPath_reach [OF assms]
  by (auto simp: component_error_def regular_def file_at_def split: option.splits node.splits)

lemma fstate_reach_ok:
  assumes "reach n (comps s)" and "file_or_none (map_of n (comps s))"
  shows "fstate h s n = Inr (file_at h s (map_of n (comps s)))"
  using assms(2) by (auto simp: fstate_reach [OF assms(1)] file_or_none_def regular_def split: option.splits node.splits)

lemma fstate_reach_InrD:
  assumes "reach n (comps s)" and "fstate h s n = Inr f"
  shows "file_or_none (map_of n (comps s)) \<and> f = file_at h s (map_of n (comps s))"
  using assms(2) by (auto simp: fstate_reach [OF assms(1)] file_or_none_def regular_def split: option.splits node.splits)

subsection \<open>Targets of a plan\<close>

definition targets :: "plan \<Rightarrow> string list" where
  "targets p = map change_path (changes p)"

fun fstates :: "digester \<Rightarrow> string list \<Rightarrow> tree \<Rightarrow> (werrs, file_state list) result" where
  "fstates h [] n = Inr []"
| "fstates h (s # ss) n = bind_res (fstate h s n) (\<lambda>f. bind_res (fstates h ss n) (\<lambda>fs. Inr (f # fs)))"

lemma obs_capture_each [obs]: "observes (capture_each h ss) (fstates h ss)"
proof (induction ss)
  case Nil then show ?case by (simp add: obs_ret observes_def ret_def)
next
  case (Cons s ss)
  show ?case
    by (simp, rule obs_eq, rule obs_attempt [OF obs_captureFile obs_attempt [OF Cons obs_ret]]) simp
qed

lemma obs_capturePlanFiles [obs]: "observes (capturePlanFiles h p) (fstates h (targets p))"
  unfolding capturePlanFiles_def targets_def by (rule obs_capture_each)

lemma verifyDirectoryGuards_none [simp]: "guards p = [] \<Longrightarrow> verifyDirectoryGuards p final = ret (Inr ())"
  by (simp add: verifyDirectoryGuards_def)

definition plan_state :: "digester \<Rightarrow> plan \<Rightarrow> tree \<Rightarrow> (werrs, planState) result" where
  "plan_state h p n = (case fstates h (targets p) n of Inl e \<Rightarrow> Inl (ErrChanged # e)
     | Inr fs \<Rightarrow> if digestFiles h fs = final_digest p then Inr stateFinal
         else if digestFiles h fs = before_digest p then Inr stateBefore else Inl [ErrChanged])"

lemma andthen_ret [simp]: "andthen (ret x) k = k x"
  by (rule ext) (simp add: andthen_def ret_def)

lemma attempt_ret [simp]: "attempt (ret (Inr x)) k = k x" "attempt (ret (Inl e)) k = ret (Inl e)"
  by (simp_all add: attempt_def)

lemma obs_classifyState:
  assumes "guards p = []"
  shows "observes (classifyState h p) (plan_state h p)"
  unfolding classifyState_def Let_def
  by (rule obs_eq, rule obs_attempt [OF obs_wrapping [OF obs_capturePlanFiles], where
        g = "\<lambda>fs n. if digestFiles h fs = final_digest p then Inr stateFinal
         else if digestFiles h fs = before_digest p then Inr stateBefore else Inl [ErrChanged]"])
    (auto simp: assms obs_ret plan_state_def split: sum.splits)

lemma obs_verifyOneTarget [obs]:
  "observes (verifyOneTarget h f) (\<lambda>n. case fstate h (f_path f) n of Inl e \<Rightarrow> Inl (ErrChanged # e)
     | Inr g \<Rightarrow> if g = f then Inr () else Inl [ErrChanged])"
  unfolding verifyOneTarget_def
  by (rule obs_eq, rule obs_attempt [OF obs_wrapping [OF obs_captureFile] obs_if [OF obs_ret obs_ret]])
    (auto split: sum.splits)

definition equivalent :: "file_state \<Rightarrow> file_state \<Rightarrow> bool" where
  "equivalent g f \<longleftrightarrow> f_exists g \<and> f_mode g = f_mode f \<and> f_digest g = f_digest f"

lemma obs_verifyEquivalentFile [obs]:
  "observes (verifyEquivalentFile h s f) (\<lambda>n. case fstate h s n of Inl e \<Rightarrow> Inl (ErrChanged # e)
     | Inr g \<Rightarrow> if equivalent g f then Inr () else Inl [ErrChanged])"
  unfolding verifyEquivalentFile_def
  by (rule obs_eq, rule obs_attempt [OF obs_wrapping [OF obs_captureFile] obs_if [OF obs_ret obs_ret]])
    (auto simp: equivalent_def split: sum.splits)

subsection \<open>Paths and their elements\<close>

lemma join_with_Cons: "ps \<noteq> [] \<Longrightarrow> join_with sep (p # ps) = p @ sep @ join_with sep ps"
  by (cases ps) (simp_all add: join_with_def)

lemma join_with_single [simp]: "join_with sep [p] = p"
  by (simp add: join_with_def)

lemma join_with_push: "join_with sep ((x # p) # ps) = x # join_with sep (p # ps)"
  by (simp add: join_with_def)

lemma join_comps [simp]: "join_with ''/'' (comps s) = s"
proof (induction s)
  case Nil then show ?case by (simp add: comps_def)
next
  case (Cons x s)
  obtain p ps where s: "split_on CHR ''/'' s = p # ps" by (cases "split_on CHR ''/'' s") simp_all
  show ?case
  proof (cases "x = CHR ''/''")
    case True
    then have "comps (x # s) = [] # comps s" by (simp add: comps_def)
    moreover have "comps s \<noteq> []" by (simp add: comps_def)
    ultimately show ?thesis using Cons True by (simp add: join_with_Cons)
  next
    case False
    then have "comps (x # s) = (x # p) # ps" by (simp add: comps_def s)
    then show ?thesis using Cons by (simp add: join_with_push comps_def s)
  qed
qed

lemma comps_inj: "comps a = comps b \<longleftrightarrow> a = b"
  by (metis join_comps)

lemma comps_nonempty [simp]: "comps s \<noteq> []"
  by (simp add: comps_def)

lemma comps_append: "comps (a @ CHR ''/'' # b) = comps a @ comps b"
proof (induction a)
  case Nil then show ?case by (simp add: comps_def)
next
  case (Cons x a)
  then show ?case by (auto simp: comps_def split: list.splits)
qed

lemma comps_plain: "CHR ''/'' \<notin> set s \<Longrightarrow> comps s = [s]"
proof (induction s)
  case Nil then show ?case by (simp add: comps_def)
next
  case (Cons x s)
  then show ?case by (auto simp: comps_def)
qed

lemma join_append: "a \<noteq> [] \<Longrightarrow> b \<noteq> [] \<Longrightarrow> join_with ''/'' (a @ b) = join_with ''/'' a @ CHR ''/'' # join_with ''/'' b"
proof (induction a)
  case (Cons x a)
  then show ?case by (cases a) (simp_all add: join_with_Cons)
qed simp

text \<open>The elements above a path are the paths of \<open>parent_paths\<close>.\<close>

lemma parent_paths_append: "a \<in> set (parent_paths (a @ CHR ''/'' # b))"
  by (auto simp: parent_paths_def image_iff intro!: exI [of _ "length a"])

lemma comps_above: "strict_prefix k (comps s) \<Longrightarrow> k \<noteq> [] \<Longrightarrow> \<exists>a b. s = a @ CHR ''/'' # b \<and> comps a = k"
proof -
  assume k: "strict_prefix k (comps s)" "k \<noteq> []"
  then obtain r where r: "comps s = k @ r" "r \<noteq> []" by (auto simp: strict_prefix_def prefix_def)
  have s: "s = join_with ''/'' k @ CHR ''/'' # join_with ''/'' r"
    using join_append [OF k(2) r(2)] r(1) join_comps [of s] by simp
  have "comps s = comps (join_with ''/'' k) @ comps (join_with ''/'' r)" using s comps_append by metis
  moreover have "length (comps (join_with ''/'' k)) = length k"
    if "\<forall>e\<in>set k. CHR ''/'' \<notin> set e" "k \<noteq> []" for k
    using that
  proof (induction k)
    case (Cons x k)
    then show ?case by (cases "k = []") (simp_all add: comps_plain join_with_Cons comps_append)
  qed simp
  moreover have "\<forall>e\<in>set k. CHR ''/'' \<notin> set e"
    using split_on_no_sep [of _ "CHR ''/''" s] r(1) by (auto simp: comps_def)
  ultimately have "comps (join_with ''/'' k) = k" using r(1) k(2) by (metis append_eq_append_conv)
  then show ?thesis using s by blast
qed

lemma parent_paths_above: "a \<in> set (parent_paths s) \<longleftrightarrow> (\<exists>b. s = a @ CHR ''/'' # b)"
proof
  assume "a \<in> set (parent_paths s)"
  then obtain i where i: "i < length s" "s ! i = CHR ''/''" "a = take i s" by (auto simp: parent_paths_def)
  then have "s = a @ CHR ''/'' # drop (Suc i) s" using id_take_nth_drop [of i s] by simp
  then show "\<exists>b. s = a @ CHR ''/'' # b" by blast
qed (auto simp: parent_paths_append)

lemma above_parent: "strict_prefix (comps a) (comps s) \<longleftrightarrow> a \<in> set (parent_paths s)"
proof
  assume "strict_prefix (comps a) (comps s)"
  then obtain a' b where "s = a' @ CHR ''/'' # b" "comps a' = comps a"
    using comps_above comps_nonempty by blast
  then show "a \<in> set (parent_paths s)" by (auto simp: parent_paths_above comps_inj)
next
  assume "a \<in> set (parent_paths s)"
  then show "strict_prefix (comps a) (comps s)"
    by (auto simp: parent_paths_above comps_append strict_prefix_def)
qed

lemma parent_paths_Nil: "parent_paths s = [] \<longleftrightarrow> CHR ''/'' \<notin> set s"
  by (auto simp: parent_paths_def filter_empty_conv in_set_conv_nth)

text \<open>\<open>path.Dir\<close>: everything but the last element.\<close>

lemma path_dir_plain: "CHR ''/'' \<notin> set s \<Longrightarrow> path_dir s = ''.''"
  using parent_paths_Nil [of s] by (simp add: path_dir_def)

lemma path_dir_slash: "CHR ''/'' \<notin> set b \<Longrightarrow> path_dir (a @ CHR ''/'' # b) = a"
proof -
  assume b: "CHR ''/'' \<notin> set b"
  let ?s = "a @ CHR ''/'' # b"
  have u: "[0..<length ?s] = [0..<length a] @ length a # [Suc (length a)..<length ?s]"
    using upt_add_eq_append [of 0 "length a" "Suc (length b)"] by (simp add: upt_rec)
  have "filter (\<lambda>i. ?s ! i = CHR ''/'') [Suc (length a)..<length ?s] = []"
  proof (rule filter_False, clarify)
    fix i assume i: "i \<in> set [Suc (length a)..<length ?s]" "?s ! i = CHR ''/''"
    define k where "k = i - Suc (length a)"
    have k: "i = Suc (length a) + k" "k < length b" using i(1) by (auto simp: k_def)
    then have "b ! k = CHR ''/''" using i(2) by (simp add: nth_append)
    then show False using b k(2) by (metis nth_mem)
  qed
  then have "parent_paths ?s = map (\<lambda>i. take i ?s) (filter (\<lambda>i. ?s ! i = CHR ''/'') [0..<length a]) @ [a]"
    unfolding parent_paths_def u by (simp add: nth_append)
  then have "parent_paths ?s \<noteq> []" "last (parent_paths ?s) = a" by simp_all
  then show ?thesis unfolding path_dir_def by (cases "parent_paths ?s") simp_all
qed

lemma dir_there_path_dir: "dir_there (path_dir s) n \<longleftrightarrow> parent_ok n (comps s) \<or> path_dir s = ''.''"
proof (cases "CHR ''/'' \<in> set s")
  case False
  then show ?thesis by (simp add: path_dir_plain dir_there_def)
next
  case True
  then obtain a b where s: "s = a @ CHR ''/'' # b" "CHR ''/'' \<notin> set b" using split_list_last by metis
  then have "butlast (comps s) = comps a" by (simp add: comps_append comps_plain)
  then show ?thesis by (auto simp: s path_dir_slash dir_there_def parent_ok_def)
qed

lemma cut_on_comps: "fst (cut_on CHR ''/'' s) = hd (comps s)"
  by (induction s) (auto simp: comps_def split: prod.splits list.splits)

lemma reserved_iff: "reservedWorkspacePath s \<longleftrightarrow> has_prefix (hd (comps s)) ''.appkit-workspace-''"
  by (simp add: reservedWorkspacePath_def cut_on_comps)

subsection \<open>Names of the package\<close>

lemma byte_inj: "x < 256 \<Longrightarrow> y < 256 \<Longrightarrow> byte x = byte y \<longleftrightarrow> x = y"
  unfolding byte_def by (metis of_char_of mod_less)

lemma digit_eq: "byte (48 + i mod 10) = byte (48 + j mod 10) \<longleftrightarrow> i mod 10 = j mod 10"
proof -
  have "48 + i mod 10 < 256" "48 + j mod 10 < 256"
    using mod_less_divisor [of 10 i] mod_less_divisor [of 10 j] by linarith+
  then show ?thesis by (simp add: byte_inj)
qed

lemma six_digits_inj:
  assumes "i < 1000000" and "j < 1000000" and "six_digits i = six_digits j"
  shows "i = j"
proof -
  have d: "i div 10 ^ k mod 10 = j div 10 ^ k mod 10" if "k < 6" for k
    using assms(3) that by (auto simp: six_digits_def digit_eq)
  have m: "i mod 10 ^ k = j mod 10 ^ k" if "k \<le> 6" for k
    using that
  proof (induction k)
    case (Suc k)
    then show ?case using d [of k] mod_mult2_eq [of i "10 ^ k" 10] mod_mult2_eq [of j "10 ^ k" 10]
      by (simp add: mult.commute)
  qed simp
  show ?thesis using m [of 6] assms(1,2) by simp
qed

lemma six_digits_plain: "CHR ''/'' \<notin> set (six_digits i)"
proof
  assume "CHR ''/'' \<in> set (six_digits i)"
  moreover have "CHR ''/'' = byte 47" using byte_byte_of [of "CHR ''/''"] by (simp add: byte_of_def)
  ultimately obtain k where "byte (48 + i div 10 ^ k mod 10) = byte 47" by (auto simp: six_digits_def)
  moreover have "48 + i div 10 ^ k mod 10 < 256" using mod_less_divisor [of 10 "i div 10 ^ k"] by linarith
  ultimately show False by (simp add: byte_inj)
qed

lemma six_digits_length [simp]: "length (six_digits i) = 6"
  by (simp add: six_digits_def)

end
