(* ===== verification/Workspace_Recovery.thy ===== *)
theory Workspace_Recovery
  imports Workspace_Logic
begin

text \<open>
  What the tree of a workspace can be while a plan is applied, killed and recovered.
\<close>

subsection \<open>Valid plans\<close>

definition row_facts :: "digester \<Rightarrow> prepared_change \<times> file_state \<times> file_state \<Rightarrow> bool" where
  "row_facts h x = (case x of (c, b, f) \<Rightarrow>
     validRelativePath (change_path c) \<and> \<not> reservedWorkspacePath (change_path c)
     \<and> f_path b = change_path c \<and> f_path f = change_path c
     \<and> (if write_op (p_operation (public c)) then
          validTargetMode (p_mode (public c)) \<and> p_digest (public c) = digestBytes h (payload (p_content c))
        else plain_op (p_operation (public c))))"

lemma validate_each_facts:
  "validate_each h seen cb pb xs \<Longrightarrow> x \<in> set xs \<Longrightarrow> row_facts h x"
  by (induction h seen cb pb xs rule: validate_each.induct) (auto simp: row_facts_def Let_def)

lemma validate_each_parents:
  "validate_each h seen cb pb (ys @ x # zs) \<Longrightarrow>
    list_all (\<lambda>a. a \<notin> set seen \<union> set (map (change_path \<circ> fst) ys)) (parent_paths (change_path (fst x)))"
proof (induction ys arbitrary: seen cb pb)
  case Nil
  then show ?case by (cases x) (auto simp: Let_def)
next
  case (Cons y ys)
  obtain c b f where y: "y = (c, b, f)" by (cases y)
  from Cons.prems obtain cb' pb' where "validate_each h (change_path c # seen) cb' pb' (ys @ x # zs)"
    by (auto simp: y Let_def)
  from Cons.IH [OF this] show ?case by (auto simp: y list_all_iff)
qed

lemma string_less_append: "(a :: string) < a @ x # b"
  by (induction a) simp_all

definition wf_plan :: "digester \<Rightarrow> plan \<Rightarrow> bool" where
  "wf_plan h p \<longleftrightarrow> Plan_Validate h p = None \<and> guards p = []"

lemma wf_planD:
  assumes "wf_plan h p"
  shows "validSnapshotFiles (before_files p)" "validSnapshotFiles (final_files p)"
    "digestFiles h (before_files p) = before_digest p" "digestFiles h (final_files p) = final_digest p"
    "validDigest (plan_digest p)" "length (changes p) \<le> 4096" "changes p \<noteq> []"
    "length (before_files p) = length (changes p)" "length (final_files p) = length (changes p)"
    "validate_each h [] 0 0 (zip (changes p) (zip (before_files p) (final_files p)))"
    "desired_each (before_files p) (changes p) = Inr (final_files p)"
    "guards p = []"
  using assms
  by (auto simp: wf_plan_def Plan_Validate_def desiredFiles_def MaxPlanChanges_def split: if_splits)

lemma desired_each_nth:
  "desired_each bs cs = Inr fs \<Longrightarrow> length bs = length cs \<Longrightarrow> i < length cs \<Longrightarrow> desired_file (bs ! i) (public (cs ! i)) = Inr (fs ! i)"
proof (induction bs cs arbitrary: fs i rule: desired_each.induct)
  case (1 f fs' c cs)
  then obtain g gs where "desired_file f (public c) = Inr g" "desired_each fs' cs = Inr gs" "fs = g # gs"
    by (auto simp: bind_res_Inr_iff)
  then show ?case using 1 by (cases i) auto
qed auto

lemma rows_nth: "wf_plan h p \<Longrightarrow> i < length (changes p) \<Longrightarrow> rows p ! i = (i, changes p ! i, before_files p ! i, final_files p ! i)"
  by (simp add: rows_def wf_planD)

lemma rows_length [simp]: "wf_plan h p \<Longrightarrow> length (rows p) = length (changes p)"
  by (simp add: rows_def wf_planD)

lemma rows_member:
  assumes "wf_plan h p"
  shows "(i, c, b, f) \<in> set (rows p) \<longleftrightarrow>
    i < length (changes p) \<and> c = changes p ! i \<and> b = before_files p ! i \<and> f = final_files p ! i"
proof -
  have "(i, c, b, f) \<in> set (rows p) \<longleftrightarrow> (\<exists>j<length (changes p). rows p ! j = (i, c, b, f))"
    using assms by (auto simp: in_set_conv_nth)
  then show ?thesis using rows_nth [OF assms] by auto
qed

lemma row_factsD:
  assumes p: "wf_plan h p" and r: "(i, c, b, f) \<in> set (rows p)"
  shows "i < 1000000" "validRelativePath (change_path c)" "\<not> reservedWorkspacePath (change_path c)"
    "f_path b = change_path c" "f_path f = change_path c" "desired_file b (public c) = Inr f"
    "write_op (p_operation (public c)) \<Longrightarrow> validTargetMode (p_mode (public c)) \<and> p_digest (public c) = digestBytes h (payload (p_content c))"
    "\<not> write_op (p_operation (public c)) \<Longrightarrow> plain_op (p_operation (public c))"
    "valid_file b" "valid_file f" "change_path c \<in> set (targets p)"
proof -
  have i: "i < length (changes p)" "c = changes p ! i" "b = before_files p ! i" "f = final_files p ! i"
    using r rows_member [OF p] by auto
  have "(c, b, f) \<in> set (zip (changes p) (zip (before_files p) (final_files p)))"
    using i wf_planD(8,9) [OF p] by (auto simp: in_set_conv_nth intro!: exI [of _ i])
  from validate_each_facts [OF wf_planD(10) [OF p] this]
  have x: "row_facts h (c, b, f)" .
  show "i < 1000000" using i wf_planD(6) [OF p] by simp
  show "validRelativePath (change_path c)" "\<not> reservedWorkspacePath (change_path c)"
    "f_path b = change_path c" "f_path f = change_path c"
    "write_op (p_operation (public c)) \<Longrightarrow> validTargetMode (p_mode (public c)) \<and> p_digest (public c) = digestBytes h (payload (p_content c))"
    "\<not> write_op (p_operation (public c)) \<Longrightarrow> plain_op (p_operation (public c))"
    using x by (auto simp: row_facts_def)
  show "desired_file b (public c) = Inr f"
    using desired_each_nth [OF wf_planD(11) [OF p]] i wf_planD(8) [OF p] by simp
  show "valid_file b" "valid_file f" using wf_planD(1,2,8,9) [OF p] i by (auto simp: validSnapshotFiles_def list_all_length)
  show "change_path c \<in> set (targets p)" using i by (simp add: targets_def)
qed

lemma targets_eq: "wf_plan h p \<Longrightarrow> targets p = map f_path (before_files p)"
proof (rule nth_equalityI)
  assume p: "wf_plan h p"
  show "length (targets p) = length (map f_path (before_files p))" using wf_planD(8) [OF p] by (simp add: targets_def)
  fix i assume i: "i < length (targets p)"
  then have "i < length (changes p)" by (simp add: targets_def)
  moreover from this have "(i, changes p ! i, before_files p ! i, final_files p ! i) \<in> set (rows p)"
    using rows_member [OF p] by simp
  ultimately show "targets p ! i = map f_path (before_files p) ! i"
    using row_factsD(4) [OF p] wf_planD(8) [OF p] by (simp add: targets_def)
qed

lemma targets_sorted: "wf_plan h p \<Longrightarrow> sorted_wrt (<) (targets p)"
  using wf_planD(1) by (simp add: targets_eq validSnapshotFiles_def)

lemma targets_distinct: "wf_plan h p \<Longrightarrow> distinct (targets p)"
  using targets_sorted strict_sorted_iff by blast

lemma targets_apart_paths:
  assumes p: "wf_plan h p" and "s \<in> set (targets p)" "a \<in> set (parent_paths s)"
  shows "a \<notin> set (targets p)"
proof
  assume "a \<in> set (targets p)"
  then obtain i where i: "i < length (changes p)" "a = change_path (changes p ! i)"
    by (auto simp: targets_def in_set_conv_nth)
  obtain j where j: "j < length (changes p)" "s = change_path (changes p ! j)"
    using assms(2) by (auto simp: targets_def in_set_conv_nth)
  have "a < s" using assms(3) string_less_append by (auto simp: parent_paths_above)
  moreover have "s < a" if "j < i"
    using sorted_wrt_nth_less [OF targets_sorted [OF p] that] i j by (simp add: targets_def)
  moreover have "i \<noteq> j" using \<open>a < s\<close> i(2) j(2) by auto
  ultimately have "i < j" by (meson linorder_neqE_nat order_less_asym)
  define xs where "xs = zip (changes p) (zip (before_files p) (final_files p))"
  have l: "length xs = length (changes p)" using wf_planD(8,9) [OF p] by (simp add: xs_def)
  have n: "fst (xs ! k) = changes p ! k" if "k < length (changes p)" for k
    using that wf_planD(8,9) [OF p] by (simp add: xs_def)
  have "validate_each h [] 0 0 xs" using wf_planD(10) [OF p] by (simp only: xs_def)
  moreover have "xs = take j xs @ xs ! j # drop (Suc j) xs" by (rule id_take_nth_drop) (simp add: l j(1))
  ultimately have v: "validate_each h [] 0 0 (take j xs @ xs ! j # drop (Suc j) xs)" by metis
  have "a \<notin> (change_path \<circ> fst) ` set (take j xs)"
    using validate_each_parents [OF v] assms(3) j n by (auto simp: list_all_iff)
  moreover have "xs ! i \<in> set (take j xs)"
    using \<open>i < j\<close> j(1) l by (auto simp: in_set_conv_nth intro!: exI [of _ i])
  ultimately show False using i n by (auto simp: image_iff)
qed

subsection \<open>Keys\<close>

definition target_keys :: "plan \<Rightarrow> fpath set" where
  "target_keys p = comps ` set (targets p)"

definition above_keys :: "plan \<Rightarrow> fpath set" where
  "above_keys p = {k. k \<noteq> [] \<and> (\<exists>s\<in>set (targets p). strict_prefix k (comps s))}"

definition own_key :: "fpath \<Rightarrow> bool" where
  "own_key k \<longleftrightarrow> k \<noteq> [] \<and> (has_prefix (hd k) transactionPrefix \<or> has_prefix (hd k) completedPrefix)"

lemma own_reserved: "own_key k \<Longrightarrow> has_prefix (hd k) ''.appkit-workspace-''"
  by (auto simp: own_key_def has_prefix_iff transactionPrefix_def completedPrefix_def)

lemma target_not_reserved:
  assumes "wf_plan h p" and "s \<in> set (targets p)"
  shows "\<not> has_prefix (hd (comps s)) ''.appkit-workspace-''"
proof -
  obtain i where "i < length (changes p)" "s = change_path (changes p ! i)"
    using assms(2) by (auto simp: targets_def in_set_conv_nth)
  then have "\<not> reservedWorkspacePath s"
    using row_factsD(3) [OF assms(1), of i "changes p ! i" "before_files p ! i" "final_files p ! i"] rows_member [OF assms(1)] by simp
  then show ?thesis by (simp add: reserved_iff)
qed

lemma keys_apart:
  assumes "wf_plan h p"
  shows "k \<in> target_keys p \<Longrightarrow> \<not> own_key k" "k \<in> above_keys p \<Longrightarrow> \<not> own_key k" "k \<in> target_keys p \<Longrightarrow> k \<notin> above_keys p"
proof -
  show "k \<in> target_keys p \<Longrightarrow> \<not> own_key k"
    using own_reserved target_not_reserved [OF assms] by (auto simp: target_keys_def)
  show "\<not> own_key k" if "k \<in> above_keys p"
  proof -
    from that obtain s where s: "s \<in> set (targets p)" "strict_prefix k (comps s)" "k \<noteq> []" by (auto simp: above_keys_def)
    then have "hd (comps s) = hd k" by (auto simp: strict_prefix_def prefix_def)
    then show ?thesis using own_reserved [of k] target_not_reserved [OF assms s(1)] by auto
  qed
  show "k \<notin> above_keys p" if "k \<in> target_keys p"
    using that targets_apart_paths [OF assms] by (auto simp: target_keys_def above_keys_def above_parent)
qed

definition backup_key :: "string \<Rightarrow> nat \<Rightarrow> fpath" where
  "backup_key t i = [t, six_digits i @ ''.backup'']"

definition content_key :: "string \<Rightarrow> nat \<Rightarrow> fpath" where
  "content_key t i = [t, six_digits i @ ''.content'']"

definition record_key :: "string \<Rightarrow> fpath" where
  "record_key t = [t, transactionRecordName]"

definition txn_name :: "string \<Rightarrow> bool" where
  "txn_name t \<longleftrightarrow> has_prefix t transactionPrefix \<and> CHR ''/'' \<notin> set t"

lemma comps_names:
  assumes "txn_name t"
  shows "comps t = [t]" "comps (backup_name t i) = backup_key t i" "comps (content_name t i) = content_key t i"
    "comps (record_name t) = record_key t"
proof -
  show t: "comps t = [t]" using assms by (simp add: txn_name_def comps_plain)
  have "CHR ''/'' \<notin> set (six_digits i @ ''.backup'')" "CHR ''/'' \<notin> set (six_digits i @ ''.content'')"
    "CHR ''/'' \<notin> set transactionRecordName"
    using six_digits_plain [of i] by (auto simp: transactionRecordName_def)
  note p = this [THEN comps_plain]
  show "comps (backup_name t i) = backup_key t i" "comps (content_name t i) = content_key t i"
    "comps (record_name t) = record_key t"
    using p t comps_append [of t]
    by (simp_all add: backup_name_def content_name_def record_name_def backup_key_def content_key_def record_key_def)
qed

lemma path_dir_names:
  "path_dir (backup_name t i) = t" "path_dir (content_name t i) = t" "path_dir (record_name t) = t"
proof -
  have "CHR ''/'' \<notin> set (six_digits i @ ''.backup'')" "CHR ''/'' \<notin> set (six_digits i @ ''.content'')"
    "CHR ''/'' \<notin> set transactionRecordName"
    using six_digits_plain [of i] by (auto simp: transactionRecordName_def)
  then show "path_dir (backup_name t i) = t" "path_dir (content_name t i) = t" "path_dir (record_name t) = t"
    using path_dir_slash by (simp_all add: backup_name_def content_name_def record_name_def)
qed

lemma own_txn: "txn_name t \<Longrightarrow> own_key (t # k)"
  by (simp add: own_key_def txn_name_def)

lemma names_differ:
  "backup_key t i \<noteq> content_key t j" "backup_key t i \<noteq> record_key t" "content_key t i \<noteq> record_key t"
proof -
  have l: "length (six_digits i @ ''.backup'') = 13" "length (six_digits i @ ''.content'') = 14" for i by simp_all
  show "backup_key t i \<noteq> content_key t j" using l(1) [of i] l(2) [of j] by (auto simp: backup_key_def content_key_def)
  show "backup_key t i \<noteq> record_key t"
  proof
    assume "backup_key t i = record_key t"
    then have "drop 6 (six_digits i @ ''.backup'') = drop 6 transactionRecordName" by (simp add: backup_key_def record_key_def)
    then show False by (simp add: transactionRecordName_def)
  qed
  show "content_key t i \<noteq> record_key t"
    using l(2) [of i] by (auto simp: content_key_def record_key_def transactionRecordName_def dest: arg_cong [of _ _ length])
qed

lemma key_inj:
  "i < 1000000 \<Longrightarrow> j < 1000000 \<Longrightarrow> backup_key t i = backup_key t j \<longleftrightarrow> i = j"
  "i < 1000000 \<Longrightarrow> j < 1000000 \<Longrightarrow> content_key t i = content_key t j \<longleftrightarrow> i = j"
  using six_digits_inj by (auto simp: backup_key_def content_key_def)

subsection \<open>Trees during a transaction\<close>

definition tree_ok :: "tree \<Rightarrow> bool" where
  "tree_ok n \<longleftrightarrow> (\<forall>k a. map_of n k \<noteq> None \<longrightarrow> \<not> own_key k \<longrightarrow> a \<noteq> [] \<longrightarrow> strict_prefix a k \<longrightarrow> map_of n a = Some Dir)"

text \<open>Only targets, directories above them and the files of the package itself differ from the tree \<open>n0\<close>.\<close>

definition base :: "plan \<Rightarrow> tree \<Rightarrow> tree \<Rightarrow> bool" where
  "base p n0 n \<longleftrightarrow> tree_ok n
     \<and> (\<forall>k. k \<notin> target_keys p \<longrightarrow> k \<notin> above_keys p \<longrightarrow> \<not> own_key k \<longrightarrow> map_of n k = map_of n0 k)
     \<and> (\<forall>k\<in>above_keys p. (map_of n k = None \<or> map_of n k = Some Dir) \<and> (map_of n0 k = Some Dir \<longrightarrow> map_of n k = Some Dir))"

definition is_file :: "digester \<Rightarrow> file_state \<Rightarrow> node option \<Rightarrow> bool" where
  "is_file h f x \<longleftrightarrow> file_or_none x \<and> file_at h (f_path f) x = f"

definition copy_of :: "digester \<Rightarrow> file_state \<Rightarrow> node option \<Rightarrow> bool" where
  "copy_of h f y \<longleftrightarrow> (\<exists>m c. y = Some (Reg m c) \<and> snapshotMode m = f_mode f \<and> digestBytes h c = f_digest f)"

definition target_key :: "plan_row \<Rightarrow> fpath" where
  "target_key r = comps (change_path (fst (snd r)))"

definition row_before :: "plan_row \<Rightarrow> file_state" where "row_before r = fst (snd (snd r))"
definition row_final :: "plan_row \<Rightarrow> file_state" where "row_final r = snd (snd (snd r))"

lemma row_simps [simp]:
  "target_key (i, c, b, f) = comps (change_path c)" "row_before (i, c, b, f) = b" "row_final (i, c, b, f) = f"
  by (simp_all add: target_key_def row_before_def row_final_def)

text \<open>
  What an interrupted commit can leave of one target: its state before; or its backup, with nothing or the new state in
  its place; or a created file.
\<close>

definition row_ok :: "digester \<Rightarrow> plan_row \<Rightarrow> node option \<Rightarrow> node option \<Rightarrow> bool" where
  "row_ok h r x y \<longleftrightarrow> file_or_none x \<and>
     (is_file h (row_before r) x \<and> (\<not> f_exists (row_before r) \<longrightarrow> y = None)
      \<or> f_exists (row_before r) \<and> (x = None \<or> is_file h (row_final r) x) \<and> copy_of h (row_before r) y
      \<or> \<not> f_exists (row_before r) \<and> is_file h (row_final r) x \<and> y = None)"

text \<open>A property of one row is a predicate of the nodes at its target, its backup and its staged content.\<close>

type_synonym row_pred = "plan_row \<Rightarrow> node option \<Rightarrow> node option \<Rightarrow> node option \<Rightarrow> bool"

definition holds_at :: "string \<Rightarrow> row_pred \<Rightarrow> tree \<Rightarrow> plan_row \<Rightarrow> bool" where
  "holds_at t E n r = E r (map_of n (target_key r)) (map_of n (backup_key t (fst r))) (map_of n (content_key t (fst r)))"

text \<open>
  The directories of the package at the root have its names; a workspace is no_txn when there is no transaction, and
  active when there is exactly one.
\<close>

definition well_named :: "string \<Rightarrow> bool" where
  "well_named s \<longleftrightarrow> (has_prefix s transactionPrefix \<longrightarrow> snd (parseTransactionDirectoryName s transactionPrefix))
     \<and> (has_prefix s completedPrefix \<longrightarrow> snd (parseTransactionDirectoryName s completedPrefix))"

definition names_ok :: "tree \<Rightarrow> bool" where
  "names_ok n \<longleftrightarrow> (\<forall>k. own_key k \<longrightarrow> map_of n k \<noteq> None \<longrightarrow> map_of n [hd k] = Some Dir \<and> well_named (hd k))"

definition no_txn :: "tree \<Rightarrow> bool" where
  "no_txn n \<longleftrightarrow> names_ok n \<and> (\<forall>s. has_prefix s transactionPrefix \<longrightarrow> map_of n [s] = None)"

definition active :: "string \<Rightarrow> tree \<Rightarrow> bool" where
  "active t n \<longleftrightarrow> names_ok n \<and> has_prefix t transactionPrefix \<and> map_of n [t] = Some Dir
     \<and> (\<forall>s. has_prefix s transactionPrefix \<longrightarrow> s \<noteq> t \<longrightarrow> map_of n [s] = None)"

text \<open>No directory of a committed transaction is left: they are removed before a transaction starts.\<close>

definition no_debris :: "tree \<Rightarrow> bool" where
  "no_debris n \<longleftrightarrow> (\<forall>s. has_prefix s completedPrefix \<longrightarrow> map_of n [s] = None)"

definition in_txn :: "plan \<Rightarrow> string \<Rightarrow> tree \<Rightarrow> node option \<Rightarrow> tree \<Rightarrow> bool" where
  "in_txn p t n0 x0 n \<longleftrightarrow> base p n0 n \<and> map_of n [t] = Some Dir \<and> map_of n (record_key t) = x0 \<and> no_debris n \<and> active t n"

definition all_rows :: "plan \<Rightarrow> string \<Rightarrow> tree \<Rightarrow> node option \<Rightarrow> row_pred \<Rightarrow> tree \<Rightarrow> bool" where
  "all_rows p t n0 x0 E n \<longleftrightarrow> in_txn p t n0 x0 n \<and> (\<forall>r\<in>set (rows p). holds_at t E n r)"

text \<open>The same with one row singled out.\<close>

definition at_row :: "plan \<Rightarrow> string \<Rightarrow> tree \<Rightarrow> node option \<Rightarrow> row_pred \<Rightarrow> plan_row \<Rightarrow> node option \<Rightarrow> node option \<Rightarrow> node option \<Rightarrow> tree \<Rightarrow> bool" where
  "at_row p t n0 x0 E r x y z n \<longleftrightarrow> in_txn p t n0 x0 n \<and> (\<forall>r'\<in>set (rows p). r' \<noteq> r \<longrightarrow> holds_at t E n r')
     \<and> map_of n (target_key r) = x \<and> map_of n (backup_key t (fst r)) = y \<and> map_of n (content_key t (fst r)) = z"

abbreviation ok_rows :: "digester \<Rightarrow> row_pred" where
  "ok_rows h \<equiv> \<lambda>r x y z. row_ok h r x y"

lemma all_rows_at:
  "r \<in> set (rows p) \<Longrightarrow> all_rows p t n0 x0 E n \<longleftrightarrow> (\<exists>x y z. at_row p t n0 x0 E r x y z n \<and> E r x y z)"
  unfolding all_rows_def at_row_def holds_at_def by (simp, safe) metis+

lemma all_rows_mono:
  assumes "all_rows p t n0 x0 E n" and "\<And>r x y z. r \<in> set (rows p) \<Longrightarrow> E r x y z \<Longrightarrow> E' r x y z"
  shows "all_rows p t n0 x0 E' n"
  using assms by (auto simp: all_rows_def holds_at_def)

lemma at_row_mono:
  assumes "at_row p t n0 x0 E r x y z n" and "\<And>r x y z. r \<in> set (rows p) \<Longrightarrow> E r x y z \<Longrightarrow> E' r x y z"
  shows "at_row p t n0 x0 E' r x y z n"
  using assms by (auto simp: at_row_def holds_at_def)

lemma at_row_all:
  "at_row p t n0 x0 E r x y z n \<Longrightarrow> r \<in> set (rows p) \<Longrightarrow> E r x y z \<Longrightarrow> all_rows p t n0 x0 E n"
  using all_rows_at by metis

subsection \<open>Changing one row\<close>

lemma rows_differ:
  assumes p: "wf_plan h p" and t: "txn_name t" and r: "r \<in> set (rows p)" "r' \<in> set (rows p)" "r \<noteq> r'"
  shows "target_key r \<noteq> target_key r'" "backup_key t (fst r) \<noteq> backup_key t (fst r')"
    "content_key t (fst r) \<noteq> content_key t (fst r')"
proof -
  obtain i c b f where r1: "r = (i, c, b, f)" by (cases r)
  obtain i' c' b' f' where r2: "r' = (i', c', b', f')" by (cases r')
  have m: "i < length (changes p)" "c = changes p ! i" "b = before_files p ! i" "f = final_files p ! i"
    "i' < length (changes p)" "c' = changes p ! i'" "b' = before_files p ! i'" "f' = final_files p ! i'"
    using r(1,2) rows_member [OF p] by (auto simp: r1 r2)
  then have ne: "i \<noteq> i'" using r(3) r1 r2 by auto
  have "targets p ! i \<noteq> targets p ! i'"
    using nth_eq_iff_index_eq [OF targets_distinct [OF p]] ne m(1,5) by (simp add: targets_def)
  then show "target_key r \<noteq> target_key r'" using m by (simp add: r1 r2 targets_def comps_inj)
  have "i < 1000000" "i' < 1000000" using m(1,5) wf_planD(6) [OF p] by auto
  then show "backup_key t (fst r) \<noteq> backup_key t (fst r')" "content_key t (fst r) \<noteq> content_key t (fst r')"
    using ne key_inj by (simp_all add: r1 r2)
qed

lemma target_key_in: "wf_plan h p \<Longrightarrow> r \<in> set (rows p) \<Longrightarrow> target_key r \<in> target_keys p"
  using row_factsD(11) by (cases r) (auto simp: target_keys_def)

lemma own_keys:
  "txn_name t \<Longrightarrow> own_key [t] \<and> own_key (backup_key t i) \<and> own_key (content_key t i) \<and> own_key (record_key t)"
  using own_txn by (simp add: backup_key_def content_key_def record_key_def)

lemma target_key_not_own: "wf_plan h p \<Longrightarrow> r \<in> set (rows p) \<Longrightarrow> \<not> own_key (target_key r)"
  using target_key_in keys_apart(1) by blast

lemma own_prefix: "\<not> own_key k \<Longrightarrow> strict_prefix a k \<Longrightarrow> \<not> own_key a"
  by (auto simp: own_key_def strict_prefix_def prefix_def)

lemma tree_ok_change:
  assumes ok: "tree_ok n" and T: "\<not> own_key T" "file_or_none (map_of n T)" "map_of n' T \<noteq> None \<Longrightarrow> parent_ok n T"
    and same: "\<And>k. \<not> own_key k \<Longrightarrow> k \<noteq> T \<Longrightarrow> map_of n' k = map_of n k"
  shows "tree_ok n'"
  unfolding tree_ok_def
proof (intro allI impI)
  fix k a assume k: "map_of n' k \<noteq> None" "\<not> own_key k" "a \<noteq> []" "strict_prefix a k"
  have a: "\<not> own_key a" using own_prefix k(2,4) by blast
  have D: "map_of n a = Some Dir"
  proof (cases "k = T")
    case False
    then show ?thesis using ok k same by (auto simp: tree_ok_def)
  next
    case True
    have "prefix a (butlast k)" using k(4) by (auto simp: strict_prefix_def prefix_def butlast_append)
    moreover from this have "butlast k \<noteq> []" using k(3) by auto
    ultimately have "a = butlast k \<or> strict_prefix a (butlast k)" and P: "map_of n (butlast k) = Some Dir"
      using T(3) k(1) True by (auto simp: parent_ok_def strict_prefix_def)
    moreover have "\<not> own_key (butlast k)"
    proof (rule own_prefix [OF k(2)])
      have "k \<noteq> []" using k(4) by auto
      then show "strict_prefix (butlast k) k" by (metis append_butlast_last_id prefix_snoc strict_prefixI' strict_prefix_def append_self_conv not_Cons_self2)
    qed
    ultimately show ?thesis using ok k(3) by (auto simp: tree_ok_def)
  qed
  moreover have "a \<noteq> T" using D T(2) by (auto simp: file_or_none_def regular_def)
  ultimately show "map_of n' a = Some Dir" using same a by simp
qed

lemma at_row_change:
  assumes p: "wf_plan h p" and t: "txn_name t" and r: "r \<in> set (rows p)"
    and at: "at_row p t n0 x0 E r x y z n" and x: "file_or_none x" "x' \<noteq> None \<Longrightarrow> parent_ok n (target_key r)"
    and new: "map_of n' (target_key r) = x'" "map_of n' (backup_key t (fst r)) = y'" "map_of n' (content_key t (fst r)) = z'"
    and same: "\<And>k. k \<noteq> target_key r \<Longrightarrow> k \<noteq> backup_key t (fst r) \<Longrightarrow> k \<noteq> content_key t (fst r) \<Longrightarrow> map_of n' k = map_of n k"
  shows "at_row p t n0 x0 E r x' y' z' n'"
proof -
  let ?T = "target_key r"
  have o: "\<not> own_key k \<Longrightarrow> k \<noteq> ?T \<Longrightarrow> map_of n' k = map_of n k" for k
    using same own_keys [OF t] by metis
  have i: "in_txn p t n0 x0 n" "map_of n ?T = x" using at by (auto simp: at_row_def)
  have tr: "tree_ok n'"
    using i(1) tree_ok_change [OF _ target_key_not_own [OF p r], of n n'] x i(2) new(1) o by (auto simp: in_txn_def base_def)
  have out: "map_of n' k = map_of n k" if "\<not> own_key k" "k \<notin> target_keys p" for k
    using o that target_key_in [OF p r] by metis
  moreover have ab: "\<not> own_key k \<and> k \<notin> target_keys p" if "k \<in> above_keys p" for k
    using that keys_apart [OF p] by blast
  ultimately have "base p n0 n'" using i(1) tr by (simp add: in_txn_def base_def)
  moreover have T: "\<not> own_key ?T" by (rule target_key_not_own [OF p r])
  then have "[t] \<noteq> ?T" "record_key t \<noteq> ?T" using own_keys [OF t] by auto
  then have "map_of n' [t] = map_of n [t]" "map_of n' (record_key t) = map_of n (record_key t)"
    using names_differ(2,3) [symmetric]
    by (auto intro!: same) (simp_all add: backup_key_def content_key_def)
  moreover have "no_debris n'" unfolding no_debris_def
  proof (intro allI impI)
    fix s assume s: "has_prefix s completedPrefix"
    then have "own_key [s]" by (simp add: own_key_def)
    then have "[s] \<noteq> ?T" using T by auto
    then have "map_of n' [s] = map_of n [s]" by (rule same) (simp_all add: backup_key_def content_key_def)
    then show "map_of n' [s] = None" using i(1) s by (simp add: in_txn_def no_debris_def)
  qed
  moreover have "active t n'"
  proof -
    have a: "active t n" using i(1) by (simp add: in_txn_def)
    have one: "map_of n' [s] = map_of n [s]" if "own_key [s]" for s
      using that T by (intro same) (auto simp: backup_key_def content_key_def)
    have "names_ok n'" unfolding names_ok_def
    proof (intro allI impI)
      fix k assume k: "own_key k" "map_of n' k \<noteq> None"
      then have hd: "own_key [hd k]" by (simp add: own_key_def)
      show "map_of n' [hd k] = Some Dir \<and> well_named (hd k)"
      proof (cases "k = backup_key t (fst r) \<or> k = content_key t (fst r)")
        case True
        then have "hd k = t" by (auto simp: backup_key_def content_key_def)
        moreover have "well_named t" using a own_txn [OF t, of "[]"] by (auto simp: active_def names_ok_def dest: spec [of _ "[t]"])
        ultimately show ?thesis using one [OF hd] a by (simp add: active_def)
      next
        case False
        then have "map_of n' k = map_of n k" using k(1) T by (intro same) auto
        then show ?thesis using a k one [OF hd] by (auto simp: active_def names_ok_def)
      qed
    qed
    moreover have "map_of n' [s] = map_of n [s]" if "has_prefix s transactionPrefix" for s
      using that by (intro one) (simp add: own_key_def)
    ultimately show ?thesis using a by (auto simp: active_def)
  qed
  ultimately have "in_txn p t n0 x0 n'" using i(1) by (simp add: in_txn_def)
  moreover have "holds_at t E n' r' = holds_at t E n r'" if r': "r' \<in> set (rows p)" "r' \<noteq> r" for r'
  proof -
    have "map_of n' (target_key r') = map_of n (target_key r')"
      using o target_key_not_own [OF p r'(1)] rows_differ(1) [OF p t r r'(1)] r'(2) by metis
    moreover have "map_of n' (backup_key t (fst r')) = map_of n (backup_key t (fst r'))"
    proof (rule same)
      show "backup_key t (fst r') \<noteq> target_key r" using own_keys [OF t] T by metis
    qed (use rows_differ(2) [OF p t r r'(1)] r'(2) names_differ in auto)
    moreover have "map_of n' (content_key t (fst r')) = map_of n (content_key t (fst r'))"
    proof (rule same)
      show "content_key t (fst r') \<noteq> target_key r" using own_keys [OF t] T by metis
    qed (use rows_differ(3) [OF p t r r'(1)] r'(2) names_differ [symmetric] in auto)
    ultimately show ?thesis by (simp add: holds_at_def)
  qed
  ultimately show ?thesis using at new by (auto simp: at_row_def)
qed

lemma butlast_above: "k \<noteq> [] \<Longrightarrow> strict_prefix (butlast k) k"
proof -
  assume "k \<noteq> []"
  then have "k = butlast k @ [last k]" by simp
  then show ?thesis by (metis prefixI strict_prefixI not_Cons_self2 self_append_conv)
qed

definition row_state :: "bool \<Rightarrow> plan \<Rightarrow> string \<Rightarrow> tree \<Rightarrow> node option \<Rightarrow> row_pred \<Rightarrow> plan_row \<Rightarrow> node option \<Rightarrow> node option \<Rightarrow> node option \<Rightarrow> tree \<Rightarrow> bool" where
  "row_state pk p t n0 x0 E r x y z n \<longleftrightarrow> at_row p t n0 x0 E r x y z n \<and> (pk \<longrightarrow> parent_ok n (target_key r))"

lemma row_state_change:
  assumes p: "wf_plan h p" and t: "txn_name t" and r: "r \<in> set (rows p)"
    and at: "row_state pk p t n0 x0 E r x y z n" and x: "file_or_none x" "x' \<noteq> None \<Longrightarrow> parent_ok n (target_key r)"
    and new: "map_of n' (target_key r) = x'" "map_of n' (backup_key t (fst r)) = y'" "map_of n' (content_key t (fst r)) = z'"
    and same: "\<And>k. k \<noteq> target_key r \<Longrightarrow> k \<noteq> backup_key t (fst r) \<Longrightarrow> k \<noteq> content_key t (fst r) \<Longrightarrow> map_of n' k = map_of n k"
  shows "row_state pk p t n0 x0 E r x' y' z' n'"
proof -
  let ?T = "target_key r"
  have T: "\<not> own_key ?T" by (rule target_key_not_own [OF p r])
  have ne: "?T \<noteq> []" by (cases r) simp
  then have "strict_prefix (butlast ?T) ?T" by (rule butlast_above)
  then have "\<not> own_key (butlast ?T)" "butlast ?T \<noteq> ?T" using own_prefix [OF T] by auto
  then have "map_of n' (butlast ?T) = map_of n (butlast ?T)" using same own_keys [OF t] by metis
  then have "parent_ok n' ?T = parent_ok n ?T" by (simp add: parent_ok_def)
  then show ?thesis
    using at_row_change [OF p t r _ x new same] at by (auto simp: row_state_def)
qed

lemma row_state_in: "row_state pk p t n0 x0 E r x y z n \<Longrightarrow> in_txn p t n0 x0 n"
  by (simp add: row_state_def at_row_def)

lemma row_state_at:
  "row_state pk p t n0 x0 E r x y z n \<Longrightarrow>
    map_of n (target_key r) = x \<and> map_of n (backup_key t (fst r)) = y \<and> map_of n (content_key t (fst r)) = z"
  by (simp add: row_state_def at_row_def)

lemma base_reach: "wf_plan h p \<Longrightarrow> base p n0 n \<Longrightarrow> k \<in> target_keys p \<Longrightarrow> reach n k"
  unfolding reach_def
proof (intro allI impI)
  fix a assume p: "wf_plan h p" and b: "base p n0 n" and k: "k \<in> target_keys p" and a: "a \<noteq> []" "strict_prefix a k"
  have "a \<in> above_keys p" using k a by (auto simp: above_keys_def target_keys_def)
  then have "map_of n a = None \<or> map_of n a = Some Dir" using b by (auto simp: base_def)
  moreover have "map_of n a = Some Dir" if "map_of n k \<noteq> None"
    using that b keys_apart(1) [OF p k] a by (auto simp: base_def tree_ok_def)
  ultimately show "map_of n a = Some Dir \<or> map_of n a = None \<and> map_of n k = None" by (cases "map_of n k") auto
qed

lemma txn_reach: "map_of n [t] = Some Dir \<Longrightarrow> reach n [t, s]"
  unfolding reach_def
proof (intro allI impI)
  fix a assume "map_of n [t] = Some Dir" "a \<noteq> []" "strict_prefix a [t, s]"
  then show "map_of n a = Some Dir \<or> map_of n a = None \<and> map_of n [t, s] = None"
    by (cases a) (auto simp: strict_prefix_def prefix_Cons)
qed

lemma row_reach: "wf_plan h p \<Longrightarrow> r \<in> set (rows p) \<Longrightarrow> in_txn p t n0 x0 n \<Longrightarrow> reach n (target_key r)"
  by (rule base_reach [OF _ _ target_key_in]) (auto simp: in_txn_def)

text \<open>The directories above a target that existed at first are never removed.\<close>

definition ready :: "digester \<Rightarrow> plan \<Rightarrow> tree \<Rightarrow> bool" where
  "ready h p n0 \<longleftrightarrow> tree_ok n0 \<and> (\<forall>k\<in>above_keys p. map_of n0 k = None \<or> map_of n0 k = Some Dir)
     \<and> (\<forall>r\<in>set (rows p). is_file h (row_before r) (map_of n0 (target_key r)))"

lemma above_butlast:
  assumes "s \<in> set (targets p)" and "butlast (comps s) \<noteq> []"
  shows "butlast (comps s) \<in> above_keys p"
  using assms butlast_above [OF comps_nonempty] by (auto simp: above_keys_def)

lemma exists_some: "is_file h f x \<Longrightarrow> f_exists f \<Longrightarrow> \<exists>m c. x = Some (Reg m c)"
proof -
  assume a: "is_file h f x" "f_exists f"
  then have "f_exists (file_at h (f_path f) x)" by (simp add: is_file_def)
  then show ?thesis by (auto simp: file_at_def missing_file_def split: option.splits node.splits)
qed

lemma parent_there:
  assumes p: "wf_plan h p" and n0: "ready h p n0" and r: "r \<in> set (rows p)" and e: "f_exists (row_before r)" and b: "base p n0 n"
  shows "parent_ok n (target_key r)"
proof (cases "butlast (target_key r) = []")
  case True then show ?thesis by (simp add: parent_ok_def)
next
  case False
  obtain i c bf f where rr: "r = (i, c, bf, f)" by (cases r)
  have s: "change_path c \<in> set (targets p)" using row_factsD(11) [OF p] r rr by blast
  have ab: "butlast (target_key r) \<in> above_keys p" using above_butlast [OF s] False by (simp add: rr)
  have "map_of n0 (target_key r) \<noteq> None" using n0 r e exists_some by (fastforce simp: ready_def)
  moreover have "strict_prefix (butlast (target_key r)) (target_key r)"
    by (rule butlast_above) (simp add: rr)
  ultimately have "map_of n0 (butlast (target_key r)) = Some Dir"
    using n0 False target_key_not_own [OF p r] by (auto simp: ready_def tree_ok_def)
  then show ?thesis using b ab by (auto simp: base_def parent_ok_def)
qed

subsection \<open>The system calls of one row\<close>

lemma rename_file:
  assumes "map_of n a = Some (Reg m c)" and "parent_ok n b" and "map_of n b \<noteq> Some Dir"
  shows "rename_nodes a b n = Inr ((), AList.update b (Reg m c) (AList.delete a n))"
  using assms by (simp add: rename_nodes_def)

lemma map_of_delete [simp]: "map_of (AList.delete k n) = (map_of n)(k := None)"
  by (rule ext) (simp add: delete_conv')

lemma target_key_comps: "r = (i, c, b, f) \<Longrightarrow> comps (change_path c) = target_key r"
  by simp

lemma t_remove_target:
  assumes p: "wf_plan h p" and t: "txn_name t" and r: "r \<in> set (rows p)" "r = (i, c, b, f)"
    and I: "\<And>n. row_state pk p t n0 x0 E r x y z n \<Longrightarrow> I n" and x: "x = Some (Reg m d)"
  shows "triple q I (row_state pk p t n0 x0 E r x y z) (remove (change_path c))
    (\<lambda>a n. a = Inr () \<and> row_state pk p t n0 x0 E r None y z n \<or> \<not> q \<and> a = Inl [Failure] \<and> row_state pk p t n0 x0 E r x y z n)"
  unfolding remove_def
proof (rule t_sys)
  fix n assume s: "row_state pk p t n0 x0 E r x y z n"
  have T: "map_of n (comps (change_path c)) = Some (Reg m d)" using row_state_at [OF s] x by (simp add: r(2))
  have B: "comps (change_path c) \<noteq> backup_key t i" "comps (change_path c) \<noteq> content_key t i"
    using own_keys [OF t] target_key_not_own [OF p r(1)] by (auto simp: r(2))
  have "row_state pk p t n0 x0 E r None y z (AList.delete (comps (change_path c)) n)"
    by (rule row_state_change [OF p t r(1) s]) (use x row_state_at [OF s] B in \<open>auto simp: r(2) file_or_none_def regular_def delete_conv'\<close>)
  then show "\<And>e. (case map_of n (comps (change_path c)) of None \<Rightarrow> Inl [NotExist]
        | Some x \<Rightarrow> if x = Dir \<and> has_members n (comps (change_path c)) then Inl [Failure] else Inr ((), AList.delete (comps (change_path c)) n)) = Inl e
      \<Longrightarrow> Inl e = Inr () \<and> row_state pk p t n0 x0 E r None y z n \<or> \<not> q \<and> Inl e = Inl [Failure] \<and> row_state pk p t n0 x0 E r x y z n"
    "\<And>a n'. (case map_of n (comps (change_path c)) of None \<Rightarrow> Inl [NotExist]
        | Some x \<Rightarrow> if x = Dir \<and> has_members n (comps (change_path c)) then Inl [Failure] else Inr ((), AList.delete (comps (change_path c)) n)) = Inr (a, n')
      \<Longrightarrow> Inr a = Inr () \<and> row_state pk p t n0 x0 E r None y z n' \<or> \<not> q \<and> Inr a = Inl [Failure] \<and> row_state pk p t n0 x0 E r x y z n'"
    using T by auto
qed (auto simp: untouched_def I)

lemma t_rename_row:
  assumes ab: "comps a = A" "comps b = B"
    and I: "\<And>n. P n \<Longrightarrow> I n"
    and A: "\<And>n. P n \<Longrightarrow> map_of n A = Some (Reg m d)" and B: "\<And>n. P n \<Longrightarrow> parent_ok n B \<and> map_of n B \<noteq> Some Dir"
    and Q: "\<And>n. P n \<Longrightarrow> Q (AList.update B (Reg m d) (AList.delete A n))"
  shows "triple q I P (rename a b) (\<lambda>a n. a = Inr () \<and> Q n \<or> \<not> q \<and> a = Inl [Failure] \<and> P n)"
  unfolding rename_def ab
proof (rule t_sys)
  fix n assume s: "P n"
  have "rename_nodes A B n = Inr ((), AList.update B (Reg m d) (AList.delete A n))"
    using rename_file A [OF s] B [OF s] by blast
  then show "\<And>e. rename_nodes A B n = Inl e \<Longrightarrow> Inl e = Inr () \<and> Q n \<or> \<not> q \<and> Inl e = Inl [Failure] \<and> P n"
    "\<And>u n'. rename_nodes A B n = Inr (u, n') \<Longrightarrow> Inr u = Inr () \<and> Q n' \<or> \<not> q \<and> Inr u = Inl [Failure] \<and> P n'"
    using Q [OF s] by auto
qed (auto simp: untouched_def I)

lemma txn_parent: "row_state pk p t n0 x0 E r x y z n \<Longrightarrow> parent_ok n [t, s]"
  by (simp add: row_state_def at_row_def in_txn_def parent_ok_def)

lemma row_keys_differ:
  assumes "wf_plan h p" and "txn_name t" and "r \<in> set (rows p)"
  shows "target_key r \<noteq> backup_key t i" "target_key r \<noteq> content_key t i" "backup_key t i \<noteq> target_key r" "content_key t i \<noteq> target_key r"
  using own_keys [OF assms(2)] target_key_not_own [OF assms(1,3)] by metis+

lemma t_restore_backup:
  assumes p: "wf_plan h p" and t: "txn_name t" and r: "r \<in> set (rows p)" "r = (i, c, b, f)"
    and I: "\<And>n. row_state True p t n0 x0 E r x y z n \<Longrightarrow> I n" and y: "y = Some (Reg m d)" and x: "file_or_none x"
  shows "triple q I (row_state True p t n0 x0 E r x y z) (rename (backup_name t i) (change_path c))
    (\<lambda>a n. a = Inr () \<and> row_state True p t n0 x0 E r y None z n \<or> \<not> q \<and> a = Inl [Failure] \<and> row_state True p t n0 x0 E r x y z n)"
proof (rule t_rename_row [OF comps_names(2) [OF t] target_key_comps [OF r(2)] I, where m = m and d = d])
  fix n assume s: "row_state True p t n0 x0 E r x y z n"
  note k = row_state_at [OF s]
  show "map_of n (backup_key t i) = Some (Reg m d)" using k y by (simp add: r(2))
  show "parent_ok n (target_key r) \<and> map_of n (target_key r) \<noteq> Some Dir"
    using s k x by (auto simp: row_state_def file_or_none_def regular_def)
  show "row_state True p t n0 x0 E r y None z (AList.update (target_key r) (Reg m d) (AList.delete (backup_key t i) n))"
    by (rule row_state_change [OF p t r(1) s x])
      (use s k y row_keys_differ [OF p t r(1)] names_differ(1) [of t i i] in \<open>auto simp: row_state_def r(2)\<close>)
qed

lemma t_move_backup:
  assumes p: "wf_plan h p" and t: "txn_name t" and r: "r \<in> set (rows p)" "r = (i, c, b, f)"
    and I: "\<And>n. row_state pk p t n0 x0 E r x y z n \<Longrightarrow> I n" and x: "x = Some (Reg m d)" and y: "y \<noteq> Some Dir"
  shows "triple q I (row_state pk p t n0 x0 E r x y z) (rename (change_path c) (backup_name t i))
    (\<lambda>a n. a = Inr () \<and> row_state pk p t n0 x0 E r None x z n \<or> \<not> q \<and> a = Inl [Failure] \<and> row_state pk p t n0 x0 E r x y z n)"
proof (rule t_rename_row [OF target_key_comps [OF r(2)] comps_names(2) [OF t] I, where m = m and d = d])
  fix n assume s: "row_state pk p t n0 x0 E r x y z n"
  note k = row_state_at [OF s]
  show "map_of n (target_key r) = Some (Reg m d)" using k x by simp
  show "parent_ok n (backup_key t i) \<and> map_of n (backup_key t i) \<noteq> Some Dir"
    using txn_parent [OF s] k y by (simp add: backup_key_def r(2))
  have x': "file_or_none x" using x by (simp add: file_or_none_def regular_def)
  show "row_state pk p t n0 x0 E r None x z (AList.update (backup_key t i) (Reg m d) (AList.delete (target_key r) n))"
    by (rule row_state_change [OF p t r(1) s x'])
      (use k x row_keys_differ [OF p t r(1)] names_differ(1) [of t i i] in \<open>auto simp: r(2)\<close>)
qed

lemma t_install:
  assumes p: "wf_plan h p" and t: "txn_name t" and r: "r \<in> set (rows p)" "r = (i, c, b, f)"
    and I: "\<And>n. row_state True p t n0 x0 E r x y z n \<Longrightarrow> I n" and z: "z = Some (Reg m d)" and x: "file_or_none x"
  shows "triple q I (row_state True p t n0 x0 E r x y z) (rename (content_name t i) (change_path c))
    (\<lambda>a n. a = Inr () \<and> row_state True p t n0 x0 E r z y None n \<or> \<not> q \<and> a = Inl [Failure] \<and> row_state True p t n0 x0 E r x y z n)"
proof (rule t_rename_row [OF comps_names(3) [OF t] target_key_comps [OF r(2)] I, where m = m and d = d])
  fix n assume s: "row_state True p t n0 x0 E r x y z n"
  note k = row_state_at [OF s]
  show "map_of n (content_key t i) = Some (Reg m d)" using k z by (simp add: r(2))
  show "parent_ok n (target_key r) \<and> map_of n (target_key r) \<noteq> Some Dir"
    using s k x by (auto simp: row_state_def file_or_none_def regular_def)
  show "row_state True p t n0 x0 E r z y None (AList.update (target_key r) (Reg m d) (AList.delete (content_key t i) n))"
    by (rule row_state_change [OF p t r(1) s x])
      (use s k z row_keys_differ [OF p t r(1)] names_differ(1) [of t i i] in \<open>auto simp: row_state_def r(2)\<close>)
qed

subsection \<open>What the checks of one row find\<close>

lemma fstate_target:
  assumes "wf_plan h p" and "r \<in> set (rows p)" "r = (i, c, b, f)" and "in_txn p t n0 x0 n" and "file_or_none (map_of n (target_key r))"
  shows "fstate h (change_path c) n = Inr (file_at h (change_path c) (map_of n (target_key r)))"
  using fstate_reach_ok [of n "change_path c" h] row_reach [OF assms(1,2,4)] assms(3,5) by simp

lemma missing_iff: "valid_file g \<Longrightarrow> is_file h g None \<longleftrightarrow> \<not> f_exists g"
  by (cases g) (auto simp: is_file_def file_or_none_def file_at_def missing_file_def valid_file_def)

lemma file_at_before:
  assumes p: "wf_plan h p" and r: "r \<in> set (rows p)" "r = (i, c, b, f)" and x: "file_or_none x"
  shows "file_at h (change_path c) x = b \<longleftrightarrow> is_file h b x" "file_at h (change_path c) x = f \<longleftrightarrow> is_file h f x"
    "f_exists (file_at h (change_path c) x) \<longleftrightarrow> x \<noteq> None" "is_file h b None \<longleftrightarrow> \<not> f_exists b" "is_file h f None \<longleftrightarrow> \<not> f_exists f"
proof -
  have m: "(i, c, b, f) \<in> set (rows p)" using r by simp
  note rf = row_factsD(4,5,9,10) [OF p m]
  show "file_at h (change_path c) x = b \<longleftrightarrow> is_file h b x" "file_at h (change_path c) x = f \<longleftrightarrow> is_file h f x"
    using rf x by (simp_all add: is_file_def)
  show "f_exists (file_at h (change_path c) x) \<longleftrightarrow> x \<noteq> None"
    using x by (auto simp: file_at_def missing_file_def file_or_none_def regular_def split: option.splits node.splits)
  show "is_file h b None \<longleftrightarrow> \<not> f_exists b" "is_file h f None \<longleftrightarrow> \<not> f_exists f"
    using missing_iff rf(3,4) by blast+
qed

definition same_target :: "digester \<Rightarrow> file_state \<Rightarrow> tree \<Rightarrow> (werrs, unit) result" where
  "same_target h f n = (case fstate h (f_path f) n of Inl e \<Rightarrow> Inl (ErrChanged # e)
     | Inr g \<Rightarrow> if g = f then Inr () else Inl [ErrChanged])"

definition same_copy :: "digester \<Rightarrow> string \<Rightarrow> file_state \<Rightarrow> tree \<Rightarrow> (werrs, unit) result" where
  "same_copy h s f n = (case fstate h s n of Inl e \<Rightarrow> Inl (ErrChanged # e)
     | Inr g \<Rightarrow> if equivalent g f then Inr () else Inl [ErrChanged])"

lemma obs_same_target: "observes (verifyOneTarget h f) (same_target h f)"
  unfolding same_target_def by (rule obs_verifyOneTarget)

lemma obs_same_copy: "observes (verifyEquivalentFile h s f) (same_copy h s f)"
  unfolding same_copy_def by (rule obs_verifyEquivalentFile)

lemma same_target_iff:
  assumes "reach n (comps (f_path f))"
  shows "same_target h f n = Inr () \<longleftrightarrow> is_file h f (map_of n (comps (f_path f)))"
proof (cases "fstate h (f_path f) n")
  case (Inl e)
  then have "\<not> file_or_none (map_of n (comps (f_path f)))" using fstate_reach_ok [OF assms] by force
  then show ?thesis using Inl by (simp add: same_target_def is_file_def)
next
  case (Inr g)
  from fstate_reach_InrD [OF assms this] show ?thesis using Inr by (simp add: same_target_def is_file_def)
qed

lemma same_copy_iff:
  assumes "reach n (comps s)"
  shows "same_copy h s f n = Inr () \<longleftrightarrow> copy_of h f (map_of n (comps s))"
proof
  assume "same_copy h s f n = Inr ()"
  then obtain g where g: "fstate h s n = Inr g" "equivalent g f" by (auto simp: same_copy_def split: sum.splits if_splits)
  have "g = file_at h s (map_of n (comps s))" using fstate_reach_InrD [OF assms g(1)] by blast
  then show "copy_of h f (map_of n (comps s))" using g(2)
    by (auto simp: equivalent_def file_at_def missing_file_def copy_of_def split: option.splits node.splits)
next
  assume "copy_of h f (map_of n (comps s))"
  then obtain m c where x: "map_of n (comps s) = Some (Reg m c)" "snapshotMode m = f_mode f" "digestBytes h c = f_digest f"
    by (auto simp: copy_of_def)
  then have "fstate h s n = Inr (file_at h s (map_of n (comps s)))"
    by (intro fstate_reach_ok [OF assms]) (simp add: file_or_none_def regular_def)
  then show "same_copy h s f n = Inr ()" using x by (simp add: same_copy_def file_at_def equivalent_def)
qed

lemma backup_checked:
  assumes "txn_name t" and "in_txn p t n0 x0 n"
  shows "same_copy h (backup_name t i) f n = Inr () \<longleftrightarrow> copy_of h f (map_of n (backup_key t i))"
    "same_copy h (content_name t i) f n = Inr () \<longleftrightarrow> copy_of h f (map_of n (content_key t i))"
proof -
  have r: "reach n (backup_key t i)" "reach n (content_key t i)"
    using txn_reach assms(2) by (simp_all add: in_txn_def backup_key_def content_key_def)
  show "same_copy h (backup_name t i) f n = Inr () \<longleftrightarrow> copy_of h f (map_of n (backup_key t i))"
    "same_copy h (content_name t i) f n = Inr () \<longleftrightarrow> copy_of h f (map_of n (content_key t i))"
    using same_copy_iff [of n "backup_name t i"] same_copy_iff [of n "content_name t i"] comps_names [OF assms(1)] r by simp_all
qed

lemma target_checked:
  assumes "wf_plan h p" and "r \<in> set (rows p)" "r = (i, c, b, f)" and "in_txn p t n0 x0 n"
  shows "same_target h b n = Inr () \<longleftrightarrow> is_file h b (map_of n (target_key r))"
    "same_target h f n = Inr () \<longleftrightarrow> is_file h f (map_of n (target_key r))"
proof -
  have m: "(i, c, b, f) \<in> set (rows p)" using assms(2,3) by simp
  have "comps (f_path b) = target_key r" "comps (f_path f) = target_key r"
    using row_factsD(4,5) [OF assms(1) m] by (simp_all add: assms(3))
  then show "same_target h b n = Inr () \<longleftrightarrow> is_file h b (map_of n (target_key r))"
    "same_target h f n = Inr () \<longleftrightarrow> is_file h f (map_of n (target_key r))"
    using same_target_iff [of n b] same_target_iff [of n f] row_reach [OF assms(1,2,4)] by simp_all
qed

lemma synced:
  assumes "wf_plan h p" and "r \<in> set (rows p)" "r = (i, c, b, f)" and "parent_ok n (target_key r)"
  shows "dir_there (path_dir (change_path c)) n"
  using dir_there_path_dir [of "change_path c" n] assms(3,4) by simp

lemma txn_synced: "txn_name t \<Longrightarrow> in_txn p t n0 x0 n \<Longrightarrow> dir_there t n"
  by (simp add: dir_there_def comps_names in_txn_def)

lemma parent_of_existing:
  assumes "tree_ok n" and "map_of n k \<noteq> None" and "\<not> own_key k" and "k \<noteq> []"
  shows "parent_ok n k"
  using assms butlast_above [OF assms(4)] by (auto simp: tree_ok_def parent_ok_def)

text \<open>An observer that succeeds unless there is a fault.\<close>

lemma t_sure:
  assumes "observes m f" and "\<And>n. P n \<Longrightarrow> I n" and "\<And>n. P n \<Longrightarrow> f n = Inr v"
    and "\<And>e n. P n \<Longrightarrow> \<not> q \<Longrightarrow> Q (Inl e) n" and "triple q I P (k v) Q"
  shows "triple q I P (attempt m k) Q"
proof (rule t_obs_attempt [OF assms(1,2)])
  show "Q (Inl e) n" if "P n" "f n = Inl e \<or> \<not> q \<and> Failure \<in> set e" for n e
    using that assms(3,4) by auto
  show "triple q I (\<lambda>n. P n \<and> f n = Inr x) (k x) Q" for x
  proof (cases "x = v")
    case True
    then show ?thesis by (auto intro: t_pre [OF assms(5)])
  next
    case False
    then show ?thesis using assms(3) by (auto simp: triple_def)
  qed
qed

text \<open>The end of a sequence of checks.\<close>

lemma t_sure_last:
  assumes "observes m f" and "\<And>n. P n \<Longrightarrow> I n" and "\<And>n. P n \<Longrightarrow> f n = Inr v"
    and "\<And>e n. P n \<Longrightarrow> \<not> q \<Longrightarrow> Q (Inl e) n" and "\<And>n. P n \<Longrightarrow> Q (Inr v) n"
  shows "triple q I P m Q"
  by (rule t_obs [OF assms(1,2)]) (use assms(3-5) in auto)

text \<open>An effect that happens unless there is a fault.\<close>

lemma t_does:
  assumes "triple q I P m (\<lambda>a n. a = Inr v \<and> R n \<or> \<not> q \<and> a = Inl [Failure] \<and> P n)"
    and "\<And>n. P n \<Longrightarrow> \<not> q \<Longrightarrow> Q (Inl [Failure]) n" and "triple q I R (k v) Q"
  shows "triple q I P (attempt m k) Q"
proof (rule t_attempt [OF assms(1)])
  show "Q (Inl e) n" if "Inl e = Inr v \<and> R n \<or> \<not> q \<and> Inl e = Inl [Failure] \<and> P n" for e n
    using that assms(2) by auto
  show "triple q I (\<lambda>n. Inr x = Inr v \<and> R n \<or> \<not> q \<and> Inr x = Inl [Failure] \<and> P n) (k x) Q" for x
  proof (cases "x = v")
    case True
    then show ?thesis by (auto intro: t_pre [OF assms(3)])
  next
    case False
    then show ?thesis by (auto simp: triple_def)
  qed
qed

lemma attempt_assoc: "attempt (attempt m k) k' = attempt m (\<lambda>x. attempt (k x) k')"
  by (rule ext) (auto simp: attempt_def andthen_def ret_def split: prod.splits io.splits sum.splits)

subsection \<open>Restoring the targets\<close>

definition restored :: "digester \<Rightarrow> plan_row list \<Rightarrow> row_pred" where
  "restored h rs r x y z \<longleftrightarrow> row_ok h r x y \<and> (r \<notin> set rs \<longrightarrow> is_file h (row_before r) x)"

lemma row_ok_file: "row_ok h r x y \<Longrightarrow> file_or_none x"
  by (simp add: row_ok_def)

lemma t_restore_rows:
  assumes p: "wf_plan h p" and t: "txn_name t" and n0: "ready h p n0"
    and I: "\<And>n. all_rows p t n0 x0 (ok_rows h) n \<Longrightarrow> I n"
    and rs: "set rs \<subseteq> set (rows p)" "distinct rs"
  shows "triple q I (all_rows p t n0 x0 (restored h rs)) (restore_rows h t rs)
    (\<lambda>a n. all_rows p t n0 x0 (ok_rows h) n \<and> (a = Inr () \<longrightarrow> all_rows p t n0 x0 (restored h []) n) \<and> (q \<longrightarrow> a = Inr ()))"
    (is "triple q I _ _ ?Q")
  using rs
proof (induction rs)
  case Nil
  show ?case by (auto intro!: t_ret elim: all_rows_mono simp: restored_def)
next
  case (Cons r rs)
  obtain i c b f where r: "r = (i, c, b, f)" by (cases r)
  have m: "r \<in> set (rows p)" using Cons.prems by simp
  note IH = Cons.IH [OF _ distinct.simps(2) [THEN iffD1, OF Cons.prems(2), THEN conjunct2]]
  have rest: "triple q I (all_rows p t n0 x0 (restored h rs)) (restore_rows h t rs) ?Q"
    using Cons by simp
  let ?S = "row_state False p t n0 x0 (restored h rs) r"
  let ?SP = "row_state True p t n0 x0 (restored h rs) r"
  have allok: "all_rows p t n0 x0 (ok_rows h) n" if "row_state pk p t n0 x0 (restored h rs) r x y z n" "row_ok h r x y" for pk x y z n
  proof -
    have "at_row p t n0 x0 (ok_rows h) r x y z n"
      using that(1) at_row_mono [of p t n0 x0 "restored h rs" r x y z n "ok_rows h"] by (simp add: row_state_def restored_def)
    then show ?thesis using at_row_all [of p t n0 x0 "ok_rows h" r x y z n] m that(2) by simp
  qed
  have QE: "?Q (Inl e) n" if "row_state pk p t n0 x0 (restored h rs) r x y z n" "row_ok h r x y" "\<not> q" for pk x y z n e
    using allok that by simp
  have II: "I n" if "row_state pk p t n0 x0 (restored h rs) r x y z n" "row_ok h r x y" for pk x y z n
    using allok [OF that] I by blast
  have fin: "all_rows p t n0 x0 (restored h rs) n"
    if "row_state pk p t n0 x0 (restored h rs) r x y z n" "row_ok h r x y" "is_file h b x" for pk x y z n
    using that at_row_all [of p t n0 x0 "restored h rs" r x y z n] m by (simp add: row_state_def restored_def r)
  have last: "triple q I (?SP x y z) (attempt (verifyOneTarget h b) (\<lambda>_. restore_rows h t rs)) ?Q"
    if x: "row_ok h r x y" "is_file h b x" for x y z
  proof (rule t_sure [OF obs_same_target, where v = "()"])
    fix n assume s: "?SP x y z n"
    show "I n" by (rule II [OF s x(1)])
    show "same_target h b n = Inr ()"
      using target_checked(1) [OF p m r row_state_in [OF s]] row_state_at [OF s] x(2) by simp
    show "?Q (Inl e) n" if "\<not> q" for e using QE [OF s x(1) that] .
  next
    show "triple q I (?SP x y z) (restore_rows h t rs) ?Q"
      by (rule t_pre [OF rest], rule fin [OF _ x])
  qed
  have step: "triple q I (\<lambda>n. at_row p t n0 x0 (restored h rs) r x y z n) (restore_rows h t (r # rs)) ?Q"
    if ok: "row_ok h r x y" for x y z
  proof -
    note fn = row_ok_file [OF ok]
    have S: "at_row p t n0 x0 (restored h rs) r x y z = ?S x y z" by (rule ext) (simp add: row_state_def)
    show ?thesis
    proof (cases "is_file h b x")
      case True
      show ?thesis unfolding r restore_rows.simps Let_def S [unfolded r]
        apply (rule t_sure [OF obs_ctx], use II ok r in blast, simp, use QE ok r in blast)
        apply (rule t_sure [OF obs_captureFile, where v = b])
           apply (use II ok r in blast)
          apply (use fstate_target [OF p m r] file_at_before(1) [OF p m r fn] fn True row_state_at row_state_in r in fastforce)
         apply (use QE ok r in blast)
        apply simp
        apply (rule t_pre [OF rest])
        using fin ok True r by blast
    next
      case False
      have ex: "f_exists b \<or> x \<noteq> None" using False file_at_before(4) [OF p m r fn] by auto
      have SP: "?SP x y z n" if s: "?S x y z n" for n
      proof -
        have "parent_ok n (target_key r)"
        proof (cases "f_exists b")
          case True
          then show ?thesis using parent_there [OF p n0 m] row_state_in [OF s] by (simp add: r in_txn_def)
        next
          case False
          then have "map_of n (target_key r) \<noteq> None" using ex row_state_at [OF s] by simp
          then show ?thesis using parent_of_existing target_key_not_own [OF p m] row_state_in [OF s]
            by (auto simp: in_txn_def base_def r)
        qed
        then show ?thesis using s by (simp add: row_state_def)
      qed
      have sync: "dir_there (path_dir (change_path c)) n" if "?SP x' y' z' n" for x' y' z' n
        using synced [OF p m r] that by (simp add: row_state_def)
      have tsync: "dir_there t n" if "?SP x' y' z' n" for x' y' z' n
        using txn_synced [OF t row_state_in [OF that]] .
      have bkp: "same_copy h (backup_name t i) b n = Inr () \<longleftrightarrow> copy_of h b y'" if "?SP x' y' z' n" for x' y' z' n
        using backup_checked(1) [OF t row_state_in [OF that]] row_state_at [OF that] by (simp add: r)
      have sync1: "triple q I (?SP x' y' z') (attempt (syncDirectory (path_dir (change_path c))) k) ?Q"
        if "row_ok h r x' y'" "\<And>u. triple q I (?SP x' y' z') (k u) ?Q" for x' y' z' k
        by (rule t_sure [OF obs_syncDirectory, where v = "()"]) (use II QE sync that in auto)
      have rem: "triple q I (?SP x y z) (attempt (remove (change_path c)) (\<lambda>_. attempt (syncDirectory (path_dir (change_path c))) k)) ?Q"
        if x: "x \<noteq> None" and ok': "row_ok h r None y" and k: "\<And>u. triple q I (?SP None y z) (k u) ?Q" for k
      proof -
        obtain m d where x': "x = Some (Reg m d)"
          using x fn by (auto simp: file_or_none_def regular_def split: node.splits)
        show ?thesis
          by (rule t_does [OF t_remove_target [OF p t m r _ x']])
            (use II QE ok sync1 [OF ok' k] in auto)
      qed
      have body: "triple q I (?SP x y z)
        (attempt (if f_exists b then attempt (verifyEquivalentFile h (backup_name t i) b) (\<lambda>_.
             attempt (if x \<noteq> None then attempt (remove (change_path c)) (\<lambda>_. syncDirectory (path_dir (change_path c))) else ret (Inr ())) (\<lambda>_.
             attempt (rename (backup_name t i) (change_path c)) (\<lambda>_. syncRename (backup_name t i) (change_path c))))
           else if x \<noteq> None then attempt (remove (change_path c)) (\<lambda>_. syncDirectory (path_dir (change_path c))) else ret (Inr ()))
          (\<lambda>_. attempt (verifyOneTarget h b) (\<lambda>_. restore_rows h t rs))) ?Q"
      proof (cases "f_exists b")
        case False
        have ok': "row_ok h r None y" "is_file h b None"
          using ok False \<open>\<not> is_file h b x\<close> file_at_before(4) [OF p m r fn]
          by (auto simp: row_ok_def r file_or_none_def)
        show ?thesis using False ex by (simp add: attempt_assoc rem ok'(1) last [OF ok'])
      next
        case True
        then have cp: "copy_of h b y" "x = None \<or> is_file h f x"
          using ok \<open>\<not> is_file h b x\<close> by (auto simp: row_ok_def r)
        then obtain mo d where y: "y = Some (Reg mo d)" "snapshotMode mo = f_mode b" "digestBytes h d = f_digest b"
          by (auto simp: copy_of_def)
        have ok': "row_ok h r None y" using True cp by (simp add: row_ok_def r file_or_none_def)
        have yb: "is_file h b y" using y True by (cases b) (simp add: is_file_def file_or_none_def regular_def file_at_def)
        have yo: "row_ok h r y None" using yb True by (auto simp: row_ok_def r is_file_def)
        have fin2: "triple q I (?SP y None z) (attempt (syncRename (backup_name t i) (change_path c))
            (\<lambda>_. attempt (verifyOneTarget h b) (\<lambda>_. restore_rows h t rs))) ?Q"
          by (rule t_sure [OF obs_syncRename, where v = "()"])
            (use II QE sync yo last [OF yo yb] tsync in \<open>auto simp: path_dir_names\<close>)
        have mv: "triple q I (?SP x' y z) (attempt (rename (backup_name t i) (change_path c))
            (\<lambda>_. attempt (syncRename (backup_name t i) (change_path c)) (\<lambda>_. attempt (verifyOneTarget h b) (\<lambda>_. restore_rows h t rs)))) ?Q"
          if "row_ok h r x' y" for x'
          by (rule t_does [OF t_restore_backup [OF p t m r _ y(1) row_ok_file [OF that]]]) (use II QE that fin2 in auto)
        have rest2: "triple q I (?SP x y z) (attempt (if x \<noteq> None then attempt (remove (change_path c)) (\<lambda>_. syncDirectory (path_dir (change_path c))) else ret (Inr ()))
            (\<lambda>_. attempt (rename (backup_name t i) (change_path c))
            (\<lambda>_. attempt (syncRename (backup_name t i) (change_path c)) (\<lambda>_. attempt (verifyOneTarget h b) (\<lambda>_. restore_rows h t rs))))) ?Q"
          using mv [OF ok] rem [OF _ ok' mv [OF ok']] by (cases x) (simp_all add: attempt_assoc)
        show ?thesis unfolding if_P [OF True] attempt_assoc
        proof (rule t_sure [OF obs_same_copy, where v = "()"])
          fix n assume s: "?SP x y z n"
          show "I n" using II [OF s ok] .
          show "same_copy h (backup_name t i) b n = Inr ()" using bkp [OF s] cp(1) by simp
          show "?Q (Inl e) n" if "\<not> q" for e using QE [OF s ok that] .
        next
          show "triple q I (?SP x y z) (attempt (if x \<noteq> None then attempt (remove (change_path c)) (\<lambda>_. syncDirectory (path_dir (change_path c))) else ret (Inr ()))
            (\<lambda>_. attempt (rename (backup_name t i) (change_path c))
            (\<lambda>_. attempt (syncRename (backup_name t i) (change_path c)) (\<lambda>_. attempt (verifyOneTarget h b) (\<lambda>_. restore_rows h t rs))))) ?Q"
            by (rule rest2)
        qed
      qed
      show ?thesis unfolding r restore_rows.simps Let_def S [unfolded r]
        apply (rule t_sure [OF obs_ctx], use II ok r in blast, simp, use QE ok r in blast)
        apply (rule t_sure [OF obs_captureFile, where v = "file_at h (change_path c) x"])
           apply (use II ok r in blast)
          apply (use fstate_target [OF p m r] fn row_state_at row_state_in r in fastforce)
         apply (use QE ok r in blast)
        apply (simp only: file_at_before(1,3) [OF p m r fn] False if_False)
        apply (rule t_pre [OF body [unfolded r]])
        using SP r by blast
    qed
  qed
  have "triple q I (\<lambda>n. \<exists>x y z. row_ok h r x y \<and> at_row p t n0 x0 (restored h rs) r x y z n) (restore_rows h t (r # rs)) ?Q"
    by (intro t_ex t_given step)
  then show ?case
  proof (rule t_pre)
    fix n assume "all_rows p t n0 x0 (restored h (r # rs)) n"
    then obtain x y z where "at_row p t n0 x0 (restored h (r # rs)) r x y z n" "restored h (r # rs) r x y z"
      using all_rows_at [OF m] by blast
    moreover from this(1) have "at_row p t n0 x0 (restored h rs) r x y z n"
      unfolding at_row_def holds_at_def restored_def by auto
    ultimately show "\<exists>x y z. row_ok h r x y \<and> at_row p t n0 x0 (restored h rs) r x y z n" by (auto simp: restored_def)
  qed
qed

subsection \<open>All targets at once\<close>

definition whole :: "digester \<Rightarrow> plan \<Rightarrow> (plan_row \<Rightarrow> file_state) \<Rightarrow> tree \<Rightarrow> tree \<Rightarrow> bool" where
  "whole h p G n0 n \<longleftrightarrow> base p n0 n \<and> (\<forall>r\<in>set (rows p). is_file h (G r) (map_of n (target_key r)))"

lemma rows_before: "wf_plan h p \<Longrightarrow> map row_before (rows p) = before_files p"
  by (rule nth_equalityI) (simp_all add: rows_nth wf_planD)

lemma rows_final: "wf_plan h p \<Longrightarrow> map row_final (rows p) = final_files p"
  by (rule nth_equalityI) (simp_all add: rows_nth wf_planD)

lemma rows_targets: "wf_plan h p \<Longrightarrow> targets p = map (\<lambda>r. change_path (fst (snd r))) (rows p)"
  by (rule nth_equalityI) (simp_all add: rows_nth wf_planD targets_def)

lemma fstates_all:
  "(\<And>r. r \<in> set rs \<Longrightarrow> fstate h (g r) n = Inr (G r)) \<Longrightarrow> fstates h (map g rs) n = Inr (map G rs)"
  by (induction rs) auto

lemma fstates_each:
  "fstates h (map g rs) n = Inr (map G rs) \<Longrightarrow> r \<in> set rs \<Longrightarrow> fstate h (g r) n = Inr (G r)"
  by (induction rs) (auto simp: bind_res_Inr_iff)

lemma fstates_length: "fstates h ss n = Inr fs \<Longrightarrow> length fs = length ss"
  by (induction ss arbitrary: fs) (auto simp: bind_res_Inr_iff)

lemma fstate_path: "fstate h s n = Inr f \<Longrightarrow> f_path f = s"
  by (auto simp: fstate_def bind_res_Inr_iff file_at_def missing_file_def split: if_splits option.splits node.splits)

lemma fstates_paths: "fstates h ss n = Inr fs \<Longrightarrow> map f_path fs = ss"
  by (induction ss arbitrary: fs) (auto simp: bind_res_Inr_iff fstate_path)

lemma row_paths: "wf_plan h p \<Longrightarrow> r \<in> set (rows p) \<Longrightarrow> G = row_before \<or> G = row_final \<Longrightarrow> f_path (G r) = change_path (fst (snd r))"
  using row_factsD(4,5) by (cases r) auto

lemma fstate_row:
  assumes p: "wf_plan h p" and b: "base p n0 n" and r: "r \<in> set (rows p)" and G: "G = row_before \<or> G = row_final"
  shows "fstate h (change_path (fst (snd r))) n = Inr (G r) \<longleftrightarrow> is_file h (G r) (map_of n (target_key r))"
proof -
  have re: "reach n (comps (change_path (fst (snd r))))"
    using base_reach [OF p b target_key_in [OF p r]] by (simp add: target_key_def)
  have T: "target_key r = comps (change_path (fst (snd r)))" by (simp add: target_key_def)
  show ?thesis
    using fstate_reach_ok [OF re, of h] fstate_reach_InrD [OF re, of h "G r"] row_paths [OF p r G]
    by (auto simp: is_file_def T)
qed

lemma whole_fstates:
  assumes p: "wf_plan h p" and b: "base p n0 n" and G: "G = row_before \<or> G = row_final"
  shows "fstates h (targets p) n = Inr (map G (rows p)) \<longleftrightarrow> whole h p G n0 n"
proof
  assume "fstates h (targets p) n = Inr (map G (rows p))"
  then have "fstate h (change_path (fst (snd r))) n = Inr (G r)" if "r \<in> set (rows p)" for r
    using fstates_each that unfolding rows_targets [OF p] by fastforce
  then show "whole h p G n0 n" using fstate_row [OF p b _ G] b by (simp add: whole_def)
next
  assume "whole h p G n0 n"
  then show "fstates h (targets p) n = Inr (map G (rows p))"
    unfolding rows_targets [OF p] using fstate_row [OF p b _ G] by (intro fstates_all) (simp add: whole_def)
qed

text \<open>What a capture can give, and: among captures of the targets only the two of the plan have their digests.\<close>

definition captured :: "digester \<Rightarrow> file_state \<Rightarrow> bool" where
  "captured h f \<longleftrightarrow> (\<exists>x. file_or_none x \<and> f = file_at h (f_path f) x)"

lemma file_at_path [simp]: "f_path (file_at h s x) = s"
  by (auto simp: file_at_def missing_file_def split: option.splits node.splits)

lemma fstate_captured: "fstate h s n = Inr f \<Longrightarrow> captured h f"
proof -
  assume f: "fstate h s n = Inr f"
  obtain c cs where cs: "comps s = c # cs" using comps_Cons by blast
  obtain missing where m: "inspect_pure n [] (comps s) = Inr missing"
    "f = (if missing then missing_file s else file_at h s (map_of n (comps s)))"
    using f by (auto simp: fstate_def bind_res_Inr_iff)
  show ?thesis
  proof (cases missing)
    case True
    then have "f = file_at h s None" using m(2) by (simp add: file_at_def)
    then show ?thesis by (auto simp: captured_def file_or_none_def intro!: exI [of _ None])
  next
    case False
    then have "file_or_none (map_of n (comps s))"
      using m(1) inspect_pure_False [of n "[]" c cs] by (auto simp: cs file_or_none_def regular_def simp del: inspect_pure.simps)
    moreover have "f = file_at h s (map_of n (comps s))" using m(2) False by simp
    ultimately show ?thesis unfolding captured_def by (metis file_at_path)
  qed
qed

lemma fstates_captured: "fstates h ss n = Inr fs \<Longrightarrow> list_all (captured h) fs"
  by (induction ss arbitrary: fs) (auto simp: bind_res_Inr_iff fstate_captured)

definition collision_free :: "digester \<Rightarrow> plan \<Rightarrow> bool" where
  "collision_free h p \<longleftrightarrow> (\<forall>fs. map f_path fs = targets p \<longrightarrow> list_all (captured h) fs \<longrightarrow>
     (digestFiles h fs = before_digest p \<longrightarrow> fs = before_files p) \<and> (digestFiles h fs = final_digest p \<longrightarrow> fs = final_files p))"

lemma plan_state_whole:
  assumes p: "wf_plan h p" and cf: "collision_free h p" and b: "base p n0 n"
  shows "plan_state h p n = Inr stateFinal \<longleftrightarrow> whole h p row_final n0 n"
    "plan_state h p n = Inr stateBefore \<longleftrightarrow> whole h p row_before n0 n \<and> \<not> whole h p row_final n0 n"
proof -
  have f: "whole h p row_final n0 n \<longleftrightarrow> fstates h (targets p) n = Inr (final_files p)"
    using whole_fstates [OF p b, of row_final] by (simp add: rows_final [OF p])
  have e: "whole h p row_before n0 n \<longleftrightarrow> fstates h (targets p) n = Inr (before_files p)"
    using whole_fstates [OF p b, of row_before] by (simp add: rows_before [OF p])
  have c: "(digestFiles h fs = before_digest p \<longrightarrow> fs = before_files p) \<and> (digestFiles h fs = final_digest p \<longrightarrow> fs = final_files p)"
    if "fstates h (targets p) n = Inr fs" for fs
    using cf fstates_paths [OF that] fstates_captured [OF that] by (simp add: collision_free_def)
  have d: "digestFiles h (before_files p) = before_digest p" "digestFiles h (final_files p) = final_digest p"
    using wf_planD(3,4) [OF p] by blast+
  show "plan_state h p n = Inr stateFinal \<longleftrightarrow> whole h p row_final n0 n"
  proof (cases "fstates h (targets p) n")
    case (Inl e) then show ?thesis by (simp add: f plan_state_def)
  next
    case (Inr fs) then show ?thesis using c [OF Inr] d by (auto simp: f plan_state_def)
  qed
  show "plan_state h p n = Inr stateBefore \<longleftrightarrow> whole h p row_before n0 n \<and> \<not> whole h p row_final n0 n"
  proof (cases "fstates h (targets p) n")
    case (Inl e) then show ?thesis by (simp add: f e plan_state_def)
  next
    case (Inr fs)
    have "digestFiles h fs = final_digest p \<longleftrightarrow> fs = final_files p" "digestFiles h fs = before_digest p \<longleftrightarrow> fs = before_files p"
      using c [OF Inr] d by blast+
    then show ?thesis using Inr by (simp add: f e plan_state_def)
  qed
qed

subsection \<open>Names at the root\<close>

lemma prefixes_differ: "has_prefix s transactionPrefix \<Longrightarrow> \<not> has_prefix s completedPrefix"
  by (auto simp: has_prefix_iff transactionPrefix_def completedPrefix_def)

lemma hex_char_no_slash: "hex_char c \<Longrightarrow> c \<noteq> CHR ''/''"
  by (auto simp: hex_char_def hex_value_def byte_of_def Let_def split: if_splits)

lemma parsed_no_slash:
  assumes "snd (parseTransactionDirectoryName s pre)" and "CHR ''/'' \<notin> set pre"
  shows "CHR ''/'' \<notin> set s"
proof -
  define u where "u = trim_prefix s pre"
  have s: "has_prefix s pre" "length u = 97" "u ! 64 = CHR ''-''" "list_all hex_char (take 64 u)" "list_all hex_char (drop 65 u)"
    using assms(1) by (auto simp: parseTransactionDirectoryName_def u_def Let_def split: if_splits)
  then have "s = pre @ u" by (auto simp: u_def trim_prefix_def has_prefix_iff)
  moreover have "set u = set (take 64 u) \<union> {u ! 64} \<union> set (drop 65 u)"
  proof -
    have "u = take 64 u @ u ! 64 # drop (Suc 64) u" by (rule id_take_nth_drop) (simp add: s(2))
    then have "set u = set (take 64 u @ u ! 64 # drop (Suc 64) u)" by (rule arg_cong)
    then show ?thesis by (simp add: eval_nat_numeral)
  qed
  moreover have "CHR ''/'' \<notin> set (take 64 u)" "CHR ''/'' \<notin> set (drop 65 u)"
    using s(4,5) hex_char_no_slash by (auto simp: list_all_iff)
  ultimately show ?thesis using assms(2) s(3) by simp
qed

lemma well_named_plain: "well_named s \<Longrightarrow> own_key [s] \<Longrightarrow> CHR ''/'' \<notin> set s"
  using parsed_no_slash [of s transactionPrefix] parsed_no_slash [of s completedPrefix]
  by (auto simp: well_named_def own_key_def transactionPrefix_def completedPrefix_def)

lemma active_name: "active t n \<Longrightarrow> txn_name t"
proof -
  assume a: "active t n"
  then have "own_key [t]" "map_of n [t] \<noteq> None" by (auto simp: active_def own_key_def)
  then have "well_named t" using a by (auto simp: active_def names_ok_def)
  then show "txn_name t" using well_named_plain \<open>own_key [t]\<close> a by (auto simp: txn_name_def active_def)
qed

text \<open>Only keys of the package change.\<close>

definition own_change :: "tree \<Rightarrow> tree \<Rightarrow> bool" where
  "own_change n n' \<longleftrightarrow> (\<forall>k. \<not> own_key k \<longrightarrow> map_of n' k = map_of n k)"

lemma base_own: "own_change n n' \<Longrightarrow> wf_plan h p \<Longrightarrow> base p n0 n \<Longrightarrow> base p n0 n'"
proof -
  assume o: "own_change n n'" and p: "wf_plan h p" and b: "base p n0 n"
  have "tree_ok n'"
    using b o own_prefix unfolding base_def tree_ok_def own_change_def by metis
  then show ?thesis using b o keys_apart [OF p] by (simp add: base_def own_change_def)
qed

lemma whole_own: "own_change n n' \<Longrightarrow> wf_plan h p \<Longrightarrow> whole h p G n0 n \<Longrightarrow> whole h p G n0 n'"
  using base_own target_key_not_own by (auto simp: whole_def own_change_def)

lemma map_of_filter_key: "map_of (filter (\<lambda>(k, x). P k) n) k = (if P k then map_of n k else None)"
  by (induction n) auto

text \<open>What is left of a directory of the package after a removal, complete or not.\<close>

definition removed :: "string \<Rightarrow> tree \<Rightarrow> tree \<Rightarrow> bool" where
  "removed t n n' \<longleftrightarrow> (\<forall>k. \<not> prefix [t] k \<longrightarrow> map_of n' k = map_of n k)
     \<and> (\<forall>k. prefix [t] k \<longrightarrow> map_of n' k = None \<or> map_of n' k = map_of n k \<and> map_of n' [t] = map_of n [t])"

lemma removed_all: "removed t n (filter (\<lambda>(k, _). \<not> prefix [t] k) n)"
  using map_of_filter_key [of "\<lambda>k. \<not> prefix [t] k" n] by (auto simp: removed_def)

lemma removed_part: "removed t n (keep_below [t] ks n)"
  using map_of_filter_key [of "\<lambda>k. prefix [t] k \<longrightarrow> list_ex (\<lambda>q. prefix k q) ([t] # ks)" n]
  by (auto simp: removed_def keep_below_def)

lemma prefix_single: "prefix [t] k \<longleftrightarrow> k \<noteq> [] \<and> hd k = t"
  by (cases k) auto

lemma removed_own: "removed t n n' \<Longrightarrow> own_key [t] \<Longrightarrow> own_change n n'"
  by (auto simp: own_change_def removed_def prefix_single own_key_def)

lemma removed_names: "removed t n n' \<Longrightarrow> names_ok n \<Longrightarrow> names_ok n'"
  unfolding names_ok_def
proof (intro allI impI)
  fix k assume r: "removed t n n'" and o: "\<forall>k. own_key k \<longrightarrow> map_of n k \<noteq> None \<longrightarrow> map_of n [hd k] = Some Dir \<and> well_named (hd k)"
    and k: "own_key k" "map_of n' k \<noteq> None"
  have ne: "k \<noteq> []" using k(1) by (simp add: own_key_def)
  show "map_of n' [hd k] = Some Dir \<and> well_named (hd k)"
  proof (cases "prefix [t] k")
    case True
    then have "map_of n' k = map_of n k" "map_of n' [t] = map_of n [t]" using r k(2) by (auto simp: removed_def)
    moreover have "hd k = t" using True by (simp add: prefix_single)
    ultimately show ?thesis using o k by auto
  next
    case False
    then have "map_of n' k = map_of n k" "map_of n' [hd k] = map_of n [hd k]"
      using r ne by (auto simp: removed_def prefix_single)
    then show ?thesis using o k by auto
  qed
qed

lemma removed_idle: "removed t n n' \<Longrightarrow> no_txn n \<Longrightarrow> no_txn n'"
  using removed_names by (auto simp: no_txn_def removed_def) (metis option.distinct(1))

lemma removed_active: "removed t n n' \<Longrightarrow> active t n \<Longrightarrow> no_txn n' \<or> active t n'"
proof -
  assume r: "removed t n n'" and a: "active t n"
  have "map_of n' [s] = None" if "has_prefix s transactionPrefix" "s \<noteq> t" for s
    using a r that by (auto simp: active_def removed_def prefix_single)
  moreover have "map_of n' [t] = None \<or> map_of n' [t] = Some Dir"
    using r a by (auto simp: removed_def active_def)
  ultimately show ?thesis
    using a removed_names [OF r] by (cases "map_of n' [t]") (auto simp: no_txn_def active_def)
qed

lemma removed_other: "removed d n n' \<Longrightarrow> d \<noteq> t \<Longrightarrow> active t n \<Longrightarrow> active t n'"
  using removed_names by (auto simp: active_def removed_def prefix_single) (metis option.distinct(1))

subsection \<open>Where a process may have died\<close>

definition admitted :: "gate option \<Rightarrow> transactionAdmission \<Rightarrow> bool" where
  "admitted g a \<longleftrightarrow> (case g of None \<Rightarrow> a = no_admission
     | Some g \<Rightarrow> a_domain a = gt_domain g \<and> a_subject a = gt_subject g \<and> validDigest (a_receipt a))"

definition journalled :: "platform \<Rightarrow> plan \<Rightarrow> gate option \<Rightarrow> node option \<Rightarrow> bool" where
  "journalled pf p g x \<longleftrightarrow> (\<exists>m a. x = Some (Reg m (enc_record pf (record_of p a))) \<and> admitted g a)"

text \<open>The codec gives back the records of this plan and gate, and they are within the limit.\<close>

definition codec_ok :: "platform \<Rightarrow> plan \<Rightarrow> gate option \<Rightarrow> bool" where
  "codec_ok pf p g \<longleftrightarrow> (\<forall>a. admitted g a \<longrightarrow> enc_record pf (record_of p a) \<noteq> []
     \<and> length (enc_record pf (record_of p a)) \<le> maxTransactionRecord
     \<and> dec_record pf (enc_record pf (record_of p a)) = Some (record_of p a))"

definition interrupted :: "platform \<Rightarrow> plan \<Rightarrow> gate option \<Rightarrow> string \<Rightarrow> tree \<Rightarrow> tree \<Rightarrow> bool" where
  "interrupted pf p g t n0 n \<longleftrightarrow> fst (parseTransactionDirectoryName t transactionPrefix) = plan_digest p
     \<and> (\<exists>x0. all_rows p t n0 x0 (ok_rows (sha pf)) n \<and> (journalled pf p g x0 \<or> whole (sha pf) p row_before n0 n))"

definition at_rest :: "platform \<Rightarrow> plan \<Rightarrow> tree \<Rightarrow> tree \<Rightarrow> bool" where
  "at_rest pf p n0 n \<longleftrightarrow> no_txn n \<and> (whole (sha pf) p row_before n0 n \<or> whole (sha pf) p row_final n0 n)"

definition consistent :: "platform \<Rightarrow> plan \<Rightarrow> gate option \<Rightarrow> tree \<Rightarrow> tree \<Rightarrow> bool" where
  "consistent pf p g n0 n \<longleftrightarrow> at_rest pf p n0 n \<or> (\<exists>t. interrupted pf p g t n0 n)"

text \<open>A record that the process was writing when it died.\<close>

definition torn :: "platform \<Rightarrow> plan \<Rightarrow> gate option \<Rightarrow> tree \<Rightarrow> bool" where
  "torn pf p g n \<longleftrightarrow> (\<exists>t. active t n \<and> map_of n (record_key t) \<noteq> None \<and> \<not> journalled pf p g (map_of n (record_key t)))"

lemma active_unique: "active t n \<Longrightarrow> active t' n \<Longrightarrow> t = t'"
  by (auto simp: active_def)

lemma idle_not_active: "no_txn n \<Longrightarrow> \<not> active t n"
  by (auto simp: no_txn_def active_def)

lemma all_rows_base: "all_rows p t n0 x0 E n \<Longrightarrow> base p n0 n"
  by (simp add: all_rows_def in_txn_def)

lemma all_rows_active: "all_rows p t n0 x0 E n \<Longrightarrow> active t n \<and> no_debris n"
  by (simp add: all_rows_def in_txn_def)

lemma interrupted_active: "interrupted pf p g t n0 n \<Longrightarrow> active t n \<and> no_debris n"
  using all_rows_active by (auto simp: interrupted_def)

lemma interrupted_base: "interrupted pf p g t n0 n \<Longrightarrow> base p n0 n"
  using all_rows_base by (auto simp: interrupted_def)

lemma consistent_base: "consistent pf p g n0 n \<Longrightarrow> base p n0 n"
  using interrupted_base by (auto simp: consistent_def at_rest_def whole_def)

subsection \<open>Removing a directory of the package\<close>

lemma t_cleanup:
  assumes s: "comps s = [s]" and P: "\<And>n. P n \<Longrightarrow> I n"
    and R: "\<And>n n'. P n \<Longrightarrow> removed s n n' \<Longrightarrow> R n'" "\<And>n. R n \<Longrightarrow> I n"
    and F: "\<And>n n'. P n \<Longrightarrow> removed s n n' \<Longrightarrow> map_of n' [s] = None \<Longrightarrow> F n'"
  shows "triple q I P (cleanupTransaction s) (\<lambda>a n. R n \<and> (a = Inr () \<longrightarrow> F n) \<and> (q \<longrightarrow> a = Inr ()))"
  unfolding cleanupTransaction_def
proof (rule t_attempt)
  show "triple q I P (remove_all s) (\<lambda>a n. R n \<and> (a = Inr () \<longrightarrow> F n) \<and> (q \<longrightarrow> a = Inr ()))"
    unfolding remove_all_def s
  proof (rule t_sys)
    fix n x n'
    assume n: "P n" and e: "Inr ((), filter (\<lambda>(k, _). \<not> prefix [s] k) n) = Inr (x, n')"
    then have n': "n' = filter (\<lambda>(k, _). \<not> prefix [s] k) n" by simp
    have "map_of n' [s] = None" unfolding n' using map_of_filter_key [of "\<lambda>k. \<not> prefix [s] k" n "[s]"] by simp
    then show "R n' \<and> (Inr x = Inr () \<longrightarrow> F n') \<and> (q \<longrightarrow> Inr x = Inr ())"
      using R(1) F n removed_all [of s n] by (simp add: n')
  next
    fix n i ks assume n: "P n" "\<not> q"
    show "R (keep_below [s] ks n) \<and> (Inl [Failure] = Inr () \<longrightarrow> F (keep_below [s] ks n)) \<and> (q \<longrightarrow> Inl [Failure] = Inr ())"
      using R(1) [OF n(1) removed_part] n(2) by simp
    show "I (keep_below [s] ks n)" by (rule R(2) [OF R(1) [OF n(1) removed_part]])
  qed simp
  show "triple q I (\<lambda>n. R n \<and> (Inr u = Inr () \<longrightarrow> F n) \<and> (q \<longrightarrow> Inr u = Inr ())) (syncDirectory ''.'')
      (\<lambda>a n. R n \<and> (a = Inr () \<longrightarrow> F n) \<and> (q \<longrightarrow> a = Inr ()))" for u
    by (rule t_sure_last [OF obs_syncDirectory, where v = "()"]) (auto simp: dir_there_def R(2))
qed simp

lemma removed_debris: "removed t n n' \<Longrightarrow> no_debris n \<Longrightarrow> no_debris n'"
  unfolding no_debris_def
proof (intro allI impI)
  fix s assume r: "removed t n n'" and n: "\<forall>s. has_prefix s completedPrefix \<longrightarrow> map_of n [s] = None" and s: "has_prefix s completedPrefix"
  have "map_of n' [s] = None \<or> map_of n' [s] = map_of n [s]" using r by (cases "prefix [t] [s]") (auto simp: removed_def)
  then show "map_of n' [s] = None" using n s by auto
qed

text \<open>All targets as they were before, with the transaction still there.\<close>

definition undone :: "digester \<Rightarrow> plan \<Rightarrow> string \<Rightarrow> tree \<Rightarrow> tree \<Rightarrow> bool" where
  "undone h p t n0 n \<longleftrightarrow> whole h p row_before n0 n \<and> (\<exists>x0. all_rows p t n0 x0 (ok_rows h) n)"

lemma undone_removed:
  assumes p: "wf_plan (sha pf) p" and i: "undone (sha pf) p t n0 n" and d: "fst (parseTransactionDirectoryName t transactionPrefix) = plan_digest p"
    and r: "removed t n n'"
  shows "consistent pf p g n0 n'" "map_of n' [t] = None \<Longrightarrow> at_rest pf p n0 n' \<and> whole (sha pf) p row_before n0 n' \<and> no_debris n'"
proof -
  obtain x0 where x0: "all_rows p t n0 x0 (ok_rows (sha pf)) n" and w: "whole (sha pf) p row_before n0 n"
    using i by (auto simp: undone_def)
  have a: "active t n" "no_debris n" using all_rows_active [OF x0] by auto
  have o: "own_key [t]" using a by (simp add: active_def own_key_def)
  have oc: "own_change n n'" by (rule removed_own [OF r o])
  have w': "whole (sha pf) p row_before n0 n'" by (rule whole_own [OF oc p w])
  have nd: "no_debris n'" using removed_debris [OF r a(2)] .
  have "all_rows p t n0 (map_of n' (record_key t)) (ok_rows (sha pf)) n'" if act: "active t n'"
  proof -
    have "row_ok (sha pf) r (map_of n' (target_key r)) (map_of n' (backup_key t (fst r)))" if m: "r \<in> set (rows p)" for r
    proof -
      have y: "map_of n' (backup_key t (fst r)) = None \<or> map_of n' (backup_key t (fst r)) = map_of n (backup_key t (fst r))"
        using r by (auto simp: removed_def backup_key_def)
      have T: "map_of n' (target_key r) = map_of n (target_key r)"
        using oc target_key_not_own [OF p m] by (simp add: own_change_def)
      have f: "is_file (sha pf) (row_before r) (map_of n (target_key r))" using w m by (simp add: whole_def)
      have k: "row_ok (sha pf) r (map_of n (target_key r)) (map_of n (backup_key t (fst r)))"
        using x0 m by (simp add: all_rows_def holds_at_def)
      have "\<not> f_exists (row_before r) \<Longrightarrow> map_of n (backup_key t (fst r)) = None" using k by (auto simp: row_ok_def)
      then show ?thesis using y f by (auto simp: T row_ok_def is_file_def)
    qed
    then show ?thesis using w' nd act by (simp add: all_rows_def in_txn_def holds_at_def whole_def active_def)
  qed
  then show "consistent pf p g n0 n'"
    using removed_active [OF r a(1)] w' d by (auto simp: consistent_def at_rest_def interrupted_def)
  assume "map_of n' [t] = None"
  then have "no_txn n'" using removed_active [OF r a(1)] by (auto simp: active_def)
  then show "at_rest pf p n0 n' \<and> whole (sha pf) p row_before n0 n' \<and> no_debris n'" using w' nd by (simp add: at_rest_def)
qed

lemma undone_consistent:
  "undone (sha pf) p t n0 n \<Longrightarrow> fst (parseTransactionDirectoryName t transactionPrefix) = plan_digest p \<Longrightarrow> consistent pf p g n0 n"
  by (auto simp: undone_def consistent_def interrupted_def)

lemma t_cleanup_before:
  assumes p: "wf_plan (sha pf) p" and C: "\<And>n. consistent pf p g n0 n \<Longrightarrow> I n"
    and t: "txn_name t" "fst (parseTransactionDirectoryName t transactionPrefix) = plan_digest p"
  shows "triple q I (undone (sha pf) p t n0) (cleanupTransaction t)
    (\<lambda>a n. consistent pf p g n0 n \<and> (a = Inr () \<longrightarrow> at_rest pf p n0 n \<and> whole (sha pf) p row_before n0 n \<and> no_debris n) \<and> (q \<longrightarrow> a = Inr ()))"
proof (rule t_cleanup [OF comps_names(1) [OF t(1)]])
  show "I n" if "undone (sha pf) p t n0 n" for n using C undone_consistent [OF that t(2)] by blast
  fix n n' assume a: "undone (sha pf) p t n0 n" "removed t n n'"
  show "consistent pf p g n0 n'" by (rule undone_removed(1) [OF p a(1) t(2) a(2)])
  show "at_rest pf p n0 n' \<and> whole (sha pf) p row_before n0 n' \<and> no_debris n'" if "map_of n' [t] = None"
    by (rule undone_removed(2) [OF p a(1) t(2) a(2) that])
qed (rule C)

lemma t_cleanup_done:
  assumes p: "wf_plan (sha pf) p" and d: "has_prefix d completedPrefix" "CHR ''/'' \<notin> set d"
    and C: "\<And>n. consistent pf p g n0 n \<Longrightarrow> I n"
    and G: "G = row_before \<or> G = row_final"
  shows "triple q I (\<lambda>n. no_txn n \<and> whole (sha pf) p G n0 n \<and> (\<forall>s. has_prefix s completedPrefix \<longrightarrow> s \<noteq> d \<longrightarrow> map_of n [s] = None)) (cleanupTransaction d)
    (\<lambda>a n. (no_txn n \<and> whole (sha pf) p G n0 n) \<and> (a = Inr () \<longrightarrow> no_debris n) \<and> (q \<longrightarrow> a = Inr ()))"
    (is "triple q I ?P _ _")
proof -
  have o: "own_key [d]" using d by (simp add: own_key_def)
  have I: "I n" if "no_txn n \<and> whole (sha pf) p G n0 n" for n
    using C that G by (auto simp: consistent_def at_rest_def)
  have R: "no_txn n' \<and> whole (sha pf) p G n0 n'" if "no_txn n \<and> whole (sha pf) p G n0 n" "removed d n n'" for n n'
    using removed_idle whole_own [OF removed_own [OF _ o] p] that by blast
  show ?thesis
  proof (rule t_post [OF t_cleanup [OF comps_plain [OF d(2)], where P = ?P and I = I and R = "\<lambda>n. no_txn n \<and> whole (sha pf) p G n0 n" and F = no_debris]])
    fix n n' assume a: "?P n" "removed d n n'" "map_of n' [d] = None"
    show "no_debris n'" unfolding no_debris_def
    proof (intro allI impI)
      fix s assume s: "has_prefix s completedPrefix"
      show "map_of n' [s] = None"
      proof (cases "s = d")
        case False
        then have "map_of n' [s] = map_of n [s]" using a(2) by (simp add: removed_def prefix_single)
        then show ?thesis using a(1) s False by simp
      qed (use a(3) in simp)
    qed
  next
    fix n n' assume "?P n" "removed d n n'"
    then show "no_txn n' \<and> whole (sha pf) p G n0 n'" using R by blast
  next
    show "I n" if "?P n" for n using I that by blast
  qed (use I in auto)
qed

text \<open>Removing what a committed transaction left keeps an interrupted one as it is.\<close>

lemma removed_done_consistent:
  assumes p: "wf_plan (sha pf) p" and d: "has_prefix d completedPrefix" and r: "removed d n n'" and c: "consistent pf p g n0 n"
  shows "consistent pf p g n0 n'" "active t n \<Longrightarrow> active t n'" "no_txn n \<Longrightarrow> no_txn n'" "torn pf p g n' \<Longrightarrow> torn pf p g n"
proof -
  have o: "own_key [d]" using d by (simp add: own_key_def)
  note oc = removed_own [OF r o]
  have ne: "d \<noteq> t" if "active t n" for t using that d prefixes_differ by (auto simp: active_def)
  show act: "active t n'" if "active t n" for t using removed_other [OF r ne that] that .
  show "no_txn n'" if "no_txn n" using removed_idle [OF r that] .
  have same: "map_of n' (t # k) = map_of n (t # k)" if "active t n" for t k
    using r ne [OF that] by (simp add: removed_def prefix_single)
  show "torn pf p g n" if tn: "torn pf p g n'"
  proof -
    obtain t where t: "active t n'" "map_of n' (record_key t) \<noteq> None" "\<not> journalled pf p g (map_of n' (record_key t))"
      using tn by (auto simp: torn_def)
    have "no_txn n \<or> (\<exists>t. active t n)" using c interrupted_active unfolding consistent_def at_rest_def by blast
    then obtain t' where t': "active t' n" using t(1) removed_idle [OF r] idle_not_active by blast
    then have "t' = t" using active_unique [OF act t(1)] by blast
    then show ?thesis using t t' same [OF t'] by (auto simp: torn_def record_key_def)
  qed
  show "consistent pf p g n0 n'"
    using c unfolding consistent_def
  proof
    assume "at_rest pf p n0 n"
    then show "at_rest pf p n0 n' \<or> (\<exists>t. interrupted pf p g t n0 n')"
      using removed_idle [OF r] whole_own [OF oc p] by (auto simp: at_rest_def)
  next
    assume "\<exists>t. interrupted pf p g t n0 n"
    then obtain t where t: "interrupted pf p g t n0 n" ..
    then have a: "active t n" using interrupted_active by blast
    have nd: "no_debris n'" if "no_debris n" using removed_debris [OF r that] .
    have "all_rows p t n0 x0 (ok_rows (sha pf)) n'" if "all_rows p t n0 x0 (ok_rows (sha pf)) n" for x0
    proof -
      have "map_of n' (target_key r) = map_of n (target_key r)" if "r \<in> set (rows p)" for r
        using oc target_key_not_own [OF p that] by (simp add: own_change_def)
      then show ?thesis using that base_own [OF oc p] same [OF a] nd act [OF a]
        by (simp add: all_rows_def in_txn_def holds_at_def record_key_def backup_key_def content_key_def)
    qed
    then have "interrupted pf p g t n0 n'"
      using t whole_own [OF oc p] by (auto simp: interrupted_def)
    then show "at_rest pf p n0 n' \<or> (\<exists>t. interrupted pf p g t n0 n')" by blast
  qed
qed

subsection \<open>The durable decision\<close>

lemma map_of_move_other:
  assumes "\<not> prefix a k" and "\<not> prefix b k"
  shows "map_of (move_tree a b n) k = map_of n k"
proof -
  have "map_of (map (\<lambda>(k, x). (if prefix a k then b @ drop (length a) k else k, x)) m) k = map_of m k" for m :: tree
    using assms by (induction m) (auto simp: prefix_def)
  then have "map_of (move_tree a b n) k = map_of (AList.delete b n) k" by (simp add: move_tree_def)
  then show ?thesis using assms by auto
qed

lemma map_of_move_gone:
  assumes "prefix a k" and "\<not> prefix b k"
  shows "map_of (move_tree a b n) k = None"
proof -
  have "map_of (map (\<lambda>(k, x). (if prefix a k then b @ drop (length a) k else k, x)) m) k = None" for m :: tree
  proof (induction m)
    case (Cons e m)
    obtain k' x where e: "e = (k', x)" by (cases e)
    have "k \<noteq> (if prefix a k' then b @ drop (length a) k' else k')" using assms by auto
    then show ?case using Cons by (simp add: e)
  qed simp
  then show ?thesis by (simp add: move_tree_def)
qed

lemma map_of_move_root:
  assumes "a \<noteq> b" and "\<not> prefix a b"
  shows "map_of (move_tree a b n) b = map_of n a"
proof -
  have "map_of (map (\<lambda>(k, x). (if prefix a k then b @ drop (length a) k else k, x)) m) b = map_of m a"
    if "b \<notin> fst ` set m" for m :: tree
    using that
  proof (induction m)
    case (Cons e m)
    then show ?case
    proof (cases e)
      case (Pair k x)
      have "b @ drop (length a) k = b \<longleftrightarrow> k = a" if "prefix a k"
        using that by (auto simp: prefix_def)
      then show ?thesis using Cons Pair assms by auto
    qed
  qed simp
  moreover have "b \<notin> fst ` set (AList.delete b n)" by (simp add: delete_keys flip: set_map)
  ultimately have "map_of (move_tree a b n) b = map_of (AList.delete b n) a" unfolding move_tree_def by blast
  then show ?thesis using assms by simp
qed

definition done_name :: "string \<Rightarrow> string" where
  "done_name t = completedPrefix @ trim_prefix t transactionPrefix"

lemma done_name_facts:
  assumes "well_named t" and "has_prefix t transactionPrefix"
  shows "well_named (done_name t)" "has_prefix (done_name t) completedPrefix" "\<not> has_prefix (done_name t) transactionPrefix"
    "CHR ''/'' \<notin> set (done_name t)" "done_name t \<noteq> t"
proof -
  show d: "has_prefix (done_name t) completedPrefix" by (simp add: done_name_def)
  then show nt: "\<not> has_prefix (done_name t) transactionPrefix" using prefixes_differ by blast
  have "trim_prefix (done_name t) completedPrefix = trim_prefix t transactionPrefix"
    by (simp add: done_name_def trim_prefix_def)
  then have "parseTransactionDirectoryName (done_name t) completedPrefix = parseTransactionDirectoryName t transactionPrefix"
    using assms(2) d by (simp add: parseTransactionDirectoryName_def)
  then show w: "well_named (done_name t)" using assms nt by (simp add: well_named_def)
  show "CHR ''/'' \<notin> set (done_name t)" by (rule well_named_plain [OF w]) (simp add: own_key_def d)
  show "done_name t \<noteq> t" using nt assms(2) by auto
qed

lemma moved_idle:
  assumes a: "active t n" and d: "no_debris n" and n': "n' = move_tree [t] [done_name t] n"
  shows "no_txn n'" "own_change n n'" "\<And>s. has_prefix s completedPrefix \<Longrightarrow> s \<noteq> done_name t \<Longrightarrow> map_of n' [s] = None"
proof -
  have t: "well_named t" "has_prefix t transactionPrefix" "map_of n [t] = Some Dir"
    using a by (auto simp: active_def names_ok_def own_key_def dest: spec [of _ "[t]"])
  note D = done_name_facts [OF t(1,2)]
  have other: "map_of n' k = map_of n k" if "\<not> prefix [t] k" "\<not> prefix [done_name t] k" for k
    unfolding n' by (rule map_of_move_other [OF that])
  have gone: "map_of n' k = None" if "prefix [t] k" for k
  proof -
    have "\<not> prefix [done_name t] k" using that D(5) by (auto simp: prefix_single)
    then show ?thesis unfolding n' using map_of_move_gone that by blast
  qed
  have root: "map_of n' [done_name t] = Some Dir"
    unfolding n' using map_of_move_root [of "[t]" "[done_name t]" n] D(5) t(3) by auto
  show "map_of n' [s] = None" if s: "has_prefix s completedPrefix" "s \<noteq> done_name t" for s
  proof -
    have "s \<noteq> t" using s(1) t(2) prefixes_differ by blast
    then have "map_of n' [s] = map_of n [s]" using s(2) by (intro other) auto
    then show ?thesis using d s(1) by (simp add: no_debris_def)
  qed
  show "own_change n n'" unfolding own_change_def
  proof (intro allI impI)
    fix k assume k: "\<not> own_key k"
    have "\<not> prefix [t] k" "\<not> prefix [done_name t] k"
      using k t(2) D(2) by (auto simp: prefix_single own_key_def)
    then show "map_of n' k = map_of n k" by (rule other)
  qed
  have "names_ok n'" unfolding names_ok_def
  proof (intro allI impI)
    fix k assume k: "own_key k" "map_of n' k \<noteq> None"
    then have ne: "k \<noteq> []" "\<not> prefix [t] k" using gone by (auto simp: own_key_def)
    show "map_of n' [hd k] = Some Dir \<and> well_named (hd k)"
    proof (cases "prefix [done_name t] k")
      case True
      then show ?thesis using root D(1) by (simp add: prefix_single)
    next
      case False
      then have "map_of n k \<noteq> None" "map_of n' [hd k] = map_of n [hd k]"
        using other ne k(2) by (auto simp: prefix_single)
      then show ?thesis using a k(1) by (auto simp: active_def names_ok_def)
    qed
  qed
  moreover have "map_of n' [s] = None" if s: "has_prefix s transactionPrefix" for s
  proof (cases "s = t")
    case True then show ?thesis using gone by simp
  next
    case False
    then have "map_of n' [s] = map_of n [s]" using s D(3) by (intro other) auto
    then show ?thesis using a s False by (auto simp: active_def)
  qed
  ultimately show "no_txn n'" by (simp add: no_txn_def)
qed

lemma t_finalize:
  assumes p: "wf_plan (sha pf) p" and t: "txn_name t"
    and C: "\<And>n. consistent pf p g n0 n \<Longrightarrow> I n"
  shows "triple q I (\<lambda>n. interrupted pf p g t n0 n \<and> whole (sha pf) p row_final n0 n) (finalizeTransaction t)
    (\<lambda>a n. consistent pf p g n0 n \<and> whole (sha pf) p row_final n0 n \<and> (a = Inr () \<longrightarrow> no_txn n \<and> no_debris n) \<and> (q \<longrightarrow> a = Inr ()))"
    (is "triple q I ?P _ ?Q")
proof (cases "\<exists>n. ?P n")
  case False
  then have "?P n \<Longrightarrow> False" for n by blast
  then show ?thesis by (auto intro: t_pre [OF t_false])
next
  case True
  let ?F = "\<lambda>n. no_txn n \<and> whole (sha pf) p row_final n0 n
    \<and> (\<forall>s. has_prefix s completedPrefix \<longrightarrow> s \<noteq> done_name t \<longrightarrow> map_of n [s] = None)"
  have pre: "has_prefix t transactionPrefix" using t by (simp add: txn_name_def)
  obtain n1 where "active t n1" using True interrupted_active by blast
  then have w: "well_named t" by (auto simp: active_def names_ok_def own_key_def dest: spec [of _ "[t]"])
  note D = done_name_facts [OF w pre]
  have Cp: "consistent pf p g n0 n" if "?P n" for n using that by (auto simp: consistent_def)
  have CF: "consistent pf p g n0 n" if "?F n" for n using that by (auto simp: consistent_def at_rest_def)
  have e: "rename_nodes [t] [done_name t] n = Inr ((), move_tree [t] [done_name t] n)" if "?P n" for n
  proof -
    have n: "map_of n [t] = Some Dir" "names_ok n" "map_of n [done_name t] = None"
      using interrupted_active [of pf p g t n0 n] that D(2) by (auto simp: active_def no_debris_def)
    have "\<not> has_members n [done_name t]"
    proof
      assume "has_members n [done_name t]"
      then obtain k where k: "k \<in> fst ` set n" "strict_prefix [done_name t] k" by (force simp: has_members_def list_ex_iff)
      then have "map_of n k \<noteq> None" by (simp add: map_of_eq_None_iff)
      moreover have "own_key k" "hd k = done_name t" using k(2) D(2) by (auto simp: strict_prefix_def prefix_single own_key_def)
      ultimately show False using n(2,3) by (auto simp: names_ok_def)
    qed
    then show ?thesis using n D(5) by (simp add: rename_nodes_def parent_ok_def)
  qed
  have mv: "?F (move_tree [t] [done_name t] n)" if "?P n" for n
    using that moved_idle [of t n] whole_own [OF _ p] interrupted_active [of pf p g t n0 n] by auto
  have rn: "triple q I ?P (rename t (done_name t)) (\<lambda>a n. a = Inr () \<and> ?F n \<or> \<not> q \<and> a = Inl [Failure] \<and> ?P n)"
    unfolding rename_def comps_names(1) [OF t] comps_plain [OF D(4)]
    by (rule t_sys) (use e mv C Cp in \<open>auto simp: untouched_def\<close>)
  have cl: "triple q I ?F (cleanupTransaction (done_name t)) ?Q"
    by (rule t_post [OF t_cleanup_done [OF p D(2,4) C, where G = row_final]]) (auto simp: consistent_def at_rest_def)
  have sy: "triple q I ?F (attempt (syncDirectory ''.'') (\<lambda>_. cleanupTransaction (done_name t))) ?Q"
    by (rule t_sure [OF obs_syncDirectory, where v = "()"]) (use C CF cl in \<open>auto simp: dir_there_def\<close>)
  show ?thesis
    unfolding finalizeTransaction_def Let_def done_name_def [symmetric]
    using pre Cp by (simp, intro t_does [OF rn _ sy]) auto
qed

subsection \<open>Checking the journal\<close>

lemma t_check_rows:
  assumes p: "wf_plan h p" and t: "txn_name t"
    and I: "\<And>n. all_rows p t n0 x0 (ok_rows h) n \<Longrightarrow> I n" and rs: "set rs \<subseteq> set (rows p)"
  shows "triple q I (all_rows p t n0 x0 (ok_rows h)) (check_rows h t rs)
    (\<lambda>a n. all_rows p t n0 x0 (ok_rows h) n \<and> (q \<longrightarrow> \<not> isl a))" (is "triple q I ?P _ ?Q")
  using rs
proof (induction rs)
  case Nil
  show ?case by (auto intro!: t_ret)
next
  case (Cons r rs)
  obtain i c b f where r: "r = (i, c, b, f)" by (cases r)
  have m: "r \<in> set (rows p)" using Cons.prems by simp
  have IH: "triple q I ?P (check_rows h t rs) ?Q" using Cons by simp
  have more: "triple q I ?P (attempt (check_rows h t rs) (\<lambda>fs. ret (Inr (y # fs)))) ?Q" for y
    by (rule t_attempt [OF IH]) (auto intro!: t_ret)
  have inn: "in_txn p t n0 x0 n" if "?P n" for n using that by (simp add: all_rows_def)
  have ok: "row_ok h r (map_of n (target_key r)) (map_of n (backup_key t i))" if "?P n" for n
    using that m by (auto simp: all_rows_def holds_at_def r)
  have cap: "fstate h (change_path c) n = Inr (file_at h (change_path c) (map_of n (target_key r)))" if "?P n" for n
    by (rule fstate_target [OF p m r inn [OF that] row_ok_file [OF ok [OF that]]])
  have facts: "file_at h (change_path c) (map_of n (target_key r)) = b \<longleftrightarrow> is_file h b (map_of n (target_key r))"
    "file_at h (change_path c) (map_of n (target_key r)) = f \<longleftrightarrow> is_file h f (map_of n (target_key r))"
    "f_exists (file_at h (change_path c) (map_of n (target_key r))) \<longleftrightarrow> map_of n (target_key r) \<noteq> None" if "?P n" for n
    using file_at_before(1-3) [OF p m r row_ok_file [OF ok [OF that]]] by auto
  have nb: "is_file h b None \<longleftrightarrow> \<not> f_exists b"
    using file_at_before(4) [OF p m r, of None] by (simp add: file_or_none_def)
  have bkp: "triple q I (\<lambda>n. ?P n \<and> fstate h (change_path c) n = Inr x) (attempt (verifyEquivalentFile h (backup_name t i) b)
      (\<lambda>_. attempt (check_rows h t rs) (\<lambda>fs. ret (Inr (x # fs))))) ?Q" if "f_exists b" "x \<noteq> b" for x
  proof (rule t_sure [OF obs_same_copy, where v = "()"])
    fix n assume n: "?P n \<and> fstate h (change_path c) n = Inr x"
    then have "copy_of h b (map_of n (backup_key t i))"
      using ok [of n] cap [of n] facts(1) [of n] that by (auto simp: row_ok_def r)
    then show "same_copy h (backup_name t i) b n = Inr ()" using backup_checked(1) [OF t inn] n by blast
    show "I n" using I n by blast
  next
    show "triple q I (\<lambda>n. ?P n \<and> fstate h (change_path c) n = Inr x) (attempt (check_rows h t rs) (\<lambda>fs. ret (Inr (x # fs)))) ?Q"
      by (rule t_pre [OF more]) auto
  qed auto
  have nobkp: "triple q I (\<lambda>n. ?P n \<and> fstate h (change_path c) n = Inr x) (attempt (inspectPath (backup_name t i))
      (\<lambda>missing. if \<not> missing then ret (Inl [Failure]) else attempt (check_rows h t rs) (\<lambda>fs. ret (Inr (x # fs))))) ?Q"
    if "\<not> f_exists b" for x
  proof (rule t_sure [OF obs_inspectPath, where v = True])
    fix n assume n: "?P n \<and> fstate h (change_path c) n = Inr x"
    have "map_of n (backup_key t i) = None" using ok [of n] n that by (auto simp: row_ok_def r)
    moreover have "reach n (comps (backup_name t i))"
      using txn_reach inn [of n] n comps_names(2) [OF t] by (simp add: in_txn_def backup_key_def)
    ultimately show "inspect_pure n [] (comps (backup_name t i)) = Inr True"
      using inspectPath_reach [of n "backup_name t i"] comps_names(2) [OF t] by simp
    show "I n" using I n by blast
  next
    show "triple q I (\<lambda>n. ?P n \<and> fstate h (change_path c) n = Inr x) (if \<not> True then ret (Inl [Failure]) else attempt (check_rows h t rs) (\<lambda>fs. ret (Inr (x # fs)))) ?Q"
      by (simp, rule t_pre [OF more]) auto
  qed auto
  have body: "triple q I (\<lambda>n. ?P n \<and> fstate h (change_path c) n = Inr x)
     (let more = attempt (check_rows h t rs) (\<lambda>fs. ret (Inr (x # fs))) in
       if f_exists b then
         (if x = b then more
          else if x \<noteq> f \<and> f_exists x then ret (Inl [Failure])
          else attempt (verifyEquivalentFile h (backup_name t i) b) (\<lambda>_. more))
       else if x \<noteq> b \<and> x \<noteq> f then ret (Inl [Failure])
       else attempt (inspectPath (backup_name t i)) (\<lambda>missing.
         if \<not> missing then ret (Inl [Failure]) else more)) ?Q" for x
  proof -
    have bad: "\<not> (?P n \<and> fstate h (change_path c) n = Inr x)"
      if "f_exists b \<and> x \<noteq> b \<and> x \<noteq> f \<and> f_exists x \<or> \<not> f_exists b \<and> x \<noteq> b \<and> x \<noteq> f" for n
      using that ok [of n] cap [of n] facts [of n] by (auto simp: row_ok_def r)
    have 1: "triple q I (\<lambda>n. ?P n \<and> fstate h (change_path c) n = Inr x) (ret (Inl [Failure])) ?Q"
      if "f_exists b \<and> x \<noteq> b \<and> x \<noteq> f \<and> f_exists x \<or> \<not> f_exists b \<and> x \<noteq> b \<and> x \<noteq> f"
      using bad [OF that] by (auto simp: triple_def)
    have 2: "triple q I (\<lambda>n. ?P n \<and> fstate h (change_path c) n = Inr x) (attempt (check_rows h t rs) (\<lambda>fs. ret (Inr (x # fs)))) ?Q"
      by (rule t_pre [OF more]) auto
    show ?thesis unfolding Let_def using 1 2 bkp [of x] nobkp [of x]
      by (cases "f_exists b"; cases "x = b"; cases "x = f"; cases "f_exists x") (simp_all only: simp_thms if_True if_False)
  qed
  show ?case unfolding r check_rows.simps
    apply (rule t_sure [OF obs_ctx], use I in blast, simp, simp)
    apply (rule t_obs_attempt [OF obs_captureFile], use I in blast)
    subgoal for n e using cap [of n] by auto
    subgoal for x by (rule body)
    done
qed

subsection \<open>Recovery\<close>

lemma interruptedI:
  "all_rows p t n0 x0 (ok_rows (sha pf)) n \<Longrightarrow> journalled pf p g x0 \<or> whole (sha pf) p row_before n0 n
    \<Longrightarrow> fst (parseTransactionDirectoryName t transactionPrefix) = plan_digest p \<Longrightarrow> interrupted pf p g t n0 n"
  by (auto simp: interrupted_def)

lemma restored_undone:
  assumes "all_rows p t n0 x0 (restored h []) n"
  shows "undone h p t n0 n"
proof -
  have "all_rows p t n0 x0 (ok_rows h) n" by (rule all_rows_mono [OF assms]) (simp add: restored_def)
  moreover have "whole h p row_before n0 n"
    using assms by (auto simp: whole_def all_rows_def in_txn_def holds_at_def restored_def)
  ultimately show ?thesis by (auto simp: undone_def)
qed

lemma t_rollback_prepared:
  assumes p: "wf_plan (sha pf) p" and t: "txn_name t" and n0: "ready (sha pf) p n0" and rc: "journalled pf p g x0"
    and C: "\<And>n. consistent pf p g n0 n \<Longrightarrow> I n"
    and d: "fst (parseTransactionDirectoryName t transactionPrefix) = plan_digest p"
  shows "triple q I (all_rows p t n0 x0 (ok_rows (sha pf))) (rollbackPreparedTransaction (sha pf) t p)
    (\<lambda>a n. consistent pf p g n0 n \<and> (a = Inr () \<longrightarrow> at_rest pf p n0 n \<and> whole (sha pf) p row_before n0 n \<and> no_debris n) \<and> (q \<longrightarrow> a = Inr ()))"
    (is "triple q I ?P _ ?Q")
proof -
  let ?h = "sha pf"
  have Cn: "consistent pf p g n0 n" if "?P n" for n using interruptedI [OF that _ d] rc by (auto simp: consistent_def)
  have CI: "I n" if "?P n" for n using C Cn that by blast
  have SP: "?P n" if "all_rows p t n0 x0 (restored ?h []) n" for n
    by (rule all_rows_mono [OF that]) (simp add: restored_def)
  note g0 = wf_planD(12) [OF p]
  have 1: "triple q I (all_rows p t n0 x0 (restored ?h [])) (cleanupTransaction t) ?Q"
    by (rule t_pre [OF t_cleanup_before [OF p C t d]]) (auto intro: restored_undone)
  have 2: "triple q I (all_rows p t n0 x0 (restored ?h [])) (attempt (capturePlanFiles ?h p) (\<lambda>fs.
       if digestFiles ?h fs \<noteq> before_digest p then ret (Inl [Failure])
       else attempt (removeRecoveredDirectories p) (\<lambda>_. attempt (verifyDirectoryGuards p False) (\<lambda>_. cleanupTransaction t)))) ?Q"
  proof (rule t_sure [OF obs_capturePlanFiles, where v = "before_files p"])
    fix n assume s: "all_rows p t n0 x0 (restored ?h []) n"
    then have w: "whole ?h p row_before n0 n" using restored_undone by (auto simp: undone_def)
    then have "base p n0 n" by (simp add: whole_def)
    then show "fstates ?h (targets p) n = Inr (before_files p)"
      using whole_fstates [OF p, of n0 n row_before] w by (simp add: rows_before [OF p])
    show "I n" by (rule CI [OF SP [OF s]])
    show "?Q (Inl e) n" if "\<not> q" for e using Cn [OF SP [OF s]] that by simp
  next
    show "triple q I (all_rows p t n0 x0 (restored ?h [])) (if digestFiles ?h (before_files p) \<noteq> before_digest p then ret (Inl [Failure])
       else attempt (removeRecoveredDirectories p) (\<lambda>_. attempt (verifyDirectoryGuards p False) (\<lambda>_. cleanupTransaction t))) ?Q"
      using 1 wf_planD(3) [OF p] g0 by (simp add: removeRecoveredDirectories_def)
  qed
  have 3: "triple q I ?P (attempt (restore_rows ?h t (rev (rows p))) (\<lambda>_. attempt (capturePlanFiles ?h p) (\<lambda>fs.
       if digestFiles ?h fs \<noteq> before_digest p then ret (Inl [Failure])
       else attempt (removeRecoveredDirectories p) (\<lambda>_. attempt (verifyDirectoryGuards p False) (\<lambda>_. cleanupTransaction t))))) ?Q"
  proof (rule t_attempt)
    have dr: "distinct (rev (rows p))" by (simp add: rows_def distinct_zipI1)
    show "triple q I ?P (restore_rows ?h t (rev (rows p)))
      (\<lambda>a n. ?P n \<and> (a = Inr () \<longrightarrow> all_rows p t n0 x0 (restored ?h []) n) \<and> (q \<longrightarrow> a = Inr ()))"
    proof (rule t_pre [OF t_restore_rows [OF p t n0 CI _ dr]])
      show "all_rows p t n0 x0 (restored ?h (rev (rows p))) n" if "?P n" for n
        by (rule all_rows_mono [OF that]) (simp add: restored_def)
      show "set (rev (rows p)) \<subseteq> set (rows p)" unfolding set_rev by (rule order_refl)
    qed auto
    show "?Q (Inl e) n" if "?P n \<and> (Inl e = Inr () \<longrightarrow> all_rows p t n0 x0 (restored ?h []) n) \<and> (q \<longrightarrow> Inl e = Inr ())" for e n
      using that Cn by simp
  qed (auto intro: t_pre [OF 2])
  show ?thesis unfolding rollbackPreparedTransaction_def verifyRecoverableDirectories_def
  proof (rule t_attempt)
    show "triple q I ?P (check_rows ?h t (rows p)) (\<lambda>a n. ?P n \<and> (q \<longrightarrow> \<not> isl a))"
      by (rule t_check_rows [OF p t CI]) simp_all
    show "?Q (Inl e) n" if "?P n \<and> (q \<longrightarrow> \<not> isl (Inl e))" for e n using that Cn by simp
    show "triple q I (\<lambda>n. ?P n \<and> (q \<longrightarrow> \<not> isl (Inr x))) (attempt (verify_recoverable (guards p) x) (\<lambda>_.
       attempt (restore_rows ?h t (rev (rows p))) (\<lambda>_. attempt (capturePlanFiles ?h p) (\<lambda>fs.
       if digestFiles ?h fs \<noteq> before_digest p then ret (Inl [Failure])
       else attempt (removeRecoveredDirectories p) (\<lambda>_. attempt (verifyDirectoryGuards p False) (\<lambda>_. cleanupTransaction t)))))) ?Q" for x
      using 3 by (simp add: g0)
  qed
qed

lemma t_recover_prepared:
  assumes p: "wf_plan (sha pf) p" and t: "txn_name t" and n0: "ready (sha pf) p n0" and rc: "journalled pf p g x0"
    and cf: "collision_free (sha pf) p"
    and C: "\<And>n. consistent pf p g n0 n \<Longrightarrow> I n"
    and d: "fst (parseTransactionDirectoryName t transactionPrefix) = plan_digest p"
  shows "triple q I (all_rows p t n0 x0 (ok_rows (sha pf))) (recoverPreparedTransaction (sha pf) t p)
    (\<lambda>a n. consistent pf p g n0 n \<and> (a = Inr () \<longrightarrow> at_rest pf p n0 n \<and> no_debris n) \<and> (q \<longrightarrow> a = Inr ()))"
    (is "triple q I ?P _ ?Q")
proof -
  let ?h = "sha pf"
  have Cn: "consistent pf p g n0 n" if "?P n" for n using interruptedI [OF that _ d] rc by (auto simp: consistent_def)
  have CI: "I n" if "?P n" for n using C Cn that by blast
  note g0 = wf_planD(12) [OF p]
  show ?thesis unfolding recoverPreparedTransaction_def
  proof (rule t_obs_andthen [OF obs_classifyState [OF g0]])
    show "I n" if "?P n" for n using CI that .
    fix st
    show "triple q I (\<lambda>n. ?P n \<and> plan_state ?h p n = Inr st) (case Inr st of Inr stateBefore \<Rightarrow> cleanupTransaction t
        | Inr stateFinal \<Rightarrow> finalizeTransaction t | Inl e \<Rightarrow> if ErrChanged \<notin> set e then ret (Inl (ErrRecovery # e))
         else wrapping [ErrRecovery] (rollbackPreparedTransaction ?h t p)) ?Q"
    proof (cases st)
      case stateBefore
      have "triple q I (\<lambda>n. ?P n \<and> plan_state ?h p n = Inr stateBefore) (cleanupTransaction t) ?Q"
        by (rule t_weaken [OF t_cleanup_before [OF p C t d]])
          (use plan_state_whole(2) [OF p cf all_rows_base] in \<open>auto simp: undone_def\<close>)
      then show ?thesis by (simp add: stateBefore)
    next
      case stateFinal
      have "triple q I (\<lambda>n. ?P n \<and> plan_state ?h p n = Inr stateFinal) (finalizeTransaction t) ?Q"
      proof (rule t_weaken [OF t_finalize [OF p t C]])
        fix n assume n: "?P n \<and> plan_state ?h p n = Inr stateFinal"
        then have "whole ?h p row_final n0 n" using plan_state_whole(1) [OF p cf] all_rows_base by blast
        then show "interrupted pf p g t n0 n \<and> whole ?h p row_final n0 n"
          using interruptedI [OF _ _ d] rc n by blast
      qed (auto simp: at_rest_def)
      then show ?thesis by (simp add: stateFinal)
    qed
  next
    fix e
    let ?R = "\<lambda>n. ?P n \<and> (plan_state ?h p n = Inl e \<or> \<not> q \<and> Failure \<in> set e)"
    have err: "ErrChanged \<in> set e" if "plan_state ?h p n = Inl e" for n
      using that by (auto simp: plan_state_def split: sum.splits if_splits)
    have "triple q I ?R (ret (Inl (ErrRecovery # e))) ?Q" if "ErrChanged \<notin> set e"
      using that err Cn by (intro t_ret) auto
    moreover have "triple q I ?R (wrapping [ErrRecovery] (rollbackPreparedTransaction ?h t p)) ?Q"
    proof (rule t_wrapping)
      show "triple q I ?R (rollbackPreparedTransaction ?h t p)
        (\<lambda>a n. consistent pf p g n0 n \<and> (a = Inr () \<longrightarrow> at_rest pf p n0 n \<and> whole ?h p row_before n0 n \<and> no_debris n) \<and> (q \<longrightarrow> a = Inr ()))"
        by (rule t_pre [OF t_rollback_prepared [OF p t n0 rc C d]]) auto
    qed auto
    ultimately show "triple q I ?R (case Inl e of Inr stateBefore \<Rightarrow> cleanupTransaction t
        | Inr stateFinal \<Rightarrow> finalizeTransaction t | Inl e \<Rightarrow> if ErrChanged \<notin> set e then ret (Inl (ErrRecovery # e))
         else wrapping [ErrRecovery] (rollbackPreparedTransaction ?h t p)) ?Q" by simp
  qed
qed

subsection \<open>The scan of the root\<close>

lemma root_names: "set (map fst (root_entries n)) = {s. map_of n [s] \<noteq> None}" "distinct (map fst (root_entries n))"
proof -
  have m: "map fst (root_entries n) = sort (remdups (map (hd \<circ> fst) (filter (\<lambda>(k, _). length k = 1) n)))"
    by (simp add: root_entries_def comp_def)
  show "distinct (map fst (root_entries n))" unfolding m by simp
  show "set (map fst (root_entries n)) = {s. map_of n [s] \<noteq> None}" unfolding m
    by (auto simp: map_of_eq_None_iff length_Suc_conv image_iff) force+
qed

lemma root_flags: "(s, b) \<in> set (root_entries n) \<Longrightarrow> b = (map_of n [s] = Some Dir)"
  by (auto simp: root_entries_def)

lemma obs_readRootDirectory: "observes readRootDirectory (\<lambda>n. Inr (root_entries n))"
  unfolding readRootDirectory_def by (rule obs_eq, rule obs_attempt [OF obs_probes obs_look]) simp

text \<open>The state the scan works in: a consistent one with the same transaction as at first.\<close>

definition scanned :: "platform \<Rightarrow> plan \<Rightarrow> gate option \<Rightarrow> tree \<Rightarrow> string option \<Rightarrow> bool \<Rightarrow> tree \<Rightarrow> bool" where
  "scanned pf p g n0 t tn n \<longleftrightarrow> consistent pf p g n0 n \<and> (torn pf p g n \<longrightarrow> tn)
     \<and> (case t of None \<Rightarrow> no_txn n | Some t \<Rightarrow> active t n)"

lemma t_scan:
  assumes p: "wf_plan (sha pf) p" and C: "\<And>n. consistent pf p g n0 n \<Longrightarrow> I n"
    and es: "\<And>s b. (s, b) \<in> set es \<Longrightarrow> own_key [s] \<Longrightarrow> b \<and> well_named s"
  shows "triple q I (\<lambda>n. scanned pf p g n0 t tn n \<and> (\<forall>s. has_prefix s completedPrefix \<longrightarrow> map_of n [s] \<noteq> None \<longrightarrow> s \<in> fst ` set es)) (scan_entries es)
    (\<lambda>a n. scanned pf p g n0 t tn n \<and> (q \<longrightarrow> \<not> isl a)
       \<and> (\<forall>ts. a = Inr ts \<longrightarrow> no_debris n \<and> ts = filter (\<lambda>s. has_prefix s transactionPrefix) (map fst es)))"
  using es
proof (induction es)
  case Nil
  show ?case by (auto intro!: t_ret simp: no_debris_def)
next
  case (Cons e es)
  obtain s b where e: "e = (s, b)" by (cases e)
  let ?P = "\<lambda>es n. scanned pf p g n0 t tn n \<and> (\<forall>s. has_prefix s completedPrefix \<longrightarrow> map_of n [s] \<noteq> None \<longrightarrow> s \<in> fst ` set es)"
  let ?Q = "\<lambda>es a n. scanned pf p g n0 t tn n \<and> (q \<longrightarrow> \<not> isl a)
       \<and> (\<forall>ts. a = Inr ts \<longrightarrow> no_debris n \<and> ts = filter (\<lambda>s. has_prefix s transactionPrefix) (map fst es))"
  have IH: "triple q I (?P es) (scan_entries es) (?Q es)" by (rule Cons.IH) (use Cons.prems in auto)
  have CI: "I n" if "scanned pf p g n0 t tn n" for n using that C by (simp add: scanned_def)
  have own: "own_key [s] \<Longrightarrow> b \<and> well_named s" using Cons.prems e by auto
  show ?case unfolding e scan_entries.simps
  proof (rule t_sure [OF obs_ctx])
    show "I n" if "?P ((s, b) # es) n" for n using that CI by blast
    show "triple q I (?P ((s, b) # es)) (if has_prefix s completedPrefix then
       (if \<not> snd (parseTransactionDirectoryName s completedPrefix) \<or> \<not> b then ret (Inl [ErrRecovery])
        else attempt (wrapping [ErrRecovery] (cleanupTransaction s)) (\<lambda>_. scan_entries es))
     else if has_prefix s transactionPrefix then
       (if \<not> snd (parseTransactionDirectoryName s transactionPrefix) \<or> \<not> b then ret (Inl [ErrRecovery])
        else attempt (scan_entries es) (\<lambda>ts. ret (Inr (s # ts))))
     else scan_entries es) (?Q ((s, b) # es))"
    proof (cases "has_prefix s completedPrefix")
      case True
      have o: "own_key [s]" by (simp add: own_key_def True)
      then have w: "well_named s" "b" using own by auto
      then have v: "snd (parseTransactionDirectoryName s completedPrefix)" using True by (simp add: well_named_def)
      have nt: "\<not> has_prefix s transactionPrefix" using True prefixes_differ by blast
      have keep: "scanned pf p g n0 t tn n'" if "scanned pf p g n0 t tn n" "removed s n n'" for n n'
        using that removed_done_consistent [OF p True that(2), of g n0] by (auto simp: scanned_def split: option.splits)
      have "triple q I (?P ((s, b) # es)) (cleanupTransaction s) (\<lambda>a n. scanned pf p g n0 t tn n \<and> (a = Inr () \<longrightarrow> ?P es n) \<and> (q \<longrightarrow> a = Inr ()))"
      proof (rule t_cleanup [OF comps_plain [OF well_named_plain [OF w(1) o]]])
        fix n n' assume a: "?P ((s, b) # es) n" "removed s n n'"
        show "scanned pf p g n0 t tn n'" using keep a by blast
        assume g: "map_of n' [s] = None"
        have "q' \<in> fst ` set es" if q: "has_prefix q' completedPrefix" "map_of n' [q'] \<noteq> None" for q'
        proof -
          have "q' \<noteq> s" using g q(2) by auto
          then have "map_of n' [q'] = map_of n [q']" using a(2) by (simp add: removed_def prefix_single)
          then show ?thesis using a(1) q \<open>q' \<noteq> s\<close> by auto
        qed
        then show "?P es n'" using a keep by blast
      qed (use CI in auto)
      then have "triple q I (?P ((s, b) # es)) (wrapping [ErrRecovery] (cleanupTransaction s)) (\<lambda>a n. scanned pf p g n0 t tn n \<and> (a = Inr () \<longrightarrow> ?P es n) \<and> (q \<longrightarrow> \<not> isl a))"
        by (rule t_wrapping) auto
      then have "triple q I (?P ((s, b) # es)) (attempt (wrapping [ErrRecovery] (cleanupTransaction s)) (\<lambda>_. scan_entries es)) (?Q ((s, b) # es))"
        by (rule t_attempt) (use nt in \<open>auto intro!: t_weaken [OF IH]\<close>)
      then show ?thesis using True v w by simp
    next
      case nd: False
      have P: "?P es n" if "?P ((s, b) # es) n" for n using that nd by auto
      show ?thesis
      proof (cases "has_prefix s transactionPrefix")
        case True
        have o: "own_key [s]" by (simp add: own_key_def True)
        then have w: "well_named s" "b" using own by auto
        then have v: "snd (parseTransactionDirectoryName s transactionPrefix)" using True by (simp add: well_named_def)
        have "triple q I (?P ((s, b) # es)) (attempt (scan_entries es) (\<lambda>ts. ret (Inr (s # ts)))) (?Q ((s, b) # es))"
          by (rule t_attempt [OF t_pre [OF IH P]]) (auto intro!: t_ret simp: True)
        then show ?thesis using nd True v w by simp
      next
        case False
        have "triple q I (?P ((s, b) # es)) (scan_entries es) (?Q ((s, b) # es))"
          by (rule t_weaken [OF IH P]) (auto simp: False)
        then show ?thesis using nd False by simp
      qed
    qed
  qed (use CI in auto)
qed

end
