(* ===== verification/Workspace_Restart.thy ===== *)
theory Workspace_Restart
  imports Workspace_Recovery
begin

text \<open>
  The recovery that every \<open>Apply\<close> starts with: from every consistent state it fails with a consistent one, or
  leaves no transaction and no directory of a committed one.
\<close>

subsection \<open>Recovering the root\<close>

text \<open>An observer whose result fixes the tree of which the rest speaks.\<close>

lemma t_sure_obs:
  assumes "observes m f" and "\<And>n. P n \<Longrightarrow> I n" and "\<And>n. \<not> isl (f n)"
    and "\<And>n e. P n \<Longrightarrow> \<not> q \<Longrightarrow> Q (Inl e) n"
    and "\<And>n1 x. P n1 \<Longrightarrow> f n1 = Inr x \<Longrightarrow> triple q I (\<lambda>n. n = n1) (k x) Q"
  shows "triple q I P (attempt m k) Q"
proof (rule t_obs_attempt [OF assms(1,2)])
  show "Q (Inl e) n" if "P n" "f n = Inl e \<or> \<not> q \<and> Failure \<in> set e" for n e
    using that assms(3) [of n] assms(4) by auto
  show "triple q I (\<lambda>n. P n \<and> f n = Inr x) (k x) Q" for x
    by (rule t_point) (use assms(5) in blast)
qed

lemma lstat_comps: "lstat s = lstat_at (comps s)"
  by (simp add: lstat_def lstat_at_def)

definition loaded :: "platform \<Rightarrow> string \<Rightarrow> tree \<Rightarrow> (werrs, transactionRecord \<times> bool) result" where
  "loaded pf t n = (case map_of n (record_key t) of None \<Rightarrow> Inr (blank_record, False) | Some x \<Rightarrow> load_bytes pf x)"

lemma obs_loadTransactionRecord:
  assumes "txn_name t"
  shows "observes (loadTransactionRecord pf t) (loaded pf t)"
proof -
  have "observes (attempt (probes 3) (\<lambda>_. ret (load_bytes pf x))) (\<lambda>n. load_bytes pf x)" for x
    by (rule obs_eq, rule obs_attempt [OF obs_probes obs_ret]) simp
  from obs_lstat [OF obs_ret this, of "record_key t" "Inr (blank_record, False)"] show ?thesis
    unfolding loadTransactionRecord_def lstat_comps comps_names(4) [OF assms] loaded_def [abs_def] .
qed

text \<open>A record that decodes and matches is one that a commit of this plan wrote.\<close>

lemma matching_journalled:
  assumes l: "loaded pf t n = Inr (r, True)" and m: "matches r p g"
  shows "journalled pf p g (map_of n (record_key t))"
proof -
  obtain x where x: "map_of n (record_key t) = Some x" "load_bytes pf x = Inr (r, True)"
    using l by (auto simp: loaded_def split: option.splits)
  then obtain md where c: "x = Reg md (enc_record pf r)"
    by (auto simp: load_bytes_def split: node.splits if_splits option.splits)
  let ?a = "\<lparr>a_domain = r_domain r, a_subject = r_subject r, a_receipt = r_receipt r\<rparr>"
  have "r = record_of p ?a" using m by (cases r) (simp add: matches_def record_of_def)
  moreover have "admitted g ?a" using m by (auto simp: matches_def admitted_def no_admission_def split: option.splits)
  ultimately obtain a where "r = record_of p a" "admitted g a" by blast
  then show ?thesis using x(1) c by (auto simp: journalled_def)
qed

lemma journalled_loaded:
  assumes "codec_ok pf p g" and "journalled pf p g (map_of n (record_key t))"
  shows "\<exists>r. loaded pf t n = Inr (r, True) \<and> matches r p g"
proof -
  obtain md a where x: "map_of n (record_key t) = Some (Reg md (enc_record pf (record_of p a)))" "admitted g a"
    using assms(2) by (auto simp: journalled_def)
  then have "loaded pf t n = Inr (record_of p a, True)"
    using assms(1) by (simp add: codec_ok_def loaded_def load_bytes_def not_less)
  moreover have "matches (record_of p a) p g"
    using x(2) by (auto simp: matches_def record_of_def admitted_def no_admission_def split: option.splits)
  ultimately show ?thesis by blast
qed

text \<open>What the scan finds at the root.\<close>

lemma root_active:
  assumes "active t n"
  shows "filter (\<lambda>s. has_prefix s transactionPrefix) (map fst (root_entries n)) = [t]"
proof -
  let ?f = "filter (\<lambda>s. has_prefix s transactionPrefix) (map fst (root_entries n))"
  have "set ?f = {t}" using assms root_names(1) [of n] by (auto simp: active_def)
  moreover have "distinct ?f" using root_names(2) [of n] by simp
  ultimately show ?thesis by (metis distinct_card length_0_conv length_Suc_conv card.empty card_insert_disjoint finite.emptyI empty_iff list.set_intros(1) singletonD set_empty2 One_nat_def)
qed

lemma root_idle: "no_txn n \<Longrightarrow> filter (\<lambda>s. has_prefix s transactionPrefix) (map fst (root_entries n)) = []"
proof -
  assume "no_txn n"
  then have "\<not> has_prefix s transactionPrefix" if "s \<in> set (map fst (root_entries n))" for s
    using that root_names(1) [of n] by (auto simp: no_txn_def)
  then show ?thesis by (simp add: filter_empty_conv)
qed

lemma root_own:
  assumes "names_ok n" and "(s, b) \<in> set (root_entries n)" and "own_key [s]"
  shows "b \<and> well_named s"
proof -
  have "s \<in> set (map fst (root_entries n))" using assms(2) by force
  then have "map_of n [s] \<noteq> None" using root_names(1) [of n] by blast
  then have "map_of n [s] = Some Dir" "well_named s" using assms(1,3) by (auto simp: names_ok_def)
  then show ?thesis using root_flags [OF assms(2)] by simp
qed

lemma scanned_names: "scanned pf p g n0 t tn n \<Longrightarrow> names_ok n"
  by (auto simp: scanned_def no_txn_def active_def split: option.splits)

lemma consistent_scanned:
  "consistent pf p g n0 n \<Longrightarrow> (torn pf p g n \<Longrightarrow> tn) \<Longrightarrow> \<exists>t. scanned pf p g n0 t tn n"
proof -
  assume c: "consistent pf p g n0 n" and tn: "torn pf p g n \<Longrightarrow> tn"
  then have "no_txn n \<or> (\<exists>t. active t n)" using interrupted_active by (auto simp: consistent_def at_rest_def) blast
  then show "\<exists>t. scanned pf p g n0 t tn n"
  proof (elim disjE exE)
    assume "no_txn n"
    then have "scanned pf p g n0 None tn n" using c tn by (simp add: scanned_def)
    then show ?thesis ..
  next
    fix t assume "active t n"
    then have "scanned pf p g n0 (Some t) tn n" using c tn by (simp add: scanned_def)
    then show ?thesis ..
  qed
qed

text \<open>Recovery from every consistent state: what it leaves is consistent, and at rest when it succeeds.\<close>

definition cleared :: "platform \<Rightarrow> plan \<Rightarrow> tree \<Rightarrow> tree \<Rightarrow> bool" where
  "cleared pf p n0 n \<longleftrightarrow> at_rest pf p n0 n \<and> no_debris n"

lemma cleared_consistent: "cleared pf p n0 n \<Longrightarrow> consistent pf p g n0 n"
  by (simp add: cleared_def consistent_def)

lemma whole_state:
  assumes p: "wf_plan h p" and w: "whole h p row_before n0 n"
  shows "plan_state h p n = Inr (if before_digest p = final_digest p then stateFinal else stateBefore)"
proof -
  have "fstates h (targets p) n = Inr (before_files p)"
    using whole_fstates [OF p, of n0 n row_before] w by (simp add: whole_def rows_before [OF p])
  then show ?thesis using wf_planD(3) [OF p] by (simp add: plan_state_def)
qed

lemma t_recover_active:
  assumes p: "wf_plan (sha pf) p" and n0: "ready (sha pf) p n0" and cf: "collision_free (sha pf) p"
    and C: "\<And>n. consistent pf p g n0 n \<Longrightarrow> I n" and ck: "q \<Longrightarrow> codec_ok pf p g" and ne: "q \<Longrightarrow> before_digest p \<noteq> final_digest p"
  shows "triple q I (\<lambda>n. scanned pf p g n0 (Some t) (\<not> q) n \<and> no_debris n)
     (if fst (parseTransactionDirectoryName t transactionPrefix) \<noteq> plan_digest p then ret (Inl [ErrRecovery])
         else attempt (wrapping [ErrRecovery] (loadTransactionRecord pf t)) (\<lambda>(r, isPrepared).
           if \<not> isPrepared then
             andthen (classifyState (sha pf) p) (\<lambda>st.
               if st = Inr stateBefore then attempt (cleanupTransaction t) (\<lambda>_. ret (Inr no_recovery))
               else ret (Inl [ErrRecovery]))
           else if \<not> matches r p g then ret (Inl [ErrRecovery])
           else attempt (recoverPreparedTransaction (sha pf) t p) (\<lambda>_.
             ret (Inr \<lparr>prepared = True, recovered_receipt = r_receipt r\<rparr>))))
     (\<lambda>a n. consistent pf p g n0 n \<and> (\<forall>rc. a = Inr rc \<longrightarrow> cleared pf p n0 n) \<and> (q \<longrightarrow> \<not> isl a))"
    (is "triple q I ?P ?m ?Q")
proof (cases "\<exists>n. ?P n")
  case False
  then have "?P n \<Longrightarrow> False" for n by blast
  then show ?thesis by (auto intro: t_pre [OF t_false])
next
  case True
  have int: "interrupted pf p g t n0 n" if "?P n" for n
  proof -
    have c: "consistent pf p g n0 n" "active t n" using that by (auto simp: scanned_def)
    then obtain t' where "interrupted pf p g t' n0 n" using idle_not_active by (auto simp: consistent_def at_rest_def)
    then show ?thesis using interrupted_active active_unique [OF _ c(2)] by blast
  qed
  have d: "fst (parseTransactionDirectoryName t transactionPrefix) = plan_digest p"
    and t: "txn_name t"
    using True int active_name [of t] interrupted_active by (auto simp: interrupted_def) blast+
  note g0 = wf_planD(12) [OF p]
  have Cn: "consistent pf p g n0 n" if "?P n" for n using that by (simp add: scanned_def)
  have "triple q I ?P (attempt (wrapping [ErrRecovery] (loadTransactionRecord pf t)) (\<lambda>(r, isPrepared).
           if \<not> isPrepared then
             andthen (classifyState (sha pf) p) (\<lambda>st.
               if st = Inr stateBefore then attempt (cleanupTransaction t) (\<lambda>_. ret (Inr no_recovery))
               else ret (Inl [ErrRecovery]))
           else if \<not> matches r p g then ret (Inl [ErrRecovery])
           else attempt (recoverPreparedTransaction (sha pf) t p) (\<lambda>_.
             ret (Inr \<lparr>prepared = True, recovered_receipt = r_receipt r\<rparr>)))) ?Q"
  proof (rule t_obs_attempt [OF obs_wrapping [OF obs_loadTransactionRecord [OF t]]])
    show "I n" if "?P n" for n using C Cn that by blast
    have sure: "\<not> isl (loaded pf t n)" if "?P n" q for n
    proof -
      have "active t n" "\<not> torn pf p g n" using that by (auto simp: scanned_def)
      then have "map_of n (record_key t) = None \<or> journalled pf p g (map_of n (record_key t))" by (auto simp: torn_def)
      then show ?thesis using journalled_loaded [OF ck [OF that(2)]] by (force simp: loaded_def)
    qed
    show "?Q (Inl e) n" if "?P n" "map_sum ((@) [ErrRecovery]) (\<lambda>x. x) (loaded pf t n) = Inl e \<or> \<not> q \<and> Failure \<in> set e" for n e
      using that Cn sure [OF that(1)] by (cases "loaded pf t n") auto
    fix x :: "transactionRecord \<times> bool"
    obtain r b where x: "x = (r, b)" by (cases x)
    let ?R = "\<lambda>n. ?P n \<and> loaded pf t n = Inr (r, b)"
    have "triple q I ?R (if \<not> b then
             andthen (classifyState (sha pf) p) (\<lambda>st.
               if st = Inr stateBefore then attempt (cleanupTransaction t) (\<lambda>_. ret (Inr no_recovery))
               else ret (Inl [ErrRecovery]))
           else if \<not> matches r p g then ret (Inl [ErrRecovery])
           else attempt (recoverPreparedTransaction (sha pf) t p) (\<lambda>_.
             ret (Inr \<lparr>prepared = True, recovered_receipt = r_receipt r\<rparr>))) ?Q"
    proof (cases b)
      case False
      have before: "undone (sha pf) p t n0 n" if "?R n" for n
      proof -
        have "interrupted pf p g t n0 n" using int that by blast
        then obtain x0 where x0: "all_rows p t n0 x0 (ok_rows (sha pf)) n" "journalled pf p g x0 \<or> whole (sha pf) p row_before n0 n"
          by (auto simp: interrupted_def)
        have "map_of n (record_key t) = None"
          using that False by (auto simp: loaded_def load_bytes_def split: option.splits node.splits if_splits)
        then have "x0 = None" using x0(1) by (simp add: all_rows_def in_txn_def)
        then show ?thesis using x0 by (auto simp: undone_def journalled_def)
      qed
      have "triple q I ?R (andthen (classifyState (sha pf) p) (\<lambda>st.
               if st = Inr stateBefore then attempt (cleanupTransaction t) (\<lambda>_. ret (Inr no_recovery))
               else ret (Inl [ErrRecovery]))) ?Q"
      proof (rule t_obs_andthen [OF obs_classifyState [OF g0]])
        show "I n" if "?R n" for n using C Cn that by blast
        have "triple q I (\<lambda>n. ?R n \<and> (plan_state (sha pf) p n = Inl e \<or> \<not> q \<and> Failure \<in> set e)) (ret (Inl [ErrRecovery])) ?Q" for e
        proof (rule t_ret)
          fix n assume n: "?R n \<and> (plan_state (sha pf) p n = Inl e \<or> \<not> q \<and> Failure \<in> set e)"
          then have "whole (sha pf) p row_before n0 n" using before by (auto simp: undone_def)
          then have "plan_state (sha pf) p n \<noteq> Inl e" by (simp add: whole_state [OF p])
          then show "?Q (Inl [ErrRecovery]) n" using n Cn by auto
        qed
        then show "triple q I (\<lambda>n. ?R n \<and> (plan_state (sha pf) p n = Inl e \<or> \<not> q \<and> Failure \<in> set e))
          (if Inl e = Inr stateBefore then attempt (cleanupTransaction t) (\<lambda>_. ret (Inr no_recovery)) else ret (Inl [ErrRecovery])) ?Q" for e
          by simp
        show "triple q I (\<lambda>n. ?R n \<and> plan_state (sha pf) p n = Inr st)
          (if Inr st = Inr stateBefore then attempt (cleanupTransaction t) (\<lambda>_. ret (Inr no_recovery)) else ret (Inl [ErrRecovery])) ?Q" for st
        proof (cases st)
          case stateBefore
          have "triple q I (\<lambda>n. ?R n \<and> plan_state (sha pf) p n = Inr st) (attempt (cleanupTransaction t) (\<lambda>_. ret (Inr no_recovery))) ?Q"
            by (rule t_attempt [OF t_pre [OF t_cleanup_before [OF p C t d]]]) (auto intro: before intro!: t_ret simp: cleared_def)
          then show ?thesis by (simp add: stateBefore)
        next
          case stateFinal
          have "\<not> q" if "?R n" "plan_state (sha pf) p n = Inr stateFinal" for n
          proof
            assume q
            have "whole (sha pf) p row_before n0 n" using before [OF that(1)] by (simp add: undone_def)
            then show False using whole_state [OF p] ne [OF \<open>q\<close>] that(2) by simp
          qed
          then show ?thesis using Cn by (auto simp: stateFinal intro!: t_ret)
        qed
      qed
      then show ?thesis using False by simp
    next
      case True
      show ?thesis
      proof (cases "matches r p g")
        case False
        have "\<not> q" if "?R n" for n
        proof
          assume q
          have "active t n" "\<not> torn pf p g n" using that \<open>q\<close> by (auto simp: scanned_def)
          moreover have "map_of n (record_key t) \<noteq> None" using that \<open>b\<close> by (auto simp: loaded_def split: option.splits)
          ultimately have "journalled pf p g (map_of n (record_key t))" by (auto simp: torn_def)
          then show False using journalled_loaded [OF ck [OF \<open>q\<close>]] that False by fastforce
        qed
        then show ?thesis using True False Cn by (auto intro!: t_ret)
      next
        case m: True
        have "triple q I ?R (recoverPreparedTransaction (sha pf) t p)
          (\<lambda>a n. consistent pf p g n0 n \<and> (a = Inr () \<longrightarrow> at_rest pf p n0 n \<and> no_debris n) \<and> (q \<longrightarrow> a = Inr ()))"
        proof (rule t_pre [OF t_ex [of q I "\<lambda>x0 n. journalled pf p g x0 \<and> all_rows p t n0 x0 (ok_rows (sha pf)) n"]])
          show "triple q I (\<lambda>n. journalled pf p g x0 \<and> all_rows p t n0 x0 (ok_rows (sha pf)) n) (recoverPreparedTransaction (sha pf) t p)
            (\<lambda>a n. consistent pf p g n0 n \<and> (a = Inr () \<longrightarrow> at_rest pf p n0 n \<and> no_debris n) \<and> (q \<longrightarrow> a = Inr ()))" for x0
            by (rule t_given, rule t_recover_prepared [OF p t n0 _ cf C d])
          fix n assume n: "?R n"
          then have "interrupted pf p g t n0 n" using int by blast
          then obtain x0 where x0: "all_rows p t n0 x0 (ok_rows (sha pf)) n" by (auto simp: interrupted_def)
          then have "x0 = map_of n (record_key t)" by (simp add: all_rows_def in_txn_def)
          moreover have "journalled pf p g (map_of n (record_key t))"
            by (rule matching_journalled [OF _ m]) (use n \<open>b\<close> in simp)
          ultimately show "\<exists>x0. journalled pf p g x0 \<and> all_rows p t n0 x0 (ok_rows (sha pf)) n"
            using x0 by auto
        qed
        then have "triple q I ?R (attempt (recoverPreparedTransaction (sha pf) t p) (\<lambda>_.
             ret (Inr \<lparr>prepared = True, recovered_receipt = r_receipt r\<rparr>))) ?Q"
          by (rule t_attempt) (auto intro!: t_ret simp: cleared_def)
        then show ?thesis using True m by simp
      qed
    qed
    moreover have "map_sum ((@) [ErrRecovery]) (\<lambda>x. x) v = Inr x \<longleftrightarrow> v = Inr (r, b)" for v :: "(werrs, transactionRecord \<times> bool) result"
      by (cases v) (auto simp: x)
    ultimately show "triple q I (\<lambda>n. ?P n \<and> map_sum ((@) [ErrRecovery]) (\<lambda>x. x) (loaded pf t n) = Inr x) (case x of (r, isPrepared) \<Rightarrow>
        if \<not> isPrepared then
             andthen (classifyState (sha pf) p) (\<lambda>st.
               if st = Inr stateBefore then attempt (cleanupTransaction t) (\<lambda>_. ret (Inr no_recovery))
               else ret (Inl [ErrRecovery]))
           else if \<not> matches r p g then ret (Inl [ErrRecovery])
           else attempt (recoverPreparedTransaction (sha pf) t p) (\<lambda>_.
             ret (Inr \<lparr>prepared = True, recovered_receipt = r_receipt r\<rparr>))) ?Q"
      by (simp only: x case_prod_conv)
  qed
  then show ?thesis using d by simp
qed

lemma t_recover:
  assumes p: "wf_plan (sha pf) p" and n0: "ready (sha pf) p n0" and cf: "collision_free (sha pf) p"
    and C: "\<And>n. consistent pf p g n0 n \<Longrightarrow> I n" and ck: "q \<Longrightarrow> codec_ok pf p g" and ne: "q \<Longrightarrow> before_digest p \<noteq> final_digest p"
  shows "triple q I (\<lambda>n. consistent pf p g n0 n \<and> (q \<longrightarrow> \<not> torn pf p g n) \<and> (fr \<longrightarrow> no_txn n)) (recoverTransactions pf p g)
     (\<lambda>a n. consistent pf p g n0 n \<and> (\<forall>rc. a = Inr rc \<longrightarrow> cleared pf p n0 n \<and> (fr \<longrightarrow> \<not> prepared rc)) \<and> (q \<longrightarrow> \<not> isl a))"
    (is "triple q I _ _ ?Q")
proof (rule t_pre [OF t_ex [of q I "\<lambda>t n. scanned pf p g n0 t (\<not> q) n \<and> (fr \<longrightarrow> t = None)"]])
  show "\<exists>t. scanned pf p g n0 t (\<not> q) n \<and> (fr \<longrightarrow> t = None)"
    if c: "consistent pf p g n0 n \<and> (q \<longrightarrow> \<not> torn pf p g n) \<and> (fr \<longrightarrow> no_txn n)" for n
  proof -
    obtain t where t: "scanned pf p g n0 t (\<not> q) n" using consistent_scanned [of pf p g n0 n "\<not> q"] c by blast
    have "t = None" if fr using t c that idle_not_active by (auto simp: scanned_def split: option.splits)
    then show ?thesis using t by blast
  qed
  fix t
  show "triple q I (\<lambda>n. scanned pf p g n0 t (\<not> q) n \<and> (fr \<longrightarrow> t = None)) (recoverTransactions pf p g) ?Q"
  proof (cases "fr \<and> t \<noteq> None")
    case True then show ?thesis by (intro t_pre [OF t_false]) auto
  next
    case fresh: False
    let ?P = "scanned pf p g n0 t (\<not> q)"
    have CP: "consistent pf p g n0 n" if "?P n" for n using that by (simp add: scanned_def)
    have "triple q I ?P (recoverTransactions pf p g) ?Q"
      unfolding recoverTransactions_def
    proof (rule t_sure_obs [OF obs_wrapping [OF obs_readRootDirectory]])
      show "I n" if "?P n" for n using C CP that by blast
      show "\<not> isl (map_sum ((@) [ErrRecovery]) (\<lambda>x. x) (Inr (root_entries n)))" for n :: tree by simp
      show "?Q (Inl e) n" if "?P n" "\<not> q" for n e using CP that by simp
      fix n1 es
      assume n1: "?P n1" and "map_sum ((@) [ErrRecovery]) (\<lambda>x. x) (Inr (root_entries n1)) = Inr es"
      then have es: "es = root_entries n1" by simp
      show "triple q I (\<lambda>n. n = n1) (attempt (scan_entries es) (\<lambda>active.
         if active = [] then ret (Inr no_recovery)
         else if length active \<noteq> 1 then ret (Inl [ErrRecovery])
         else let txn = hd active in
           if fst (parseTransactionDirectoryName txn transactionPrefix) \<noteq> plan_digest p then ret (Inl [ErrRecovery])
           else attempt (wrapping [ErrRecovery] (loadTransactionRecord pf txn)) (\<lambda>(r, isPrepared).
             if \<not> isPrepared then
               andthen (classifyState (sha pf) p) (\<lambda>st.
                 if st = Inr stateBefore then attempt (cleanupTransaction txn) (\<lambda>_. ret (Inr no_recovery))
                 else ret (Inl [ErrRecovery]))
             else if \<not> matches r p g then ret (Inl [ErrRecovery])
             else attempt (recoverPreparedTransaction (sha pf) txn p) (\<lambda>_.
               ret (Inr \<lparr>prepared = True, recovered_receipt = r_receipt r\<rparr>))))) ?Q"
      proof (rule t_attempt)
        show "triple q I (\<lambda>n. n = n1) (scan_entries es) (\<lambda>a n. ?P n \<and> (q \<longrightarrow> \<not> isl a)
         \<and> (\<forall>ts. a = Inr ts \<longrightarrow> no_debris n \<and> ts = filter (\<lambda>s. has_prefix s transactionPrefix) (map fst es)))"
        proof (rule t_pre [OF t_scan [OF p C]])
          show "b \<and> well_named s" if "(s, b) \<in> set es" "own_key [s]" for s b
            by (rule root_own [OF scanned_names [OF n1]]) (use that in \<open>simp_all add: es\<close>)
          show "?P n \<and> (\<forall>s. has_prefix s completedPrefix \<longrightarrow> map_of n [s] \<noteq> None \<longrightarrow> s \<in> fst ` set es)" if "n = n1" for n
            using n1 root_names(1) [of n1] by (auto simp: that es)
        qed
        show "?Q (Inl e) n" if "?P n \<and> (q \<longrightarrow> \<not> isl (Inl e)) \<and> X" for e n X using CP [OF conjunct1 [OF that]] that by auto
        fix ts
        show "triple q I (\<lambda>n. ?P n \<and> (q \<longrightarrow> \<not> isl (Inr ts)) \<and> (\<forall>us. Inr ts = Inr us \<longrightarrow> no_debris n \<and> us = filter (\<lambda>s. has_prefix s transactionPrefix) (map fst es)))
         (if ts = [] then ret (Inr no_recovery)
         else if length ts \<noteq> 1 then ret (Inl [ErrRecovery])
         else let txn = hd ts in
           if fst (parseTransactionDirectoryName txn transactionPrefix) \<noteq> plan_digest p then ret (Inl [ErrRecovery])
           else attempt (wrapping [ErrRecovery] (loadTransactionRecord pf txn)) (\<lambda>(r, isPrepared).
             if \<not> isPrepared then
               andthen (classifyState (sha pf) p) (\<lambda>st.
                 if st = Inr stateBefore then attempt (cleanupTransaction txn) (\<lambda>_. ret (Inr no_recovery))
                 else ret (Inl [ErrRecovery]))
             else if \<not> matches r p g then ret (Inl [ErrRecovery])
             else attempt (recoverPreparedTransaction (sha pf) txn p) (\<lambda>_.
               ret (Inr \<lparr>prepared = True, recovered_receipt = r_receipt r\<rparr>)))) ?Q" (is "triple q I ?S _ _")
        proof (cases t)
          case None
          have i: "no_txn n1" using n1 None by (simp add: scanned_def)
          then have ts: "ts = []" if "?S n" for n using that root_idle [OF i] by (simp add: es)
          have r: "at_rest pf p n0 n" if "?S n" for n
          proof -
            have "no_txn n" "consistent pf p g n0 n" using that None by (auto simp: scanned_def)
            then show ?thesis using interrupted_active idle_not_active by (auto simp: consistent_def) blast
          qed
          show ?thesis
          proof (cases "ts = []")
            case True
            then show ?thesis using CP r by (auto intro!: t_ret simp: cleared_def no_recovery_def)
          next
            case False
            then have "?S n \<Longrightarrow> False" for n using ts by blast
            then show ?thesis by (rule t_pre [OF t_false])
          qed
        next
          case (Some t')
          have a: "active t' n1" using n1 Some by (simp add: scanned_def)
          then have ts: "ts = [t']" if "?S n" for n using that root_active [OF a] by (simp add: es)
          show ?thesis
          proof (cases "ts = [t']")
            case True
            have "triple q I ?S (if fst (parseTransactionDirectoryName t' transactionPrefix) \<noteq> plan_digest p then ret (Inl [ErrRecovery])
           else attempt (wrapping [ErrRecovery] (loadTransactionRecord pf t')) (\<lambda>(r, isPrepared).
             if \<not> isPrepared then
               andthen (classifyState (sha pf) p) (\<lambda>st.
                 if st = Inr stateBefore then attempt (cleanupTransaction t') (\<lambda>_. ret (Inr no_recovery))
                 else ret (Inl [ErrRecovery]))
             else if \<not> matches r p g then ret (Inl [ErrRecovery])
             else attempt (recoverPreparedTransaction (sha pf) t' p) (\<lambda>_.
               ret (Inr \<lparr>prepared = True, recovered_receipt = r_receipt r\<rparr>)))) ?Q"
              by (rule t_post [OF t_pre [OF t_recover_active [where t = t', OF p n0 cf C ck ne]]]) (use fresh in \<open>auto simp: Some\<close>)
            then show ?thesis by (simp add: True)
          next
            case False
            then have "?S n \<Longrightarrow> False" for n using ts by blast
            then show ?thesis by (rule t_pre [OF t_false])
          qed
        qed
      qed
    qed
    then show ?thesis by (rule t_pre) simp
  qed
qed

end
