(* ===== verification/Workspace_Commit.thy ===== *)
theory Workspace_Commit
  imports Workspace_Restart
begin

text \<open>
  Staging, the commit of the targets and its undoing: what each phase makes of the tree.
\<close>

lemma t_none: "(\<And>n. \<not> P n) \<Longrightarrow> triple q I P m Q"
  by (simp add: triple_def)

lemma t_given': "(A \<Longrightarrow> triple q I P m Q) \<Longrightarrow> triple q I (\<lambda>n. P n \<and> A) m Q"
  by (auto simp: triple_def)

subsection \<open>Changes outside the rows\<close>

lemma all_rows_record:
  assumes p: "wf_plan h p" and t: "txn_name t" and a: "all_rows p t n0 x0 E n"
    and new: "map_of n' (record_key t) = x1" and same: "\<And>k. k \<noteq> record_key t \<Longrightarrow> map_of n' k = map_of n k"
  shows "all_rows p t n0 x1 E n'"
proof -
  have i: "base p n0 n" "map_of n [t] = Some Dir" "no_debris n" "active t n"
    using a by (auto simp: all_rows_def in_txn_def)
  have "own_change n n'" using own_keys [OF t] same unfolding own_change_def by metis
  then have b: "base p n0 n'" by (rule base_own [OF _ p i(1)])
  have one: "map_of n' [s] = map_of n [s]" for s by (rule same) (simp add: record_key_def)
  have nd: "no_debris n'" using i(3) one by (simp add: no_debris_def)
  have act: "active t n'"
  proof -
    have "names_ok n'" unfolding names_ok_def
    proof (intro allI impI)
      fix k assume k: "own_key k" "map_of n' k \<noteq> None"
      show "map_of n' [hd k] = Some Dir \<and> well_named (hd k)"
      proof (cases "k = record_key t")
        case True
        have "well_named t" using i(4) own_txn [OF t, of "[]"] by (auto simp: active_def names_ok_def dest: spec [of _ "[t]"])
        then show ?thesis using one i(2) True by (simp add: record_key_def)
      next
        case False
        then show ?thesis using k one same [OF False] i(4) by (auto simp: active_def names_ok_def)
      qed
    qed
    then show ?thesis using i(4) one by (simp add: active_def)
  qed
  have "holds_at t E n' r" if r: "r \<in> set (rows p)" for r
  proof -
    have "target_key r \<noteq> record_key t" using own_keys [OF t] target_key_not_own [OF p r] by metis
    then have "holds_at t E n' r = holds_at t E n r"
      using same names_differ(2,3) by (simp add: holds_at_def)
    then show ?thesis using a r by (simp add: all_rows_def)
  qed
  then show ?thesis using b nd act new one i(2) by (simp add: all_rows_def in_txn_def)
qed

text \<open>Directories above targets come and go.\<close>

lemma all_rows_above:
  assumes p: "wf_plan h p" and t: "txn_name t" and a: "all_rows p t n0 x0 E n" and k: "k \<in> above_keys p"
    and new: "map_of n' k = None \<or> map_of n' k = Some Dir" "map_of n0 k = Some Dir \<Longrightarrow> map_of n' k = Some Dir" "tree_ok n'"
    and same: "\<And>k'. k' \<noteq> k \<Longrightarrow> map_of n' k' = map_of n k'"
  shows "all_rows p t n0 x0 E n'"
proof -
  have i: "base p n0 n" "map_of n [t] = Some Dir" "no_debris n" "active t n" "map_of n (record_key t) = x0"
    using a by (auto simp: all_rows_def in_txn_def)
  have ko: "map_of n' k' = map_of n k'" if "own_key k'" for k' using same that keys_apart(2) [OF p k] by metis
  have b: "base p n0 n'" unfolding base_def
  proof (intro conjI allI impI ballI)
    fix k' assume "k' \<notin> target_keys p" "k' \<notin> above_keys p" "\<not> own_key k'"
    then show "map_of n' k' = map_of n0 k'" using i(1) k same by (metis base_def)
  next
    fix k' assume k': "k' \<in> above_keys p"
    then show "map_of n' k' = None \<or> map_of n' k' = Some Dir" using i(1) new same by (metis base_def)
    show "map_of n' k' = Some Dir" if "map_of n0 k' = Some Dir" using that k' i(1) new(2) same by (metis base_def)
  qed (rule new(3))
  have nd: "no_debris n'" using i(3) ko by (simp add: no_debris_def own_key_def)
  have hd: "own_key [hd k']" if "own_key k'" for k' using that by (simp add: own_key_def)
  have "names_ok n'" using i(4) ko hd by (auto simp: active_def names_ok_def)
  then have act: "active t n'" using i(4) ko by (simp add: active_def own_key_def)
  have "holds_at t E n' r" if r: "r \<in> set (rows p)" for r
  proof -
    have "target_key r \<noteq> k" using keys_apart(3) [OF p target_key_in [OF p r]] k by blast
    then have "holds_at t E n' r = holds_at t E n r" using same ko own_keys [OF t] by (simp add: holds_at_def)
    then show ?thesis using a r by (simp add: all_rows_def)
  qed
  then show ?thesis using b nd act ko own_keys [OF t] i by (simp add: all_rows_def in_txn_def)
qed

lemma tree_ok_mkdir:
  assumes ok: "tree_ok n" and k: "map_of n k = None" "parent_ok n k" "\<not> own_key k"
  shows "tree_ok (AList.update k Dir n)"
  unfolding tree_ok_def
proof (intro allI impI)
  fix k' a assume a: "map_of (AList.update k Dir n) k' \<noteq> None" "\<not> own_key k'" "a \<noteq> []" "strict_prefix a k'"
  have "map_of n a = Some Dir"
  proof (cases "k' = k")
    case False
    then show ?thesis using ok a by (simp add: tree_ok_def update_conv')
  next
    case True
    have ab: "prefix a (butlast k)" using a(4) True by (auto simp: strict_prefix_def prefix_def butlast_append)
    then have nb: "butlast k \<noteq> []" "map_of n (butlast k) = Some Dir" using a(3) k(2) by (auto simp: parent_ok_def)
    then have "\<not> own_key (butlast k)" using own_prefix [OF k(3) butlast_above] by (cases k) auto
    then show ?thesis using ab ok nb a(3) by (cases "a = butlast k") (auto simp: tree_ok_def strict_prefix_def)
  qed
  then show "map_of (AList.update k Dir n) a = Some Dir" by (simp add: update_conv')
qed

lemma tree_ok_rmdir:
  assumes ok: "tree_ok n" and k: "map_of n k = Some Dir" "\<not> has_members n k"
  shows "tree_ok (AList.delete k n)"
  unfolding tree_ok_def
proof (intro allI impI)
  fix k' a assume a: "map_of (AList.delete k n) k' \<noteq> None" "\<not> own_key k'" "a \<noteq> []" "strict_prefix a k'"
  then have n: "map_of n k' \<noteq> None" by (auto split: if_splits)
  then have "map_of n a = Some Dir" using ok a by (simp add: tree_ok_def)
  moreover have "a \<noteq> k"
  proof
    assume "a = k"
    moreover have "k' \<in> fst ` set n" using n by (simp add: map_of_eq_None_iff)
    ultimately show False using k(2) a(4) by (force simp: has_members_def list_ex_iff)
  qed
  ultimately show "map_of (AList.delete k n) a = Some Dir" by simp
qed

subsection \<open>The directories above a target\<close>

text \<open>Directories that the commit created: above a target, and not there at first.\<close>

definition fresh_dirs :: "plan \<Rightarrow> tree \<Rightarrow> string list \<Rightarrow> bool" where
  "fresh_dirs p n0 ss \<longleftrightarrow> (\<forall>s\<in>set ss. comps s \<in> above_keys p \<and> map_of n0 (comps s) \<noteq> Some Dir)"

lemma parent_paths_sorted: "sorted_wrt (\<lambda>a b. length a < length b) (parent_paths s)"
  unfolding parent_paths_def sorted_wrt_map
  by (rule sorted_wrt_mono_rel [of _ "(<)"]) (auto intro: sorted_wrt_filter)

lemma parent_before:
  assumes "pre @ s # ss = parent_paths target" and "butlast (comps s) \<noteq> []"
  shows "\<exists>a\<in>set pre. comps a = butlast (comps s)"
proof -
  obtain a b where a: "s = a @ CHR ''/'' # b" "comps a = butlast (comps s)"
    using comps_above [OF butlast_above [OF comps_nonempty] assms(2)] by metis
  have "s \<in> set (parent_paths target)" using assms(1) by (metis in_set_conv_decomp)
  then obtain c where "target = s @ CHR ''/'' # c" by (auto simp: parent_paths_above)
  then have "a \<in> set (parent_paths target)" using a(1) by (auto simp: parent_paths_above)
  moreover have "length a < length s" using a(1) by simp
  moreover have "sorted_wrt (\<lambda>a b. length a < length b) (pre @ s # ss)" using assms(1) parent_paths_sorted by metis
  ultimately show ?thesis using a(2) assms(1) [symmetric] by (auto simp: sorted_wrt_append)
qed

lemma obs_lstat1: "observes (lstat s) (\<lambda>n. case map_of n (comps s) of None \<Rightarrow> Inl [NotExist] | Some x \<Rightarrow> Inr x)"
  unfolding lstat_def by (rule obs_look)

lemma t_mkdir:
  assumes p: "wf_plan h p" and t: "txn_name t" and I: "\<And>n. all_rows p t n0 x0 E n \<Longrightarrow> I n" and k: "comps s \<in> above_keys p"
    and pre: "butlast (comps s) \<noteq> [] \<Longrightarrow> \<exists>a\<in>set pre. comps a = butlast (comps s)"
  shows "triple q I (\<lambda>n. all_rows p t n0 x0 E n \<and> (\<forall>a\<in>set pre. map_of n (comps a) = Some Dir) \<and> (q \<longrightarrow> map_of n (comps s) = None)) (mkdir s)
    (\<lambda>a n. all_rows p t n0 x0 E n \<and> (\<forall>a\<in>set pre. map_of n (comps a) = Some Dir) \<and> (q \<longrightarrow> a = Inr ())
       \<and> (a = Inr () \<longrightarrow> map_of n (comps s) = Some Dir \<and> map_of n0 (comps s) \<noteq> Some Dir))"
    (is "triple q I ?P _ ?Q")
  unfolding mkdir_def
proof (rule t_sys)
  have no: "\<not> own_key (comps s)" by (rule keys_apart(2) [OF p k])
  fix n assume n: "?P n"
  have par: "parent_ok n (comps s)" unfolding parent_ok_def using n pre by metis
  show "?Q (Inl e) n" if "(if map_of n (comps s) \<noteq> None then Inl [Exist] else if \<not> parent_ok n (comps s) then Inl [NotExist]
     else Inr ((), AList.update (comps s) Dir n)) = Inl e" for e
    using that n par by (auto split: if_splits)
  show "?Q (Inr x) n'" if e: "(if map_of n (comps s) \<noteq> None then Inl [Exist] else if \<not> parent_ok n (comps s) then Inl [NotExist]
     else Inr ((), AList.update (comps s) Dir n)) = Inr (x, n')" for x n'
  proof -
    have m: "map_of n (comps s) = None" and n': "n' = AList.update (comps s) Dir n" using e by (auto split: if_splits)
    have b: "base p n0 n" using n by (simp add: all_rows_def in_txn_def)
    then have m0: "map_of n0 (comps s) \<noteq> Some Dir" using m k by (auto simp: base_def)
    have "all_rows p t n0 x0 E n'"
      by (rule all_rows_above [OF p t _ k])
        (use n b m m0 par no tree_ok_mkdir in \<open>auto simp: n' update_conv' base_def\<close>)
    then show ?thesis using n m0 by (simp add: n' update_conv')
  qed
next
  fix n i ks assume "?P n" "\<not> q"
  then show "?Q (Inl [Failure]) (untouched i ks n)" "I (untouched i ks n)" using I by (simp_all add: untouched_def)
qed

lemma t_ensure_parents:
  assumes p: "wf_plan h p" and t: "txn_name t" and I: "\<And>n. all_rows p t n0 x0 E n \<Longrightarrow> I n" and s: "target \<in> set (targets p)"
    and ss: "pre @ ss = parent_paths target" and cr: "fresh_dirs p n0 created"
  shows "triple q I (\<lambda>n. all_rows p t n0 x0 E n \<and> (\<forall>a\<in>set pre. map_of n (comps a) = Some Dir)
      \<and> (\<not> allow \<longrightarrow> (\<forall>a\<in>set ss. map_of n (comps a) = Some Dir))) (ensure_parents allow created ss)
    (\<lambda>(cr, e) n. all_rows p t n0 x0 E n \<and> fresh_dirs p n0 cr \<and> (e = None \<longrightarrow> (\<forall>a\<in>set (parent_paths target). map_of n (comps a) = Some Dir)) \<and> (q \<longrightarrow> e = None))"
    (is "triple q I _ _ ?Q")
  using ss cr
proof (induction ss arbitrary: pre created)
  case Nil
  then show ?case by (auto intro!: t_ret)
next
  case (Cons s ss)
  have s': "s \<in> set (parent_paths target)" using Cons.prems(1) by (metis in_set_conv_decomp)
  then have k: "comps s \<in> above_keys p" using \<open>target \<in> set (targets p)\<close> above_parent by (auto simp: above_keys_def)
  note pb = parent_before [OF Cons.prems(1)]
  let ?P = "\<lambda>n. all_rows p t n0 x0 E n \<and> (\<forall>a\<in>set pre. map_of n (comps a) = Some Dir) \<and> (\<not> allow \<longrightarrow> (\<forall>a\<in>set (s # ss). map_of n (comps a) = Some Dir))"
  have IP: "I n" if "?P n" for n using I that by blast
  have above: "map_of n (comps s) = None \<or> map_of n (comps s) = Some Dir" if "all_rows p t n0 x0 E n" for n
    using that k by (auto simp: all_rows_def in_txn_def base_def)
  have IH: "triple q I (\<lambda>n. all_rows p t n0 x0 E n \<and> (\<forall>a\<in>set (pre @ [s]). map_of n (comps a) = Some Dir)
      \<and> (\<not> allow \<longrightarrow> (\<forall>a\<in>set ss. map_of n (comps a) = Some Dir))) (ensure_parents allow cr ss) ?Q" if "fresh_dirs p n0 cr" for cr
    by (rule Cons.IH) (use Cons.prems that in auto)
  show ?case unfolding ensure_parents.simps
  proof (rule t_obs_andthen [OF obs_lstat1])
    show "I n" if "?P n" for n using IP that .
    have made: "triple q I (\<lambda>n. all_rows p t n0 x0 E n \<and> (\<forall>a\<in>set (pre @ [s]). map_of n (comps a) = Some Dir) \<and> map_of n0 (comps s) \<noteq> Some Dir)
       (andthen (syncDirectory (path_dir s)) (\<lambda>y. case y of Inl e \<Rightarrow> ret (created, Some e)
             | Inr _ \<Rightarrow> ensure_parents allow (created @ [s]) ss)) ?Q" (is "triple q I ?M _ _") if allow
    proof (rule t_obs_andthen [OF obs_syncDirectory])
      show "I n" if "?M n" for n using I that by blast
      have d: "dir_there (path_dir s) n" if "?M n" for n
      proof -
        have "\<forall>a\<in>set pre. map_of n (comps a) = Some Dir" using that by simp
        then have "parent_ok n (comps s)" unfolding parent_ok_def using pb by metis
        then show ?thesis by (simp add: dir_there_path_dir)
      qed
      show "triple q I (\<lambda>n. ?M n \<and> ((if dir_there (path_dir s) n then Inr () else Inl [NotExist]) = Inl e \<or> \<not> q \<and> Failure \<in> set e))
        (case Inl e of Inl e \<Rightarrow> ret (created, Some e) | Inr _ \<Rightarrow> ensure_parents allow (created @ [s]) ss) ?Q" for e
        unfolding sum.case
      proof (rule t_ret)
        fix n assume n: "?M n \<and> ((if dir_there (path_dir s) n then Inr () else Inl [NotExist]) = Inl e \<or> \<not> q \<and> Failure \<in> set e)"
        then have "\<not> q" using d [of n] by auto
        then show "?Q (created, Some e) n" using n Cons.prems(2) by simp
      qed
      show "triple q I (\<lambda>n. ?M n \<and> (if dir_there (path_dir s) n then Inr () else Inl [NotExist]) = Inr x)
        (case Inr x of Inl e \<Rightarrow> ret (created, Some e) | Inr _ \<Rightarrow> ensure_parents allow (created @ [s]) ss) ?Q" for x
      proof (cases "map_of n0 (comps s) = Some Dir")
        case False
        then have "fresh_dirs p n0 (created @ [s])" using Cons.prems(2) k by (auto simp: fresh_dirs_def)
        then have "triple q I (\<lambda>n. ?M n \<and> (if dir_there (path_dir s) n then Inr () else Inl [NotExist]) = Inr x) (ensure_parents allow (created @ [s]) ss) ?Q"
          by (intro t_pre [OF IH [of "created @ [s]"]]) (simp_all add: \<open>allow\<close>)
        then show ?thesis by (simp only: sum.case)
      next
        case True
        then show ?thesis by (intro t_none) simp
      qed
    qed
    fix e
    let ?R = "\<lambda>n. ?P n \<and> ((case map_of n (comps s) of None \<Rightarrow> Inl [NotExist] | Some x \<Rightarrow> Inr x) = Inl e \<or> \<not> q \<and> Failure \<in> set e)"
    have stop: "triple q I ?R (ret (created, Some e')) ?Q" if "NotExist \<notin> set e \<or> \<not> allow" for e'
      by (rule t_ret) (use that Cons.prems(2) in \<open>auto split: option.splits\<close>)
    have go: "triple q I ?R (andthen (mkdir s) (\<lambda>m. case m of Inl e \<Rightarrow> ret (created, Some e)
           | Inr _ \<Rightarrow> andthen (syncDirectory (path_dir s)) (\<lambda>y. case y of Inl e \<Rightarrow> ret (created, Some e)
             | Inr _ \<Rightarrow> ensure_parents allow (created @ [s]) ss))) ?Q" if allow
    proof (rule t_andthen [OF t_pre [OF t_mkdir [where s = s and pre = pre, OF p t I k pb]]])
      show "all_rows p t n0 x0 E n \<and> (\<forall>a\<in>set pre. map_of n (comps a) = Some Dir) \<and> (q \<longrightarrow> map_of n (comps s) = None)" if "?R n" for n
        using that by (auto split: option.splits)
      show "triple q I (\<lambda>n. all_rows p t n0 x0 E n \<and> (\<forall>a\<in>set pre. map_of n (comps a) = Some Dir) \<and> (q \<longrightarrow> x = Inr ())
         \<and> (x = Inr () \<longrightarrow> map_of n (comps s) = Some Dir \<and> map_of n0 (comps s) \<noteq> Some Dir))
       (case x of Inl e \<Rightarrow> ret (created, Some e)
           | Inr _ \<Rightarrow> andthen (syncDirectory (path_dir s)) (\<lambda>y. case y of Inl e \<Rightarrow> ret (created, Some e)
             | Inr _ \<Rightarrow> ensure_parents allow (created @ [s]) ss)) ?Q" for x
        using made [OF \<open>allow\<close>] Cons.prems(2) by (cases x) (auto intro!: t_ret elim: t_pre)
    qed
    show "triple q I ?R (case Inl e of Inr x \<Rightarrow> if x = Link then ret (created, Some [ErrSymlink])
         else if x \<noteq> Dir then ret (created, Some [ErrInvalidPath])
         else ensure_parents allow created ss
     | Inl e \<Rightarrow> if NotExist \<notin> set e then ret (created, Some e)
         else if \<not> allow then ret (created, Some [ErrChanged])
         else andthen (mkdir s) (\<lambda>m. case m of Inl e \<Rightarrow> ret (created, Some e)
           | Inr _ \<Rightarrow> andthen (syncDirectory (path_dir s)) (\<lambda>y. case y of Inl e \<Rightarrow> ret (created, Some e)
             | Inr _ \<Rightarrow> ensure_parents allow (created @ [s]) ss))) ?Q"
      using stop go by auto
  next
    fix x
    let ?R = "\<lambda>n. ?P n \<and> (case map_of n (comps s) of None \<Rightarrow> Inl [NotExist] | Some x \<Rightarrow> Inr x) = Inr x"
    have xd: "x = Dir" if "?R n" for n using that above [of n] by (auto split: option.splits)
    show "triple q I ?R (case Inr x of Inr x \<Rightarrow> if x = Link then ret (created, Some [ErrSymlink])
         else if x \<noteq> Dir then ret (created, Some [ErrInvalidPath])
         else ensure_parents allow created ss
     | Inl e \<Rightarrow> if NotExist \<notin> set e then ret (created, Some e)
         else if \<not> allow then ret (created, Some [ErrChanged])
         else andthen (mkdir s) (\<lambda>m. case m of Inl e \<Rightarrow> ret (created, Some e)
           | Inr _ \<Rightarrow> andthen (syncDirectory (path_dir s)) (\<lambda>y. case y of Inl e \<Rightarrow> ret (created, Some e)
             | Inr _ \<Rightarrow> ensure_parents allow (created @ [s]) ss))) ?Q"
    proof (cases "x = Dir")
      case True
      have "triple q I ?R (ensure_parents allow created ss) ?Q"
        by (rule t_pre [OF IH [OF Cons.prems(2)]]) (auto simp: True split: option.splits)
      then show ?thesis by (simp only: sum.case True node.distinct if_False simp_thms if_True)
    next
      case False
      then show ?thesis using xd by (intro t_none) blast
    qed
  qed
qed

lemma fresh_dirs_append: "fresh_dirs p n0 (a @ b) \<longleftrightarrow> fresh_dirs p n0 a \<and> fresh_dirs p n0 b"
  by (auto simp: fresh_dirs_def)

text \<open>The parents of a target, and the parents of one that exists are there.\<close>

lemma t_ensureTargetParents:
  assumes p: "wf_plan h p" and t: "txn_name t" and I: "\<And>n. all_rows p t n0 x0 E n \<Longrightarrow> I n" and r: "r \<in> set (rows p)" "r = (i, c, b, f)"
    and ex: "\<And>n. all_rows p t n0 x0 E n \<Longrightarrow> \<not> allow \<Longrightarrow> map_of n (target_key r) \<noteq> None"
  shows "triple q I (all_rows p t n0 x0 E) (ensureTargetParents (change_path c) allow)
    (\<lambda>(cr, e) n. all_rows p t n0 x0 E n \<and> fresh_dirs p n0 cr \<and> (e = None \<longrightarrow> parent_ok n (target_key r)) \<and> (q \<longrightarrow> e = None))"
  unfolding ensureTargetParents_def
proof (rule t_weaken [OF t_ensure_parents [where pre = "[]", OF p t I]])
  show "change_path c \<in> set (targets p)" using row_factsD(11) [OF p] r by blast
  show "[] @ parent_paths (change_path c) = parent_paths (change_path c)" by simp
  show "fresh_dirs p n0 []" by (simp add: fresh_dirs_def)
  fix n assume n: "all_rows p t n0 x0 E n"
  have "map_of n (comps a) = Some Dir" if "\<not> allow" "a \<in> set (parent_paths (change_path c))" for a
  proof -
    have "strict_prefix (comps a) (target_key r)" using that(2) by (simp add: above_parent r(2))
    then show ?thesis using ex [OF n that(1)] n target_key_not_own [OF p r(1)] by (auto simp: all_rows_def in_txn_def base_def tree_ok_def)
  qed
  then show "all_rows p t n0 x0 E n \<and> (\<forall>a\<in>set []. map_of n (comps a) = Some Dir)
     \<and> (\<not> allow \<longrightarrow> (\<forall>a\<in>set (parent_paths (change_path c)). map_of n (comps a) = Some Dir))" using n by simp
next
  have "parent_ok n (target_key r)" if d: "\<forall>a\<in>set (parent_paths (change_path c)). map_of n (comps a) = Some Dir" for n
    unfolding parent_ok_def
  proof (cases "butlast (target_key r) = []")
    case False
    obtain a b where "change_path c = a @ CHR ''/'' # b" "comps a = butlast (target_key r)"
      using comps_above [OF butlast_above [OF comps_nonempty], of "change_path c"] False r(2) by auto
    then show "butlast (target_key r) = [] \<or> map_of n (butlast (target_key r)) = Some Dir"
      using d parent_paths_append by metis
  qed simp
  then show "(\<lambda>(cr, e) n. all_rows p t n0 x0 E n \<and> fresh_dirs p n0 cr \<and> (e = None \<longrightarrow> (\<forall>a\<in>set (parent_paths (change_path c)). map_of n (comps a) = Some Dir)) \<and> (q \<longrightarrow> e = None)) x n
    \<Longrightarrow> (\<lambda>(cr, e) n. all_rows p t n0 x0 E n \<and> fresh_dirs p n0 cr \<and> (e = None \<longrightarrow> parent_ok n (target_key r)) \<and> (q \<longrightarrow> e = None)) x n" for x n
    by (cases x) auto
qed

text \<open>Removing them again: what is not empty stays, with an error.\<close>

lemma t_remove_created:
  assumes p: "wf_plan h p" and t: "txn_name t" and I: "\<And>n. all_rows p t n0 x0 E n \<Longrightarrow> I n" and cr: "fresh_dirs p n0 ss"
  shows "triple q I (all_rows p t n0 x0 E) (remove_created ss es)
    (\<lambda>es' n. all_rows p t n0 x0 E n \<and> (es' = [] \<longrightarrow> es = []))"
  using cr
proof (induction ss arbitrary: es)
  case Nil
  then show ?case by (auto intro!: t_ret)
next
  case (Cons s ss)
  let ?P = "all_rows p t n0 x0 E"
  have IH: "triple q I ?P (remove_created ss es') (\<lambda>es'' n. ?P n \<and> (es'' = [] \<longrightarrow> es = []))" if "es' = [] \<Longrightarrow> es = []" for es'
    by (rule t_post [OF Cons.IH]) (use Cons.prems that in \<open>auto simp: fresh_dirs_def\<close>)
  have k: "comps s \<in> above_keys p" "map_of n0 (comps s) \<noteq> Some Dir" using Cons.prems by (auto simp: fresh_dirs_def)
  have rm: "triple q I ?P (remove s) (\<lambda>a n. ?P n)"
    unfolding remove_def
  proof (rule t_sys)
    fix n x n'
    assume n: "?P n" and e: "(case map_of n (comps s) of None \<Rightarrow> Inl [NotExist]
       | Some x \<Rightarrow> if x = Dir \<and> has_members n (comps s) then Inl [Failure] else Inr ((), AList.delete (comps s) n)) = Inr (x, n')"
    have b: "base p n0 n" using n by (simp add: all_rows_def in_txn_def)
    then have "map_of n (comps s) = Some Dir" "\<not> has_members n (comps s)" "n' = AList.delete (comps s) n"
      using e k(1) by (auto simp: base_def split: option.splits if_splits)
    then show "?P n'" by (intro all_rows_above [OF p t n k(1)]) (use k(2) tree_ok_rmdir b in \<open>auto simp: base_def\<close>)
  qed (auto simp: untouched_def I)
  have sy: "triple q I ?P (and_failures es (syncDirectory (path_dir s))) (\<lambda>es' n. ?P n \<and> (es' = [] \<longrightarrow> es = []))"
    unfolding and_failures_def
    by (rule t_andthen [OF t_obs [OF obs_syncDirectory, where Q = "\<lambda>_. ?P"]]) (auto intro!: t_ret simp: I split: sum.splits)
  have ok: "triple q I ?P (andthen (and_failures es (syncDirectory (path_dir s))) (remove_created ss)) (\<lambda>es' n. ?P n \<and> (es' = [] \<longrightarrow> es = []))"
    by (rule t_andthen [OF sy]) (rule t_given', rule IH, blast)
  show ?case unfolding remove_created.simps
  proof (rule t_andthen [OF rm])
    show "triple q I ?P (case x of Inl e \<Rightarrow> remove_created ss (if NotExist \<in> set e then es else es @ e)
     | Inr _ \<Rightarrow> andthen (and_failures es (syncDirectory (path_dir s))) (remove_created ss)) (\<lambda>es' n. ?P n \<and> (es' = [] \<longrightarrow> es = []))" for x
    proof (cases x)
      case (Inl e)
      then show ?thesis using IH [of es] IH [of "es @ e"] by simp
    qed (simp add: ok)
  qed
qed

subsection \<open>Undoing the journal\<close>

definition entry_for :: "journal \<Rightarrow> plan_row \<Rightarrow> journalEntry option" where
  "entry_for js r = find (\<lambda>j. j_target j = change_path (fst (snd r))) js"

definition journal_ok :: "plan \<Rightarrow> journal \<Rightarrow> bool" where
  "journal_ok p js \<longleftrightarrow> distinct (map j_target js) \<and> (\<forall>j\<in>set js. \<exists>r\<in>set (rows p). j_target j = change_path (fst (snd r)))"

text \<open>What the journal says of the target and the backup of its row.\<close>

definition undoable :: "digester \<Rightarrow> string \<Rightarrow> plan_row \<Rightarrow> journalEntry \<Rightarrow> node option \<Rightarrow> node option \<Rightarrow> bool" where
  "undoable h t r j x y \<longleftrightarrow>
     (if originalMoved j then j_backup j = backup_name t (fst r) \<and> f_exists (row_before r) \<and> copy_of h (row_before r) y
      else y = None)
   \<and> (if installed j then is_file h (row_final r) x \<and> x \<noteq> None \<and> (f_exists (row_before r) \<longrightarrow> originalMoved j)
      else if originalMoved j then x = None else is_file h (row_before r) x)"

definition undoing :: "digester \<Rightarrow> string \<Rightarrow> journal \<Rightarrow> werrs \<Rightarrow> row_pred" where
  "undoing h t js es r x y z \<longleftrightarrow> (case entry_for js r of Some j \<Rightarrow> undoable h t r j x y
     | None \<Rightarrow> row_ok h r x y \<and> (es = [] \<longrightarrow> is_file h (row_before r) x))"

lemma undoable_ok: "undoable h t r j x y \<Longrightarrow> row_ok h r x y"
  by (auto simp: undoable_def row_ok_def is_file_def file_or_none_def split: if_splits)

lemma undoing_ok: "undoing h t js es r x y z \<Longrightarrow> row_ok h r x y"
  using undoable_ok by (auto simp: undoing_def split: option.splits)

lemma copy_is_file: "copy_of h f y \<Longrightarrow> f_exists f \<Longrightarrow> is_file h f y"
  by (cases f) (auto simp: copy_of_def is_file_def file_or_none_def regular_def file_at_def)

lemma file_is_copy: "is_file h f x \<Longrightarrow> f_exists f \<Longrightarrow> copy_of h f x"
  using exists_some [of h f x] by (cases f) (auto simp: copy_of_def is_file_def file_at_def)

lemma entry_for_append: "entry_for (js @ js') r = (case entry_for js r of None \<Rightarrow> entry_for js' r | Some j \<Rightarrow> Some j)"
  unfolding entry_for_def by (induction js) auto

lemma entry_for_None: "entry_for js r = None \<longleftrightarrow> change_path (fst (snd r)) \<notin> j_target ` set js"
  unfolding entry_for_def find_None_iff image_iff by metis

lemma row_targets_differ:
  "wf_plan h p \<Longrightarrow> r \<in> set (rows p) \<Longrightarrow> r' \<in> set (rows p) \<Longrightarrow> r \<noteq> r' \<Longrightarrow> change_path (fst (snd r)) \<noteq> change_path (fst (snd r'))"
  using rows_differ(1) [of h p transactionPrefix r r'] by (auto simp: target_key_def txn_name_def has_prefix_iff transactionPrefix_def)

lemma undoing_other:
  assumes "wf_plan h p" and "r \<in> set (rows p)" and "r' \<in> set (rows p)" and "r' \<noteq> r" and "j_target j = change_path (fst (snd r))"
    and "undoing h t (js @ [j]) es r' x y z"
  shows "undoing h t js es r' x y z"
proof -
  have "entry_for (js @ [j]) r' = entry_for js r'"
    using row_targets_differ [OF assms(1,3,2,4)] assms(5)
    by (simp add: entry_for_append) (simp add: entry_for_def split: option.splits)
  then show ?thesis using assms(6) by (simp add: undoing_def)
qed

lemma t_and_failures_obs:
  assumes "observes m f" and "\<And>n. P n \<Longrightarrow> I n"
  shows "triple q I P (and_failures es m) (\<lambda>es' n. P n \<and> (es' = [] \<longrightarrow> es = []))"
  unfolding and_failures_def
  by (rule t_andthen [OF t_obs [OF assms(1), where Q = "\<lambda>_. P"]]) (auto intro!: t_ret simp: assms(2) split: sum.splits)

lemma t_undo_entry:
  assumes p: "wf_plan h p" and t: "txn_name t" and n0: "ready h p n0"
    and I: "\<And>n. all_rows p t n0 x0 (ok_rows h) n \<Longrightarrow> I n"
    and r: "r \<in> set (rows p)" "j_target j = change_path (fst (snd r))" and no: "entry_for js r = None"
  shows "triple q I (all_rows p t n0 x0 (undoing h t (js @ [j]) es)) (undo_entry j es)
    (\<lambda>es' n. all_rows p t n0 x0 (undoing h t js es') n)" (is "triple q I _ _ ?Q")
proof -
  obtain i c b f where rr: "r = (i, c, b, f)" by (cases r)
  let ?E = "undoing h t js es"
  let ?S = "\<lambda>x y z. row_state False p t n0 x0 ?E r x y z"
  have II: "I n" if "?S x y z n" "row_ok h r x y" for x y z n
  proof -
    have "at_row p t n0 x0 (ok_rows h) r x y z n"
      using that(1) at_row_mono [of p t n0 x0 ?E r x y z n "ok_rows h"] undoing_ok by (auto simp: row_state_def)
    then show ?thesis using at_row_all [of p t n0 x0 "ok_rows h" r x y z n] r(1) that(2) I by simp
  qed
  have fin: "?Q es' n" if "?S x y z n" "row_ok h r x y" "es' = [] \<Longrightarrow> es = [] \<and> is_file h b x" for x y z n es'
  proof -
    have "at_row p t n0 x0 (undoing h t js es') r x y z n"
      using that(1) at_row_mono [of p t n0 x0 ?E r x y z n "undoing h t js es'"] that(3)
      by (auto simp: row_state_def undoing_def split: option.splits)
    then show ?thesis using at_row_all [of p t n0 x0 "undoing h t js es'" r x y z n] r(1) that(2,3) no
      by (auto simp: undoing_def rr)
  qed
  have SP: "row_state True p t n0 x0 ?E r x y z n" if "?S x y z n" "f_exists b" for x y z n
    using that parent_there [OF p n0 r(1)] row_state_in [OF that(1)] by (simp add: row_state_def rr in_txn_def)
  have mvback: "triple q I (?S x y z) (if originalMoved j then and_failures es1 (attempt (rename (j_backup j) (j_target j)) (\<lambda>_. syncRename (j_backup j) (j_target j)))
     else ret es1) ?Q"
    if ok: "row_ok h r x y" and moved: "originalMoved j \<Longrightarrow> j_backup j = backup_name t i \<and> f_exists b \<and> copy_of h b y"
      and same: "\<not> originalMoved j \<Longrightarrow> es1 = [] \<Longrightarrow> is_file h b x" and es1: "es1 = [] \<Longrightarrow> es = []" for x y z es1
  proof (cases "originalMoved j")
    case False
    then show ?thesis using fin ok same es1 by (auto intro!: t_ret)
  next
    case True
    note mv = moved [OF True]
    obtain md d where y: "y = Some (Reg md d)" using mv by (auto simp: copy_of_def)
    have ry: "row_ok h r y None" "is_file h b y"
      using copy_is_file mv by (auto simp: row_ok_def rr is_file_def)
    let ?T = "row_state True p t n0 x0 ?E r"
    have TS: "?S x y z n" if "?T x y z n" for x y z n using that by (simp add: row_state_def)
    have "triple q I (?T x y z) (attempt (rename (backup_name t i) (change_path c)) (\<lambda>_. syncRename (backup_name t i) (change_path c)))
      (\<lambda>a n. (a = Inr () \<longrightarrow> ?T y None z n) \<and> a \<noteq> Inl [] \<and> (?T x y z n \<or> ?T y None z n))"
    proof (rule t_does [OF t_restore_backup [OF p t r(1) rr _ y row_ok_file [OF ok]]])
      show "I n" if "?T x y z n" for n using II [OF TS [OF that] ok] .
      show "triple q I (?T y None z) (syncRename (backup_name t i) (change_path c))
        (\<lambda>a n. (a = Inr () \<longrightarrow> ?T y None z n) \<and> a \<noteq> Inl [] \<and> (?T x y z n \<or> ?T y None z n))"
      proof (rule t_obs [OF obs_syncRename])
        show "I n" if "?T y None z n" for n by (rule II [OF TS [OF that] ry(1)])
      qed auto
    qed auto
    then have "triple q I (?T x y z) (and_failures es1 (attempt (rename (backup_name t i) (change_path c)) (\<lambda>_. syncRename (backup_name t i) (change_path c)))) ?Q"
      unfolding and_failures_def
    proof (rule t_andthen)
      fix a :: "(werrs, unit) result"
      let ?A = "\<lambda>n. (a = Inr () \<longrightarrow> ?T y None z n) \<and> a \<noteq> Inl [] \<and> (?T x y z n \<or> ?T y None z n)"
      show "triple q I ?A (ret (case a of Inl e \<Rightarrow> es1 @ e | Inr _ \<Rightarrow> es1)) ?Q"
      proof (rule t_ret)
        fix n assume n: "?A n"
        show "?Q (case a of Inl e \<Rightarrow> es1 @ e | Inr _ \<Rightarrow> es1) n"
        proof (cases a)
          case (Inr u)
          then have "?S y None z n" using n TS by simp
          then show ?thesis using fin ry es1 Inr by simp
        next
          case (Inl e)
          then have "es1 @ e \<noteq> []" using n by auto
          then show ?thesis using n TS fin [of x y z n "es1 @ e"] fin [of y None z n "es1 @ e"] ok ry Inl by auto
        qed
      qed
    qed
    then show ?thesis using True SP mv by (auto simp: r(2) rr intro: t_pre)
  qed
  have drop: "triple q I (?S x y z) (undo_entry j es) ?Q" if u: "undoable h t r j x y" for x y z
  proof -
    have mv: "originalMoved j \<Longrightarrow> j_backup j = backup_name t i \<and> f_exists b \<and> copy_of h b y"
      using u by (auto simp: undoable_def rr)
    note ok = undoable_ok [OF u]
    show ?thesis unfolding undo_entry_def
    proof (cases "installed j")
      case False
      have "\<not> originalMoved j \<Longrightarrow> is_file h b x" using u False by (simp add: undoable_def rr)
      then show "triple q I (?S x y z) (andthen (if installed j then
         andthen (remove (j_target j)) (\<lambda>r. case r of
             Inl e \<Rightarrow> ret (if NotExist \<in> set e then es else es @ e)
           | Inr _ \<Rightarrow> and_failures es (syncDirectory (path_dir (j_target j))))
       else ret es) (\<lambda>es. if originalMoved j then and_failures es (attempt (rename (j_backup j) (j_target j)) (\<lambda>_. syncRename (j_backup j) (j_target j)))
     else ret es)) ?Q" using mvback [OF ok mv] False by simp
    next
      case True
      then have x: "is_file h f x" "x \<noteq> None" "f_exists b \<Longrightarrow> originalMoved j" using u by (auto simp: undoable_def rr)
      then obtain md d where xx: "x = Some (Reg md d)"
        by (auto simp: is_file_def file_or_none_def regular_def split: node.splits)
      have okN: "row_ok h r None y" using u x(3) file_at_before(4) [OF p r(1) rr, of None]
        by (auto simp: undoable_def row_ok_def rr file_or_none_def split: if_splits)
      have fb: "\<not> originalMoved j \<Longrightarrow> is_file h b None"
        using x(3) file_at_before(4) [OF p r(1) rr, of None] by (auto simp: file_or_none_def)
      let ?A = "\<lambda>es1 n. (es1 = [] \<longrightarrow> es = []) \<and> (?S None y z n \<or> es1 \<noteq> [] \<and> ?S x y z n)"
      have rm: "triple q I (?S x y z) (andthen (remove (change_path c)) (\<lambda>r. case r of
             Inl e \<Rightarrow> ret (if NotExist \<in> set e then es else es @ e)
           | Inr _ \<Rightarrow> and_failures es (syncDirectory (path_dir (change_path c))))) ?A"
      proof (rule t_andthen [OF t_remove_target [OF p t r(1) rr _ xx]])
        show "I n" if "?S x y z n" for n using II [OF that ok] .
        show "triple q I (\<lambda>n. a = Inr () \<and> ?S None y z n \<or> \<not> q \<and> a = Inl [Failure] \<and> ?S x y z n)
          (case a of Inl e \<Rightarrow> ret (if NotExist \<in> set e then es else es @ e)
           | Inr _ \<Rightarrow> and_failures es (syncDirectory (path_dir (change_path c)))) ?A" for a
        proof (cases a)
          case (Inr u)
          have "triple q I (?S None y z) (and_failures es (syncDirectory (path_dir (change_path c)))) (\<lambda>es' n. ?S None y z n \<and> (es' = [] \<longrightarrow> es = []))"
            by (rule t_and_failures_obs [OF obs_syncDirectory]) (rule II [OF _ okN])
          then show ?thesis using Inr by (auto intro: t_weaken)
        qed (auto intro!: t_ret)
      qed
      have go: "triple q I (?A es1) (if originalMoved j then and_failures es1 (attempt (rename (j_backup j) (j_target j)) (\<lambda>_. syncRename (j_backup j) (j_target j)))
        else ret es1) ?Q" for es1
      proof (rule t_pre [OF t_or [OF t_given [where A = "es1 = [] \<longrightarrow> es = []"] t_given [where A = "(es1 = [] \<longrightarrow> es = []) \<and> es1 \<noteq> []"]]])
        show "triple q I (?S None y z) (if originalMoved j then and_failures es1 (attempt (rename (j_backup j) (j_target j)) (\<lambda>_. syncRename (j_backup j) (j_target j)))
          else ret es1) ?Q" if "es1 = [] \<longrightarrow> es = []" by (rule mvback [OF okN mv fb]) (use that in auto)
        show "triple q I (?S x y z) (if originalMoved j then and_failures es1 (attempt (rename (j_backup j) (j_target j)) (\<lambda>_. syncRename (j_backup j) (j_target j)))
          else ret es1) ?Q" if "(es1 = [] \<longrightarrow> es = []) \<and> es1 \<noteq> []" by (rule mvback [OF ok mv]) (use that in auto)
      qed auto
      show "triple q I (?S x y z) (andthen (if installed j then
         andthen (remove (j_target j)) (\<lambda>r. case r of
             Inl e \<Rightarrow> ret (if NotExist \<in> set e then es else es @ e)
           | Inr _ \<Rightarrow> and_failures es (syncDirectory (path_dir (j_target j))))
       else ret es) (\<lambda>es. if originalMoved j then and_failures es (attempt (rename (j_backup j) (j_target j)) (\<lambda>_. syncRename (j_backup j) (j_target j)))
     else ret es)) ?Q"
        using t_andthen [OF rm go] True r(2) by (simp add: rr)
    qed
  qed
  show ?thesis
  proof (rule t_pre [OF t_ex [of q I "\<lambda>v n. undoable h t r j (fst v) (fst (snd v)) \<and> ?S (fst v) (fst (snd v)) (snd (snd v)) n"]])
    show "triple q I (\<lambda>n. undoable h t r j (fst v) (fst (snd v)) \<and> ?S (fst v) (fst (snd v)) (snd (snd v)) n) (undo_entry j es) ?Q" for v
      by (rule t_given, rule drop)
    fix n assume "all_rows p t n0 x0 (undoing h t (js @ [j]) es) n"
    then obtain x y z where a: "at_row p t n0 x0 (undoing h t (js @ [j]) es) r x y z n" "undoing h t (js @ [j]) es r x y z"
      using all_rows_at [OF r(1)] by blast
    have "entry_for (js @ [j]) r = Some j" using no r(2) by (simp add: entry_for_append) (simp add: entry_for_def)
    then have u: "undoable h t r j x y" using a(2) by (simp add: undoing_def)
    have "at_row p t n0 x0 ?E r x y z n"
      using a(1) undoing_other [OF p r(1) _ _ r(2)] by (auto simp: at_row_def holds_at_def)
    then show "\<exists>v. undoable h t r j (fst v) (fst (snd v)) \<and> ?S (fst v) (fst (snd v)) (snd (snd v)) n"
      using u by (auto simp: row_state_def)
  qed
qed

lemma andthen_assoc: "andthen (andthen m k) k' = andthen m (\<lambda>x. andthen (k x) k')"
  by (rule ext) (auto simp: andthen_def split: prod.splits io.splits)

lemma undo_journal_append: "undo_journal (js @ js') es = andthen (undo_journal js es) (undo_journal js')"
proof (induction js arbitrary: es)
  case (Cons j js)
  then have "undo_journal (js @ js') = (\<lambda>es. andthen (undo_journal js es) (undo_journal js'))" by (rule ext)
  then show ?case by (simp add: andthen_assoc)
qed simp

lemma undo_journal_single: "undo_journal [j] es = undo_entry j es"
  by (rule ext) (auto simp: andthen_def ret_def split: prod.splits io.splits)

lemma journal_ok_snoc:
  "journal_ok p (js @ [j]) \<longleftrightarrow> journal_ok p js \<and> (\<exists>r\<in>set (rows p). j_target j = change_path (fst (snd r)) \<and> entry_for js r = None)"
  unfolding journal_ok_def entry_for_None image_iff
  by (simp add: image_iff) metis

lemma t_undo_journal:
  assumes p: "wf_plan h p" and t: "txn_name t" and n0: "ready h p n0"
    and I: "\<And>n. all_rows p t n0 x0 (ok_rows h) n \<Longrightarrow> I n" and js: "journal_ok p js"
  shows "triple q I (all_rows p t n0 x0 (undoing h t js es)) (undo_journal (rev js) es)
    (\<lambda>es' n. all_rows p t n0 x0 (undoing h t [] es') n)"
  using js
proof (induction js arbitrary: es rule: rev_induct)
  case Nil
  then show ?case by (auto intro!: t_ret)
next
  case (snoc j js)
  then obtain r where r: "journal_ok p js" "r \<in> set (rows p)" "j_target j = change_path (fst (snd r))" "entry_for js r = None"
    by (auto simp: journal_ok_snoc)
  show ?case
    by (simp, rule t_andthen [OF t_undo_entry [OF p t n0 I r(2-4)] snoc.IH [OF r(1)]])
qed

text \<open>A commit that failed: the tree with its journal, and the directories it created.\<close>

lemma t_rollback:
  assumes p: "wf_plan (sha pf) p" and t: "txn_name t" and n0: "ready (sha pf) p n0" and rc: "journalled pf p g x0"
    and C: "\<And>n. consistent pf p g n0 n \<Longrightarrow> I n"
    and d: "fst (parseTransactionDirectoryName t transactionPrefix) = plan_digest p"
    and js: "journal_ok p js" and cr: "fresh_dirs p n0 created"
  shows "triple q I (all_rows p t n0 x0 (undoing (sha pf) t js [])) (rollback (sha pf) t p js created)
    (\<lambda>a n. consistent pf p g n0 n \<and> (a = None \<longrightarrow> cleared pf p n0 n \<and> whole (sha pf) p row_before n0 n))" (is "triple q I _ _ ?Q")
proof -
  let ?h = "sha pf"
  let ?U = "\<lambda>es. all_rows p t n0 x0 (undoing ?h t [] es)"
  have ok: "all_rows p t n0 x0 (ok_rows ?h) n" if "all_rows p t n0 x0 (undoing ?h t js' es) n" for js' es n
    by (rule all_rows_mono [OF that]) (rule undoing_ok)
  have Cn: "consistent pf p g n0 n" if "all_rows p t n0 x0 (ok_rows ?h) n" for n
    using interruptedI [OF that _ d] rc by (auto simp: consistent_def)
  have I: "I n" if "all_rows p t n0 x0 (ok_rows ?h) n" for n using C Cn that by blast
  have cr': "fresh_dirs p n0 (rev created)" using cr by (simp add: fresh_dirs_def)
  have un: "undone ?h p t n0 n" if "?U [] n" for n
  proof -
    have "all_rows p t n0 x0 (restored ?h []) n"
      by (rule all_rows_mono [OF that]) (simp add: undoing_def entry_for_def restored_def)
    then show ?thesis by (rule restored_undone)
  qed
  have last: "triple q I (\<lambda>n. ?U es n \<and> (es' = [] \<longrightarrow> es = []))
      (if es' \<noteq> [] then ret (Some (ErrRollback # es'))
       else andthen (cleanupTransaction t) (\<lambda>r. case r of Inl e \<Rightarrow> ret (Some (ErrRollback # e)) | Inr _ \<Rightarrow> ret None)) ?Q" for es es'
  proof (cases "es' = []")
    case False
    then show ?thesis using ok Cn by (auto intro!: t_ret)
  next
    case True
    have "triple q I (\<lambda>n. ?U es n \<and> (es' = [] \<longrightarrow> es = [])) (andthen (cleanupTransaction t) (\<lambda>r. case r of Inl e \<Rightarrow> ret (Some (ErrRollback # e)) | Inr _ \<Rightarrow> ret None)) ?Q"
    proof (rule t_andthen [OF t_pre [OF t_cleanup_before [OF p C t d]]])
      show "undone ?h p t n0 n" if "?U es n \<and> (es' = [] \<longrightarrow> es = [])" for n using that un True by auto
    qed (auto intro!: t_ret simp: cleared_def split: sum.splits)
    then show ?thesis using True by simp
  qed
  have guard: "and_failures es (verifyDirectoryGuards p False) = ret es" for es
    using wf_planD(12) [OF p] by (simp add: and_failures_def)
  have cap: "triple q I (\<lambda>n. ?U es n \<and> (es' = [] \<longrightarrow> es = [])) (andthen (capturePlanFiles ?h p) (\<lambda>r.
       let es' = es' @ (case r of Inl e \<Rightarrow> e | Inr fs \<Rightarrow> if digestFiles ?h fs \<noteq> before_digest p then [ErrChanged] else []) in
     andthen (and_failures es' (verifyDirectoryGuards p False)) (\<lambda>es'.
       if es' \<noteq> [] then ret (Some (ErrRollback # es'))
       else andthen (cleanupTransaction t) (\<lambda>r. case r of
           Inl e \<Rightarrow> ret (Some (ErrRollback # e)) | Inr _ \<Rightarrow> ret None)))) ?Q" for es es'
  proof (rule t_andthen [OF t_obs [OF obs_capturePlanFiles, where Q = "\<lambda>_ n. ?U es n \<and> (es' = [] \<longrightarrow> es = [])"]])
    show "I n" if "?U es n \<and> (es' = [] \<longrightarrow> es = [])" for n using ok I that by blast
    show "triple q I (\<lambda>n. ?U es n \<and> (es' = [] \<longrightarrow> es = [])) (let es' = es' @ (case r of Inl e \<Rightarrow> e | Inr fs \<Rightarrow> if digestFiles ?h fs \<noteq> before_digest p then [ErrChanged] else []) in
     andthen (and_failures es' (verifyDirectoryGuards p False)) (\<lambda>es'.
       if es' \<noteq> [] then ret (Some (ErrRollback # es'))
       else andthen (cleanupTransaction t) (\<lambda>r. case r of
           Inl e \<Rightarrow> ret (Some (ErrRollback # e)) | Inr _ \<Rightarrow> ret None))) ?Q" for r
      unfolding Let_def guard andthen_ret by (rule t_pre [OF last]) auto
  qed auto
  have dirs: "triple q I (?U es) (andthen (remove_created (rev created) es) (\<lambda>es.
     andthen (capturePlanFiles ?h p) (\<lambda>r.
       let es = es @ (case r of Inl e \<Rightarrow> e | Inr fs \<Rightarrow> if digestFiles ?h fs \<noteq> before_digest p then [ErrChanged] else []) in
     andthen (and_failures es (verifyDirectoryGuards p False)) (\<lambda>es.
       if es \<noteq> [] then ret (Some (ErrRollback # es))
       else andthen (cleanupTransaction t) (\<lambda>r. case r of
           Inl e \<Rightarrow> ret (Some (ErrRollback # e)) | Inr _ \<Rightarrow> ret None))))) ?Q" for es
    by (rule t_andthen [OF t_remove_created [OF p t _ cr']]) (rule I [OF ok], assumption, rule cap)
  show ?thesis unfolding rollback_def
    by (rule t_andthen [OF t_undo_journal [OF p t n0 I js] dirs])
qed

lemma t_failCommit:
  assumes p: "wf_plan (sha pf) p" and t: "txn_name t" and n0: "ready (sha pf) p n0" and rc: "journalled pf p g x0"
    and C: "\<And>n. consistent pf p g n0 n \<Longrightarrow> I n"
    and d: "fst (parseTransactionDirectoryName t transactionPrefix) = plan_digest p"
    and js: "journal_ok p js" and cr: "fresh_dirs p n0 created"
  shows "triple q I (all_rows p t n0 x0 (undoing (sha pf) t js [])) (failCommit (sha pf) t p js created e)
    (\<lambda>es n. consistent pf p g n0 n)"
  unfolding failCommit_def
  by (rule t_andthen [OF t_rollback [OF p t n0 rc C d js cr]]) (auto intro!: t_ret)

subsection \<open>Committing the targets\<close>

text \<open>Rows that are still to do have their staged content; the others have their final state.\<close>

definition forward :: "digester \<Rightarrow> string \<Rightarrow> journal \<Rightarrow> plan_row list \<Rightarrow> row_pred" where
  "forward h t js rs r x y z \<longleftrightarrow> undoing h t js [] r x y z
     \<and> (if r \<in> set rs then entry_for js r = None \<and> y = None \<and> (write_op (p_operation (public (fst (snd r)))) \<longrightarrow> copy_of h (row_final r) z)
        else is_file h (row_final r) x)"

text \<open>Where the commit is, with its journal and the directories it created, and with the error that stopped it.\<close>

definition committing :: "digester \<Rightarrow> plan \<Rightarrow> string \<Rightarrow> tree \<Rightarrow> node option \<Rightarrow> plan_row list \<Rightarrow> progress \<times> werrs option \<Rightarrow> tree \<Rightarrow> bool" where
  "committing h p t n0 x0 rs pe n \<longleftrightarrow> (case pe of ((js, cr, _), e) \<Rightarrow> journal_ok p js \<and> fresh_dirs p n0 cr
     \<and> all_rows p t n0 x0 (undoing h t js []) n \<and> (e = None \<longrightarrow> all_rows p t n0 x0 (forward h t js rs) n))"

lemma ops_differ:
  "OperationCreate \<noteq> OperationAssert" "OperationCreate \<noteq> OperationDelete" "OperationDelete \<noteq> OperationAssert"
  "OperationUpdate \<noteq> OperationAssert" "OperationUpdate \<noteq> OperationDelete" "OperationUpdate \<noteq> OperationCreate"
  by (simp_all add: OperationCreate_def OperationAssert_def OperationDelete_def OperationUpdate_def)

lemma row_ops:
  assumes p: "wf_plan h p" and r: "(i, c, b, f) \<in> set (rows p)"
  shows "p_operation (public c) = OperationCreate \<Longrightarrow> \<not> f_exists b"
    "p_operation (public c) = OperationDelete \<Longrightarrow> f_exists b \<and> \<not> f_exists f"
    "p_operation (public c) = OperationAssert \<Longrightarrow> f = b"
    "p_operation (public c) \<noteq> OperationCreate \<Longrightarrow> p_operation (public c) \<noteq> OperationAssert \<Longrightarrow> f_exists b"
    "p_operation (public c) \<noteq> OperationDelete \<Longrightarrow> p_operation (public c) \<noteq> OperationAssert \<Longrightarrow>
       write_op (p_operation (public c)) \<and> f_exists f \<and> f_mode f = p_mode (public c) \<and> f_digest f = p_digest (public c)"
  using row_factsD(6) [OF p r]
  by (auto simp: desired_file_def write_op_def missing_file_def ops_differ ops_differ [symmetric] split: if_splits)

lemma t_checked:
  assumes "observes m f" and "\<And>n. P n \<Longrightarrow> I n" and "\<And>n. P n \<Longrightarrow> isl (f n) \<Longrightarrow> \<not> q"
    and "\<And>e n. P n \<Longrightarrow> \<not> q \<Longrightarrow> Q (pr, Some e) n" and "\<And>v. triple q I (\<lambda>n. P n \<and> f n = Inr v) (k v) Q"
  shows "triple q I P (checked pr m k) Q"
  unfolding checked_def
proof (rule t_obs_andthen [OF assms(1,2)])
  show "triple q I (\<lambda>n. P n \<and> (f n = Inl e \<or> \<not> q \<and> Failure \<in> set e)) (case Inl e of Inl e \<Rightarrow> ret (pr, Some e) | Inr x \<Rightarrow> k x) Q" for e
    unfolding sum.case by (rule t_ret) (use assms(3,4) in \<open>force\<close>)
  show "triple q I (\<lambda>n. P n \<and> f n = Inr x) (case Inr x of Inl e \<Rightarrow> ret (pr, Some e) | Inr x \<Rightarrow> k x) Q" for x
    using assms(5) by simp
qed

lemma t_checked_does:
  assumes "triple q I P m (\<lambda>a n. a = Inr () \<and> R n \<or> \<not> q \<and> a = Inl [Failure] \<and> P n)"
    and "\<And>n. P n \<Longrightarrow> \<not> q \<Longrightarrow> Q (pr, Some [Failure]) n" and "\<And>u. triple q I R (k u) Q"
  shows "triple q I P (checked pr m k) Q"
  unfolding checked_def
proof (rule t_andthen [OF assms(1)])
  fix a :: "(werrs, unit) result"
  show "triple q I (\<lambda>n. a = Inr () \<and> R n \<or> \<not> q \<and> a = Inl [Failure] \<and> P n) (case a of Inl e \<Rightarrow> ret (pr, Some e) | Inr x \<Rightarrow> k x) Q"
    using assms(2,3) by (cases a) (auto intro!: t_ret intro: t_pre)
qed

text \<open>The other rows do not notice a new entry of the journal.\<close>

lemma forward_other:
  assumes "wf_plan h p" and "r \<in> set (rows p)" and "r' \<in> set (rows p)" and "r' \<noteq> r" and "j_target j = change_path (fst (snd r))"
  shows "forward h t (js @ [j]) rs r' x y z = forward h t js rs r' x y z"
proof -
  have "entry_for (js @ [j]) r' = entry_for js r'"
    using row_targets_differ [OF assms(1,3,2,4)] assms(5)
    by (simp add: entry_for_append) (simp add: entry_for_def split: option.splits)
  then show ?thesis by (simp add: forward_def undoing_def)
qed

lemma row_done:
  assumes p: "wf_plan h p" and r: "r \<in> set (rows p)" "j_target j = change_path (fst (snd r))" "entry_for js r = None" "r \<notin> set rs"
    and js: "journal_ok p js" "fresh_dirs p n0 cr"
    and s: "row_state pk p t n0 x0 (forward h t js rs) r x y z n" and u: "undoable h t r j x y"
    and e: "e = None \<Longrightarrow> is_file h (row_final r) x"
  shows "committing h p t n0 x0 rs ((js @ [j], cr, w), e) n"
proof -
  have own: "entry_for (js @ [j]) r = Some j" using r(2,3) by (simp add: entry_for_append) (simp add: entry_for_def)
  have ok: "journal_ok p (js @ [j])" using js(1) r(1-3) by (auto simp: journal_ok_snoc)
  have a: "at_row p t n0 x0 (forward h t (js @ [j]) rs) r x y z n"
    using s forward_other [OF p r(1) _ _ r(2)] by (auto simp: row_state_def at_row_def holds_at_def)
  have b: "at_row p t n0 x0 (undoing h t (js @ [j]) []) r x y z n"
    by (rule at_row_mono [OF a]) (simp add: forward_def)
  have v: "undoing h t (js @ [j]) [] r x y z" using own u by (simp add: undoing_def)
  show ?thesis
    using ok js(2) at_row_all [OF b r(1) v] at_row_all [OF a r(1)] e v r(4) by (auto simp: committing_def forward_def)
qed

lemma row_kept:
  assumes p: "wf_plan h p" and r: "r \<in> set (rows p)" "entry_for js r = None" "r \<notin> set rs"
    and js: "journal_ok p js" "fresh_dirs p n0 cr"
    and s: "row_state pk p t n0 x0 (forward h t js rs) r x y z n" and u: "is_file h (row_before r) x" "y = None"
    and e: "e = None \<Longrightarrow> is_file h (row_final r) x"
  shows "committing h p t n0 x0 rs ((js, cr, w), e) n"
proof -
  have v: "undoing h t js [] r x y z" using u r(2) by (auto simp: undoing_def row_ok_def is_file_def)
  have a: "at_row p t n0 x0 (forward h t js rs) r x y z n" using s by (simp add: row_state_def)
  then have b: "at_row p t n0 x0 (undoing h t js []) r x y z n"
    by (rule at_row_mono) (simp add: forward_def)
  show ?thesis
    using js at_row_all [OF b r(1) v] at_row_all [OF a r(1)] e v r(3) by (auto simp: committing_def forward_def)
qed

lemma committing_ok: "committing h p t n0 x0 rs pe n \<Longrightarrow> all_rows p t n0 x0 (ok_rows h) n"
  by (cases pe) (auto simp: committing_def intro!: all_rows_mono [OF _ undoing_ok])

lemma t_install_row:
  assumes p: "wf_plan h p" and t: "txn_name t" and I: "\<And>n. all_rows p t n0 x0 (ok_rows h) n \<Longrightarrow> I n"
    and r: "r \<in> set (rows p)" "r = (i, c, b, f)" "entry_for js r = None" "r \<notin> set rs"
    and js: "journal_ok p js" "fresh_dirs p n0 cr"
    and j: "j_target j = change_path c" "undoable h t r j None y" "\<not> installed j" "f_exists b \<Longrightarrow> originalMoved j"
    and op: "p_operation (public c) \<noteq> OperationAssert"
    and z: "p_operation (public c) \<noteq> OperationDelete \<Longrightarrow> copy_of h f z"
  shows "triple q I (row_state True p t n0 x0 (forward h t js rs) r None y z) (install_row h t r j (js, cr, w))
    (\<lambda>pe n. committing h p t n0 x0 rs pe n \<and> (q \<longrightarrow> snd pe = None))" (is "triple q I (?S None y z) _ ?Q")
proof -
  have m: "(i, c, b, f) \<in> set (rows p)" using r by simp
  have jt: "j_target j = change_path (fst (snd r))" using j(1) r(2) by simp
  have now: "committing h p t n0 x0 rs ((js @ [j], cr, w), Some e) n" if "?S None y z n" for e n
    by (rule row_done [OF p r(1) jt r(3,4) js that j(2)]) simp
  show ?thesis
  proof (cases "p_operation (public c) = OperationDelete")
    case True
    have "is_file h f None" using row_ops(2) [OF p m True] file_at_before(5) [OF p r(1,2), of None] by (simp add: file_or_none_def)
    then have "?Q ((js @ [j], cr, w), None) n" if "?S None y z n" for n
      using row_done [OF p r(1) jt r(3,4) js that j(2), of None] r(2) by simp
    then show ?thesis using True by (auto simp: install_row_def r(2) intro!: t_ret)
  next
    case False
    note zc = z [OF False]
    obtain md d where zz: "z = Some (Reg md d)" using zc by (auto simp: copy_of_def)
    let ?j = "j\<lparr>installed := True\<rparr>"
    have jt': "j_target ?j = change_path (fst (snd r))" using jt by simp
    have zf: "is_file h f z" using copy_is_file [OF zc] row_ops(5) [OF p m False op] by blast
    have u: "undoable h t r ?j z y" using j zf zz r(2) by (auto simp: undoable_def)
    let ?D = "?S z y None"
    have later: "committing h p t n0 x0 rs ((js @ [?j], cr, w), e) n" if "?D n" for e n
      by (rule row_done [OF p r(1) jt' r(3,4) js that u]) (use zf r(2) in simp)
    have ID: "I n" if "?D n" for n using I committing_ok later [OF that] by blast
    have IN: "I n" if "?S None y z n" for n using I committing_ok now [OF that] by blast
    have ver: "triple q I ?D (checked (js @ [?j], cr, w) (verifyOneTarget h f) (\<lambda>_. ret ((js @ [?j], cr, w), None))) ?Q"
    proof (rule t_checked [OF obs_same_target])
      show "\<not> q" if "?D n" "isl (same_target h f n)" for n
      proof -
        have "same_target h f n = Inr ()"
          using target_checked(2) [OF p r(1,2) row_state_in [OF that(1)]] row_state_at [OF that(1)] zf by simp
        then show ?thesis using that(2) by simp
      qed
    qed (use ID later in \<open>auto intro!: t_ret\<close>)
    have syn: "triple q I ?D (checked (js @ [?j], cr, w) (syncRename (content_name t i) (change_path c)) (\<lambda>_.
       checked (js @ [?j], cr, w) (verifyOneTarget h f) (\<lambda>_. ret ((js @ [?j], cr, w), None)))) ?Q"
    proof (rule t_checked [OF obs_syncRename])
      have "dir_there (path_dir (change_path c)) n \<and> dir_there (path_dir (content_name t i)) n" if "?D n" for n
        using that synced [OF p r(1,2)] txn_synced [OF t row_state_in [OF that]] by (simp add: path_dir_names row_state_def)
      then show "\<not> q" if "?D n" "isl (if dir_there (path_dir (content_name t i)) n \<and> dir_there (path_dir (change_path c)) n then Inr () else Inl [NotExist])" for n
        using that by auto
    qed (use ID later ver in \<open>auto intro: t_pre\<close>)
    have "triple q I (?S None y z) (checked (js @ [j], cr, w) (rename (content_name t i) (change_path c)) (\<lambda>_.
       checked (js @ [?j], cr, w) (syncRename (content_name t i) (change_path c)) (\<lambda>_.
       checked (js @ [?j], cr, w) (verifyOneTarget h f) (\<lambda>_. ret ((js @ [?j], cr, w), None))))) ?Q"
    proof (rule t_checked_does [OF t_install [OF p t r(1,2) IN zz] _ syn])
      show "?Q ((js @ [j], cr, w), Some [Failure]) n" if "?S None y z n" "\<not> q" for n using now that by simp
    qed (simp_all add: file_or_none_def)
    then show ?thesis using False by (simp add: install_row_def r(2) Let_def)
  qed
qed

lemma t_backup_row:
  assumes p: "wf_plan h p" and t: "txn_name t" and I: "\<And>n. all_rows p t n0 x0 (ok_rows h) n \<Longrightarrow> I n"
    and r: "r \<in> set (rows p)" "r = (i, c, b, f)" "entry_for js r = None" "r \<notin> set rs"
    and js: "journal_ok p js" "fresh_dirs p n0 cr" and x: "is_file h b x"
    and op: "p_operation (public c) \<noteq> OperationAssert"
    and z: "p_operation (public c) \<noteq> OperationDelete \<Longrightarrow> copy_of h f z"
  shows "triple q I (row_state True p t n0 x0 (forward h t js rs) r x None z) (backup_row h t r (js, cr, w))
    (\<lambda>pe n. committing h p t n0 x0 rs pe n \<and> (q \<longrightarrow> snd pe = None))" (is "triple q I (?S x None z) _ ?Q")
proof -
  let ?j = "\<lparr>j_target = change_path c, j_backup = [], originalMoved = False, installed = False\<rparr>"
  let ?j1 = "?j\<lparr>j_backup := backup_name t i\<rparr>"
  let ?j2 = "?j1\<lparr>originalMoved := True\<rparr>"
  have fx: "file_or_none x" using x by (simp add: is_file_def)
  show ?thesis
  proof (cases "f_exists b")
    case False
    have xN: "x = None" using x False file_at_before(1,3) [OF p r(1,2) fx] by auto
    have "triple q I (?S x None z) (install_row h t r ?j (js, cr, w)) ?Q"
      unfolding xN by (rule t_install_row [OF p t I r js _ _ _ _ op z]) (use x xN False in \<open>auto simp: undoable_def r(2)\<close>)
    then show ?thesis using False by (simp add: backup_row_def r(2) Let_def)
  next
    case True
    obtain md d where xx: "x = Some (Reg md d)" using exists_some [OF x True] by blast
    have cp: "copy_of h b x" by (rule file_is_copy [OF x True])
    have u1: "undoable h t r ?j1 x None" using x by (simp add: undoable_def r(2))
    have u2: "undoable h t r ?j2 None x" using True cp by (simp add: undoable_def r(2))
    have jt: "j_target ?j1 = change_path (fst (snd r))" "j_target ?j2 = change_path (fst (snd r))" by (simp_all add: r(2))
    have c1: "committing h p t n0 x0 rs ((js @ [?j1], cr, w), Some e) n" if "?S x None z n" for e n
      by (rule row_done [OF p r(1) jt(1) r(3,4) js that u1]) simp
    have c2: "committing h p t n0 x0 rs ((js @ [?j2], cr, w), Some e) n" if "?S None x z n" for e n
      by (rule row_done [OF p r(1) jt(2) r(3,4) js that u2]) simp
    have I1: "I n" if "?S x None z n" for n using I committing_ok c1 [OF that] by blast
    have I2: "I n" if "?S None x z n" for n using I committing_ok c2 [OF that] by blast
    have ins: "triple q I (?S None x z) (install_row h t r ?j2 (js, cr, w)) ?Q"
      by (rule t_install_row [OF p t I r js _ u2 _ _ op z]) simp_all
    have ver: "triple q I (?S None x z) (checked (js @ [?j2], cr, w) (verifyEquivalentFile h (backup_name t i) b) (\<lambda>_. install_row h t r ?j2 (js, cr, w))) ?Q"
    proof (rule t_checked [OF obs_same_copy])
      show "\<not> q" if "?S None x z n" "isl (same_copy h (backup_name t i) b n)" for n
      proof -
        have "same_copy h (backup_name t i) b n = Inr ()"
          using backup_checked(1) [OF t row_state_in [OF that(1)]] row_state_at [OF that(1)] cp by (simp add: r(2))
        then show ?thesis using that(2) by simp
      qed
    qed (use I2 c2 ins in \<open>auto intro: t_pre\<close>)
    have syn: "triple q I (?S None x z) (checked (js @ [?j2], cr, w) (syncRename (change_path c) (backup_name t i)) (\<lambda>_.
       checked (js @ [?j2], cr, w) (verifyEquivalentFile h (backup_name t i) b) (\<lambda>_. install_row h t r ?j2 (js, cr, w)))) ?Q"
    proof (rule t_checked [OF obs_syncRename])
      have "dir_there (path_dir (change_path c)) n \<and> dir_there (path_dir (backup_name t i)) n" if "?S None x z n" for n
        using that synced [OF p r(1,2)] txn_synced [OF t row_state_in [OF that]] by (simp add: path_dir_names row_state_def)
      then show "\<not> q" if "?S None x z n" "isl (if dir_there (path_dir (change_path c)) n \<and> dir_there (path_dir (backup_name t i)) n then Inr () else Inl [NotExist])" for n
        using that by auto
    qed (use I2 c2 ver in \<open>auto intro: t_pre\<close>)
    have "triple q I (?S x None z) (checked (js @ [?j1], cr, w) (rename (change_path c) (backup_name t i)) (\<lambda>_.
       checked (js @ [?j2], cr, w) (syncRename (change_path c) (backup_name t i)) (\<lambda>_.
       checked (js @ [?j2], cr, w) (verifyEquivalentFile h (backup_name t i) b) (\<lambda>_. install_row h t r ?j2 (js, cr, w))))) ?Q"
    proof (rule t_checked_does [OF _ _ syn])
      show "triple q I (?S x None z) (rename (change_path c) (backup_name t i))
        (\<lambda>a n. a = Inr () \<and> ?S None x z n \<or> \<not> q \<and> a = Inl [Failure] \<and> ?S x None z n)"
        by (rule t_move_backup [OF p t r(1,2) I1 xx]) simp_all
      show "?Q ((js @ [?j1], cr, w), Some [Failure]) n" if "?S x None z n" "\<not> q" for n using c1 that by simp
    qed
    then show ?thesis using True by (simp add: backup_row_def r(2) Let_def)
  qed
qed

text \<open>A gate whose callbacks accept.\<close>

definition agrees :: "gate option \<Rightarrow> bool" where
  "agrees g \<longleftrightarrow> (case g of None \<Rightarrow> True | Some g \<Rightarrow> gt_inspect g = None
     \<and> (\<exists>d. gt_admit g = Some (Inr d) \<and> validDigest d) \<and> (\<forall>d. validDigest d \<longrightarrow> the (gt_recheck g) d = None))"

definition rechecked :: "gate option \<Rightarrow> string \<Rightarrow> (werrs, unit) result" where
  "rechecked g receipt = (case g of None \<Rightarrow> Inr ()
     | Some g \<Rightarrow> map_sum ((@) [ErrCommitAdmission]) (\<lambda>x. x) (as_result (the (gt_recheck g) receipt)))"

lemma obs_recheckCommit: "observes (recheckCommit g receipt) (\<lambda>_. rechecked g receipt)"
proof (cases g)
  case None
  then show ?thesis by (simp add: recheckCommit_def rechecked_def obs_ret)
next
  case (Some a)
  have "observes (wrapping [ErrCommitAdmission] (attempt probe (\<lambda>_. ret (as_result (the (gt_recheck a) receipt))))) (\<lambda>_. rechecked g receipt)"
    by (rule obs_eq, rule obs_wrapping [OF obs_attempt [OF obs_probe obs_ret]]) (simp add: Some rechecked_def)
  then show ?thesis by (simp add: recheckCommit_def Some)
qed

lemma admitted_receipt: "admitted g a \<Longrightarrow> agrees g \<Longrightarrow> rechecked g (a_receipt a) = Inr ()"
  by (auto simp: admitted_def agrees_def rechecked_def as_result_def split: option.splits)

lemma t_apply_row:
  assumes p: "wf_plan h p" and t: "txn_name t" and I: "\<And>n. all_rows p t n0 x0 (ok_rows h) n \<Longrightarrow> I n"
    and r: "r \<in> set (rows p)" "r \<notin> set rs" and gate: "q \<Longrightarrow> rechecked g receipt = Inr ()"
  shows "triple q I (committing h p t n0 x0 (r # rs) ((js, cr, w), None)) (apply_row h g receipt t r (js, cr, w))
    (\<lambda>pe n. committing h p t n0 x0 rs pe n \<and> (q \<longrightarrow> snd pe = None))" (is "triple q I _ _ ?Q")
proof -
  obtain i c b f where rr: "r = (i, c, b, f)" by (cases r)
  have m: "(i, c, b, f) \<in> set (rows p)" using r rr by simp
  let ?F = "all_rows p t n0 x0 (forward h t js (r # rs))"
  let ?S = "\<lambda>pk x z. row_state pk p t n0 x0 (forward h t js rs) r x None z"
  have FS: "\<exists>x z. is_file h b x \<and> (write_op (p_operation (public c)) \<longrightarrow> copy_of h f z) \<and> ?S False x z n \<and> entry_for js r = None"
    if F: "?F n" for n
  proof -
    obtain x y z where a: "at_row p t n0 x0 (forward h t js (r # rs)) r x y z n" "forward h t js (r # rs) r x y z"
      using F all_rows_at [OF r(1)] by blast
    have "at_row p t n0 x0 (forward h t js rs) r x y z n"
      using a(1) by (auto simp: at_row_def holds_at_def forward_def)
    then have "?S False x z n" "is_file h b x" "write_op (p_operation (public c)) \<longrightarrow> copy_of h f z" "entry_for js r = None"
      using a(2) by (auto simp: forward_def row_state_def undoing_def rr)
    then show ?thesis by blast
  qed
  have FU: "committing h p t n0 x0 rs ((js, cr, w'), Some e) n" if "?F n" "journal_ok p js" "fresh_dirs p n0 cr" for n w' e cr
    using that by (auto simp: committing_def forward_def elim: all_rows_mono)
  have IF: "I n" if "?F n" for n
    by (rule I [OF all_rows_mono [OF that]]) (auto simp: forward_def intro: undoing_ok)
  show ?thesis
  proof (cases "journal_ok p js \<and> fresh_dirs p n0 cr")
    case False
    then show ?thesis by (intro t_none) (auto simp: committing_def)
  next
    case True
    then have js: "journal_ok p js" "fresh_dirs p n0 cr" by auto
    have stop: "?Q ((js, cr', w'), Some e) n" if "?F n" "fresh_dirs p n0 cr'" "\<not> q" for n e w' cr'
      using FU [OF that(1) js(1) that(2)] that(3) by simp
    have unchanged: "same_target h b n = Inr ()" if F: "?F n" for n
    proof -
      obtain x z where s: "is_file h b x" "?S False x z n" using FS [OF F] by blast
      then show ?thesis using target_checked(1) [OF p r(1) rr row_state_in [OF s(2)]] row_state_at [OF s(2)] by simp
    qed
    have asserted: "triple q I ?F (checked (js, cr, w) (verifyOneTarget h b) (\<lambda>_. ret ((js, cr, w), None))) ?Q"
      if op: "p_operation (public c) = OperationAssert"
    proof (rule t_checked [OF obs_same_target IF])
      show "\<not> q" if "?F n" "isl (same_target h b n)" for n using unchanged that by simp
      show "triple q I (\<lambda>n. ?F n \<and> same_target h b n = Inr v) (ret ((js, cr, w), None)) ?Q" for v
      proof (rule t_ret)
        fix n assume "?F n \<and> same_target h b n = Inr v"
        then obtain x z where s: "is_file h b x" "?S False x z n" "entry_for js r = None" using FS by blast
        then show "?Q ((js, cr, w), None) n"
          using row_kept [OF p r(1) s(3) r(2) js s(2)] row_ops(3) [OF p m op] by (simp add: rr)
      qed
    qed (use stop js in auto)
    let ?FP = "\<lambda>n. ?F n \<and> parent_ok n (target_key r)"
    have moved: "triple q I ?FP (backup_row h t r (js, cr', True)) ?Q"
      if op: "p_operation (public c) \<noteq> OperationAssert" and cr': "fresh_dirs p n0 cr'" for cr'
    proof (rule t_pre [OF t_ex [of q I "\<lambda>v n. (is_file h b (fst v) \<and> (write_op (p_operation (public c)) \<longrightarrow> copy_of h f (snd v))
        \<and> entry_for js r = None) \<and> ?S True (fst v) (snd v) n"]])
      show "triple q I (\<lambda>n. (is_file h b (fst v) \<and> (write_op (p_operation (public c)) \<longrightarrow> copy_of h f (snd v)) \<and> entry_for js r = None)
          \<and> ?S True (fst v) (snd v) n) (backup_row h t r (js, cr', True)) ?Q" for v
        by (rule t_given, rule t_backup_row [OF p t I r(1) rr _ r(2) js(1) cr' _ op]) (use row_ops(5) [OF p m] op in auto)
      show "\<exists>v. (is_file h b (fst v) \<and> (write_op (p_operation (public c)) \<longrightarrow> copy_of h f (snd v)) \<and> entry_for js r = None)
          \<and> ?S True (fst v) (snd v) n" if "?FP n" for n
        using FS [of n] that by (auto simp: row_state_def)
    qed
    have gated: "triple q I ?FP (checked (js, cr', w) (if w then ret (Inr ()) else recheckCommit g receipt) (\<lambda>_. backup_row h t r (js, cr', True))) ?Q"
      if op: "p_operation (public c) \<noteq> OperationAssert" and cr': "fresh_dirs p n0 cr'" for cr'
    proof (rule t_checked [where f = "\<lambda>_. if w then Inr () else rechecked g receipt"])
      show "\<not> q" if "isl (if w then Inr () else rechecked g receipt)"
      proof
        assume q
        then show False using gate that by (simp split: if_splits)
      qed
    qed (use IF stop cr' moved [OF op cr'] in \<open>auto simp: obs_ret obs_recheckCommit intro: t_pre\<close>)
    have found: "triple q I ?FP (checked (js, cr', w) (verifyOneTarget h b) (\<lambda>_.
        checked (js, cr', w) (if w then ret (Inr ()) else recheckCommit g receipt) (\<lambda>_. backup_row h t r (js, cr', True)))) ?Q"
      if op: "p_operation (public c) \<noteq> OperationAssert" and cr': "fresh_dirs p n0 cr'" for cr'
      by (rule t_checked [OF obs_same_target]) (use IF stop cr' unchanged gated [OF op cr'] in \<open>auto intro: t_pre\<close>)
    have dirs: "triple q I ?F (andthen (ensureTargetParents (change_path c) (p_operation (public c) = OperationCreate)) (\<lambda>(new, parentErr).
        case parentErr of Some e \<Rightarrow> ret ((js, cr @ new, w), Some e) | None \<Rightarrow>
        checked (js, cr @ new, w) (verifyOneTarget h b) (\<lambda>_.
        checked (js, cr @ new, w) (if w then ret (Inr ()) else recheckCommit g receipt) (\<lambda>_.
         backup_row h t r (js, cr @ new, True))))) ?Q"
      if op: "p_operation (public c) \<noteq> OperationAssert"
    proof (rule t_andthen [OF t_ensureTargetParents [OF p t IF r(1) rr]])
      fix n assume n: "?F n" and "p_operation (public c) \<noteq> OperationCreate"
      then have ex: "f_exists b" using row_ops(4) [OF p m] op by blast
      obtain x z where s: "is_file h b x" "?S False x z n" using FS [OF n] by blast
      then show "map_of n (target_key r) \<noteq> None" using exists_some [OF s(1) ex] row_state_at [OF s(2)] by auto
    next
      fix y :: "string list \<times> werrs option"
      obtain new pe where y: "y = (new, pe)" by (cases y)
      show "triple q I ((\<lambda>(cr, e) n. ?F n \<and> fresh_dirs p n0 cr \<and> (e = None \<longrightarrow> parent_ok n (target_key r)) \<and> (q \<longrightarrow> e = None)) y)
       (case y of (new, parentErr) \<Rightarrow> case parentErr of Some e \<Rightarrow> ret ((js, cr @ new, w), Some e) | None \<Rightarrow>
        checked (js, cr @ new, w) (verifyOneTarget h b) (\<lambda>_.
        checked (js, cr @ new, w) (if w then ret (Inr ()) else recheckCommit g receipt) (\<lambda>_.
         backup_row h t r (js, cr @ new, True)))) ?Q"
      proof (cases "fresh_dirs p n0 new")
        case False
        then show ?thesis by (intro t_none) (simp add: y)
      next
        case True
        then have cr': "fresh_dirs p n0 (cr @ new)" using js by (simp add: fresh_dirs_append)
        show ?thesis
        proof (cases pe)
          case None
          then show ?thesis using found [OF op cr'] by (auto simp: y intro: t_pre)
        next
          case (Some e)
          then show ?thesis using stop cr' by (auto simp: y intro!: t_ret)
        qed
      qed
    qed
    let ?body = "if p_operation (public c) = OperationAssert then checked (js, cr, w) (verifyOneTarget h b) (\<lambda>_. ret ((js, cr, w), None))
     else andthen (ensureTargetParents (change_path c) (p_operation (public c) = OperationCreate)) (\<lambda>(new, parentErr).
        case parentErr of Some e \<Rightarrow> ret ((js, cr @ new, w), Some e) | None \<Rightarrow>
        checked (js, cr @ new, w) (verifyOneTarget h b) (\<lambda>_.
        checked (js, cr @ new, w) (if w then ret (Inr ()) else recheckCommit g receipt) (\<lambda>_.
         backup_row h t r (js, cr @ new, True))))"
    have body: "triple q I ?F ?body ?Q" using asserted dirs by simp
    have root: "triple q I ?F (checked (js, cr, w) verifyOpenedRootPath (\<lambda>_. ?body)) ?Q"
      by (rule t_checked [OF obs_verifyOpenedRootPath]) (use IF stop js body in \<open>auto intro: t_pre\<close>)
    have all: "triple q I ?F (checked (js, cr, w) ctx_alive (\<lambda>_. checked (js, cr, w) verifyOpenedRootPath (\<lambda>_. ?body))) ?Q"
      by (rule t_checked [OF obs_ctx]) (use IF stop js root in \<open>auto intro: t_pre\<close>)
    have "apply_row h g receipt t r (js, cr, w) = checked (js, cr, w) ctx_alive (\<lambda>_. checked (js, cr, w) verifyOpenedRootPath (\<lambda>_. ?body))"
      by (simp add: apply_row_def rr Let_def)
    then have "triple q I ?F (apply_row h g receipt t r (js, cr, w)) ?Q" using all by (simp only:)
    then show ?thesis by (rule t_pre) (simp add: committing_def)
  qed
qed

lemma t_apply_rows:
  assumes p: "wf_plan h p" and t: "txn_name t" and I: "\<And>n. all_rows p t n0 x0 (ok_rows h) n \<Longrightarrow> I n"
    and rs: "set rs \<subseteq> set (rows p)" "distinct rs" and gate: "q \<Longrightarrow> rechecked g receipt = Inr ()"
  shows "triple q I (committing h p t n0 x0 rs (pr, None)) (apply_rows h g receipt t rs pr)
    (\<lambda>pe n. committing h p t n0 x0 [] (fst pe, if snd pe = None then None else Some []) n \<and> (q \<longrightarrow> snd pe = None))" (is "triple q I _ _ ?Q")
  using rs
proof (induction rs arbitrary: pr)
  case Nil
  then show ?case by (auto intro!: t_ret)
next
  case (Cons r rs)
  have step: "triple q I (committing h p t n0 x0 (r # rs) (pr, None)) (apply_row h g receipt t r pr)
    (\<lambda>pe n. committing h p t n0 x0 rs pe n \<and> (q \<longrightarrow> snd pe = None))"
    using t_apply_row [OF p t I _ _ gate] Cons.prems by (cases pr) simp
  show ?case unfolding apply_rows.simps
  proof (rule t_andthen [OF step])
    fix pe :: "progress \<times> werrs option"
    obtain pr' e where pe: "pe = (pr', e)" by (cases pe)
    show "triple q I (\<lambda>n. committing h p t n0 x0 rs pe n \<and> (q \<longrightarrow> snd pe = None))
      (case pe of (pr, e) \<Rightarrow> case e of Some e \<Rightarrow> ret (pr, Some e) | None \<Rightarrow> apply_rows h g receipt t rs pr) ?Q"
    proof (cases e)
      case None
      then show ?thesis using Cons by (auto simp: pe intro: t_pre)
    next
      case (Some e')
      then show ?thesis by (auto simp: pe committing_def intro!: t_ret)
    qed
  qed
qed

end
