(* ===== verification/Workspace_Atomic.thy ===== *)
theory Workspace_Atomic
  imports Workspace_Commit
begin

text \<open>
  \<open>Apply\<close> as a whole: from every tree that an earlier run of the same plan can have left, whatever fails and wherever
  the process dies, the targets stay recoverable; a commit that was reported is complete.
\<close>

subsection \<open>The transaction directory\<close>

definition entropy_ok :: "platform \<Rightarrow> bool" where
  "entropy_ok pf \<longleftrightarrow> (\<forall>e\<in>set (entropies pf). length e = 32 \<and> list_all lower_hex e)"

lemma lower_hex_lower: "lower_hex c \<Longrightarrow> hex_char c \<and> lower_char c = c"
proof -
  assume "lower_hex c"
  then have "48 \<le> byte_of c \<and> byte_of c \<le> 57 \<or> 97 \<le> byte_of c \<and> byte_of c \<le> 102"
    by (auto simp: lower_hex_def is_digit_def byte_of_def less_eq_char_def)
  then show "hex_char c \<and> lower_char c = c"
    by (auto simp: hex_char_def hex_value_def lower_char_def is_upper_def byte_of_def less_eq_char_def Let_def)
qed

lemma named_transaction:
  assumes d: "validDigest d" and e: "length e = 32" "list_all lower_hex e"
  shows "parseTransactionDirectoryName (transactionDirectoryName d e) transactionPrefix = (d, True)"
    "txn_name (transactionDirectoryName d e)" "well_named (transactionDirectoryName d e)"
proof -
  obtain u where u: "d = ''sha256:'' @ u" "length u = 64" "list_all lower_hex u"
    using d by (auto simp: validDigest_def has_prefix_iff)
  let ?t = "transactionDirectoryName d e"
  have n: "?t = transactionPrefix @ u @ CHR ''-'' # e"
    using u by (simp add: transactionDirectoryName_def trim_prefix_def has_prefix_def)
  have tl: "trim_prefix ?t transactionPrefix = u @ CHR ''-'' # e" by (simp add: n trim_prefix_def has_prefix_iff)
  have low: "map lower_char u = u" "map lower_char e = e" "list_all hex_char u" "list_all hex_char e"
    using u(3) e(2) lower_hex_lower by (auto simp: list_all_iff intro!: map_idI)
  have pre: "has_prefix ?t transactionPrefix" by (simp add: n has_prefix_iff)
  have "parseTransactionDirectoryName ?t transactionPrefix = (''sha256:'' @ u, True)"
    using u(2) e(1) low pre by (simp add: parseTransactionDirectoryName_def tl Let_def nth_append)
  then show ps: "parseTransactionDirectoryName ?t transactionPrefix = (d, True)" by (simp only: u(1))
  then show "well_named ?t" using pre prefixes_differ by (auto simp: well_named_def)
  have "CHR ''/'' \<notin> set ?t"
    by (rule parsed_no_slash [where pre = transactionPrefix]) (simp_all add: ps, simp add: transactionPrefix_def)
  then show "txn_name ?t" using pre by (simp add: txn_name_def)
qed

text \<open>Rows while their new contents are staged: those of \<open>rs\<close> are still to come.\<close>

definition staging :: "digester \<Rightarrow> plan_row list \<Rightarrow> row_pred" where
  "staging h rs r x y z \<longleftrightarrow> is_file h (row_before r) x \<and> y = None
     \<and> (if r \<in> set rs then z = None else write_op (p_operation (public (fst (snd r)))) \<longrightarrow> copy_of h (row_final r) z)"

definition at_first :: "digester \<Rightarrow> row_pred" where
  "at_first h r x y z \<longleftrightarrow> is_file h (row_before r) x \<and> y = None"

lemma at_first_undone: "all_rows p t n0 x0 (at_first h) n \<Longrightarrow> undone h p t n0 n"
proof (rule restored_undone)
  assume "all_rows p t n0 x0 (at_first h) n"
  then show "all_rows p t n0 x0 (restored h []) n"
    by (rule all_rows_mono) (auto simp: at_first_def restored_def row_ok_def is_file_def)
qed

lemma staging_first: "all_rows p t n0 x0 (staging h rs) n \<Longrightarrow> all_rows p t n0 x0 (at_first h) n"
  by (erule all_rows_mono) (auto simp: staging_def at_first_def)

lemma new_transaction:
  assumes p: "wf_plan (sha pf) p" and c: "cleared pf p n0 n" "whole (sha pf) p row_before n0 n"
    and t: "txn_name t" "well_named t" and n': "n' = AList.update [t] Dir n"
  shows "all_rows p t n0 None (staging (sha pf) (rows p)) n'"
proof -
  have i: "no_txn n" "no_debris n" using c(1) by (auto simp: cleared_def at_rest_def)
  have o: "own_key [t]" using own_keys [OF t(1)] by blast
  have same: "map_of n' k = map_of n k" if "k \<noteq> [t]" for k using that by (simp add: n' update_conv')
  have "own_change n n'" unfolding own_change_def using o same by metis
  then have b: "base p n0 n'" by (rule base_own [OF _ p]) (use c(2) in \<open>simp add: whole_def\<close>)
  have tn: "map_of n [t] = None" using i(1) t(1) by (simp add: no_txn_def txn_name_def)
  have none: "map_of n (t # k) = None" for k
  proof (rule ccontr)
    assume "map_of n (t # k) \<noteq> None"
    then have "map_of n [hd (t # k)] = Some Dir" using i(1) own_txn [OF t(1), of k] unfolding no_txn_def names_ok_def by blast
    then show False using tn by simp
  qed
  have "names_ok n'" unfolding names_ok_def
  proof (intro allI impI)
    fix k assume k: "own_key k" "map_of n' k \<noteq> None"
    show "map_of n' [hd k] = Some Dir \<and> well_named (hd k)"
    proof (cases "hd k = t")
      case True
      then show ?thesis using t(2) by (simp add: n' update_conv')
    next
      case False
      then have "k \<noteq> [t]" "[hd k] \<noteq> [t]" by auto
      then show ?thesis using k same i(1) by (simp add: no_txn_def names_ok_def)
    qed
  qed
  then have act: "active t n'"
    using i(1) same t(1) by (auto simp: active_def no_txn_def txn_name_def n' update_conv')
  have nd: "no_debris n'" unfolding no_debris_def
  proof (intro allI impI)
    fix s assume s: "has_prefix s completedPrefix"
    then have "s \<noteq> t" using t(1) prefixes_differ by (auto simp: txn_name_def)
    then show "map_of n' [s] = None" using i(2) same s by (simp add: no_debris_def)
  qed
  have "holds_at t (staging (sha pf) (rows p)) n' r" if r: "r \<in> set (rows p)" for r
  proof -
    have "target_key r \<noteq> [t]" using o target_key_not_own [OF p r] by metis
    then show ?thesis using c(2) r none same
      by (simp add: holds_at_def staging_def whole_def backup_key_def content_key_def)
  qed
  moreover have "map_of n' (record_key t) = None" using none same by (simp add: record_key_def)
  ultimately show ?thesis using b act nd by (simp add: all_rows_def in_txn_def active_def)
qed

lemma t_create_transaction:
  assumes p: "wf_plan (sha pf) p" and C: "\<And>n. consistent pf p g n0 n \<Longrightarrow> I n"
    and es: "\<forall>e\<in>set es. length e = 32 \<and> list_all lower_hex e" and some: "q \<Longrightarrow> es \<noteq> []"
  shows "triple q I (\<lambda>n. cleared pf p n0 n \<and> whole (sha pf) p row_before n0 n) (create_transaction p es)
    (\<lambda>a n. (\<forall>e. a = Inl e \<longrightarrow> cleared pf p n0 n \<and> whole (sha pf) p row_before n0 n)
      \<and> (\<forall>t. a = Inr t \<longrightarrow> txn_name t \<and> fst (parseTransactionDirectoryName t transactionPrefix) = plan_digest p
           \<and> all_rows p t n0 None (staging (sha pf) (rows p)) n)
      \<and> (q \<longrightarrow> \<not> isl a))" (is "triple q I ?P _ ?Q")
  using es some
proof (induction es)
  case Nil
  then show ?case by (auto intro!: t_ret)
next
  case (Cons e es)
  have IP: "I n" if "?P n" for n using C cleared_consistent that by blast
  let ?t = "transactionDirectoryName (plan_digest p) e"
  have e: "length e = 32" "list_all lower_hex e" using Cons.prems(1) by auto
  note T = named_transaction [OF wf_planD(5) [OF p] e]
  have free: "\<not> list_ex (\<lambda>c. change_path c = ?t \<or> pathHasPrefix (change_path c) ?t) (changes p)"
  proof
    assume "list_ex (\<lambda>c. change_path c = ?t \<or> pathHasPrefix (change_path c) ?t) (changes p)"
    then obtain c where c: "c \<in> set (changes p)" "change_path c = ?t \<or> pathHasPrefix (change_path c) ?t" by (auto simp: list_ex_iff)
    then have "prefix ?t (change_path c)" by (auto simp: pathHasPrefix_def) (metis append_take_drop_id prefixI)
    then obtain u where u: "change_path c = ?t @ u" by (auto simp: prefix_def)
    have "hd (comps (?t @ u)) = fst (cut_on CHR ''/'' (?t @ u))" by (simp add: cut_on_comps)
    have "has_prefix (fst (cut_on CHR ''/'' (change_path c))) ''.appkit-workspace-''"
      unfolding u by (simp add: transactionDirectoryName_def transactionPrefix_def has_prefix_def split: prod.splits)
    then show False using target_not_reserved [OF p, of "change_path c"] c(1) by (auto simp: targets_def cut_on_comps)
  qed
  let ?R = "\<lambda>a n. a = Inr () \<and> all_rows p ?t n0 None (staging (sha pf) (rows p)) n \<or> \<not> q \<and> a = Inl [Failure] \<and> ?P n"
  have mk: "triple q I ?P (mkdir ?t) ?R"
    unfolding mkdir_def comps_names(1) [OF T(2)]
  proof (rule t_sys)
    fix n assume n: "?P n"
    have tn: "map_of n [?t] = None" using n T(2) by (simp add: cleared_def at_rest_def no_txn_def txn_name_def)
    show "?R (Inl e) n" if "(if map_of n [?t] \<noteq> None then Inl [Exist] else if \<not> parent_ok n [?t] then Inl [NotExist] else Inr ((), AList.update [?t] Dir n)) = Inl e" for e
      using that tn by (simp add: parent_ok_def)
    show "?R (Inr x) n'" if "(if map_of n [?t] \<noteq> None then Inl [Exist] else if \<not> parent_ok n [?t] then Inl [NotExist] else Inr ((), AList.update [?t] Dir n)) = Inr (x, n')" for x n'
      using that tn new_transaction [OF p _ _ T(2,3)] n by (auto simp: parent_ok_def)
  qed (auto simp: untouched_def IP)
  have "triple q I ?P (andthen (mkdir ?t) (\<lambda>r. case r of Inr _ \<Rightarrow> ret (Inr ?t)
       | Inl er \<Rightarrow> if Exist \<in> set er then create_transaction p es else ret (Inl er))) ?Q"
  proof (rule t_andthen [OF mk])
    show "triple q I (?R a) (case a of Inr _ \<Rightarrow> ret (Inr ?t) | Inl er \<Rightarrow> if Exist \<in> set er then create_transaction p es else ret (Inl er)) ?Q" for a
      using T by (cases a) (auto intro!: t_ret intro: t_none)
  qed
  then show ?case
    unfolding create_transaction.simps Let_def using free
    by (intro t_sure [OF obs_probe, where v = "()"]) (auto simp: IP)
qed

subsection \<open>Staging\<close>

lemma content_change:
  assumes p: "wf_plan h p" and t: "txn_name t" and r: "r \<in> set (rows p)" and s: "row_state False p t n0 x0 E r x y z n" and x: "file_or_none x"
    and new: "map_of n' (content_key t (fst r)) = z'" and same: "\<And>k. k \<noteq> content_key t (fst r) \<Longrightarrow> map_of n' k = map_of n k"
  shows "row_state False p t n0 x0 E r x y z' n'"
proof (rule row_state_change [OF p t r s x])
  note k = row_state_at [OF s]
  have ne: "target_key r \<noteq> []" by (cases r) simp
  show "parent_ok n (target_key r)" if "x \<noteq> None"
    using parent_of_existing [of n "target_key r"] row_state_in [OF s] that k ne target_key_not_own [OF p r]
    by (simp add: in_txn_def base_def)
  show "map_of n' (target_key r) = x" using same row_keys_differ(2) [OF p t r] k by metis
  show "map_of n' (backup_key t (fst r)) = y" using same names_differ(1) k by metis
  show "map_of n' k = map_of n k" if "k \<noteq> target_key r" "k \<noteq> backup_key t (fst r)" "k \<noteq> content_key t (fst r)" for k
    using same that by blast
qed (rule new)

text \<open>A call that only changes the staged content of one row.\<close>

lemma t_content:
  assumes p: "wf_plan h p" and t: "txn_name t" and r: "r \<in> set (rows p)" and x: "file_or_none x"
    and I: "\<And>z n. row_state False p t n0 x0 E r x y z n \<Longrightarrow> I n"
    and eff: "\<And>n. row_state False p t n0 x0 E r x y z n \<Longrightarrow> \<exists>n'. eff n = Inr ((), n') \<and> map_of n' (content_key t (fst r)) = z'
        \<and> (\<forall>k. k \<noteq> content_key t (fst r) \<longrightarrow> map_of n' k = map_of n k)"
    and part: "\<And>n i ks k. row_state False p t n0 x0 E r x y z n \<Longrightarrow> k \<noteq> content_key t (fst r) \<Longrightarrow> map_of (part i ks n) k = map_of n k"
  shows "triple q I (row_state False p t n0 x0 E r x y z) (sys eff part)
    (\<lambda>a n. (a = Inr () \<and> row_state False p t n0 x0 E r x y z' n) \<or> (\<not> q \<and> a = Inl [Failure] \<and> (\<exists>z. row_state False p t n0 x0 E r x y z n)))"
proof (rule t_sys)
  fix n assume s: "row_state False p t n0 x0 E r x y z n"
  obtain n' where n': "eff n = Inr ((), n')" "map_of n' (content_key t (fst r)) = z'"
    "\<forall>k. k \<noteq> content_key t (fst r) \<longrightarrow> map_of n' k = map_of n k" using eff [OF s] by blast
  have "row_state False p t n0 x0 E r x y z' n'"
    by (rule content_change [OF p t r s x n'(2)]) (use n'(3) in blast)
  then show "\<And>e. eff n = Inl e \<Longrightarrow> (Inl e = Inr () \<and> row_state False p t n0 x0 E r x y z' n) \<or> (\<not> q \<and> Inl e = Inl [Failure] \<and> (\<exists>z. row_state False p t n0 x0 E r x y z n))"
    "\<And>u n''. eff n = Inr (u, n'') \<Longrightarrow> (Inr u = Inr () \<and> row_state False p t n0 x0 E r x y z' n'') \<or> (\<not> q \<and> Inr u = Inl [Failure] \<and> (\<exists>z. row_state False p t n0 x0 E r x y z n''))"
    using n'(1) by auto
next
  fix n i ks assume s: "row_state False p t n0 x0 E r x y z n" and "\<not> q"
  have "row_state False p t n0 x0 E r x y (map_of (part i ks n) (content_key t (fst r))) (part i ks n)"
    by (rule content_change [OF p t r s x]) (use part [OF s] in auto)
  then show "(Inl [Failure] = Inr () \<and> row_state False p t n0 x0 E r x y z' (part i ks n))
      \<or> (\<not> q \<and> Inl [Failure] = Inl [Failure] \<and> (\<exists>z. row_state False p t n0 x0 E r x y z (part i ks n)))"
    "I (part i ks n)"
    using \<open>\<not> q\<close> I by auto
qed

lemma t_stage_rows:
  assumes p: "wf_plan h p" and t: "txn_name t"
    and I: "\<And>n. all_rows p t n0 x0 (at_first h) n \<Longrightarrow> I n" and rs: "set rs \<subseteq> set (rows p)" "distinct rs"
  shows "triple q I (all_rows p t n0 x0 (staging h rs)) (stage_rows h t rs)
    (\<lambda>a n. all_rows p t n0 x0 (at_first h) n \<and> (a = Inr () \<longrightarrow> all_rows p t n0 x0 (staging h []) n) \<and> (q \<longrightarrow> a = Inr ()))"
    (is "triple q I _ _ ?Q")
  using rs
proof (induction rs)
  case Nil
  show ?case by (auto intro!: t_ret elim: staging_first)
next
  case (Cons r rs)
  obtain i c b f where rr: "r = (i, c, b, f)" by (cases r)
  have r: "r \<in> set (rows p)" "r \<notin> set rs" using Cons.prems by auto
  have m: "(i, c, b, f) \<in> set (rows p)" using r rr by simp
  have rest: "triple q I (all_rows p t n0 x0 (staging h rs)) (stage_rows h t rs) ?Q" using Cons by simp
  show ?case
  proof (cases "plain_op (p_operation (public c))")
    case True
    then have nw: "\<not> write_op (p_operation (public c))" by (auto simp: plain_op_def write_op_def ops_differ ops_differ [symmetric])
    have "all_rows p t n0 x0 (staging h rs) n" if "all_rows p t n0 x0 (staging h (r # rs)) n" for n
      by (rule all_rows_mono [OF that]) (use nw in \<open>auto simp: staging_def rr split: if_splits\<close>)
    then show ?thesis using True by (auto simp: rr intro: t_pre [OF rest])
  next
    case False
    then have w: "write_op (p_operation (public c))" using row_factsD(8) [OF p m] by blast
    then have op: "p_operation (public c) \<noteq> OperationDelete" "p_operation (public c) \<noteq> OperationAssert"
      by (auto simp: write_op_def ops_differ ops_differ [symmetric])
    let ?S = "\<lambda>x z. row_state False p t n0 x0 (staging h rs) r x None z"
    let ?c = "payload (p_content c)" and ?m = "p_mode (public c)" and ?C = "content_key t i"
    let ?file = "Some (Reg ?m ?c)"
    have good: "copy_of h f ?file"
      using row_ops(5) [OF p m op] row_factsD(7) [OF p m w] row_factsD(10) [OF p m]
      by (auto simp: copy_of_def valid_file_def)
    have one: "triple q I (?S x None) (attempt ctx_alive (\<lambda>_. attempt (create_file (content_name t i)) (\<lambda>_.
        attempt (write_staged (content_name t i) ?c ?m) (\<lambda>_. attempt (verifyEquivalentFile h (content_name t i) f) (\<lambda>_. stage_rows h t rs))))) ?Q"
      if x: "is_file h b x" for x
    proof -
      have fx: "file_or_none x" using x by (simp add: is_file_def)
      have first: "all_rows p t n0 x0 (at_first h) n" if "?S x z n" for z n
      proof -
        have "at_row p t n0 x0 (at_first h) r x None z n"
          using that at_row_mono [of p t n0 x0 "staging h rs" r x None z n "at_first h"] by (simp add: row_state_def staging_def at_first_def)
        then show ?thesis using at_row_all [of p t n0 x0 "at_first h" r x None z n] r(1) x by (simp add: at_first_def rr)
      qed
      have IS: "I n" if "?S x z n" for z n using I first that by blast
      have fin: "all_rows p t n0 x0 (staging h rs) n" if "?S x ?file n" for n
        using that at_row_all [of p t n0 x0 "staging h rs" r x None ?file n] r x good
        by (simp add: row_state_def staging_def rr)
      have bad: "?Q (Inl e) n" if "?S x z n" "\<not> q" for z e n using first that by simp
      have par: "parent_ok n ?C" if "?S x z n" for z n using row_state_in [OF that] by (simp add: in_txn_def parent_ok_def content_key_def)
      have cn: "comps (content_name t i) = ?C" by (rule comps_names(3) [OF t])
      have C: "map_of n ?C = z" if "?S x z n" for z n using row_state_at [OF that] by (simp add: rr)
      note change = t_content [OF p t r(1) fx IS, unfolded rr fst_conv, folded rr]
      have create: "triple q I (?S x None) (create_file (content_name t i))
        (\<lambda>a n. (a = Inr () \<and> ?S x (Some (Reg 0x180 [])) n) \<or> (\<not> q \<and> a = Inl [Failure] \<and> (\<exists>z. ?S x z n)))"
        unfolding create_file_def cn
        by (rule change) (use C par in \<open>auto simp: untouched_def update_conv'\<close>)
      have append: "map_of (append_bytes ?C d n) k = map_of n k" if "k \<noteq> ?C" for d n k
        using that by (simp add: append_bytes_def update_conv' split: option.splits node.splits)
      have wr: "triple q I (?S x (Some (Reg 0x180 []))) (write_chunk (content_name t i) ?c)
        (\<lambda>a n. (a = Inr () \<and> ?S x (Some (Reg 0x180 ?c)) n) \<or> (\<not> q \<and> a = Inl [Failure] \<and> (\<exists>z. ?S x z n)))"
        unfolding write_chunk_def cn
        by (rule change) (use C append in \<open>auto simp: append_bytes_def update_conv'\<close>)
      have mode: "triple q I (?S x (Some (Reg 0x180 ?c))) (chmod (content_name t i) ?m)
        (\<lambda>a n. (a = Inr () \<and> ?S x ?file n) \<or> (\<not> q \<and> a = Inl [Failure] \<and> (\<exists>z. ?S x z n)))"
        unfolding chmod_def cn
        by (rule change) (use C in \<open>auto simp: untouched_def update_conv'\<close>)
      let ?B = "\<lambda>z' a n. (a = Inr () \<and> ?S x z' n) \<or> (\<not> q \<and> isl a \<and> (\<exists>z. ?S x z n))"
      have step: "triple q I P (attempt w k) (?B z2)" if "triple q I P w (?B z1)" "\<And>u. triple q I (?S x z1) (k u) (?B z2)"
        for P and w :: "unit tries" and k :: "unit \<Rightarrow> unit tries" and z1 z2
        by (rule t_attempt [OF that(1)]) (use that(2) in \<open>auto intro: t_pre\<close>)
      have sure: "triple q I (?S x z) w (?B z)" if "observes w (\<lambda>_. Inr ())" for w z
        by (rule t_obs [OF that]) (use IS in auto)
      have wc: "triple q I (?S x (Some (Reg 0x180 []))) (writeContent (content_name t i) ?c) (?B (Some (Reg 0x180 ?c)))"
      proof (cases "?c = []")
        case True
        then show ?thesis by (auto simp: writeContent_def intro!: t_ret)
      next
        case False
        then show ?thesis
          using step [OF sure [OF obs_ctx] t_post [OF wr]] by (simp add: writeContent_def) force
      qed
      have ws: "triple q I (?S x (Some (Reg 0x180 []))) (write_staged (content_name t i) ?c ?m) (?B ?file)"
        unfolding write_staged_def
      proof (rule t_andthen [OF step [OF wc step [OF t_post [OF mode] sure [OF obs_probe]]]])
        show "triple q I (?B ?file a) (andthen probe (\<lambda>closed. ret (case a of Inl e \<Rightarrow> Inl e | Inr _ \<Rightarrow> closed))) (?B ?file)" for a
        proof (rule t_andthen [OF t_obs [OF obs_probe, where Q = "\<lambda>v n. ?B ?file a n \<and> (q \<longrightarrow> v = Inr ())"]])
          show "triple q I (\<lambda>n. ?B ?file a n \<and> (q \<longrightarrow> v = Inr ())) (ret (case a of Inl e \<Rightarrow> Inl e | Inr _ \<Rightarrow> v)) (?B ?file)" for v
            by (rule t_ret, cases v) (auto split: sum.splits)
        qed (use IS in auto)
      qed auto
      have ver: "triple q I (?S x ?file) (attempt (verifyEquivalentFile h (content_name t i) f) (\<lambda>_. stage_rows h t rs)) ?Q"
      proof (rule t_sure [OF obs_same_copy, where v = "()"])
        show "same_copy h (content_name t i) f n = Inr ()" if "?S x ?file n" for n
          using backup_checked(2) [OF t row_state_in [OF that]] C [OF that] good by simp
        show "triple q I (?S x ?file) (stage_rows h t rs) ?Q" by (rule t_pre [OF rest fin])
      qed (use IS bad in auto)
      have staged: "triple q I (?S x (Some (Reg 0x180 []))) (attempt (write_staged (content_name t i) ?c ?m) (\<lambda>_. attempt (verifyEquivalentFile h (content_name t i) f) (\<lambda>_. stage_rows h t rs))) ?Q"
      proof (rule t_attempt [OF ws])
        show "?Q (Inl e) n" if "?B ?file (Inl e) n" for e n using that bad by blast
        show "triple q I (?B ?file (Inr u)) (attempt (verifyEquivalentFile h (content_name t i) f) (\<lambda>_. stage_rows h t rs)) ?Q" for u
          by (rule t_pre [OF ver]) auto
      qed
      have made: "triple q I (?S x None) (attempt (create_file (content_name t i)) (\<lambda>_. attempt (write_staged (content_name t i) ?c ?m)
          (\<lambda>_. attempt (verifyEquivalentFile h (content_name t i) f) (\<lambda>_. stage_rows h t rs)))) ?Q"
      proof (rule t_attempt [OF create])
        show "?Q (Inl e) n" if "(Inl e = Inr () \<and> ?S x (Some (Reg 0x180 [])) n) \<or> (\<not> q \<and> Inl e = Inl [Failure] \<and> (\<exists>z. ?S x z n))" for e n
          using that bad by blast
      qed (auto intro: t_pre [OF staged])
      show ?thesis
        by (rule t_sure [OF obs_ctx, where v = "()"]) (use IS bad made in auto)
    qed
    have "stage_rows h t (r # rs) = attempt ctx_alive (\<lambda>_. attempt (create_file (content_name t i)) (\<lambda>_.
        attempt (write_staged (content_name t i) ?c ?m) (\<lambda>_. attempt (verifyEquivalentFile h (content_name t i) f) (\<lambda>_. stage_rows h t rs))))"
      using False by (simp add: rr)
    then have go: "triple q I (\<lambda>n. is_file h b x \<and> ?S x None n) (stage_rows h t (r # rs)) ?Q" for x
      using one by (auto intro: t_given)
    show ?thesis
    proof (rule t_pre [OF t_ex [OF go]])
      fix n assume "all_rows p t n0 x0 (staging h (r # rs)) n"
      then obtain x y z where a: "at_row p t n0 x0 (staging h (r # rs)) r x y z n" "staging h (r # rs) r x y z"
        using all_rows_at [OF r(1)] by blast
      have "at_row p t n0 x0 (staging h rs) r x y z n"
        using a(1) by (auto simp: at_row_def holds_at_def staging_def)
      then show "\<exists>x. is_file h b x \<and> ?S x None n" using a(2) by (auto simp: row_state_def staging_def rr)
    qed
  qed
qed

subsection \<open>The durable record\<close>

lemma t_record:
  assumes p: "wf_plan h p" and t: "txn_name t" and I: "\<And>x n. all_rows p t n0 x E n \<Longrightarrow> I n"
    and eff: "\<And>n. all_rows p t n0 x0 E n \<Longrightarrow> \<exists>n'. eff n = Inr ((), n') \<and> map_of n' (record_key t) = x1
        \<and> (\<forall>k. k \<noteq> record_key t \<longrightarrow> map_of n' k = map_of n k)"
    and part: "\<And>n i ks k. k \<noteq> record_key t \<Longrightarrow> map_of (part i ks n) k = map_of n k"
  shows "triple q I (all_rows p t n0 x0 E) (sys eff part)
    (\<lambda>a n. (a = Inr () \<and> all_rows p t n0 x1 E n) \<or> (\<not> q \<and> isl a \<and> (\<exists>x. all_rows p t n0 x E n)))"
proof (rule t_sys)
  fix n assume s: "all_rows p t n0 x0 E n"
  obtain n' where n': "eff n = Inr ((), n')" "map_of n' (record_key t) = x1"
    "\<forall>k. k \<noteq> record_key t \<longrightarrow> map_of n' k = map_of n k" using eff [OF s] by blast
  have "all_rows p t n0 x1 E n'"
    by (rule all_rows_record [OF p t s n'(2)]) (use n'(3) in blast)
  then show "\<And>e. eff n = Inl e \<Longrightarrow> (Inl e = Inr () \<and> all_rows p t n0 x1 E n) \<or> (\<not> q \<and> isl (Inl e) \<and> (\<exists>x. all_rows p t n0 x E n))"
    "\<And>u n''. eff n = Inr (u, n'') \<Longrightarrow> (Inr u = Inr () \<and> all_rows p t n0 x1 E n'') \<or> (\<not> q \<and> isl (Inr u) \<and> (\<exists>x. all_rows p t n0 x E n''))"
    using n'(1) by auto
next
  fix n i ks assume s: "all_rows p t n0 x0 E n" and "\<not> q"
  have "all_rows p t n0 (map_of (part i ks n) (record_key t)) E (part i ks n)"
    by (rule all_rows_record [OF p t s]) (use part in auto)
  then show "(Inl [Failure] = Inr () \<and> all_rows p t n0 x1 E (part i ks n)) \<or> (\<not> q \<and> isl (Inl [Failure]) \<and> (\<exists>x. all_rows p t n0 x E (part i ks n)))"
    "I (part i ks n)"
    using \<open>\<not> q\<close> I by auto
qed

lemma t_prepare:
  assumes p: "wf_plan h p" and t: "txn_name t" and I: "\<And>x n. all_rows p t n0 x E n \<Longrightarrow> I n"
  shows "triple q I (all_rows p t n0 None E) (prepareTransaction pf t p a)
    (\<lambda>v n. (v = Inr () \<and> all_rows p t n0 (Some (Reg 0x180 (enc_record pf (record_of p a)))) E n)
      \<or> (\<not> q \<and> isl v \<and> (\<exists>x. all_rows p t n0 x E n)))"
proof -
  let ?B = "\<lambda>x1 v n. (v = Inr () \<and> all_rows p t n0 x1 E n) \<or> (\<not> q \<and> isl v \<and> (\<exists>x. all_rows p t n0 x E n))"
  let ?file = "Some (Reg 0x180 (enc_record pf (record_of p a)))"
  have rn: "comps (record_name t) = record_key t" by (rule comps_names(4) [OF t])
  have rk: "map_of n (record_key t) = x" "parent_ok n (record_key t)" "dir_there t n" if "all_rows p t n0 x E n" for n x
    using that comps_names(1) [OF t] by (auto simp: all_rows_def in_txn_def parent_ok_def record_key_def dir_there_def)
  have append: "map_of (append_bytes (record_key t) d n) k = map_of n k" if "k \<noteq> record_key t" for d n k
    using that by (simp add: append_bytes_def update_conv' split: option.splits node.splits)
  have create: "triple q I (all_rows p t n0 None E) (create_file (record_name t)) (?B (Some (Reg 0x180 [])))"
    unfolding create_file_def rn
    by (rule t_record [OF p t I]) (use rk in \<open>auto simp: untouched_def update_conv'\<close>)
  have wr: "triple q I (all_rows p t n0 (Some (Reg 0x180 [])) E) (write_chunk (record_name t) (enc_record pf (record_of p a))) (?B ?file)"
    unfolding write_chunk_def rn
    by (rule t_record [OF p t I]) (use rk append in \<open>auto simp: append_bytes_def update_conv'\<close>)
  let ?F = "all_rows p t n0 ?file E"
  have dot: "triple q I ?F (syncDirectory ''.'') (?B ?file)"
    by (rule t_sure_last [OF obs_syncDirectory, where v = "()"]) (use I in \<open>auto simp: dir_there_def\<close>)
  have sy: "triple q I ?F (attempt (syncDirectory t) (\<lambda>_. syncDirectory ''.'')) (?B ?file)"
    by (rule t_sure [OF obs_syncDirectory, where v = "()"]) (use I rk dot in auto)
  have pr: "triple q I ?F (attempt (probes 2) (\<lambda>_. attempt (syncDirectory t) (\<lambda>_. syncDirectory ''.''))) (?B ?file)"
    by (rule t_sure [OF obs_probes, where v = "()"]) (use I sy in auto)
  have w2: "triple q I (all_rows p t n0 (Some (Reg 0x180 [])) E) (attempt (write_chunk (record_name t) (enc_record pf (record_of p a)))
      (\<lambda>_. attempt (probes 2) (\<lambda>_. attempt (syncDirectory t) (\<lambda>_. syncDirectory ''.'')))) (?B ?file)"
    by (rule t_attempt [OF wr]) (auto intro: t_pre [OF pr])
  show ?thesis unfolding prepareTransaction_def
    by (rule t_attempt [OF create]) (auto intro: t_pre [OF w2])
qed

subsection \<open>What Apply returns\<close>

text \<open>
  The tree is consistent; a decision is only reported with all targets in their final state; without an error there is
  a decision and nothing of the package is left. A run without faults ends so, or asks to be run again; \<open>fr\<close>: it began
  without a transaction, and then it does not ask.
\<close>

definition sound :: "bool \<Rightarrow> bool \<Rightarrow> platform \<Rightarrow> plan \<Rightarrow> gate option \<Rightarrow> tree \<Rightarrow> applied \<Rightarrow> tree \<Rightarrow> bool" where
  "sound fr q pf p g n0 a n \<longleftrightarrow> consistent pf p g n0 n
     \<and> (ar_disposition (fst a) \<noteq> Undecided \<longrightarrow> whole (sha pf) p row_final n0 n)
     \<and> (snd a = None \<longrightarrow> ar_disposition (fst a) \<noteq> Undecided \<and> no_txn n \<and> no_debris n)
     \<and> (q \<longrightarrow> snd a = None \<or> \<not> fr \<and> g \<noteq> None \<and> snd a = Some [ErrRecoveryRestart] \<and> cleared pf p n0 n)"

lemma sound_refused: "consistent pf p g n0 n \<Longrightarrow> \<not> q \<Longrightarrow> sound fr q pf p g n0 (refused p e) n"
  by (simp add: sound_def refused_def)

lemma t_or_refuse:
  assumes "triple q I P m R" and "\<And>e n. R (Inl e) n \<Longrightarrow> Q (refused p e) n" and "\<And>x. triple q I (R (Inr x)) (k x) Q"
  shows "triple q I P (or_refuse p m k) Q"
  unfolding or_refuse_def
  by (rule t_andthen [OF assms(1)]) (auto split: sum.splits intro: assms(3) intro!: t_ret assms(2))

lemma t_or_refuse_obs:
  assumes "observes m f" and "\<And>n. P n \<Longrightarrow> I n" and "\<And>n. P n \<Longrightarrow> isl (f n) \<Longrightarrow> \<not> q"
    and "\<And>n e. P n \<Longrightarrow> \<not> q \<Longrightarrow> Q (refused p e) n" and "\<And>x. triple q I (\<lambda>n. P n \<and> f n = Inr x) (k x) Q"
  shows "triple q I P (or_refuse p m k) Q"
proof (rule t_or_refuse)
  show "triple q I P m (\<lambda>r n. P n \<and> (f n = r \<or> \<not> q \<and> faulty r))"
    by (rule t_obs [OF assms(1,2)]) (use assms(2) in auto)
  show "Q (refused p e) n" if "P n \<and> (f n = Inl e \<or> \<not> q \<and> faulty (Inl e))" for e n
    using that assms(3) [of n] assms(4) by auto
  show "triple q I (\<lambda>n. P n \<and> (f n = Inr x \<or> \<not> q \<and> faulty (Inr x))) (k x) Q" for x using assms(5) by simp
qed

text \<open>At rest the targets have one of the two states of the plan.\<close>

lemma rest_state:
  assumes p: "wf_plan (sha pf) p" and cf: "collision_free (sha pf) p" and r: "at_rest pf p n0 n"
  shows "\<not> isl (plan_state (sha pf) p n)"
proof -
  have "whole (sha pf) p row_before n0 n \<or> whole (sha pf) p row_final n0 n" using r by (simp add: at_rest_def)
  then show ?thesis
  proof
    assume "whole (sha pf) p row_final n0 n"
    moreover from this have "base p n0 n" by (simp add: whole_def)
    ultimately have "plan_state (sha pf) p n = Inr stateFinal" using plan_state_whole(1) [OF p cf] by blast
    then show ?thesis by simp
  qed (simp add: whole_state [OF p])
qed

lemma t_conclude:
  assumes p: "wf_plan (sha pf) p" and t: "txn_name t" and n0: "ready (sha pf) p n0" and rc: "journalled pf p g x0"
    and C: "\<And>n. consistent pf p g n0 n \<Longrightarrow> I n"
    and d: "fst (parseTransactionDirectoryName t transactionPrefix) = plan_digest p"
  shows "triple q I (committing (sha pf) p t n0 x0 [] ((js, cr, w), None)) (conclude pf p t receipt js cr) (sound fr q pf p g n0)"
    (is "triple q I ?P _ ?Q")
proof (cases "journal_ok p js \<and> fresh_dirs p n0 cr")
  case False
  then show ?thesis by (intro t_none) (auto simp: committing_def)
next
  case True
  let ?h = "sha pf"
  let ?fail = "\<lambda>e. andthen (failCommit ?h t p js cr e) (\<lambda>es. ret (refused p es))"
  have int: "interrupted pf p g t n0 n" if "?P n" for n
    by (rule interruptedI [OF committing_ok [OF that] _ d]) (use rc in blast)
  have IP: "I n" if "?P n" for n using C int [OF that] by (auto simp: consistent_def)
  have fin: "whole ?h p row_final n0 n" if "?P n" for n
    using that by (auto simp: committing_def whole_def forward_def all_rows_def in_txn_def holds_at_def)
  have caps: "fstates ?h (targets p) n = Inr (final_files p)" if "?P n" for n
    using whole_fstates [OF p, of n0 n row_final] fin [OF that] by (simp add: whole_def rows_final [OF p])
  have fail: "triple q I (\<lambda>n. ?P n \<and> \<not> q) (?fail e) ?Q" for e
  proof (cases q)
    case True
    then show ?thesis by (intro t_none) simp
  next
    case False
    have "triple q I (\<lambda>n. ?P n \<and> \<not> q) (failCommit ?h t p js cr e) (\<lambda>es n. consistent pf p g n0 n)"
      by (rule t_pre [OF t_failCommit [OF p t n0 rc C d]]) (use True in \<open>auto simp: committing_def\<close>)
    then show ?thesis by (rule t_andthen) (use False in \<open>auto intro!: t_ret sound_refused\<close>)
  qed
  have final: "triple q I ?P (andthen (finalizeTransaction t) (\<lambda>r. ret (fst (accepted p ApplyCommitted receipt), case r of Inl e \<Rightarrow> Some e | Inr _ \<Rightarrow> None))) ?Q"
  proof (rule t_andthen [OF t_pre [OF t_finalize [OF p t C]]])
    show "interrupted pf p g t n0 n \<and> whole ?h p row_final n0 n" if "?P n" for n using int fin that by blast
  qed (auto intro!: t_ret simp: sound_def accepted_def split: sum.splits)
  have root: "triple q I ?P (andthen verifyOpenedRootPath (\<lambda>r. case r of Inl e \<Rightarrow> ?fail e | Inr _ \<Rightarrow>
            andthen (finalizeTransaction t) (\<lambda>r. ret (fst (accepted p ApplyCommitted receipt), case r of Inl e \<Rightarrow> Some e | Inr _ \<Rightarrow> None)))) ?Q"
    by (rule t_obs_andthen [OF obs_verifyOpenedRootPath IP]) (use final in \<open>auto intro: t_pre t_pre [OF fail]\<close>)
  have "triple q I ?P (andthen (capturePlanFiles ?h p) (\<lambda>r. case r of Inl e \<Rightarrow> ?fail e | Inr fs \<Rightarrow>
        if digestFiles ?h fs \<noteq> final_digest p then ?fail [ErrChanged]
        else andthen (verifyDirectoryGuards p True) (\<lambda>r. case r of Inl e \<Rightarrow> ?fail e | Inr _ \<Rightarrow>
          andthen verifyOpenedRootPath (\<lambda>r. case r of Inl e \<Rightarrow> ?fail e | Inr _ \<Rightarrow>
            andthen (finalizeTransaction t) (\<lambda>r. ret (fst (accepted p ApplyCommitted receipt), case r of Inl e \<Rightarrow> Some e | Inr _ \<Rightarrow> None)))))) ?Q"
  proof (rule t_obs_andthen [OF obs_capturePlanFiles IP])
    show "triple q I (\<lambda>n. ?P n \<and> (fstates ?h (targets p) n = Inl e \<or> \<not> q \<and> Failure \<in> set e)) (case Inl e of Inl e \<Rightarrow> ?fail e | Inr fs \<Rightarrow>
        if digestFiles ?h fs \<noteq> final_digest p then ?fail [ErrChanged]
        else andthen (verifyDirectoryGuards p True) (\<lambda>r. case r of Inl e \<Rightarrow> ?fail e | Inr _ \<Rightarrow>
          andthen verifyOpenedRootPath (\<lambda>r. case r of Inl e \<Rightarrow> ?fail e | Inr _ \<Rightarrow>
            andthen (finalizeTransaction t) (\<lambda>r. ret (fst (accepted p ApplyCommitted receipt), case r of Inl e \<Rightarrow> Some e | Inr _ \<Rightarrow> None))))) ?Q" for e
      unfolding sum.case by (rule t_pre [OF fail]) (use caps in auto)
    fix fs
    show "triple q I (\<lambda>n. ?P n \<and> fstates ?h (targets p) n = Inr fs) (case Inr fs of Inl e \<Rightarrow> ?fail e | Inr fs \<Rightarrow>
        if digestFiles ?h fs \<noteq> final_digest p then ?fail [ErrChanged]
        else andthen (verifyDirectoryGuards p True) (\<lambda>r. case r of Inl e \<Rightarrow> ?fail e | Inr _ \<Rightarrow>
          andthen verifyOpenedRootPath (\<lambda>r. case r of Inl e \<Rightarrow> ?fail e | Inr _ \<Rightarrow>
            andthen (finalizeTransaction t) (\<lambda>r. ret (fst (accepted p ApplyCommitted receipt), case r of Inl e \<Rightarrow> Some e | Inr _ \<Rightarrow> None))))) ?Q"
    proof (cases "fs = final_files p")
      case False
      then show ?thesis using caps by (intro t_none) auto
    next
      case True
      have "triple q I (\<lambda>n. ?P n \<and> fstates ?h (targets p) n = Inr fs) (andthen verifyOpenedRootPath (\<lambda>r. case r of Inl e \<Rightarrow> ?fail e | Inr _ \<Rightarrow>
            andthen (finalizeTransaction t) (\<lambda>r. ret (fst (accepted p ApplyCommitted receipt), case r of Inl e \<Rightarrow> Some e | Inr _ \<Rightarrow> None)))) ?Q"
        by (rule t_pre [OF root]) simp
      then show ?thesis
        unfolding sum.case True wf_planD(4) [OF p] verifyDirectoryGuards_none [OF wf_planD(12) [OF p]] andthen_ret by simp
    qed
  qed
  then show ?thesis unfolding conclude_def Let_def .
qed

lemma t_commit:
  assumes p: "wf_plan (sha pf) p" and t: "txn_name t" and n0: "ready (sha pf) p n0" and rc: "journalled pf p g x0"
    and C: "\<And>n. consistent pf p g n0 n \<Longrightarrow> I n"
    and d: "fst (parseTransactionDirectoryName t transactionPrefix) = plan_digest p"
    and gate: "q \<Longrightarrow> rechecked g (a_receipt a) = Inr ()"
  shows "triple q I (all_rows p t n0 x0 (staging (sha pf) [])) (commit pf p g t a) (sound fr q pf p g n0)"
proof -
  let ?h = "sha pf"
  have ok: "I n" if "all_rows p t n0 x0 (ok_rows ?h) n" for n
    using C interruptedI [OF that _ d] rc by (auto simp: consistent_def)
  have start: "committing ?h p t n0 x0 (rows p) (([], [], w), None) n" if a: "all_rows p t n0 x0 (staging ?h []) n" for w n
  proof -
    have "all_rows p t n0 x0 (forward ?h t [] (rows p)) n"
      by (rule all_rows_mono [OF a]) (auto simp: staging_def forward_def undoing_def entry_for_def row_ok_def is_file_def)
    moreover have "all_rows p t n0 x0 (undoing ?h t [] []) n"
      by (rule all_rows_mono [OF a]) (auto simp: staging_def undoing_def entry_for_def row_ok_def is_file_def)
    ultimately show ?thesis by (simp add: committing_def journal_ok_def fresh_dirs_def)
  qed
  have dr: "distinct (rows p)" by (simp add: rows_def distinct_zipI1)
  have loop: "triple q I (all_rows p t n0 x0 (staging ?h [])) (apply_rows ?h g (a_receipt a) t (rows p) ([], [], w))
    (\<lambda>pe n. committing ?h p t n0 x0 [] (fst pe, if snd pe = None then None else Some []) n \<and> (q \<longrightarrow> snd pe = None))" for w
    by (rule t_pre [OF t_apply_rows [OF p t ok _ dr gate]]) (auto intro: start)
  have "triple q I (all_rows p t n0 x0 (staging ?h [])) (andthen (apply_rows ?h g (a_receipt a) t (rows p) ([], [], w)) (\<lambda>((js, created, _), e).
      case e of Some e \<Rightarrow> andthen (failCommit ?h t p js created e) (\<lambda>es. ret (refused p es))
      | None \<Rightarrow> conclude pf p t (a_receipt a) js created)) (sound fr q pf p g n0)" for w
  proof (rule t_andthen [OF loop])
    fix pe :: "progress \<times> werrs option"
    obtain js cr v e where pe: "pe = ((js, cr, v), e)" by (metis prod_cases3 surj_pair)
    let ?R = "\<lambda>n. committing ?h p t n0 x0 [] (fst pe, if snd pe = None then None else Some []) n \<and> (q \<longrightarrow> snd pe = None)"
    have "triple q I ?R (case e of Some e \<Rightarrow> andthen (failCommit ?h t p js cr e) (\<lambda>es. ret (refused p es))
      | None \<Rightarrow> conclude pf p t (a_receipt a) js cr) (sound fr q pf p g n0)"
    proof (cases e)
      case None
      have "triple q I ?R (conclude pf p t (a_receipt a) js cr) (sound fr q pf p g n0)"
        by (rule t_pre [OF t_conclude [OF p t n0 rc C d, where w = v]]) (simp_all add: pe None)
      then show ?thesis by (simp add: None)
    next
      case (Some e')
      show ?thesis
      proof (cases "journal_ok p js \<and> fresh_dirs p n0 cr \<and> \<not> q")
        case True
        have "triple q I ?R (failCommit ?h t p js cr e') (\<lambda>es n. consistent pf p g n0 n)"
          by (rule t_pre [OF t_failCommit [OF p t n0 rc C d]]) (use True in \<open>auto simp: pe Some committing_def\<close>)
        then have "triple q I ?R (andthen (failCommit ?h t p js cr e') (\<lambda>es. ret (refused p es))) (sound fr q pf p g n0)"
          by (rule t_andthen) (use True in \<open>auto intro!: t_ret sound_refused\<close>)
        then show ?thesis by (simp add: Some)
      qed (intro t_none, auto simp: pe Some committing_def)
    qed
    then show "triple q I ?R ((\<lambda>((js, created, _), e).
      case e of Some e \<Rightarrow> andthen (failCommit ?h t p js created e) (\<lambda>es. ret (refused p es))
      | None \<Rightarrow> conclude pf p t (a_receipt a) js created) pe) (sound fr q pf p g n0)" by (simp add: pe)
  qed
  then show ?thesis by (simp add: commit_def Let_def wf_planD(12) [OF p])
qed

text \<open>An error before the record is durable: the transaction is removed.\<close>

lemma t_or_clean:
  assumes p: "wf_plan (sha pf) p" and C: "\<And>n. consistent pf p g n0 n \<Longrightarrow> I n"
    and t: "txn_name t" "fst (parseTransactionDirectoryName t transactionPrefix) = plan_digest p"
    and m: "triple q I P m R" and err: "\<And>e n. R (Inl e) n \<Longrightarrow> undone (sha pf) p t n0 n \<and> \<not> q"
    and k: "\<And>x. triple q I (R (Inr x)) (k x) (sound fr q pf p g n0)"
  shows "triple q I P (or_clean p t m k) (sound fr q pf p g n0)"
  unfolding or_clean_def
proof (rule t_andthen [OF m])
  fix v
  show "triple q I (R v) (case v of Inl e \<Rightarrow> refuse_clean p t e | Inr x \<Rightarrow> k x) (sound fr q pf p g n0)"
  proof (cases v)
    case (Inr x)
    then show ?thesis using k by simp
  next
    case (Inl e)
    show ?thesis
    proof (cases q)
      case True
      then show ?thesis using err Inl by (intro t_none) auto
    next
      case False
      have "triple q I (R (Inl e)) (and_failures e (cleanupTransaction t)) (\<lambda>_ n. consistent pf p g n0 n)"
        unfolding and_failures_def
        by (rule t_andthen [OF t_pre [OF t_cleanup_before [OF p C t]]]) (use err in \<open>auto intro!: t_ret split: sum.splits\<close>)
      then have "triple q I (R (Inl e)) (refuse_clean p t e) (sound fr q pf p g n0)"
        unfolding refuse_clean_def by (rule t_andthen) (use False in \<open>auto intro!: t_ret sound_refused\<close>)
      then show ?thesis by (simp add: Inl)
    qed
  qed
qed

lemma t_or_clean_obs:
  assumes p: "wf_plan (sha pf) p" and C: "\<And>n. consistent pf p g n0 n \<Longrightarrow> I n"
    and t: "txn_name t" "fst (parseTransactionDirectoryName t transactionPrefix) = plan_digest p"
    and m: "observes m f" and P: "\<And>n. P n \<Longrightarrow> undone (sha pf) p t n0 n" and err: "\<And>n. P n \<Longrightarrow> isl (f n) \<Longrightarrow> \<not> q"
    and k: "\<And>x. triple q I (\<lambda>n. P n \<and> f n = Inr x) (k x) (sound fr q pf p g n0)"
  shows "triple q I P (or_clean p t m k) (sound fr q pf p g n0)"
proof (rule t_or_clean [OF p C t])
  show "triple q I P m (\<lambda>v n. P n \<and> (f n = v \<or> \<not> q \<and> faulty v))"
    by (rule t_obs [OF m]) (use C P undone_consistent [OF _ t(2)] in auto)
  show "undone (sha pf) p t n0 n \<and> \<not> q" if "P n \<and> (f n = Inl e \<or> \<not> q \<and> faulty (Inl e))" for e n
    using that P err [of n] by auto
  show "triple q I (\<lambda>n. P n \<and> (f n = Inr x \<or> \<not> q \<and> faulty (Inr x))) (k x) (sound fr q pf p g n0)" for x
    using k by simp
qed

subsection \<open>Under the locks\<close>

definition inspected :: "gate option \<Rightarrow> (werrs, unit) result" where
  "inspected g = (case g of None \<Rightarrow> Inr () | Some g \<Rightarrow> map_sum ((@) [ErrCommitAdmission]) (\<lambda>x. x) (as_result (gt_inspect g)))"

lemma obs_inspectCommit: "observes (inspectCommit g) (\<lambda>_. inspected g)"
proof (cases g)
  case None
  then show ?thesis by (simp add: inspectCommit_def inspected_def obs_ret)
next
  case (Some a)
  have "observes (wrapping [ErrCommitAdmission] (attempt probe (\<lambda>_. ret (as_result (gt_inspect a))))) (\<lambda>_. inspected g)"
    by (rule obs_eq, rule obs_wrapping [OF obs_attempt [OF obs_probe obs_ret]]) (simp add: Some inspected_def)
  then show ?thesis by (simp add: inspectCommit_def Some)
qed

definition admission :: "gate option \<Rightarrow> (werrs, transactionAdmission) result" where
  "admission g = (case g of None \<Rightarrow> Inr no_admission
     | Some g \<Rightarrow> bind_res (map_sum ((@) [ErrCommitAdmission]) (\<lambda>x. x) (the (gt_admit g))) (\<lambda>receipt.
         if \<not> validDigest receipt then Inl [ErrCommitAdmission]
         else Inr \<lparr>a_domain = gt_domain g, a_subject = gt_subject g, a_receipt = receipt\<rparr>))"

lemma obs_admitCommit: "observes (admitCommit g) (\<lambda>_. admission g)"
proof (cases g)
  case None
  then show ?thesis by (simp add: admitCommit_def admission_def obs_ret)
next
  case (Some a)
  have "observes (attempt (wrapping [ErrCommitAdmission] (attempt probe (\<lambda>_. ret (the (gt_admit a))))) (\<lambda>receipt.
         if \<not> validDigest receipt then ret (Inl [ErrCommitAdmission])
         else ret (Inr \<lparr>a_domain = gt_domain a, a_subject = gt_subject a, a_receipt = receipt\<rparr>))) (\<lambda>_. admission g)"
    by (rule obs_eq, rule obs_attempt [OF obs_wrapping [OF obs_attempt [OF obs_probe obs_ret]] obs_if [OF obs_ret obs_ret]])
      (simp add: Some admission_def)
  then show ?thesis by (simp add: admitCommit_def Some)
qed

lemma admission_admitted: "admission g = Inr a \<Longrightarrow> admitted g a"
  by (auto simp: admission_def admitted_def bind_res_Inr_iff split: option.splits if_splits)

lemma agreed: "agrees g \<Longrightarrow> inspected g = Inr ()" "agrees g \<Longrightarrow> \<not> isl (admission g)"
  by (auto simp: agrees_def inspected_def admission_def as_result_def split: option.splits)

lemma whole_before_state:
  assumes p: "wf_plan h p" and w: "whole h p row_before n0 n" and ne: "before_digest p \<noteq> final_digest p"
  shows "plan_state h p n = Inr stateBefore"
  using whole_state [OF p w] ne by simp

lemma t_stage_and_commit:
  assumes p: "wf_plan (sha pf) p" and n0: "ready (sha pf) p n0" and cf: "collision_free (sha pf) p"
    and C: "\<And>n. consistent pf p g n0 n \<Longrightarrow> I n"
    and es: "entropy_ok pf" and some: "q \<Longrightarrow> entropies pf \<noteq> []" and gate: "q \<Longrightarrow> agrees g"
  shows "triple q I (cleared pf p n0) (stage_and_commit pf p g recovered) (sound fr q pf p g n0)"
proof -
  let ?h = "sha pf"
  note g0 = wf_planD(12) [OF p]
  have IC: "I n" if "cleared pf p n0 n" for n using C cleared_consistent that by blast
  have stop: "sound fr q pf p g n0 (refused p e) n" if "cleared pf p n0 n" "\<not> q" for e n
    using sound_refused cleared_consistent that by blast
  have txn: "triple q I (all_rows p t n0 None (staging ?h (rows p))) (or_clean p t (stageWrites ?h t p) (\<lambda>_.
          or_clean p t (classifyState ?h p) (\<lambda>st.
            if st = stateFinal then
              andthen (cleanupTransaction t) (\<lambda>r.
                ret (fst (accepted p ApplyReplayed []), case r of Inl e \<Rightarrow> Some e | Inr _ \<Rightarrow> None))
            else or_clean p t verifyOpenedRootPath (\<lambda>_.
              or_clean p t (admitCommit g) (\<lambda>a.
              or_clean p t (prepareTransaction pf t p a) (\<lambda>_. commit pf p g t a)))))) (sound fr q pf p g n0)"
    if t: "txn_name t" and d: "fst (parseTransactionDirectoryName t transactionPrefix) = plan_digest p"
      and ne: "before_digest p \<noteq> final_digest p" for t
  proof -
    have CC: "consistent pf p g n0 n \<Longrightarrow> I n" for n by (rule C)
    note clean = t_or_clean [where I = I and g = g and ?n0.0 = n0 and t = t, OF p CC t d]
    note clean_obs = t_or_clean_obs [where I = I and g = g and ?n0.0 = n0 and t = t, OF p CC t d]
    let ?S = "\<lambda>x. all_rows p t n0 x (staging ?h [])"
    have un: "undone ?h p t n0 n" if "?S x n" for x n using at_first_undone staging_first that by blast
    have un1: "undone ?h p t n0 n" if "all_rows p t n0 x (at_first ?h) n" for x n using at_first_undone that by blast
    have IU: "I n" if "undone ?h p t n0 n" for n using C undone_consistent [OF that d] by blast
    have dur: "triple q I (?S None) (or_clean p t (prepareTransaction pf t p a) (\<lambda>_. commit pf p g t a)) (sound fr q pf p g n0)"
      if a: "admitted g a" for a
    proof (rule clean [OF _ t_prepare [OF p t]])
      let ?x = "Some (Reg 0x180 (enc_record pf (record_of p a)))"
      have rc: "journalled pf p g ?x" using a by (auto simp: journalled_def)
      have "triple q I (?S ?x) (commit pf p g t a) (sound fr q pf p g n0)"
        by (rule t_commit [OF p t n0 rc C d]) (use admitted_receipt [OF a] gate in auto)
      then show "triple q I (\<lambda>n. (Inr u = Inr () \<and> ?S ?x n) \<or> (\<not> q \<and> isl (Inr u) \<and> (\<exists>x. ?S x n))) (commit pf p g t a) (sound fr q pf p g n0)" for u
        by (auto intro: t_pre)
    qed (use un IU in auto)
    have adm: "triple q I (?S None) (or_clean p t (admitCommit g) (\<lambda>a. or_clean p t (prepareTransaction pf t p a) (\<lambda>_. commit pf p g t a))) (sound fr q pf p g n0)"
    proof (rule clean_obs [OF _ obs_admitCommit un])
      show "\<not> q" if "isl (admission g)" using agreed(2) gate that by blast
      show "triple q I (\<lambda>n. ?S None n \<and> admission g = Inr a) (or_clean p t (prepareTransaction pf t p a) (\<lambda>_. commit pf p g t a)) (sound fr q pf p g n0)" for a
        by (rule t_given') (rule dur [OF admission_admitted])
    qed
    have root: "triple q I (?S None) (or_clean p t verifyOpenedRootPath (\<lambda>_. or_clean p t (admitCommit g) (\<lambda>a.
        or_clean p t (prepareTransaction pf t p a) (\<lambda>_. commit pf p g t a)))) (sound fr q pf p g n0)"
      by (rule clean_obs [OF _ obs_verifyOpenedRootPath un]) (use adm in \<open>auto intro: t_pre\<close>)
    have st: "plan_state ?h p n = Inr stateBefore" if "?S None n" for n
      using whole_before_state [OF p _ ne] un [OF that] by (auto simp: undone_def)
    have cls: "triple q I (?S None) (or_clean p t (classifyState ?h p) (\<lambda>st.
            if st = stateFinal then
              andthen (cleanupTransaction t) (\<lambda>r.
                ret (fst (accepted p ApplyReplayed []), case r of Inl e \<Rightarrow> Some e | Inr _ \<Rightarrow> None))
            else or_clean p t verifyOpenedRootPath (\<lambda>_. or_clean p t (admitCommit g) (\<lambda>a.
              or_clean p t (prepareTransaction pf t p a) (\<lambda>_. commit pf p g t a))))) (sound fr q pf p g n0)"
    proof (rule clean_obs [OF _ obs_classifyState [OF g0] un])
      show "\<not> q" if "?S None n" "isl (plan_state ?h p n)" for n using st [OF that(1)] that(2) by simp
      fix x
      show "triple q I (\<lambda>n. ?S None n \<and> plan_state ?h p n = Inr x) (if x = stateFinal then
              andthen (cleanupTransaction t) (\<lambda>r.
                ret (fst (accepted p ApplyReplayed []), case r of Inl e \<Rightarrow> Some e | Inr _ \<Rightarrow> None))
            else or_clean p t verifyOpenedRootPath (\<lambda>_. or_clean p t (admitCommit g) (\<lambda>a.
              or_clean p t (prepareTransaction pf t p a) (\<lambda>_. commit pf p g t a)))) (sound fr q pf p g n0)"
      proof (cases x)
        case stateBefore
        then show ?thesis by (auto intro: t_pre [OF root])
      next
        case stateFinal
        then show ?thesis using st by (intro t_none) auto
      qed
    qed
    show ?thesis
    proof (rule clean)
      show "triple q I (all_rows p t n0 None (staging ?h (rows p))) (stageWrites ?h t p)
        (\<lambda>a n. all_rows p t n0 None (at_first ?h) n \<and> (a = Inr () \<longrightarrow> ?S None n) \<and> (q \<longrightarrow> a = Inr ()))"
        unfolding stageWrites_def
        by (rule t_stage_rows [OF p t]) (use un1 IU in \<open>auto simp: rows_def distinct_zipI1\<close>)
    qed (use un1 cls in \<open>auto intro: t_pre\<close>)
  qed
  have create: "triple q I (\<lambda>n. cleared pf p n0 n \<and> whole ?h p row_before n0 n) (or_refuse p (createTransactionDir pf p) (\<lambda>t.
          or_clean p t (stageWrites ?h t p) (\<lambda>_.
          or_clean p t (classifyState ?h p) (\<lambda>st.
            if st = stateFinal then
              andthen (cleanupTransaction t) (\<lambda>r.
                ret (fst (accepted p ApplyReplayed []), case r of Inl e \<Rightarrow> Some e | Inr _ \<Rightarrow> None))
            else or_clean p t verifyOpenedRootPath (\<lambda>_.
              or_clean p t (admitCommit g) (\<lambda>a.
              or_clean p t (prepareTransaction pf t p a) (\<lambda>_. commit pf p g t a))))))) (sound fr q pf p g n0)"
    if ne: "before_digest p \<noteq> final_digest p"
    unfolding createTransactionDir_def
  proof (rule t_or_refuse [OF t_create_transaction [OF p C]])
    show "\<forall>e\<in>set (take 16 (entropies pf)). length e = 32 \<and> list_all lower_hex e"
      using es by (auto simp: entropy_ok_def dest: in_set_takeD)
    show "take 16 (entropies pf) \<noteq> []" if q using some [OF that] by simp
  qed (use stop txn ne in \<open>auto simp: triple_def\<close>)
  have same: "before_digest p \<noteq> final_digest p" if "plan_state ?h p n = Inr stateBefore" for n
    using that by (auto simp: plan_state_def split: sum.splits if_splits)
  have classify: "triple q I (cleared pf p n0) (or_refuse p (classifyState ?h p) (\<lambda>st.
        if st = stateFinal then ret (accepted p ApplyReplayed recovered)
        else or_refuse p (createTransactionDir pf p) (\<lambda>t.
          or_clean p t (stageWrites ?h t p) (\<lambda>_.
          or_clean p t (classifyState ?h p) (\<lambda>st.
            if st = stateFinal then
              andthen (cleanupTransaction t) (\<lambda>r.
                ret (fst (accepted p ApplyReplayed []), case r of Inl e \<Rightarrow> Some e | Inr _ \<Rightarrow> None))
            else or_clean p t verifyOpenedRootPath (\<lambda>_.
              or_clean p t (admitCommit g) (\<lambda>a.
              or_clean p t (prepareTransaction pf t p a) (\<lambda>_. commit pf p g t a)))))))) (sound fr q pf p g n0)"
  proof (rule t_or_refuse_obs [OF obs_classifyState [OF g0] IC])
    show "sound fr q pf p g n0 (refused p e) n" if "cleared pf p n0 n" "\<not> q" for e n using stop that .
    show "\<not> q" if c: "cleared pf p n0 n" "isl (plan_state ?h p n)" for n
      using rest_state [OF p cf, of n0 n] c by (auto simp: cleared_def)
    fix st
    show "triple q I (\<lambda>n. cleared pf p n0 n \<and> plan_state ?h p n = Inr st) (if st = stateFinal then ret (accepted p ApplyReplayed recovered)
        else or_refuse p (createTransactionDir pf p) (\<lambda>t.
          or_clean p t (stageWrites ?h t p) (\<lambda>_.
          or_clean p t (classifyState ?h p) (\<lambda>st.
            if st = stateFinal then
              andthen (cleanupTransaction t) (\<lambda>r.
                ret (fst (accepted p ApplyReplayed []), case r of Inl e \<Rightarrow> Some e | Inr _ \<Rightarrow> None))
            else or_clean p t verifyOpenedRootPath (\<lambda>_.
              or_clean p t (admitCommit g) (\<lambda>a.
              or_clean p t (prepareTransaction pf t p a) (\<lambda>_. commit pf p g t a))))))) (sound fr q pf p g n0)"
    proof (cases st)
      case stateFinal
      have "triple q I (\<lambda>n. cleared pf p n0 n \<and> plan_state ?h p n = Inr st) (ret (accepted p ApplyReplayed recovered)) (sound fr q pf p g n0)"
      proof (rule t_ret)
        fix n assume n: "cleared pf p n0 n \<and> plan_state ?h p n = Inr st"
        then have "base p n0 n" using consistent_base cleared_consistent by blast
        then have "whole ?h p row_final n0 n" using plan_state_whole(1) [OF p cf] n stateFinal by blast
        then show "sound fr q pf p g n0 (accepted p ApplyReplayed recovered) n"
          using n cleared_consistent by (auto simp: sound_def accepted_def cleared_def at_rest_def)
      qed
      then show ?thesis by (simp add: stateFinal)
    next
      case stateBefore
      show ?thesis
      proof (cases "before_digest p = final_digest p")
        case True
        then show ?thesis using same stateBefore by (intro t_none) auto
      next
        case False
        have w: "cleared pf p n0 n \<and> whole ?h p row_before n0 n" if "cleared pf p n0 n \<and> plan_state ?h p n = Inr st" for n
        proof -
          have "base p n0 n" using that consistent_base cleared_consistent by blast
          then show ?thesis using plan_state_whole(2) [OF p cf] that stateBefore by blast
        qed
        show ?thesis
          by (simp only: stateBefore planState.distinct if_False, rule t_pre [OF create [OF False]]) (use w stateBefore in auto)
      qed
    qed
  qed
  have "triple q I (cleared pf p n0) (or_refuse p (inspectCommit g) (\<lambda>_. or_refuse p (classifyState ?h p) (\<lambda>st.
        if st = stateFinal then ret (accepted p ApplyReplayed recovered)
        else or_refuse p (createTransactionDir pf p) (\<lambda>t.
          or_clean p t (stageWrites ?h t p) (\<lambda>_.
          or_clean p t (classifyState ?h p) (\<lambda>st.
            if st = stateFinal then
              andthen (cleanupTransaction t) (\<lambda>r.
                ret (fst (accepted p ApplyReplayed []), case r of Inl e \<Rightarrow> Some e | Inr _ \<Rightarrow> None))
            else or_clean p t verifyOpenedRootPath (\<lambda>_.
              or_clean p t (admitCommit g) (\<lambda>a.
              or_clean p t (prepareTransaction pf t p a) (\<lambda>_. commit pf p g t a))))))))) (sound fr q pf p g n0)"
  proof (rule t_or_refuse_obs [OF obs_inspectCommit IC])
    show "sound fr q pf p g n0 (refused p e) n" if "cleared pf p n0 n" "\<not> q" for e n using stop that .
    show "\<not> q" if "isl (inspected g)" using agreed(1) gate that by auto
  qed (auto intro: t_pre [OF classify])
  then show ?thesis unfolding stage_and_commit_def Let_def .
qed

lemma t_locked_apply:
  assumes p: "wf_plan (sha pf) p" and n0: "ready (sha pf) p n0" and cf: "collision_free (sha pf) p"
    and C: "\<And>n. consistent pf p g n0 n \<Longrightarrow> I n"
    and es: "entropy_ok pf" and some: "q \<Longrightarrow> entropies pf \<noteq> []" and gate: "q \<Longrightarrow> agrees g"
    and ck: "q \<Longrightarrow> codec_ok pf p g" and ne: "q \<Longrightarrow> before_digest p \<noteq> final_digest p"
  shows "triple q I (\<lambda>n. consistent pf p g n0 n \<and> (q \<longrightarrow> \<not> torn pf p g n) \<and> (fr \<longrightarrow> no_txn n)) (locked_apply pf p g) (sound fr q pf p g n0)"
  unfolding locked_apply_def
proof (rule t_or_refuse [OF t_recover [where fr = fr, OF p n0 cf C ck ne]])
  fix rc :: transactionRecovery
  note g0 = wf_planD(12) [OF p]
  let ?a = "Inr rc :: (werrs, transactionRecovery) result"
  let ?R = "\<lambda>n. consistent pf p g n0 n \<and> (\<forall>rc'. ?a = Inr rc' \<longrightarrow> cleared pf p n0 n \<and> (fr \<longrightarrow> \<not> prepared rc')) \<and> (q \<longrightarrow> \<not> isl ?a)"
  have IC: "I n" if "cleared pf p n0 n" for n using C cleared_consistent that by blast
  have stop: "sound fr q pf p g n0 (refused p e) n" if "cleared pf p n0 n" "\<not> q" for e n
    using sound_refused cleared_consistent that by blast
  have again: "triple q I (cleared pf p n0) (or_refuse p (classifyState (sha pf) p) (\<lambda>st.
           if st = stateFinal then ret (accepted p ApplyReplayed (recovered_receipt rc))
           else ret (refused p [ErrRecoveryRestart]))) (sound fr q pf p g n0)" if "g \<noteq> None" "\<not> fr"
  proof (rule t_or_refuse_obs [OF obs_classifyState [OF g0] IC])
    show "sound fr q pf p g n0 (refused p e) n" if "cleared pf p n0 n" "\<not> q" for e n using stop that .
    show "\<not> q" if c: "cleared pf p n0 n" "isl (plan_state (sha pf) p n)" for n
      using rest_state [OF p cf, of n0 n] c by (auto simp: cleared_def)
    show "triple q I (\<lambda>n. cleared pf p n0 n \<and> plan_state (sha pf) p n = Inr st)
       (if st = stateFinal then ret (accepted p ApplyReplayed (recovered_receipt rc)) else ret (refused p [ErrRecoveryRestart])) (sound fr q pf p g n0)" for st
    proof (cases st)
      case stateBefore
      then show ?thesis using that cleared_consistent by (auto intro!: t_ret simp: sound_def refused_def)
    next
      case stateFinal
      have "sound fr q pf p g n0 (accepted p ApplyReplayed (recovered_receipt rc)) n"
        if n: "cleared pf p n0 n \<and> plan_state (sha pf) p n = Inr stateFinal" for n
      proof -
        have "base p n0 n" using n consistent_base cleared_consistent by blast
        then have "whole (sha pf) p row_final n0 n" using plan_state_whole(1) [OF p cf] n by blast
        then show ?thesis using n cleared_consistent by (auto simp: sound_def accepted_def cleared_def at_rest_def)
      qed
      then show ?thesis by (auto intro!: t_ret simp: stateFinal)
    qed
  qed
  show "triple q I ?R (if g \<noteq> None \<and> prepared rc then
         or_refuse p (classifyState (sha pf) p) (\<lambda>st.
           if st = stateFinal then ret (accepted p ApplyReplayed (recovered_receipt rc))
           else ret (refused p [ErrRecoveryRestart]))
       else stage_and_commit pf p g (recovered_receipt rc)) (sound fr q pf p g n0)"
  proof (cases "g \<noteq> None \<and> prepared rc")
    case True
    have "triple q I ?R (or_refuse p (classifyState (sha pf) p) (\<lambda>st.
           if st = stateFinal then ret (accepted p ApplyReplayed (recovered_receipt rc))
           else ret (refused p [ErrRecoveryRestart]))) (sound fr q pf p g n0)"
    proof (cases fr)
      case yes: True
      then show ?thesis using True by (intro t_none) auto
    next
      case False then show ?thesis by (intro t_pre [OF again]) (use True in auto)
    qed
    then show ?thesis using True by simp
  next
    case False
    have "triple q I ?R (stage_and_commit pf p g (recovered_receipt rc)) (sound fr q pf p g n0)"
      by (rule t_pre [OF t_stage_and_commit [OF p n0 cf C es some gate]]) auto
    then show ?thesis using False by auto
  qed
qed (auto intro: sound_refused)

lemma t_closing:
  assumes "\<And>n. consistent pf p g n0 n \<Longrightarrow> I n"
  shows "triple q I (sound fr q pf p g n0 x) (closing x) (sound fr q pf p g n0)"
  unfolding closing_def and_failures_def
proof (rule t_andthen [OF t_andthen [OF t_obs [OF obs_probe, where Q = "\<lambda>v n. sound fr q pf p g n0 x n \<and> (q \<longrightarrow> v = Inr ())"]]])
  show "triple q I (\<lambda>n. sound fr q pf p g n0 x n \<and> (q \<longrightarrow> v = Inr ())) (ret (case v of Inl e \<Rightarrow> [] @ e | Inr _ \<Rightarrow> []))
    (\<lambda>es n. sound fr q pf p g n0 x n \<and> (q \<longrightarrow> es = []))" for v
    by (rule t_ret) (auto split: sum.splits)
  show "triple q I (\<lambda>n. sound fr q pf p g n0 x n \<and> (q \<longrightarrow> es = [])) (ret (fst x, if es = [] then snd x else Some ((case snd x of None \<Rightarrow> [] | Some e \<Rightarrow> e) @ es)))
    (sound fr q pf p g n0)" for es
    by (rule t_ret) (auto simp: sound_def)
qed (use assms in \<open>auto simp: sound_def\<close>)

lemma t_Apply:
  assumes p: "wf_plan (sha pf) p" and n0: "ready (sha pf) p n0" and cf: "collision_free (sha pf) p"
    and es: "entropy_ok pf" and some: "q \<Longrightarrow> entropies pf \<noteq> []" and gate: "q \<Longrightarrow> agrees g \<and> validateCommitGate g = None"
    and ck: "q \<Longrightarrow> codec_ok pf p g" and ne: "q \<Longrightarrow> before_digest p \<noteq> final_digest p"
  shows "triple q (consistent pf p g n0) (\<lambda>n. consistent pf p g n0 n \<and> (q \<longrightarrow> \<not> torn pf p g n) \<and> (fr \<longrightarrow> no_txn n)) (Apply pf p g) (sound fr q pf p g n0)"
    (is "triple q ?I ?P _ ?Q")
proof -
  have stop: "?Q (refused p e) n" if "?P n" "\<not> q" for e n using sound_refused that by blast
  have inner: "triple q ?I ?P (andthen (locked_apply pf p g) closing) ?Q"
    by (rule t_andthen [OF t_locked_apply [OF p n0 cf _ es some _ ck ne] t_closing]) (use gate in auto)
  have locks: "triple q ?I ?P (or_refuse p (probes 3) (\<lambda>_. andthen (locked_apply pf p g) closing)) ?Q"
    by (rule t_or_refuse_obs [OF obs_probes]) (use stop in \<open>auto intro: t_pre [OF inner]\<close>)
  have closed: "triple q ?I ?P (andthen (or_refuse p (probes 3) (\<lambda>_. andthen (locked_apply pf p g) closing)) closing) ?Q"
    by (rule t_andthen [OF locks t_closing]) simp
  have opened: "triple q ?I ?P (or_refuse p openWorkspaceRoot (\<lambda>_. andthen (or_refuse p (probes 3) (\<lambda>_. andthen (locked_apply pf p g) closing)) closing)) ?Q"
    by (rule t_or_refuse_obs [OF obs_openWorkspaceRoot]) (use stop in \<open>auto intro: t_pre [OF closed]\<close>)
  have alive: "triple q ?I ?P (or_refuse p ctx_alive (\<lambda>_. or_refuse p openWorkspaceRoot (\<lambda>_.
      andthen (or_refuse p (probes 3) (\<lambda>_. andthen (locked_apply pf p g) closing)) closing))) ?Q"
    by (rule t_or_refuse_obs [OF obs_ctx]) (use stop in \<open>auto intro: t_pre [OF opened]\<close>)
  have "Plan_Validate (sha pf) p = None" using p by (simp add: wf_plan_def)
  note v = this
  show ?thesis
  proof (cases "validateCommitGate g")
    case None
    then show ?thesis using alive by (simp add: Apply_def v)
  next
    case (Some e)
    then have "\<not> q" using gate by auto
    then have "triple q ?I ?P (ret (refused p e)) ?Q" using stop by (blast intro: t_ret)
    then show ?thesis by (simp add: Apply_def v Some)
  qed
qed

end
