(* ===== verification/Workspace_Guarantees.thy ===== *)
theory Workspace_Guarantees
  imports Workspace_Atomic
begin

text \<open>
  What the package promises of \<open>Apply\<close> and \<open>WithReadLock\<close> (internal/workspace/apply.go, read.go), over worlds with
  any script of faults and crashes.
\<close>

subsection \<open>Worlds\<close>

text \<open>
  A tree that earlier runs of the plan can have left of the tree \<open>n0\<close> for which it was built: at rest, with all targets
  before or all final, or interrupted in the one active transaction of this plan, with a durable record and each target
  before, final or moved away with a backup of its content, or without such a record and all targets still before. The plan is a
  valid one without directory guards.
\<close>

definition workspace :: "platform \<Rightarrow> plan \<Rightarrow> gate option \<Rightarrow> tree \<Rightarrow> tree \<Rightarrow> bool" where
  "workspace pf p g n0 n \<longleftrightarrow> Plan_Validate (sha pf) p = None \<and> guards p = [] \<and> ready (sha pf) p n0
     \<and> collision_free (sha pf) p \<and> consistent pf p g n0 n"

lemma workspaceD:
  assumes "workspace pf p g n0 n"
  shows "wf_plan (sha pf) p" "ready (sha pf) p n0" "collision_free (sha pf) p" "consistent pf p g n0 n"
  using assms by (auto simp: workspace_def wf_plan_def)

lemma triple_cases:
  assumes "triple q I P m Q" and "P (nodes w)" and "q \<Longrightarrow> script w = []"
  shows "case m w of (Dead, w') \<Rightarrow> \<not> q \<and> I (nodes w') | (Ret x, w') \<Rightarrow> Q x (nodes w')"
  using triple_RetD [OF assms] triple_DeadD [OF assms] by (auto split: prod.splits io.splits)

lemma apply_sound:
  assumes w: "workspace pf p g n0 (nodes w)" and es: "entropy_ok pf"
  shows "case Apply pf p g w of (Dead, w') \<Rightarrow> consistent pf p g n0 (nodes w') | (Ret a, w') \<Rightarrow> sound False False pf p g n0 a (nodes w')"
proof -
  have "case Apply pf p g w of (Dead, w') \<Rightarrow> \<not> False \<and> consistent pf p g n0 (nodes w') | (Ret a, w') \<Rightarrow> sound False False pf p g n0 a (nodes w')"
    by (rule triple_cases [OF t_Apply [OF workspaceD(1-3) [OF w] es]]) (use workspaceD(4) [OF w] in simp_all)
  then show ?thesis by (auto split: prod.splits io.splits)
qed

lemma apply_consistent:
  assumes "workspace pf p g n0 (nodes w)" and "entropy_ok pf" and "Apply pf p g w = (x, w')"
  shows "workspace pf p g n0 (nodes w')"
  using apply_sound [OF assms(1,2)] assms(1,3) by (auto simp: workspace_def sound_def split: io.splits)

text \<open>Whatever cut the record off, the targets were not touched yet.\<close>

lemma torn_before:
  assumes "workspace pf p g n0 n" and "torn pf p g n" shows "whole (sha pf) p row_before n0 n"
proof -
  obtain t where t: "active t n" "\<not> journalled pf p g (map_of n (record_key t))" using assms(2) by (auto simp: torn_def)
  then have "\<not> at_rest pf p n0 n" using idle_not_active by (auto simp: at_rest_def)
  then obtain t' x0 where i: "all_rows p t' n0 x0 (ok_rows (sha pf)) n" "journalled pf p g x0 \<or> whole (sha pf) p row_before n0 n"
    using workspaceD(4) [OF assms(1)] unfolding consistent_def interrupted_def by blast
  have a: "active t' n" "map_of n (record_key t') = x0" using all_rows_active [OF i(1)] i(1) by (simp, simp only: all_rows_def in_txn_def)
  have "t' = t" by (rule active_unique [OF a(1) t(1)])
  then have "\<not> journalled pf p g x0" using t(2) a(2) by simp
  then show ?thesis using i(2) by blast
qed

subsection \<open>Transactions of others\<close>

text \<open>A transaction of another plan, or one whose record is not readable or not of this plan and gate.\<close>

definition barred :: "platform \<Rightarrow> plan \<Rightarrow> gate option \<Rightarrow> string \<Rightarrow> tree \<Rightarrow> bool" where
  "barred pf p g t n \<longleftrightarrow> has_prefix t transactionPrefix \<and> map_of n [t] \<noteq> None
     \<and> (fst (parseTransactionDirectoryName t transactionPrefix) \<noteq> plan_digest p
        \<or> (\<exists>x. map_of n (record_key t) = Some x \<and> (\<forall>r. load_bytes pf x = Inr (r, True) \<longrightarrow> \<not> matches r p g)))"

definition same_but_done :: "tree \<Rightarrow> tree \<Rightarrow> bool" where
  "same_but_done n1 n \<longleftrightarrow> (\<forall>k. map_of n k = map_of n1 k \<or> k \<noteq> [] \<and> has_prefix (hd k) completedPrefix)"

lemma same_removed: "same_but_done n1 n \<Longrightarrow> has_prefix s completedPrefix \<Longrightarrow> removed s n n' \<Longrightarrow> same_but_done n1 n'"
  unfolding same_but_done_def removed_def prefix_single by metis

lemma t_scan_any:
  "triple q (same_but_done n1) (same_but_done n1) (scan_entries es)
    (\<lambda>a n. same_but_done n1 n \<and> (\<forall>ts. a = Inr ts \<longrightarrow> ts = filter (\<lambda>s. has_prefix s transactionPrefix) (map fst es)
         \<and> (\<forall>s\<in>set ts. snd (parseTransactionDirectoryName s transactionPrefix)))
       \<and> (\<forall>e. q \<longrightarrow> a = Inl e \<longrightarrow> ErrRecovery \<in> set e))"
proof (induction es)
  case Nil
  show ?case by (auto intro!: t_ret)
next
  case (Cons e es)
  obtain s b where e: "e = (s, b)" by (cases e)
  let ?P = "same_but_done n1"
  let ?Q = "\<lambda>es a n. ?P n \<and> (\<forall>ts. a = Inr ts \<longrightarrow> ts = filter (\<lambda>s. has_prefix s transactionPrefix) (map fst es)
         \<and> (\<forall>s\<in>set ts. snd (parseTransactionDirectoryName s transactionPrefix)))
       \<and> (\<forall>e. q \<longrightarrow> a = Inl e \<longrightarrow> ErrRecovery \<in> set e)"
  have clean: "triple q ?P ?P (attempt (wrapping [ErrRecovery] (cleanupTransaction s)) (\<lambda>_. scan_entries es)) (?Q (e # es))"
    if d: "has_prefix s completedPrefix" "snd (parseTransactionDirectoryName s completedPrefix)"
  proof -
    have "comps s = [s]" by (rule comps_plain [OF parsed_no_slash [OF d(2)]]) (simp add: completedPrefix_def)
    from t_cleanup [OF this, of ?P ?P ?P ?P q] have "triple q ?P ?P (cleanupTransaction s) (\<lambda>a n. ?P n \<and> (a = Inr () \<longrightarrow> ?P n) \<and> (q \<longrightarrow> a = Inr ()))"
      using same_removed d(1) by blast
    then have "triple q ?P ?P (wrapping [ErrRecovery] (cleanupTransaction s)) (\<lambda>a n. ?P n \<and> (q \<longrightarrow> \<not> isl a))"
      by (rule t_wrapping) auto
    then show ?thesis
      by (rule t_attempt) (use d prefixes_differ in \<open>auto simp: e intro: t_weaken [OF Cons.IH]\<close>)
  qed
  have act: "triple q ?P ?P (attempt (scan_entries es) (\<lambda>ts. ret (Inr (s # ts)))) (?Q (e # es))"
    if d: "has_prefix s transactionPrefix" "snd (parseTransactionDirectoryName s transactionPrefix)"
    by (rule t_attempt [OF Cons.IH]) (use d in \<open>auto intro!: t_ret simp: e\<close>)
  have err: "triple q ?P ?P (ret (Inl [ErrRecovery])) (?Q (e # es))" by (rule t_ret) simp
  have other: "triple q ?P ?P (scan_entries es) (?Q (e # es))" if "\<not> has_prefix s transactionPrefix"
    by (rule t_post [OF Cons.IH]) (use that in \<open>auto simp: e\<close>)
  show ?case unfolding e scan_entries.simps
    by (rule t_sure [OF obs_ctx, where v = "()"]) (use clean act err other e in auto)
qed

lemma t_recover_barred:
  assumes b: "barred pf p g t n1"
  shows "triple q (same_but_done n1) (\<lambda>n. n = n1) (recoverTransactions pf p g)
    (\<lambda>a n. same_but_done n1 n \<and> isl a \<and> (\<forall>e. q \<longrightarrow> a = Inl e \<longrightarrow> ErrRecovery \<in> set e))" (is "triple q ?I _ _ ?Q")
  unfolding recoverTransactions_def
proof (rule t_sure_obs [OF obs_wrapping [OF obs_readRootDirectory]])
  have nt: "\<not> has_prefix t completedPrefix" using b prefixes_differ by (auto simp: barred_def)
  show "?I n" if "n = n1" for n by (simp add: that same_but_done_def)
  show "\<not> isl (map_sum ((@) [ErrRecovery]) (\<lambda>x. x) (Inr (root_entries n)))" for n :: tree by simp
  show "?Q (Inl e) n" if "n = n1" "\<not> q" for n e using that by (simp add: same_but_done_def)
  fix n2 es
  assume "n2 = n1" and "map_sum ((@) [ErrRecovery]) (\<lambda>x. x) (Inr (root_entries n2)) = Inr es"
  then have es: "es = root_entries n1" "n2 = n1" by simp_all
  have tin: "t \<in> set (map fst es)" using b root_names(1) [of n1] by (simp add: es barred_def)
  show "triple q ?I (\<lambda>n. n = n2) (attempt (scan_entries es) (\<lambda>active.
       if active = [] then ret (Inr no_recovery)
       else if length active \<noteq> 1 then ret (Inl [ErrRecovery])
       else let txn = hd active in
         if fst (parseTransactionDirectoryName txn transactionPrefix) \<noteq> plan_digest p then ret (Inl [ErrRecovery])
         else attempt (wrapping [ErrRecovery] (loadTransactionRecord pf txn)) (\<lambda>(r, isPrepared).
           if \<not> isPrepared then
             andthen (classifyState (sha pf) p) (\<lambda>st.
               if st = Inr stateBefore then attempt (cleanupTransaction txn) (\<lambda>_. ret (Inr no_recovery))
               else ret (Inl [ErrRecovery]))
           else if \<not> matches r p g then ret (Inl [ErrRecovery])
           else attempt (recoverPreparedTransaction (sha pf) txn p) (\<lambda>_.
             ret (Inr \<lparr>prepared = True, recovered_receipt = r_receipt r\<rparr>))))) ?Q"
  proof (rule t_attempt [OF t_pre [OF t_scan_any]])
    show "?I n" if "n = n2" for n using that es(2) by (simp add: same_but_done_def)
    fix ts :: "string list"
    let ?a = "Inr ts :: (werrs, string list) result"
    let ?S = "\<lambda>n. ?I n \<and> (\<forall>us. ?a = Inr us \<longrightarrow> us = filter (\<lambda>s. has_prefix s transactionPrefix) (map fst es)
         \<and> (\<forall>s\<in>set us. snd (parseTransactionDirectoryName s transactionPrefix))) \<and> (\<forall>e. q \<longrightarrow> ?a = Inl e \<longrightarrow> ErrRecovery \<in> set e)"
    have mem: "t \<in> set ts" if "?S n" for n using that tin b by (simp add: barred_def)
    have no: "triple q ?I ?S (ret (Inl [ErrRecovery])) ?Q" by (rule t_ret) simp
    have load: "triple q ?I ?S (attempt (wrapping [ErrRecovery] (loadTransactionRecord pf t)) (\<lambda>(r, isPrepared).
           if \<not> isPrepared then
             andthen (classifyState (sha pf) p) (\<lambda>st.
               if st = Inr stateBefore then attempt (cleanupTransaction t) (\<lambda>_. ret (Inr no_recovery))
               else ret (Inl [ErrRecovery]))
           else if \<not> matches r p g then ret (Inl [ErrRecovery])
           else attempt (recoverPreparedTransaction (sha pf) t p) (\<lambda>_.
             ret (Inr \<lparr>prepared = True, recovered_receipt = r_receipt r\<rparr>)))) ?Q"
      if d: "fst (parseTransactionDirectoryName t transactionPrefix) = plan_digest p" and tn: "txn_name t"
    proof -
      obtain x where x: "map_of n1 (record_key t) = Some x" "\<And>r. load_bytes pf x = Inr (r, True) \<Longrightarrow> \<not> matches r p g"
        using b d by (auto simp: barred_def)
      have ld: "loaded pf t n = load_bytes pf x" if "?I n" for n
      proof -
        have "hd (record_key t) = t" by (simp add: record_key_def)
        then have "map_of n (record_key t) = Some x" using that x(1) nt unfolding same_but_done_def by metis
        then show ?thesis by (simp add: loaded_def)
      qed
      show ?thesis
      proof (rule t_obs_attempt [OF obs_wrapping [OF obs_loadTransactionRecord [OF tn]]])
        show "?Q (Inl e) n" if "?S n" "map_sum ((@) [ErrRecovery]) (\<lambda>x. x) (loaded pf t n) = Inl e \<or> \<not> q \<and> Failure \<in> set e" for n e
        proof -
          have "ErrRecovery \<in> set e" if "map_sum ((@) [ErrRecovery]) (\<lambda>x. x) v = Inl e" for v :: "(werrs, transactionRecord \<times> bool) result"
            using that by (cases v) auto
          then show ?thesis using that by auto
        qed
        fix v :: "transactionRecord \<times> bool"
        obtain r pr where v: "v = (r, pr)" by (cases v)
        show "triple q ?I (\<lambda>n. ?S n \<and> map_sum ((@) [ErrRecovery]) (\<lambda>x. x) (loaded pf t n) = Inr v) (case v of (r, isPrepared) \<Rightarrow>
           if \<not> isPrepared then
             andthen (classifyState (sha pf) p) (\<lambda>st.
               if st = Inr stateBefore then attempt (cleanupTransaction t) (\<lambda>_. ret (Inr no_recovery))
               else ret (Inl [ErrRecovery]))
           else if \<not> matches r p g then ret (Inl [ErrRecovery])
           else attempt (recoverPreparedTransaction (sha pf) t p) (\<lambda>_.
             ret (Inr \<lparr>prepared = True, recovered_receipt = r_receipt r\<rparr>))) ?Q"
        proof (cases "load_bytes pf x = Inr (r, pr)")
          case False
          have "map_sum ((@) [ErrRecovery]) (\<lambda>x. x) u = Inr v \<longleftrightarrow> u = Inr (r, pr)" for u :: "(werrs, transactionRecord \<times> bool) result"
            by (cases u) (auto simp: v)
          then show ?thesis using ld False by (intro t_none) metis
        next
          case True
          then have "pr" by (auto simp: load_bytes_def split: node.splits if_splits option.splits)
          then have "\<not> matches r p g" "pr" using x(2) True by auto
          then show ?thesis by (auto simp: v intro!: t_ret)
        qed
      qed auto
    qed
    show "triple q ?I ?S (if ts = [] then ret (Inr no_recovery)
       else if length ts \<noteq> 1 then ret (Inl [ErrRecovery])
       else let txn = hd ts in
         if fst (parseTransactionDirectoryName txn transactionPrefix) \<noteq> plan_digest p then ret (Inl [ErrRecovery])
         else attempt (wrapping [ErrRecovery] (loadTransactionRecord pf txn)) (\<lambda>(r, isPrepared).
           if \<not> isPrepared then
             andthen (classifyState (sha pf) p) (\<lambda>st.
               if st = Inr stateBefore then attempt (cleanupTransaction txn) (\<lambda>_. ret (Inr no_recovery))
               else ret (Inl [ErrRecovery]))
           else if \<not> matches r p g then ret (Inl [ErrRecovery])
           else attempt (recoverPreparedTransaction (sha pf) txn p) (\<lambda>_.
             ret (Inr \<lparr>prepared = True, recovered_receipt = r_receipt r\<rparr>)))) ?Q"
    proof (cases "ts = [t] \<and> snd (parseTransactionDirectoryName t transactionPrefix)")
      case True
      have "txn_name t" using True b parsed_no_slash [of t transactionPrefix]
        by (auto simp: txn_name_def barred_def transactionPrefix_def)
      then show ?thesis using True no load by simp
    next
      case False
      show ?thesis
      proof (cases "t \<in> set ts \<and> (\<forall>s\<in>set ts. snd (parseTransactionDirectoryName s transactionPrefix))")
        case True
        then have "length ts \<noteq> 1" "ts \<noteq> []" using False by (auto simp: length_Suc_conv)
        then show ?thesis using no by simp
      next
        case False
        have "\<not> ?S n" for n
        proof
          assume s: "?S n"
          then have "\<forall>s\<in>set ts. snd (parseTransactionDirectoryName s transactionPrefix)" by simp
          then show False using mem [OF s] False by blast
        qed
        then show ?thesis by (rule t_none)
      qed
    qed
  qed auto
qed

lemma t_apply_barred:
  assumes b: "barred pf p g t n1"
  shows "triple q (same_but_done n1) (\<lambda>n. n = n1) (Apply pf p g)
    (\<lambda>a n. same_but_done n1 n \<and> snd a \<noteq> None \<and> ar_disposition (fst a) = Undecided
       \<and> (q \<longrightarrow> Plan_Validate (sha pf) p = None \<longrightarrow> validateCommitGate g = None \<longrightarrow> ErrRecovery \<in> set (the (snd a))))" (is "triple q ?I ?P _ ?Q")
proof -
  have I: "?I n" if "n = n1" for n by (simp add: that same_but_done_def)
  have stop: "?Q (refused p e) n" if "n = n1" "\<not> q" for e n using I that by (simp add: refused_def)
  have close: "triple q ?I (?Q a) (closing a) ?Q" for a
    unfolding closing_def
  proof (rule t_andthen [OF t_post [OF t_and_failures_obs [OF obs_probe, of "?Q a" ?I q "[]"], where Q = "\<lambda>_. ?Q a"]])
    show "triple q ?I (?Q a) (ret (fst a, if es = [] then snd a else Some ((case snd a of None \<Rightarrow> [] | Some e \<Rightarrow> e) @ es))) ?Q" for es
      by (rule t_ret) (auto split: option.splits)
  qed auto
  have locked: "triple q ?I ?P (locked_apply pf p g) ?Q"
    unfolding locked_apply_def
    by (rule t_or_refuse [OF t_recover_barred [OF b]]) (auto simp: refused_def intro: t_none)
  have inner: "triple q ?I ?P (andthen (locked_apply pf p g) closing) ?Q"
    by (rule t_andthen [OF locked close])
  have locks: "triple q ?I ?P (or_refuse p (probes 3) (\<lambda>_. andthen (locked_apply pf p g) closing)) ?Q"
    by (rule t_or_refuse_obs [OF obs_probes]) (use stop I inner in auto)
  have closed: "triple q ?I ?P (andthen (or_refuse p (probes 3) (\<lambda>_. andthen (locked_apply pf p g) closing)) closing) ?Q"
    by (rule t_andthen [OF locks close])
  have opened: "triple q ?I ?P (or_refuse p openWorkspaceRoot (\<lambda>_. andthen (or_refuse p (probes 3) (\<lambda>_. andthen (locked_apply pf p g) closing)) closing)) ?Q"
    by (rule t_or_refuse_obs [OF obs_openWorkspaceRoot]) (use stop I closed in auto)
  have alive: "triple q ?I ?P (or_refuse p ctx_alive (\<lambda>_. or_refuse p openWorkspaceRoot (\<lambda>_.
      andthen (or_refuse p (probes 3) (\<lambda>_. andthen (locked_apply pf p g) closing)) closing))) ?Q"
    by (rule t_or_refuse_obs [OF obs_ctx]) (use stop I opened in auto)
  have bad: "triple q ?I ?P (ret (refused p e)) ?Q" if "Plan_Validate (sha pf) p \<noteq> None \<or> validateCommitGate g \<noteq> None" for e
    by (rule t_ret) (use I that in \<open>auto simp: refused_def\<close>)
  show ?thesis unfolding Apply_def
    using alive bad by (auto split: option.split)
qed

subsection \<open>Readers\<close>

lemma t_read:
  "triple q (\<lambda>n. n = n1) (\<lambda>n. n = n1) (WithReadLock inspect)
    (\<lambda>a n. n = n1 \<and> (\<forall>x. a = Inr x \<longrightarrow> inspect n1 = Inr x \<and> (\<forall>s. has_prefix s transactionPrefix \<longrightarrow> map_of n1 [s] = None)))"
  (is "triple q ?I ?I _ ?Q")
proof -
  have obs: "triple q ?I ?I m (\<lambda>a n. n = n1 \<and> (a = f n1 \<or> isl a))" if "observes m f" for m :: "'c tries" and f
    by (rule t_obs [OF that]) auto
  have rej: "triple q ?I ?I (reject_entries es) (\<lambda>a n. n = n1 \<and> (a = Inr () \<longrightarrow> (\<forall>s\<in>fst ` set es. \<not> has_prefix s transactionPrefix)))" for es
  proof (induction es)
    case Nil
    show ?case by (auto intro!: t_ret)
  next
    case (Cons e es)
    obtain s b where e: "e = (s, b)" by (cases e)
    show ?case unfolding e reject_entries.simps
      by (rule t_attempt [OF t_obs [OF obs_ctx, where Q = "\<lambda>_ n. n = n1"]]) (auto intro!: t_ret intro: t_weaken [OF Cons])
  qed
  have none: "triple q ?I ?I rejectActiveTransactions (\<lambda>a n. n = n1 \<and> (a = Inr () \<longrightarrow> (\<forall>s. has_prefix s transactionPrefix \<longrightarrow> map_of n1 [s] = None)))"
    unfolding rejectActiveTransactions_def
  proof (rule t_sure_obs [OF obs_wrapping [OF obs_readRootDirectory]])
    fix n2 es
    assume "n2 = n1" "map_sum ((@) [ErrRecovery]) (\<lambda>x. x) (Inr (root_entries n2)) = Inr es"
    then have "es = root_entries n1" "n2 = n1" by simp_all
    then have "map_of n1 [s] = None" if "\<forall>s\<in>fst ` set es. \<not> has_prefix s transactionPrefix" "has_prefix s transactionPrefix" for s
      using that root_names(1) [of n1] by (metis (mono_tags) list.set_map mem_Collect_eq)
    then show "triple q ?I (\<lambda>n. n = n2) (reject_entries es) (\<lambda>a n. n = n1 \<and> (a = Inr () \<longrightarrow> (\<forall>s. has_prefix s transactionPrefix \<longrightarrow> map_of n1 [s] = None)))"
      by (intro t_weaken [OF rej [of es]]) (use \<open>n2 = n1\<close> in auto)
  qed auto
  let ?G = "\<lambda>a n. n = n1 \<and> (\<forall>x. a = Inr x \<longrightarrow> inspect n1 = Inr x \<and> (\<forall>s. has_prefix s transactionPrefix \<longrightarrow> map_of n1 [s] = None))"
  have seen: "triple q ?I ?I (attempt (look inspect) (\<lambda>x. attempt verifyOpenedRootPath (\<lambda>_. ret (Inr x)))) ?G"
    if s: "\<forall>s. has_prefix s transactionPrefix \<longrightarrow> map_of n1 [s] = None"
  proof (rule t_obs_attempt [OF obs_look])
    show "triple q ?I (\<lambda>n. n = n1 \<and> inspect n = Inr x) (attempt verifyOpenedRootPath (\<lambda>_. ret (Inr x))) ?G" for x
      by (rule t_sure [OF obs_verifyOpenedRootPath, where v = "()"]) (use s in \<open>auto intro!: t_ret\<close>)
  qed auto
  have clear: "triple q ?I ?I (attempt rejectActiveTransactions (\<lambda>_. attempt (look inspect) (\<lambda>x. attempt verifyOpenedRootPath (\<lambda>_. ret (Inr x))))) ?G"
  proof (rule t_attempt [OF none])
    show "triple q ?I (\<lambda>n. n = n1 \<and> (Inr u = Inr () \<longrightarrow> (\<forall>s. has_prefix s transactionPrefix \<longrightarrow> map_of n1 [s] = None)))
      (attempt (look inspect) (\<lambda>x. attempt verifyOpenedRootPath (\<lambda>_. ret (Inr x)))) ?G" for u
      using t_given' [OF seen] by simp
  qed auto
  have root: "triple q ?I ?I (attempt verifyOpenedRootPath (\<lambda>_. attempt rejectActiveTransactions (\<lambda>_.
      attempt (look inspect) (\<lambda>x. attempt verifyOpenedRootPath (\<lambda>_. ret (Inr x)))))) ?G"
    by (rule t_sure [OF obs_verifyOpenedRootPath, where v = "()"]) (use clear in auto)
  have lock: "triple q ?I ?I (attempt (probes 3) (\<lambda>_. attempt verifyOpenedRootPath (\<lambda>_. attempt rejectActiveTransactions (\<lambda>_.
      attempt (look inspect) (\<lambda>x. attempt verifyOpenedRootPath (\<lambda>_. ret (Inr x))))))) ?G"
    by (rule t_sure [OF obs_probes, where v = "()"]) (use root in auto)
  have unlock: "triple q ?I (?G r) (andthen (and_failures [] (probes 2)) (\<lambda>es. ret (if es = [] then r else Inl ((case r of Inl e \<Rightarrow> e | Inr _ \<Rightarrow> []) @ es)))) ?G" for r
  proof (rule t_andthen [OF t_and_failures_obs [OF obs_probes]])
    show "?I n" if "?G r n" for n using that by simp
  qed (auto intro!: t_ret)
  have both: "triple q ?I ?I (andthen (attempt (probes 3) (\<lambda>_. attempt verifyOpenedRootPath (\<lambda>_. attempt rejectActiveTransactions (\<lambda>_.
           attempt (look inspect) (\<lambda>x. attempt verifyOpenedRootPath (\<lambda>_. ret (Inr x)))))))
         (\<lambda>r. andthen (and_failures [] (probes 2)) (\<lambda>es. ret (if es = [] then r else Inl ((case r of Inl e \<Rightarrow> e | Inr _ \<Rightarrow> []) @ es))))) ?G"
    by (rule t_andthen [OF lock unlock])
  have opened: "triple q ?I ?I (attempt openWorkspaceRoot (\<lambda>_. andthen (attempt (probes 3) (\<lambda>_. attempt verifyOpenedRootPath (\<lambda>_. attempt rejectActiveTransactions (\<lambda>_.
           attempt (look inspect) (\<lambda>x. attempt verifyOpenedRootPath (\<lambda>_. ret (Inr x)))))))
         (\<lambda>r. andthen (and_failures [] (probes 2)) (\<lambda>es. ret (if es = [] then r else Inl ((case r of Inl e \<Rightarrow> e | Inr _ \<Rightarrow> []) @ es)))))) ?G"
    by (rule t_sure [OF obs_openWorkspaceRoot, where v = "()"]) (use both in auto)
  show ?thesis unfolding WithReadLock_def
    by (rule t_sure [OF obs_ctx, where v = "()"]) (use opened in auto)
qed

subsection \<open>A small workspace\<close>

text \<open>One update of the file \<open>a\<close>; the digests tell its two states apart.\<close>

definition sample_digest :: "char \<Rightarrow> string" where
  "sample_digest c = ''sha256:'' @ replicate 64 c"

definition sample_state :: "char \<Rightarrow> file_state" where
  "sample_state c = \<lparr>f_path = ''a'', f_exists = True, f_mode = 0x1A4, f_digest = sample_digest c\<rparr>"

definition sample_sha :: digester where
  "sample_sha s = sample_digest (if s = ''x'' then CHR ''1''
     else if s = snapshotFormat @ file_bytes (sample_state CHR ''1'') then CHR ''2''
     else if s = snapshotFormat @ file_bytes (sample_state CHR ''0'') then CHR ''3'' else CHR ''0'')"

definition sample_plan :: plan where
  "sample_plan = \<lparr>before_files = [sample_state CHR ''1''], before_digest = sample_digest CHR ''2'',
     final_files = [sample_state CHR ''0''],
     changes = [\<lparr>public = \<lparr>p_path = ''a'', p_operation = OperationUpdate, p_digest = sample_digest CHR ''0'', p_mode = 0x1A4\<rparr>,
                 p_content = Some ''y''\<rparr>],
     plan_digest = sample_digest CHR ''0'', final_digest = sample_digest CHR ''3'', guards = []\<rparr>"

definition sample_platform :: platform where
  "sample_platform = \<lparr>sha = sample_sha, enc_record = (\<lambda>r. r_plan r), dec_record = (\<lambda>_. Some (record_of sample_plan no_admission)),
     entropies = [replicate 32 CHR ''0'']\<rparr>"

definition sample_tree :: tree where
  "sample_tree = [([''a''], Reg 0x1A4 ''x''), ([''b''], Reg 0x1A4 ''z'')]"

text \<open>The bytes that are hashed determine the state of a file at its path.\<close>

lemma big_endian_inj:
  assumes "big_endian k i = big_endian k j" and "i < 256 ^ k" and "j < 256 ^ k"
  shows "i = j"
proof -
  have d: "i div 256 ^ a mod 256 = j div 256 ^ a mod 256" if "a < k" for a
  proof -
    have "byte (i div 256 ^ a mod 256) = byte (j div 256 ^ a mod 256)"
      using assms(1) that by (auto simp: big_endian_def)
    then show ?thesis by (subst (asm) byte_inj) simp_all
  qed
  have m: "i mod 256 ^ a = j mod 256 ^ a" if "a \<le> k" for a
    using that
  proof (induction a)
    case (Suc a)
    then show ?case using d [of a] mod_mult2_eq [of i "256 ^ a" 256] mod_mult2_eq [of j "256 ^ a" 256]
      by (simp add: mult.commute)
  qed simp
  show ?thesis using m [of k] assms(2,3) by simp
qed

lemma big_endian_length [simp]: "length (big_endian k i) = k"
  by (simp add: big_endian_def)

lemma file_bytes_inj:
  assumes "f_path f = f_path g" and "f_mode f = snapshotMode (f_mode f)" and "f_mode g = snapshotMode (f_mode g)"
    and "file_bytes f = file_bytes g"
  shows "f = g"
proof -
  have e: "flag (f_exists f) = flag (f_exists g)" "big_endian 4 (unat (f_mode f)) = big_endian 4 (unat (f_mode g))" "f_digest f = f_digest g"
    using assms by (simp_all add: file_bytes_def sized_def flag_def)
  have "f_exists f = f_exists g" using e(1) byte_inj [of 1 0] byte_inj [of 0 1] by (auto simp: flag_def split: if_splits)
  moreover have "unat (f_mode f) < 256 ^ 4" "unat (f_mode g) < 256 ^ 4"
    using unsigned_less [of "f_mode f"] unsigned_less [of "f_mode g"] by simp_all
  then have "f_mode f = f_mode g" using big_endian_inj [OF e(2)] by (simp add: word_unat_eq_iff)
  ultimately show ?thesis using assms(1) e(3) by (cases f; cases g) simp
qed

lemma captured_mode: "captured h f \<Longrightarrow> f_mode f = snapshotMode (f_mode f)"
proof -
  assume "captured h f"
  then obtain x where "f = file_at h (f_path f) x" by (auto simp: captured_def)
  moreover have "f_mode (file_at h s x) = snapshotMode (f_mode (file_at h s x))" for s
    by (auto simp: file_at_def missing_file_def snapshotMode_def word_bw_assocs split: option.splits node.splits)
  ultimately show ?thesis by metis
qed

lemma sample_digest_simps [simp]:
  "sample_digest a = sample_digest b \<longleftrightarrow> a = b" "validDigest (sample_digest CHR ''0'')" "validDigest (sample_digest CHR ''1'')"
  "validDigest (sample_digest CHR ''2'')" "validDigest (sample_digest CHR ''3'')"
  by (simp add: sample_digest_def) (code_simp, code_simp, code_simp, code_simp)

lemma sample_state_simps:
  "f_mode (sample_state k) = snapshotMode (f_mode (sample_state k))" "f_path (sample_state k) = ''a''"
  "file_bytes (sample_state k) = file_bytes (sample_state l) \<longleftrightarrow> k = l"
proof -
  show m: "f_mode (sample_state k) = snapshotMode (f_mode (sample_state k))" for k
    by (simp add: sample_state_def snapshotMode_def snapshotModeMask_def)
  show "f_path (sample_state k) = ''a''" by (simp add: sample_state_def)
  have "sample_state k = sample_state l" if "file_bytes (sample_state k) = file_bytes (sample_state l)"
    by (rule file_bytes_inj [OF _ m m that]) (simp add: sample_state_def)
  then show "file_bytes (sample_state k) = file_bytes (sample_state l) \<longleftrightarrow> k = l" by (auto simp: sample_state_def)
qed

lemma sample_hashes:
  "sample_sha ''x'' = sample_digest CHR ''1''" "sample_sha ''y'' = sample_digest CHR ''0''"
  "sample_sha (snapshotFormat @ file_bytes (sample_state CHR ''1'')) = sample_digest CHR ''2''"
  "sample_sha (snapshotFormat @ file_bytes (sample_state CHR ''0'')) = sample_digest CHR ''3''"
  "sample_sha (planFormat @ s) = sample_digest CHR ''0''"
  by (simp_all add: sample_sha_def sample_state_simps(3)) (simp_all add: snapshotFormat_def planFormat_def)

lemma sample_valid: "Plan_Validate sample_sha sample_plan = None"
proof -
  have path: "validRelativePath ''a''" "\<not> reservedWorkspacePath ''a''" "parent_paths ''a'' = []" by code_simp+
  have files: "validSnapshotFiles [sample_state CHR ''1'']" "validSnapshotFiles [sample_state CHR ''0'']"
    using path sample_state_simps(1) by (simp_all add: validSnapshotFiles_def valid_file_def sample_state_def)
  have mode: "validTargetMode 0x1A4" by code_simp
  have op: "write_op OperationUpdate" "OperationUpdate \<noteq> OperationCreate" by (simp_all add: write_op_def ops_differ)
  have hash: "digestFiles sample_sha [sample_state CHR ''1''] = sample_digest CHR ''2''"
    "digestFiles sample_sha [sample_state CHR ''0''] = sample_digest CHR ''3''"
    using sample_hashes(3,4) by (simp_all add: digestFiles_def)
  have plan: "digestPlan sample_sha sample_plan = sample_digest CHR ''0''"
    by (simp add: digestPlan_def sample_plan_def sample_hashes(5))
  have want: "desiredFiles [sample_state CHR ''1''] (changes sample_plan) = Inr [sample_state CHR ''0'']"
    using op by (simp add: desiredFiles_def desired_file_def sample_plan_def sample_state_def)
  have each: "validate_each sample_sha [] 0 0 (zip (changes sample_plan) (zip [sample_state CHR ''1''] [sample_state CHR ''0'']))"
    using path mode op by (simp add: sample_plan_def sample_state_def digestBytes_def sample_hashes(2) payload_def Let_def change_path_def
        maxPlanPathBytes_def MaxPlanPathBytes_def MaxPlanContentBytes_def)
  show ?thesis
    using files hash plan want each
    by (simp add: Plan_Validate_def validateDirectoryGuards_def MaxDirectoryGuards_def MaxPlanChanges_def) (simp add: sample_plan_def)
qed

lemma sample_collision_free: "collision_free sample_sha sample_plan"
  unfolding collision_free_def
proof (intro allI impI)
  fix fs assume p: "map f_path fs = targets sample_plan" and c: "list_all (captured sample_sha) fs"
  then obtain f where f: "fs = [f]" "f_path f = ''a''" "captured sample_sha f"
    by (auto simp: targets_def change_path_def sample_plan_def)
  note m = captured_mode [OF f(3)]
  have "f = sample_state k" if "file_bytes f = file_bytes (sample_state k)" for k
    by (rule file_bytes_inj [OF _ m sample_state_simps(1) that]) (simp add: f(2) sample_state_simps(2))
  then show "(digestFiles sample_sha fs = before_digest sample_plan \<longrightarrow> fs = before_files sample_plan)
      \<and> (digestFiles sample_sha fs = final_digest sample_plan \<longrightarrow> fs = final_files sample_plan)"
    by (auto simp: f(1) digestFiles_def sample_sha_def sample_plan_def split: if_splits)
qed

lemma sample_targets: "target_keys sample_plan = {[''a'']}" "above_keys sample_plan = {}"
  "rows sample_plan = [(0, hd (changes sample_plan), sample_state CHR ''1'', sample_state CHR ''0'')]"
  "target_key (hd (rows sample_plan)) = [''a'']"
proof -
  have c: "comps ''a'' = [''a'']" by (simp add: comps_def)
  have t: "targets sample_plan = [''a'']" by (simp add: targets_def change_path_def sample_plan_def)
  then show "target_keys sample_plan = {[''a'']}" by (simp add: target_keys_def c)
  show "above_keys sample_plan = {}" unfolding above_keys_def t
    by (auto simp: c strict_prefix_def prefix_Cons)
  show r: "rows sample_plan = [(0, hd (changes sample_plan), sample_state CHR ''1'', sample_state CHR ''0'')]"
    by (simp add: rows_def sample_plan_def)
  show "target_key (hd (rows sample_plan)) = [''a'']" by (simp add: r) (simp add: sample_plan_def change_path_def c)
qed

lemma sample_old_file: "is_file sample_sha (sample_state CHR ''1'') (Some (Reg 0x1A4 ''x''))"
  using sample_state_simps(1) [of "CHR ''1''"]
  by (simp add: is_file_def file_or_none_def regular_def file_at_def digestBytes_def sample_hashes(1) sample_state_def)

lemma sample_workspace: "workspace sample_platform sample_plan g sample_tree sample_tree"
proof -
  have row: "\<forall>r\<in>set (rows sample_plan). is_file sample_sha (row_before r) (map_of sample_tree (target_key r))"
    using sample_targets(3,4) sample_old_file by (simp add: sample_tree_def)
  have ok: "tree_ok sample_tree"
    by (auto simp: tree_ok_def sample_tree_def strict_prefix_def prefix_Cons split: if_splits)
  have own: "map_of sample_tree k = None" if "own_key k" for k
    using that by (auto simp: sample_tree_def own_key_def has_prefix_iff transactionPrefix_def completedPrefix_def)
  then have "no_txn sample_tree" by (auto simp: no_txn_def names_ok_def own_key_def)
  moreover have "base sample_plan sample_tree sample_tree" using ok by (simp add: base_def sample_targets(2))
  ultimately show ?thesis
    using row ok sample_valid sample_collision_free
    by (simp add: workspace_def sample_platform_def ready_def sample_targets(2) consistent_def at_rest_def whole_def)
      (simp add: sample_plan_def)
qed

lemma sample_entropy: "entropy_ok sample_platform"
  by (simp add: entropy_ok_def sample_platform_def list_all_iff lower_hex_def is_digit_def)

lemma sample_idle: "no_txn sample_tree \<and> \<not> torn sample_platform sample_plan g sample_tree"
proof -
  have own: "map_of sample_tree k = None" if "own_key k" for k
    using that by (auto simp: sample_tree_def own_key_def has_prefix_iff transactionPrefix_def completedPrefix_def)
  then have "no_txn sample_tree" by (auto simp: no_txn_def names_ok_def own_key_def)
  then show ?thesis using idle_not_active by (auto simp: torn_def)
qed

lemma sample_codec: "codec_ok sample_platform sample_plan None"
  by (auto simp: codec_ok_def admitted_def sample_platform_def record_of_def maxTransactionRecord_def sample_plan_def sample_digest_def)

subsection \<open>The guarantees\<close>

text \<open>
  Property C4. Atomicity of \<open>Apply\<close>, for plans without directory guards. From every tree that earlier runs of the plan can
  have left, whatever call fails and wherever the process is killed, the tree is again such a tree: at rest with all targets
  before or all final, or interrupted in one transaction of this plan whose record and backups determine the
  rest; and when that record is cut off, which \<open>Apply\<close> refuses to touch from then on, all targets still have their
  state before. A result with a disposition means that every target has
  its planned final state; and without an error there is a disposition, no active transaction and nothing left of one.
\<close>

theorem apply_atomic:
  assumes "workspace pf p g n0 (nodes w)" and "entropy_ok pf"
  shows "case Apply pf p g w of
      (Dead, w') \<Rightarrow> workspace pf p g n0 (nodes w') \<and> (torn pf p g (nodes w') \<longrightarrow> whole (sha pf) p row_before n0 (nodes w'))
    | (Ret (res, err), w') \<Rightarrow> workspace pf p g n0 (nodes w') \<and> (torn pf p g (nodes w') \<longrightarrow> whole (sha pf) p row_before n0 (nodes w'))
        \<and> (ar_disposition res \<noteq> Undecided \<longrightarrow> whole (sha pf) p row_final n0 (nodes w'))
        \<and> (err = None \<longrightarrow> ar_disposition res \<noteq> Undecided \<and> no_txn (nodes w') \<and> no_debris (nodes w'))"
  using apply_sound [OF assms] apply_consistent [OF assms] torn_before
  by (auto simp: sound_def split: prod.splits io.splits)

theorem apply_atomic_witness:
  "case Apply sample_platform sample_plan None \<lparr>nodes = sample_tree, script = replicate 100 Proceed @ [Killed 0 []]\<rparr> of
      (Dead, w') \<Rightarrow> workspace sample_platform sample_plan None sample_tree (nodes w')
        \<and> (torn sample_platform sample_plan None (nodes w') \<longrightarrow> whole (sha sample_platform) sample_plan row_before sample_tree (nodes w'))
    | (Ret (res, err), w') \<Rightarrow> workspace sample_platform sample_plan None sample_tree (nodes w')
        \<and> (torn sample_platform sample_plan None (nodes w') \<longrightarrow> whole (sha sample_platform) sample_plan row_before sample_tree (nodes w'))
        \<and> (ar_disposition res \<noteq> Undecided \<longrightarrow> whole (sha sample_platform) sample_plan row_final sample_tree (nodes w'))
        \<and> (err = None \<longrightarrow> ar_disposition res \<noteq> Undecided \<and> no_txn (nodes w') \<and> no_debris (nodes w'))"
  by (rule apply_atomic [OF _ sample_entropy]) (simp add: sample_workspace)

text \<open>
  Property C9. Nothing is lost. After \<open>Apply\<close> returns or dies at any point, every path outside the plan and outside the
  package's own names is as it was, and every target that existed before has its old content: in place, or as a backup in
  the one active transaction, unless all targets have their final state.
\<close>

theorem apply_keeps_contents:
  assumes "workspace pf p g n0 (nodes w)" and "entropy_ok pf" and "Apply pf p g w = (x, w')"
  shows "(\<forall>k. k \<notin> target_keys p \<longrightarrow> k \<notin> above_keys p \<longrightarrow> \<not> own_key k \<longrightarrow> map_of (nodes w') k = map_of n0 k)
    \<and> (whole (sha pf) p row_final n0 (nodes w')
       \<or> (\<forall>r\<in>set (rows p). f_exists (row_before r) \<longrightarrow> is_file (sha pf) (row_before r) (map_of (nodes w') (target_key r))
            \<or> (\<exists>t. active t (nodes w') \<and> copy_of (sha pf) (row_before r) (map_of (nodes w') (backup_key t (fst r))))))"
proof -
  let ?n = "nodes w'"
  have c: "consistent pf p g n0 ?n" using apply_consistent [OF assms] by (simp add: workspace_def)
  have b: "base p n0 ?n" by (rule consistent_base [OF c])
  have r: "whole (sha pf) p row_final n0 ?n \<or> (\<forall>r\<in>set (rows p). f_exists (row_before r) \<longrightarrow> is_file (sha pf) (row_before r) (map_of ?n (target_key r))
            \<or> (\<exists>t. active t ?n \<and> copy_of (sha pf) (row_before r) (map_of ?n (backup_key t (fst r)))))"
    using c unfolding consistent_def
  proof
    assume "at_rest pf p n0 ?n"
    then show ?thesis by (auto simp: at_rest_def whole_def)
  next
    assume "\<exists>t. interrupted pf p g t n0 ?n"
    then obtain t x0 where a: "all_rows p t n0 x0 (ok_rows (sha pf)) ?n" by (auto simp: interrupted_def)
    then have "active t ?n" using all_rows_active by blast
    moreover have "row_ok (sha pf) r (map_of ?n (target_key r)) (map_of ?n (backup_key t (fst r)))" if "r \<in> set (rows p)" for r
      using a that by (simp add: all_rows_def holds_at_def)
    ultimately show ?thesis unfolding row_ok_def by blast
  qed
  show ?thesis using b r by (simp add: base_def)
qed

theorem apply_keeps_contents_witness:
  "map_of (nodes (snd (Apply sample_platform sample_plan None \<lparr>nodes = sample_tree, script = replicate 100 Proceed @ [Killed 0 []]\<rparr>))) [''b'']
     = Some (Reg 0x1A4 ''z'')"
proof -
  let ?w = "\<lparr>nodes = sample_tree, script = replicate 100 Proceed @ [Killed 0 []]\<rparr>"
  obtain x w' where a: "Apply sample_platform sample_plan None ?w = (x, w')" by (cases "Apply sample_platform sample_plan None ?w")
  have "map_of (nodes w') [''b''] = map_of sample_tree [''b'']"
    using apply_keeps_contents [OF _ sample_entropy a, of sample_tree] sample_workspace
    by (simp add: sample_targets(1,2) own_key_def has_prefix_iff transactionPrefix_def completedPrefix_def)
  then show ?thesis by (simp add: a) (simp add: sample_tree_def)
qed

text \<open>
  Property C5. Recovery completes, for plans without directory guards that change something. From every tree that earlier
  runs can have left, except one in which the record of the transaction was cut off while it was written (\<open>torn\<close>: that one
  stays refused, \<open>empty_record_blocks\<close>), a run without faults, with a gate that accepts, a random source
  that delivers and a record codec that gives back what it wrote, returns with all targets in their final state and nothing of the package left. Only with a
  gate, and only when it found a transaction and undid it, it asks for one more run instead; the workspace is then
  at rest without any transaction, so that the run after it completes.
\<close>

theorem apply_restart:
  assumes "workspace pf p g n0 (nodes w)" and "\<not> torn pf p g (nodes w)" and "script w = []"
    and "entropy_ok pf" and "entropies pf \<noteq> []" and "codec_ok pf p g" and "agrees g" and "validateCommitGate g = None"
    and "before_digest p \<noteq> final_digest p"
  shows "\<exists>res err w'. Apply pf p g w = (Ret (res, err), w') \<and>
      (err = None \<and> ar_disposition res \<noteq> Undecided \<and> whole (sha pf) p row_final n0 (nodes w')
         \<and> no_txn (nodes w') \<and> no_debris (nodes w')
       \<or> g \<noteq> None \<and> \<not> no_txn (nodes w) \<and> err = Some [ErrRecoveryRestart] \<and> at_rest pf p n0 (nodes w') \<and> no_debris (nodes w')
         \<and> \<not> torn pf p g (nodes w'))"
proof -
  let ?f = "no_txn (nodes w)"
  have "case Apply pf p g w of (Dead, w') \<Rightarrow> \<not> True \<and> consistent pf p g n0 (nodes w') | (Ret a, w') \<Rightarrow> sound ?f True pf p g n0 a (nodes w')"
    by (rule triple_cases [OF t_Apply [OF workspaceD(1-3) [OF assms(1)] assms(4)]])
      (use assms workspaceD(4) [OF assms(1)] in simp_all)
  moreover have "\<not> torn pf p g n" if "at_rest pf p n0 n" for n
    using that idle_not_active by (auto simp: torn_def at_rest_def)
  ultimately show ?thesis by (auto simp: sound_def cleared_def split: prod.splits io.splits)
qed

theorem apply_restart_witness:
  "\<exists>res err w'. Apply sample_platform sample_plan None \<lparr>nodes = sample_tree, script = []\<rparr> = (Ret (res, err), w') \<and> err = None
     \<and> ar_disposition res \<noteq> Undecided \<and> whole (sha sample_platform) sample_plan row_final sample_tree (nodes w')"
proof -
  have "sample_digest CHR ''2'' \<noteq> sample_digest CHR ''3''" by simp
  then have ne: "before_digest sample_plan \<noteq> final_digest sample_plan" by (simp add: sample_plan_def)
  have e: "entropies sample_platform \<noteq> []" by (simp add: sample_platform_def)
  have a: "agrees None" "validateCommitGate None = None" by (simp_all add: agrees_def validateCommitGate_def)
  let ?w = "\<lparr>nodes = sample_tree, script = []\<rparr>"
  have w: "workspace sample_platform sample_plan None sample_tree (nodes ?w)" "\<not> torn sample_platform sample_plan None (nodes ?w)" "script ?w = []"
    using sample_workspace sample_idle by simp_all
  show ?thesis using apply_restart [OF w sample_entropy e sample_codec a ne] by blast
qed

text \<open>
  Property C10. Isolation of readers. A read under the lock that succeeds leaves the tree alone and has seen it with no
  transaction under way: all targets in the state before the plan, or all in the state after it.
\<close>

theorem read_sees_whole:
  assumes "workspace pf p g n0 (nodes w)" and "WithReadLock inspect w = (Ret (Inr x), w')"
  shows "nodes w' = nodes w \<and> inspect (nodes w) = Inr x
    \<and> (whole (sha pf) p row_before n0 (nodes w) \<or> whole (sha pf) p row_final n0 (nodes w))"
proof -
  have r: "nodes w' = nodes w \<and> inspect (nodes w) = Inr x \<and> (\<forall>s. has_prefix s transactionPrefix \<longrightarrow> map_of (nodes w) [s] = None)"
    using triple_RetD [OF t_read [of False "nodes w" inspect] _ _ assms(2)] by simp
  have "\<not> interrupted pf p g t n0 (nodes w)" for t
    using interrupted_active [of pf p g t n0 "nodes w"] r by (auto simp: active_def)
  then show ?thesis using r workspaceD(4) [OF assms(1)] by (auto simp: consistent_def at_rest_def)
qed

theorem read_sees_whole_witness:
  "WithReadLock (\<lambda>n. Inr (map_of n [''a''])) \<lparr>nodes = sample_tree, script = []\<rparr>
      = (Ret (Inr (Some (Reg 0x1A4 ''x''))), \<lparr>nodes = sample_tree, script = []\<rparr>)
    \<and> (whole (sha sample_platform) sample_plan row_before sample_tree sample_tree
       \<or> whole (sha sample_platform) sample_plan row_final sample_tree sample_tree)"
proof -
  let ?w = "\<lparr>nodes = sample_tree, script = []\<rparr>"
  have e: "WithReadLock (\<lambda>n. Inr (map_of n [''a''])) ?w = (Ret (Inr (Some (Reg 0x1A4 ''x''))), ?w)"
    by code_simp
  show ?thesis using read_sees_whole [OF _ e, of sample_platform sample_plan None sample_tree] sample_workspace e by simp
qed

text \<open>
  Property C11. Transactions of others are left alone. While the root has a transaction of another plan, or one whose
  record does not match this plan and gate, \<open>Apply\<close> is refused with no disposition, with \<open>ErrRecovery\<close> when there are no
  faults, and nothing but directories of committed transactions has changed.
\<close>

theorem apply_refuses_others:
  assumes "barred pf p g t (nodes w)" and "Apply pf p g w = (x, w')"
  shows "same_but_done (nodes w) (nodes w')
    \<and> (\<forall>res err. x = Ret (res, err) \<longrightarrow> err \<noteq> None \<and> ar_disposition res = Undecided
         \<and> (script w = [] \<longrightarrow> Plan_Validate (sha pf) p = None \<longrightarrow> validateCommitGate g = None \<longrightarrow> ErrRecovery \<in> set (the err)))"
proof -
  have "case Apply pf p g w of (Dead, w') \<Rightarrow> script w \<noteq> [] \<and> same_but_done (nodes w) (nodes w')
     | (Ret a, w') \<Rightarrow> same_but_done (nodes w) (nodes w') \<and> snd a \<noteq> None \<and> ar_disposition (fst a) = Undecided
       \<and> (script w = [] \<longrightarrow> Plan_Validate (sha pf) p = None \<longrightarrow> validateCommitGate g = None \<longrightarrow> ErrRecovery \<in> set (the (snd a)))"
    by (rule triple_cases [OF t_apply_barred [OF assms(1)]]) simp_all
  then show ?thesis using assms(2) by (auto split: io.splits)
qed

theorem apply_refuses_others_witness:
  "\<exists>w'. same_but_done (nodes \<lparr>nodes = ([transactionDirectoryName (sample_digest CHR ''1'') (replicate 32 CHR ''0'')], Dir) # sample_tree, script = []\<rparr>) (nodes w')
     \<and> snd (Apply sample_platform sample_plan None
          \<lparr>nodes = ([transactionDirectoryName (sample_digest CHR ''1'') (replicate 32 CHR ''0'')], Dir) # sample_tree, script = []\<rparr>) = w'"
proof -
  let ?t = "transactionDirectoryName (sample_digest CHR ''1'') (replicate 32 CHR ''0'')"
  let ?w = "\<lparr>nodes = ([?t], Dir) # sample_tree, script = []\<rparr>"
  have n: "parseTransactionDirectoryName ?t transactionPrefix = (sample_digest CHR ''1'', True)" "txn_name ?t"
    using named_transaction [of "sample_digest CHR ''1''" "replicate 32 CHR ''0''"]
    by (simp_all add: list_all_iff lower_hex_def is_digit_def)
  have "sample_digest CHR ''1'' \<noteq> sample_digest CHR ''0''" by simp
  then have b: "barred sample_platform sample_plan None ?t (nodes ?w)"
    using n by (simp add: barred_def txn_name_def) (simp add: sample_plan_def)
  obtain x w' where a: "Apply sample_platform sample_plan None ?w = (x, w')" by (cases "Apply sample_platform sample_plan None ?w")
  show ?thesis using apply_refuses_others [OF b a] a by auto
qed

text \<open>
  A record that was created and not yet written when the process died: the very same plan is refused from then on,
  although no target has changed.
\<close>

lemma empty_record_blocks:
  assumes "has_prefix t transactionPrefix" and "map_of (nodes w) [t] \<noteq> None" and "map_of (nodes w) (record_key t) = Some (Reg m [])"
    and "Apply pf p g w = (Ret (res, err), w')"
  shows "err \<noteq> None \<and> ar_disposition res = Undecided \<and> map_of (nodes w') (record_key t) = Some (Reg m [])"
proof -
  have b: "barred pf p g t (nodes w)" using assms(1-3) by (auto simp: barred_def load_bytes_def)
  have "case Apply pf p g w of (Dead, w') \<Rightarrow> \<not> False \<and> same_but_done (nodes w) (nodes w')
     | (Ret a, w') \<Rightarrow> same_but_done (nodes w) (nodes w') \<and> snd a \<noteq> None \<and> ar_disposition (fst a) = Undecided
       \<and> (False \<longrightarrow> Plan_Validate (sha pf) p = None \<longrightarrow> validateCommitGate g = None \<longrightarrow> ErrRecovery \<in> set (the (snd a)))"
    by (rule triple_cases [OF t_apply_barred [OF b]]) simp_all
  then have s: "same_but_done (nodes w) (nodes w')" "err \<noteq> None" "ar_disposition res = Undecided" using assms(4) by auto
  have "hd (record_key t) = t" by (simp add: record_key_def)
  then have "map_of (nodes w') (record_key t) = map_of (nodes w) (record_key t)"
    using s(1) assms(1) prefixes_differ unfolding same_but_done_def by metis
  then show ?thesis using s assms(3) by simp
qed

end
