(* ===== verification/Spec2Isabelle.thy ===== *)
theory Spec2Isabelle
  imports Prelude Go_Errors Call_Context Registry Http_Headers Security Host_State Lifecycle
    Leases Idempotency Pgtx Outbox Tenant_Rls Json_String Refs Contract_Stream Sse Pgmigrate
    Workspace_Plan Workspace_Fs Workspace_Apply Workspace_Logic Workspace_Recovery Workspace_Restart
    Workspace_Commit Workspace_Atomic Workspace_Guarantees
begin

text \<open>
  Verification of appkit, a Go framework for modular services on PostgreSQL.

  \<^bold>\<open>The program.\<close> An application is a list of modules. Each declares its dependencies, permissions, routes, event
  subscriptions, hooks and managed services in a registry; the host validates the assembly, migrates, resolves, starts,
  serves and stops it. A request crosses the identity boundary, the guard of its route and, when it calls another
  module, the contract boundary, which carries only whitelisted metadata and never a transaction. Writes go through a
  scoped transaction; what a module announces is written to an outbox in the same transaction, relayed at least once,
  and consumed once through the inbox. Long answers are contract streams or server-sent events.

  \<^bold>\<open>Theories and sources.\<close> In the order of their imports; every definition keeps the name of the Go function or
  type it translates wherever Isabelle allows it.

  \<^item> \<open>Prelude\<close>: 64-bit wrap-around, the result type, Go maps as association lists, byte strings, UTF-8.
  \<^item> \<open>Go_Errors\<close>: error chains, apperr constructors and RFC 9457 problems (apperr/apperr.go, problem.go).
  \<^item> \<open>Call_Context\<close>: the metadata whitelist, the transaction handle in the context and the unary contract call
    (callctx/callctx.go, tx/tx.go, contract/contract.go).
  \<^item> \<open>Registry\<close>: declarations and dependency resolution (registry.go, named.go, contribution.go). The state is the
    record of bindings; every operation returns it changed, a panic is \<open>None\<close>.
  \<^item> \<open>Http_Headers\<close>, \<open>Security\<close>: header names, guards, route labels, validation, the identity boundary
    (permission.go, security.go).
  \<^item> \<open>Host_State\<close>, \<open>Lifecycle\<close>: states of managed services; assembling, starting and stopping the host
    (internal/hoststate/state.go, app.go, worker.go, run.go, host.go).
  \<^item> \<open>Leases\<close>: the two interfaces of the table protocols, a fact no step can undo and a lease with fencing tokens.
  \<^item> \<open>Idempotency\<close>: the store and the HTTP middleware (idem/idem.go).
  \<^item> \<open>Pgtx\<close>, \<open>Tenant_Rls\<close>: scoped transactions with savepoints, row-level security of tenants (pgtx/pgtx.go, tenant.go).
  \<^item> \<open>Outbox\<close>: publishing, the relay, the bus, dead letters and the inbox (outbox/*.go).
  \<^item> \<open>Json_String\<close>, \<open>Refs\<close>: external references, their strict JSON form and schema (refs/*.go).
  \<^item> \<open>Contract_Stream\<close>: in-process streams (contract/stream.go): sessions, bounded directions, half-close.
  \<^item> \<open>Sse\<close>: server-sent events, both ends (httpserver/sse.go, sse_client.go, sse_client_parser.go).
  \<^item> \<open>Pgmigrate\<close>: the migration runner and replicas that start together (pgmigrate/pgmigrate.go).
  \<^item> \<open>Workspace_Plan\<close>: plans over a set of files: paths, captured files, digests, changes, directory guards, building and
    validating a plan (internal/workspace/plan.go, directory.go, the pure part of snapshot.go).
  \<^item> \<open>Workspace_Fs\<close>: the file system the package works on, and what it reads through it (snapshot.go, directory.go).
    A world is a tree of nodes and a script with one entry for each call: the call proceeds, fails, or is where the
    process dies, possibly after part of its effect.
  \<^item> \<open>Workspace_Apply\<close>: the transaction directory, its prepared record, staging, the commit with its journal, rollback,
    recovery, the commit gate and reading under the lock (apply.go, recovery.go, read.go).
  \<^item> \<open>Workspace_Logic\<close>: a Hoare logic for these operations with three conditions: before, after a return, and at every
    call, since the process may die there; rules of the control operators and of every system call.
  \<^item> \<open>Workspace_Recovery\<close>: what a tree may look like between two runs (\<open>at_rest\<close>, \<open>interrupted\<close>, \<open>consistent\<close>).
    \<open>Workspace_Restart\<close>, \<open>Workspace_Commit\<close>, \<open>Workspace_Atomic\<close>: the triples of recovery, of the commit with its rollback,
    and of \<open>Apply\<close>. \<open>Workspace_Guarantees\<close>: the properties that follow, with a sample plan on which they are evaluated.

  \<^bold>\<open>How state and effects are modelled.\<close> A mutex-protected structure is a record and each critical section one
  function; a table is a list or a map of rows and each SQL statement one atomic function of it and of the database
  clock. What may run between two critical sections or statements is either a step relation (\<open>store_step\<close>,
  \<open>relay_step\<close>, \<open>mig_step\<close>, \<open>flow_step\<close>, \<open>host_step\<close>) whose reachable states the invariants are about, or an argument of
  the operation (the changes other clients make). A Go \<open>select\<close> is a function of the arm it takes. Callbacks, contexts
  and servers are functions or records of answers, so that theorems hold for every behaviour of theirs. Errors are
  values; a panic of the framework's own code is a branch of the model.

  \<^bold>\<open>What the lemmas show.\<close>

  \<^item> Safety of the boundaries: a guarded handler is reached only with the proof its label demands; the outermost
    boundary leaves no identity behind; a contract call never runs inside a transaction nor sees foreign values.
  \<^item> The host: registration, resolution, migrations and validations precede every start, hooks and services stop in reverse order, the aggregate of service
    states counts the instances exactly.
  \<^item> Resolution: total with the registry's own number of bindings as fuel, cached, complete after start-up, a panic
    only where a provider panics or gives nil, and cycles are reported.
  \<^item> Transactions: a root \<open>Do\<close> commits exactly what its function left, under its scope's settings, or nothing, a nested one is a savepoint; with the
    generated policies a tenant's transaction commits rows of that tenant only.
  \<^item> The table protocols: terminal records and published events are stable facts; a superseded token changes nothing;
    no event is lost; the inbox applies once; a migration takes effect once whatever replicas start together.
  \<^item> Streams and event streams: order, bounds, complete half-close, one terminal error answered by every operation, no blocking afterwards; the
    caller of an event stream receives exactly the sendable events; the decoder's memory is bounded.
  \<^item> Plans: wherever calls fail or the process dies, the old content of every target stays in the tree, a disposition
    is reported only for the complete new state, a later run completes unless the record was cut off, readers never see a
    mixture, and transactions of others are left alone.
  \<^item> Round trips and equivalences: metadata over headers and maps, problems, references over JSON, line delimiters,
    the snapshot validation against its declarative reading.

  \<^bold>\<open>Parameters.\<close> Code that is not in the repository is an argument: SHA-256, random tokens, the JSON encoder of payloads
  with \<open>json_faithful\<close> (what it wrote decodes to the same value and contains no line break), UUID parsing, the SQL of
  a migration. The standard library is modelled where it is used (header canonicalisation, \<open>EqualFold\<close>, UTF-8,
  strings of encoding/json).

  \<^bold>\<open>Bounds and fuel.\<close> \<open>resolve\<close> recurses over constructor calls with fuel; the number of idle bindings is enough, since
  every nested call marks one (\<open>resolver_resolve\<close>), and more fuel gives the same answer (\<open>resolve_mono\<close>). \<open>Claim\<close> has the three
  attempts of the source. Readers of bytes recurse on the length of the input left. Durations are 64-bit and wrap.
  \<open>create_transaction\<close> recurses on the first sixteen random names of the platform, the attempts of the source.

  \<^bold>\<open>Hypotheses on the workspace.\<close> The script of faults is arbitrary. \<open>collision_free\<close>: captures of the plan's
  paths with the digest of the plan's old (new) state are that state. \<open>codec_ok\<close>: the record written decodes to itself and is within its size limit. \<open>entropy_ok\<close>: the
  random names are 32 lower-case hexadecimal digits. \<open>agrees\<close>: the gate admits with a valid digest and does not change its mind
  at the recheck.
  A death of the process keeps what its calls did; a crash of the machine, which may lose unsynced writes, is not
  modelled, so syncs are calls that may fail. The theorems on \<open>Apply\<close> are about plans without directory guards, though
  the definitions include them. A record cut off by such a death (\<open>torn\<close>) blocks its plan for good
  (\<open>empty_record_blocks\<close>); no target has changed then.

  \<^bold>\<open>Where the model is coarser than the code.\<close>

  \<^item> A \<open>reflect.Type\<close> is its \<open>String()\<close> and \<open>PkgPath()\<close>, by which the registry sorts; two unnamed types that agree in
    both would be one key. A panic in a constructor unwinds all of them: a constructor that recovers is not modelled.
  \<^item> The context of a contract call keeps the caller's span; the child span of the tracer is not modelled.
  \<^item> Database errors are an arbitrary function of the operation count. That a failed statement aborts its transaction, and
    that a connection is lost with a rollback that failed, are such functions among others. A commit or statement that
    reports an error has had no effect: a reply lost after the effect is modelled in \<open>Pgmigrate\<close> only.
  \<^item> UUID columns are compared as text, and the stored headers of an idempotent response keep their order, which a
    jsonb column does not.
  \<^item> A replica's migration transaction is one step among those of the others: the advisory lock it takes first is assumed
    to do what it is there for.
  \<^item> An operation of a stream is a few atomic steps, up to its select and the arm it takes; \<open>f_log\<close> records an answer at
    the step that decides it, so a message handed over may be received before its sender has run on.

  \<^bold>\<open>Not modelled.\<close> Goroutine scheduling beyond the interleavings above, operating-system signals, metrics, spans and
  logging; driver glue (pool options, codecs), the TLS and HTTP server set-up and the websocket protocol (third-party);
  the lock files, the JSON document of a plan and the
  fault hooks of the workspace tests; template text of the generators and scaffolds, database introspection, command-line glue, typed configuration by
  reflection, telemetry exporters, and the analysers that run on go/analysis. Each is listed in the manifest.
\<close>

end
